(* ===== verification/Prelude.thy ===== *)
theory Prelude
  imports Main "HOL-Library.Word"
begin

text \<open>
  Shared vocabulary of the development: the machine types of the C sources, the byte-order
  macros of \<^verbatim>\<open>tomcrypt_macros.h\<close>, byte-wise exclusive-or, and the list facts the components
  share.  A C buffer is a \<^verbatim>\<open>byte list\<close> where the code addresses it by index, and a total map
  \<^verbatim>\<open>nat => byte\<close> where the code may read beyond the part that was filled.

  Collections: \<^verbatim>\<open>load_store\<close> holds the byte-order round trips, \<^verbatim>\<open>inverses\<close> the pairs of
  operations that cancel, \<^verbatim>\<open>lengths\<close> the lengths of what an operation produces.
\<close>

unbundle bit_operations_syntax

named_theorems load_store "loads cancel stores"
named_theorems inverses "operations that undo one another"
named_theorems lengths "lengths of produced buffers"

type_synonym byte = "8 word"
type_synonym u16 = "16 word"
type_synonym u32 = "32 word"
type_synonym u64 = "64 word"

section \<open>Byte order\<close>

text \<open>
  The little- and big-endian accessors.  The store macros write consecutive bytes; they are
  modelled by the list of bytes written.
\<close>

definition LOAD32L :: "byte list \<Rightarrow> nat \<Rightarrow> u32" where
  "LOAD32L y p = push_bit 24 (ucast (y ! (p + 3))) OR push_bit 16 (ucast (y ! (p + 2))) OR
                 push_bit 8 (ucast (y ! (p + 1))) OR ucast (y ! p)"

definition STORE32L :: "u32 \<Rightarrow> byte list" where
  "STORE32L x = [ucast x, ucast (drop_bit 8 x), ucast (drop_bit 16 x), ucast (drop_bit 24 x)]"

definition LOAD32H :: "byte list \<Rightarrow> nat \<Rightarrow> u32" where
  "LOAD32H y p = push_bit 24 (ucast (y ! p)) OR push_bit 16 (ucast (y ! (p + 1))) OR
                 push_bit 8 (ucast (y ! (p + 2))) OR ucast (y ! (p + 3))"

definition STORE32H :: "u32 \<Rightarrow> byte list" where
  "STORE32H x = [ucast (drop_bit 24 x), ucast (drop_bit 16 x), ucast (drop_bit 8 x), ucast x]"

definition LOAD64H :: "byte list \<Rightarrow> nat \<Rightarrow> u64" where
  "LOAD64H y p = push_bit 56 (ucast (y ! p)) OR push_bit 48 (ucast (y ! (p + 1))) OR
                 push_bit 40 (ucast (y ! (p + 2))) OR push_bit 32 (ucast (y ! (p + 3))) OR
                 push_bit 24 (ucast (y ! (p + 4))) OR push_bit 16 (ucast (y ! (p + 5))) OR
                 push_bit 8 (ucast (y ! (p + 6))) OR ucast (y ! (p + 7))"

definition STORE64H :: "u64 \<Rightarrow> byte list" where
  "STORE64H x = [ucast (drop_bit 56 x), ucast (drop_bit 48 x), ucast (drop_bit 40 x),
                 ucast (drop_bit 32 x), ucast (drop_bit 24 x), ucast (drop_bit 16 x),
                 ucast (drop_bit 8 x), ucast x]"

lemma length_STORE [lengths, simp]:
  "length (STORE32L x) = 4" "length (STORE32H x) = 4" "length (STORE64H z) = 8"
  by (simp_all add: STORE32L_def STORE32H_def STORE64H_def)

lemma byte_split32:
  "push_bit 24 (ucast (ucast (drop_bit 24 x) :: byte)) OR
   push_bit 16 (ucast (ucast (drop_bit 16 x) :: byte)) OR
   push_bit 8 (ucast (ucast (drop_bit 8 x) :: byte)) OR ucast (ucast x :: byte) = (x :: u32)"
proof (rule bit_word_eqI)
  fix n :: nat
  assume "n < LENGTH(32)"
  then consider "n < 8" | "8 \<le> n" "n < 16" | "16 \<le> n" "n < 24" | "24 \<le> n" "n < 32"
    by fastforce
  then show "bit (push_bit 24 (ucast (ucast (drop_bit 24 x) :: byte)) OR
     push_bit 16 (ucast (ucast (drop_bit 16 x) :: byte)) OR
     push_bit 8 (ucast (ucast (drop_bit 8 x) :: byte)) OR ucast (ucast x :: byte) :: u32) n = bit x n"
    by cases (auto simp: bit_simps)
qed

lemma nth_append_shift:
  "length xs = p \<Longrightarrow> (xs @ ys) ! (p + k) = ys ! k" "length xs = p \<Longrightarrow> (xs @ ys) ! p = ys ! 0"
  "length xs = p \<Longrightarrow> (xs @ ys) ! Suc p = ys ! 1"
  "length xs = p \<Longrightarrow> (xs @ ys) ! Suc (Suc p) = ys ! 2"
  by (auto simp: nth_append)

lemma LOAD32L_STORE32L [load_store]:
  "length xs = p \<Longrightarrow> LOAD32L (xs @ STORE32L x @ ys) p = x"
  using byte_split32 [of x] by (simp add: LOAD32L_def STORE32L_def nth_append_shift)

lemma LOAD32H_STORE32H [load_store]:
  "length xs = p \<Longrightarrow> LOAD32H (xs @ STORE32H x @ ys) p = x"
  using byte_split32 [of x] by (simp add: LOAD32H_def STORE32H_def nth_append_shift)

lemma bytes_join32:
  fixes a b c d :: byte
  defines "w \<equiv> (push_bit 24 (ucast d) OR push_bit 16 (ucast c) OR push_bit 8 (ucast b) OR ucast a) :: u32"
  shows "ucast w = a" "ucast (drop_bit 8 w) = b" "ucast (drop_bit 16 w) = c" "ucast (drop_bit 24 w) = d"
  unfolding w_def by (rule bit_word_eqI; auto simp: bit_simps dest: bit_imp_le_length)+

lemma take4: "length xs = 4 \<Longrightarrow> xs = [xs ! 0, xs ! 1, xs ! 2, xs ! 3]"
  by (rule nth_equalityI) (auto simp: less_Suc_eq numeral_eq_Suc)

lemma STORE32L_LOAD32L [load_store]:
  "p + 4 \<le> length xs \<Longrightarrow> STORE32L (LOAD32L xs p) = take 4 (drop p xs)"
proof -
  assume p: "p + 4 \<le> length xs"
  have "take 4 (drop p xs) = [xs ! p, xs ! (p + 1), xs ! (p + 2), xs ! (p + 3)]"
    using p take4 [of "take 4 (drop p xs)"] by simp
  then show ?thesis
    by (simp only: STORE32L_def LOAD32L_def bytes_join32)
qed

lemma STORE32H_LOAD32H [load_store]:
  assumes "p + 4 \<le> length xs"
  shows "STORE32H (LOAD32H xs p) = take 4 (drop p xs)"
proof -
  have "take 4 (drop p xs) = [xs ! p, xs ! (p + 1), xs ! (p + 2), xs ! (p + 3)]"
    using assms take4 [of "take 4 (drop p xs)"] by simp
  then show ?thesis
    by (simp only: STORE32H_def LOAD32H_def bytes_join32)
qed

section \<open>Exclusive-or\<close>

lemma xor_cancel [inverses, simp]:
  "(x XOR y) XOR y = (x :: 'a::len word)" "y XOR (x XOR y) = (x :: 'a::len word)"
  "(y XOR x) XOR y = (x :: 'a::len word)" "y XOR (y XOR x) = (x :: 'a::len word)"
  by (rule bit_word_eqI; auto simp: bit_simps)+

definition xor_bytes :: "byte list \<Rightarrow> byte list \<Rightarrow> byte list" where
  "xor_bytes xs ys = map2 (XOR) xs ys"

lemma length_xor_bytes [lengths, simp]: "length (xor_bytes xs ys) = min (length xs) (length ys)"
  by (simp add: xor_bytes_def)

lemma xor_bytes_Cons [simp]: "xor_bytes (x # xs) (y # ys) = (x XOR y) # xor_bytes xs ys"
  and xor_bytes_Nil [simp]: "xor_bytes [] ys = []" "xor_bytes xs [] = []"
  by (simp_all add: xor_bytes_def)

lemma xor_bytes_cancel [inverses]:
  "length xs \<le> length ys \<Longrightarrow> xor_bytes (xor_bytes xs ys) ys = xs"
proof (induction xs arbitrary: ys)
  case (Cons x xs)
  then show ?case by (cases ys) simp_all
qed simp

section \<open>Lists\<close>

lemma map_upt_snoc: "map f [0..<Suc n] = map f [0..<n] @ [f n]"
  by simp

lemma map_upt_add: "map f [0..<m + n] = map f [0..<m] @ map (\<lambda>k. f (m + k)) [0..<n]"
  by (induction n) (simp_all add: map_upt_snoc)

lemma list_update_append_at:
  "length xs = n \<Longrightarrow> (xs @ y # ys)[n := z] = xs @ z # ys"
  by (simp add: list_update_append)

section \<open>Numbers of blocks\<close>

lemma ceil_div_one: "0 < n \<Longrightarrow> n \<le> h \<Longrightarrow> (n + h - 1) div h = (1 :: nat)"
  by (rule div_nat_eqI) auto

lemma ceil_div_mult: "0 < h \<Longrightarrow> n \<le> h * ((n + h - 1) div h)" for n h :: nat
  using dividend_less_div_times [of h "n + h - 1"] by (simp add: mult.commute)

end
