(* ===== verification/Callbacks.thy ===== *)
theory Callbacks
  imports Prelude
begin

text \<open>
  How a method of \<^verbatim>\<open>Compression/CompressionLibrary.cpp\<close> moves data: it reads and writes through a
  callback.  A callback is a pair of functions over a state of its own; a locale states what a
  well-behaved one does, and the in-memory callback \<^verbatim>\<open>ReadWriteMem\<close> interprets it.  The loop of
  the method \<^verbatim>\<open>storing\<close> is modelled over any callback.
\<close>

definition FREEARC_ERRCODE_OUTBLOCK_TOO_SMALL :: int where "FREEARC_ERRCODE_OUTBLOCK_TOO_SMALL = -4"
definition BUFFER_SIZE :: nat where "BUFFER_SIZE = 64 * 1024"
definition LARGE_BUFFER_SIZE :: nat where "LARGE_BUFFER_SIZE = 256 * 1024"

text \<open>
  A read of at most \<^verbatim>\<open>size\<close> bytes gives the return code and the bytes put into the buffer, a write
  gives the return code; a negative code is an error.
\<close>

record 's callback =
  cb_read :: "nat \<Rightarrow> 's \<Rightarrow> int \<times> byte list \<times> 's"
  cb_write :: "byte list \<Rightarrow> 's \<Rightarrow> int \<times> 's"

section \<open>The callback over memory\<close>

text \<open>What is left of the input, what was written, and the space left in the output buffer.\<close>

record rw_mem =
  rm_read :: "byte list"
  rm_written :: "byte list"
  rm_left :: nat

definition ReadWriteMem :: "rw_mem callback" where
  "ReadWriteMem =
     \<lparr>cb_read = (\<lambda>size m.
        let n = (if length (rm_read m) < size then length (rm_read m) else size)
        in (int n, take n (rm_read m), m\<lparr>rm_read := drop n (rm_read m)\<rparr>)),
      cb_write = (\<lambda>buf m.
        if length buf > rm_left m then (FREEARC_ERRCODE_OUTBLOCK_TOO_SMALL, m)
        else (int (length buf), m\<lparr>rm_written := rm_written m @ buf, rm_left := rm_left m - length buf\<rparr>))\<rparr>"

text \<open>\<^verbatim>\<open>copy_data\<close>; it does not end when the callback never reports the end of the data.\<close>

partial_function (option) copy_data :: "'s callback \<Rightarrow> 's \<Rightarrow> (int \<times> 's) option" where
  "copy_data cb s =
     (case cb_read cb BUFFER_SIZE s of (len, buf, s) \<Rightarrow>
        if len > 0 then
          case cb_write cb (take (nat len) buf) s of (len, s) \<Rightarrow>
            if len < 0 then Some (len, s) else copy_data cb s
        else Some (len, s))"

declare copy_data.simps [code]

text \<open>
  The result of the \<^verbatim>\<open>...Mem\<close> functions for a method given by its \<^verbatim>\<open>compress\<close> or \<^verbatim>\<open>decompress\<close>: an
  error code, or the number of bytes written, and the bytes.
\<close>

definition mem_run :: "(rw_mem callback \<Rightarrow> rw_mem \<Rightarrow> (int \<times> rw_mem) option) \<Rightarrow> byte list \<Rightarrow> nat \<Rightarrow>
    (int \<times> byte list) option" where
  "mem_run method input outputSize =
     (case method ReadWriteMem \<lparr>rm_read = input, rm_written = [], rm_left = outputSize\<rparr> of
        None \<Rightarrow> None
      | Some (result, m) \<Rightarrow> Some (if result < 0 then result else int (outputSize - rm_left m), rm_written m))"

section \<open>What a well-behaved callback does\<close>

locale byte_stream =
  fixes cb :: "'s callback"
    and inp :: "'s \<Rightarrow> byte list" and out :: "'s \<Rightarrow> byte list" and room :: "'s \<Rightarrow> nat"
  assumes read_end: "inp s = [] \<Longrightarrow> \<exists>s'. cb_read cb n s = (0, [], s') \<and> out s' = out s \<and> room s' = room s"
    and read_some: "inp s \<noteq> [] \<Longrightarrow> 0 < n \<Longrightarrow> \<exists>k s'. 0 < k \<and> k \<le> length (inp s) \<and>
      cb_read cb n s = (int k, take k (inp s), s') \<and> inp s' = drop k (inp s) \<and> out s' = out s \<and> room s' = room s"
    and write_fits: "length buf \<le> room s \<Longrightarrow> \<exists>x s'. 0 \<le> x \<and> cb_write cb buf s = (x, s') \<and>
      inp s' = inp s \<and> out s' = out s @ buf \<and> room s' = room s - length buf"
begin

lemma copy_data_copies:
  "length (inp s) \<le> room s \<Longrightarrow> \<exists>s'. copy_data cb s = Some (0, s') \<and> out s' = out s @ inp s \<and> room s' = room s - length (inp s)"
proof (induction "length (inp s)" arbitrary: s rule: less_induct)
  case less
  show ?case
  proof (cases "inp s = []")
    case True
    then show ?thesis
      using read_end [OF True, of BUFFER_SIZE] by (subst copy_data.simps) auto
  next
    case False
    then obtain k s1 where r: "0 < k" "k \<le> length (inp s)" "cb_read cb BUFFER_SIZE s = (int k, take k (inp s), s1)"
        "inp s1 = drop k (inp s)" "out s1 = out s" "room s1 = room s"
      using read_some [OF False, of BUFFER_SIZE] by (auto simp: BUFFER_SIZE_def)
    then have "length (take k (inp s)) \<le> room s1"
      using less.prems by simp
    then obtain x s2 where w: "0 \<le> x" "cb_write cb (take k (inp s)) s1 = (x, s2)" "inp s2 = drop k (inp s)"
        "out s2 = out s @ take k (inp s)" "room s2 = room s - k"
      using write_fits [of "take k (inp s)" s1] r by auto
    have "length (inp s2) < length (inp s)" "length (inp s2) \<le> room s2"
      using r w less.prems False by simp_all
    from less.hyps [OF this] obtain s' where "copy_data cb s2 = Some (0, s')" "out s' = out s2 @ inp s2"
        "room s' = room s2 - length (inp s2)"
      by blast
    then show ?thesis
      using r w less.prems by (subst copy_data.simps) simp
  qed
qed

end

interpretation mem: byte_stream ReadWriteMem rm_read rm_written rm_left
  by unfold_locales (auto simp: ReadWriteMem_def Let_def)

section \<open>Properties\<close>

text \<open>
  C40: the method \<^verbatim>\<open>storing\<close> over memory always ends.  When the data fit, it writes them unchanged and
  reports their number, for compression and decompression alike; when they do not, it reports
  that the output block is too small, having written a prefix of them.
\<close>
theorem storing_mem:
  "\<exists>n. mem_run copy_data xs space =
     Some (if length xs \<le> space then (int (length xs), xs) else (FREEARC_ERRCODE_OUTBLOCK_TOO_SMALL, take n xs))"
proof (cases "length xs \<le> space")
  case True
  then show ?thesis
    using mem.copy_data_copies [of "\<lparr>rm_read = xs, rm_written = [], rm_left = space\<rparr>"]
    by (auto simp: mem_run_def)
next
  case False
  have "\<exists>n m. copy_data ReadWriteMem \<lparr>rm_read = ys, rm_written = acc, rm_left = left\<rparr> =
      Some (FREEARC_ERRCODE_OUTBLOCK_TOO_SMALL, m) \<and> rm_written m = acc @ take n ys"
    if "left < length ys" for ys acc left
    using that
  proof (induction "length ys" arbitrary: ys acc left rule: less_induct)
    case less
    define k where "k = (if length ys < BUFFER_SIZE then length ys else BUFFER_SIZE)"
    have k: "0 < k" "k \<le> length ys"
      using less.prems by (auto simp: k_def BUFFER_SIZE_def)
    have rd: "cb_read ReadWriteMem BUFFER_SIZE \<lparr>rm_read = ys, rm_written = acc, rm_left = left\<rparr> =
        (int k, take k ys, \<lparr>rm_read = drop k ys, rm_written = acc, rm_left = left\<rparr>)"
      by (simp add: ReadWriteMem_def Let_def k_def)
    have wr: "cb_write ReadWriteMem buf \<lparr>rm_read = zs, rm_written = acc, rm_left = left\<rparr> =
        (if length buf > left then (-4, \<lparr>rm_read = zs, rm_written = acc, rm_left = left\<rparr>)
         else (int (length buf), \<lparr>rm_read = zs, rm_written = acc @ buf, rm_left = left - length buf\<rparr>))" for buf zs
      by (simp add: ReadWriteMem_def FREEARC_ERRCODE_OUTBLOCK_TOO_SMALL_def)
    show ?case
    proof (cases "k > left")
      case True
      then show ?thesis
        using k by (subst copy_data.simps)
          (auto simp: rd wr FREEARC_ERRCODE_OUTBLOCK_TOO_SMALL_def intro!: exI [of _ 0])
    next
      case False
      have "length (drop k ys) < length ys" "left - k < length (drop k ys)"
        using less.prems k False by simp_all
      from less.hyps [OF this, of "acc @ take k ys"] obtain n m where "copy_data ReadWriteMem \<lparr>rm_read = drop k ys, rm_written = acc @ take k ys, rm_left = left - k\<rparr> =
          Some (FREEARC_ERRCODE_OUTBLOCK_TOO_SMALL, m)" "rm_written m = (acc @ take k ys) @ take n (drop k ys)"
        by blast
      moreover have "take k ys @ take n (drop k ys) = take (k + n) ys"
        by (simp add: take_add)
      ultimately show ?thesis
        using k False by (subst copy_data.simps) (auto simp: rd wr intro!: exI [of _ "k + n"])
    qed
  qed
  from this [of space xs "[]"] show ?thesis
    using False by (auto simp: mem_run_def FREEARC_ERRCODE_OUTBLOCK_TOO_SMALL_def)
qed

end
