(* ===== verification/Tomcrypt.thy ===== *)
theory Tomcrypt
  imports Prelude
begin

text \<open>
  What every part of \<^verbatim>\<open>Compression/_Encryption\<close> shares: the error codes of
  \<^verbatim>\<open>headers/tomcrypt.h\<close> and the rotations of \<^verbatim>\<open>headers/tomcrypt_macros.h\<close>.
\<close>

datatype crypt_error =
    CRYPT_OK | CRYPT_ERROR | CRYPT_NOP | CRYPT_INVALID_KEYSIZE | CRYPT_INVALID_ROUNDS
  | CRYPT_FAIL_TESTVECTOR | CRYPT_BUFFER_OVERFLOW | CRYPT_INVALID_PACKET
  | CRYPT_INVALID_PRNGSIZE | CRYPT_ERROR_READPRNG | CRYPT_INVALID_CIPHER | CRYPT_INVALID_HASH
  | CRYPT_INVALID_PRNG | CRYPT_MEM | CRYPT_PK_TYPE_MISMATCH | CRYPT_PK_NOT_PRIVATE
  | CRYPT_INVALID_ARG | CRYPT_FILE_NOTFOUND | CRYPT_PK_INVALID_TYPE | CRYPT_PK_INVALID_SYSTEM
  | CRYPT_PK_DUP | CRYPT_PK_NOT_FOUND | CRYPT_PK_INVALID_SIZE | CRYPT_INVALID_PRIME_SIZE
  | CRYPT_PK_INVALID_PADDING

text \<open>The bound on the block size of ciphers and the size of digests, \<^verbatim>\<open>headers/tomcrypt.h\<close>.\<close>

definition MAXBLOCKSIZE :: nat where "MAXBLOCKSIZE = 128"

text \<open>
  The portable rotations, with the count reduced modulo 32; a shift of the 32-bit word by 32
  places, which the macros do in a wider type, gives 0.
\<close>

definition ROL :: "u32 \<Rightarrow> nat \<Rightarrow> u32" where
  "ROL x y = push_bit (y mod 32) x OR drop_bit (32 - y mod 32) x"

definition ROR :: "u32 \<Rightarrow> nat \<Rightarrow> u32" where
  "ROR x y = drop_bit (y mod 32) x OR push_bit (32 - y mod 32) x"

lemma bit_ROL: "n < 32 \<Longrightarrow> bit (ROL x y) n = bit x ((n + 32 - y mod 32) mod 32)"
proof (cases "y mod 32 \<le> n")
  case True
  moreover assume "n < 32"
  ultimately have "(n + 32 - y mod 32) mod 32 = n - y mod 32"
    by (simp add: le_mod_geq)
  then show ?thesis
    using True \<open>n < 32\<close> by (auto simp: ROL_def bit_simps dest: bit_imp_le_length)
next
  case False
  moreover assume "n < 32"
  ultimately have "(n + 32 - y mod 32) mod 32 = 32 - y mod 32 + n"
    using mod_less_divisor [of 32 y] by simp
  then show ?thesis
    using False \<open>n < 32\<close> by (auto simp: ROL_def bit_simps)
qed

lemma bit_ROR: "n < 32 \<Longrightarrow> bit (ROR x y) n = bit x ((n + y mod 32) mod 32)"
proof (cases "n + y mod 32 < 32")
  case True
  moreover assume "n < 32"
  ultimately show ?thesis
    by (auto simp: ROR_def bit_simps add.commute)
next
  case False
  moreover assume n: "n < 32"
  ultimately have "(n + y mod 32) mod 32 = n - (32 - y mod 32)"
    using mod_less_divisor [of 32 y] by (simp add: le_mod_geq)
  then show ?thesis
    using False n by (auto simp: ROR_def bit_simps dest: bit_imp_le_length)
qed

lemma ROR_ROL [inverses, simp]: "ROR (ROL x y) y = x"
  and ROL_ROR [inverses, simp]: "ROL (ROR x y) y = x"
proof -
  have r: "((n + k) mod 32 + 32 - k) mod 32 = n" "((n + 32 - k) mod 32 + k) mod 32 = n"
    if "n < 32" "k < 32" for n k :: nat
    using that by (cases "n + k < 32"; simp add: le_mod_geq; cases "k \<le> n"; simp add: le_mod_geq)+
  show "ROR (ROL x y) y = x"
    by (rule bit_word_eqI) (simp add: bit_ROR bit_ROL r)
  show "ROL (ROR x y) y = x"
    by (rule bit_word_eqI) (simp add: bit_ROR bit_ROL r)
qed

text \<open>The macro \<^verbatim>\<open>byte\<close> extracts byte \<^verbatim>\<open>n\<close> of a word, used as an array index.\<close>

definition byte_at :: "u32 \<Rightarrow> nat \<Rightarrow> nat" where
  "byte_at x n = unat (drop_bit (8 * n) x AND 255)"

lemma ucast_down_up [simp]: "(ucast (ucast (b :: byte) :: u32) :: byte) = b"
  by (rule bit_word_eqI) (auto simp: bit_simps dest: bit_imp_le_length)

lemma and_255: "(w AND 255 :: u32) = ucast (ucast w :: byte)"
proof -
  have "w AND 255 = take_bit 8 w"
    by (simp add: take_bit_eq_mask mask_eq_exp_minus_1)
  also have "\<dots> = ucast (ucast w :: byte)"
    by (rule bit_word_eqI) (auto simp: bit_take_bit_iff bit_ucast_iff)
  finally show ?thesis .
qed

lemma byte_at_ucast: "byte_at x n = unat (ucast (drop_bit (8 * n) x) :: byte)"
  by (simp add: byte_at_def and_255 unsigned_ucast_eq unsigned_take_bit_eq)

lemma byte_at_less [simp]: "byte_at x n < 256"
  using unsigned_less [of "ucast (drop_bit (8 * n) x) :: byte"] by (simp add: byte_at_ucast)

lemma word_byte_at: "(word_of_nat (byte_at x n) :: u32) = ucast (ucast (drop_bit (8 * n) x) :: byte)"
  by (simp add: byte_at_ucast)

section \<open>Blocks of four words\<close>

lemma LOAD32L_quad [load_store]:
  "LOAD32L (STORE32L a @ STORE32L b @ STORE32L c @ STORE32L d) 0 = a"
  "LOAD32L (STORE32L a @ STORE32L b @ STORE32L c @ STORE32L d) 4 = b"
  "LOAD32L (STORE32L a @ STORE32L b @ STORE32L c @ STORE32L d) 8 = c"
  "LOAD32L (STORE32L a @ STORE32L b @ STORE32L c @ STORE32L d) 12 = d"
proof -
  have "LOAD32L ([] @ STORE32L a @ STORE32L b @ STORE32L c @ STORE32L d) 0 = a"
    and "LOAD32L (STORE32L a @ STORE32L b @ STORE32L c @ STORE32L d) 4 = b"
    and "LOAD32L ((STORE32L a @ STORE32L b) @ STORE32L c @ STORE32L d) 8 = c"
    and "LOAD32L ((STORE32L a @ STORE32L b @ STORE32L c) @ STORE32L d @ []) 12 = d"
    by (rule LOAD32L_STORE32L, simp)+
  then show "LOAD32L (STORE32L a @ STORE32L b @ STORE32L c @ STORE32L d) 0 = a"
    "LOAD32L (STORE32L a @ STORE32L b @ STORE32L c @ STORE32L d) 4 = b"
    "LOAD32L (STORE32L a @ STORE32L b @ STORE32L c @ STORE32L d) 8 = c"
    "LOAD32L (STORE32L a @ STORE32L b @ STORE32L c @ STORE32L d) 12 = d"
    by simp_all
qed

lemma STORE32L_quad [load_store]:
  assumes "length p = 16"
  shows "STORE32L (LOAD32L p 0) @ STORE32L (LOAD32L p 4) @ STORE32L (LOAD32L p 8) @ STORE32L (LOAD32L p 12) = p"
proof -
  have "take 4 p @ take 4 (drop 4 p) @ take 4 (drop 8 p) @ take 4 (drop 12 p) = take 16 p"
    using take_add [of 4 4 p] take_add [of 8 4 p] take_add [of 12 4 p] by simp
  then show ?thesis
    using assms by (simp add: STORE32L_LOAD32L)
qed

end
