(* ===== verification/Registry.thy ===== *)
theory Registry
  imports Tomcrypt
begin

text \<open>
  The descriptor tables of \<^verbatim>\<open>Compression/_Encryption/crypt\<close>: 32 slots each for ciphers, hashes and
  generators.  A slot whose name is \<^verbatim>\<open>NULL\<close> is blank.  The three sets of functions differ in how
  they recognise a descriptor that is already present: ciphers by \<^verbatim>\<open>ID\<close>, hashes and generators by
  comparing the whole structure.  A locale states what registration promises; it is interpreted
  on the three registration functions.
\<close>

definition TAB_SIZE :: nat where "TAB_SIZE = 32"

text \<open>
  Descriptors.  The functions of a cipher work on a scheduled key of type \<^verbatim>\<open>'k\<close>, those of a hash
  on a state of type \<^verbatim>\<open>'h\<close>: the C unions \<^verbatim>\<open>symmetric_key\<close> and \<^verbatim>\<open>hash_state\<close>.  The function
  pointers that no code of the repository calls are left out.
\<close>

record 'k cipher_desc =
  cd_name :: "string option"
  cd_ID :: nat
  cd_min_key_length :: nat
  cd_max_key_length :: nat
  cd_block_length :: nat
  cd_default_rounds :: nat
  cd_setup :: "byte list \<Rightarrow> nat \<Rightarrow> nat \<Rightarrow> crypt_error + 'k"
  cd_ecb_encrypt :: "byte list \<Rightarrow> 'k \<Rightarrow> crypt_error + byte list"
  cd_ecb_decrypt :: "byte list \<Rightarrow> 'k \<Rightarrow> crypt_error + byte list"
  cd_keysize :: "nat \<Rightarrow> crypt_error + nat"

record 'h hash_desc =
  hd_name :: "string option"
  hd_ID :: nat
  hd_hashsize :: nat
  hd_blocksize :: nat
  hd_init :: "'h"
  hd_process :: "'h \<Rightarrow> byte list \<Rightarrow> crypt_error + 'h"
  hd_done :: "'h \<Rightarrow> crypt_error + byte list"

record prng_desc =
  pd_name :: "string option"
  pd_export_size :: nat

section \<open>Searching and registering\<close>

text \<open>The first slot that satisfies the condition of a \<^verbatim>\<open>for\<close> loop, or -1.\<close>

definition first_slot :: "('d \<Rightarrow> bool) \<Rightarrow> 'd list \<Rightarrow> int" where
  "first_slot P tab =
     (let n = length (takeWhile (\<lambda>d. \<not> P d) tab) in if n < length tab then int n else -1)"

definition find_cipher :: "string \<Rightarrow> 'k cipher_desc list \<Rightarrow> int" where
  "find_cipher name tab = first_slot (\<lambda>d. cd_name d = Some name) tab"

definition find_hash :: "string \<Rightarrow> 'h hash_desc list \<Rightarrow> int" where
  "find_hash name tab = first_slot (\<lambda>d. hd_name d = Some name) tab"

definition find_prng :: "string \<Rightarrow> prng_desc list \<Rightarrow> int" where
  "find_prng name tab = first_slot (\<lambda>d. pd_name d = Some name) tab"

definition cipher_is_valid :: "int \<Rightarrow> 'k cipher_desc list \<Rightarrow> crypt_error" where
  "cipher_is_valid idx tab =
     (if idx < 0 \<or> idx \<ge> int TAB_SIZE \<or> cd_name (tab ! nat idx) = None then CRYPT_INVALID_CIPHER
      else CRYPT_OK)"

definition hash_is_valid :: "int \<Rightarrow> 'h hash_desc list \<Rightarrow> crypt_error" where
  "hash_is_valid idx tab =
     (if idx < 0 \<or> idx \<ge> int TAB_SIZE \<or> hd_name (tab ! nat idx) = None then CRYPT_INVALID_HASH
      else CRYPT_OK)"

definition prng_is_valid :: "int \<Rightarrow> prng_desc list \<Rightarrow> crypt_error" where
  "prng_is_valid idx tab =
     (if idx < 0 \<or> idx \<ge> int TAB_SIZE \<or> pd_name (tab ! nat idx) = None then CRYPT_INVALID_PRNG
      else CRYPT_OK)"

definition register_cipher :: "'k cipher_desc \<Rightarrow> 'k cipher_desc list \<Rightarrow> int \<times> 'k cipher_desc list" where
  "register_cipher cipher tab =
     (let x = first_slot (\<lambda>d. cd_name d \<noteq> None \<and> cd_ID d = cd_ID cipher) tab in
      if x \<ge> 0 then (x, tab)
      else
        let x = first_slot (\<lambda>d. cd_name d = None) tab in
        if x \<ge> 0 then (x, tab[nat x := cipher]) else (-1, tab))"

definition register_hash :: "'h hash_desc \<Rightarrow> 'h hash_desc list \<Rightarrow> int \<times> 'h hash_desc list" where
  "register_hash h tab =
     (let x = first_slot (\<lambda>d. d = h) tab in
      if x \<ge> 0 then (x, tab)
      else
        let x = first_slot (\<lambda>d. hd_name d = None) tab in
        if x \<ge> 0 then (x, tab[nat x := h]) else (-1, tab))"

definition register_prng :: "prng_desc \<Rightarrow> prng_desc list \<Rightarrow> int \<times> prng_desc list" where
  "register_prng prng tab =
     (let x = first_slot (\<lambda>d. d = prng) tab in
      if x \<ge> 0 then (x, tab)
      else
        let x = first_slot (\<lambda>d. pd_name d = None) tab in
        if x \<ge> 0 then (x, tab[nat x := prng]) else (-1, tab))"

section \<open>What a search finds\<close>

lemma first_slot_cases:
  obtains (found) i where "first_slot P tab = int i" "i < length tab" "P (tab ! i)" "\<forall>j < i. \<not> P (tab ! j)"
    | (none) "first_slot P tab = -1" "\<forall>d \<in> set tab. \<not> P d"
proof (cases "length (takeWhile (\<lambda>d. \<not> P d) tab) < length tab")
  case True
  let ?n = "length (takeWhile (\<lambda>d. \<not> P d) tab)"
  have "first_slot P tab = int ?n"
    using True by (simp add: first_slot_def)
  moreover have "P (tab ! ?n)"
    using nth_length_takeWhile [OF True] by simp
  moreover have "\<not> P (tab ! j)" if "j < ?n" for j
    using that nth_mem [of j "takeWhile (\<lambda>d. \<not> P d) tab"] by (auto simp: takeWhile_nth dest: set_takeWhileD)
  ultimately show thesis
    using True found by blast
next
  case False
  then have "takeWhile (\<lambda>d. \<not> P d) tab = tab"
    by (metis not_less length_takeWhile_le le_antisym takeWhile_eq_take take_all order_refl)
  then show thesis
    using False none by (auto simp: first_slot_def takeWhile_eq_all_conv)
qed

lemma first_slot_eqI:
  assumes "i < length tab" "P (tab ! i)" "\<forall>j < i. \<not> P (tab ! j)"
  shows "first_slot P tab = int i"
proof (cases rule: first_slot_cases [of P tab])
  case (found k)
  with assms have "k = i"
    by (metis linorder_neqE_nat)
  with found show ?thesis by simp
next
  case none
  with assms show ?thesis by (metis nth_mem)
qed

lemma first_slot_nonneg: "0 \<le> first_slot P tab \<longleftrightarrow> (\<exists>d \<in> set tab. P d)"
  by (cases rule: first_slot_cases [of P tab]) (auto intro: nth_mem)

section \<open>The registration contract\<close>

locale registry =
  fixes reg :: "'d \<Rightarrow> 'd list \<Rightarrow> int \<times> 'd list"
    and used :: "'d \<Rightarrow> bool"
    and same :: "'d \<Rightarrow> 'd \<Rightarrow> bool"
  assumes present: "\<exists>e \<in> set tab. same e d \<Longrightarrow> reg d tab = (first_slot (\<lambda>e. same e d) tab, tab)"
    and blank: "\<forall>e \<in> set tab. \<not> same e d \<Longrightarrow> \<exists>e \<in> set tab. \<not> used e \<Longrightarrow>
       reg d tab = (first_slot (\<lambda>e. \<not> used e) tab, tab[nat (first_slot (\<lambda>e. \<not> used e) tab) := d])"
    and full: "\<forall>e \<in> set tab. \<not> same e d \<Longrightarrow> \<forall>e \<in> set tab. used e \<Longrightarrow> reg d tab = (-1, tab)"
    and same_refl: "used d \<Longrightarrow> same d d"
begin

lemma reg_cases:
  obtains (old) i where "reg d tab = (int i, tab)" "i < length tab" "same (tab ! i) d" "\<forall>j < i. \<not> same (tab ! j) d"
    | (new) i where "reg d tab = (int i, tab[i := d])" "i < length tab" "\<not> used (tab ! i)" "\<forall>e \<in> set tab. \<not> same e d"
    | (no_room) "reg d tab = (-1, tab)" "\<forall>e \<in> set tab. used e \<and> \<not> same e d"
proof (cases rule: first_slot_cases [of "\<lambda>e. same e d" tab])
  case (found i)
  then show thesis
    using present [of tab d] old by (metis nth_mem)
next
  case none
  note free = this
  show thesis
  proof (cases rule: first_slot_cases [of "\<lambda>e. \<not> used e" tab])
    case (found i)
    then show thesis
      using blank [OF free(2)] new free by (metis nat_int nth_mem)
  next
    case none
    then show thesis
      using full [OF free(2)] free no_room by blast
  qed
qed

lemma reg_length [simp]: "length (snd (reg d tab)) = length tab"
  by (cases rule: reg_cases [of d tab]) simp_all

text \<open>Registering keeps every used slot; the slot it reports holds the descriptor or an equal one.\<close>

lemma reg_keeps:
  "i < length tab \<Longrightarrow> used (tab ! i) \<Longrightarrow> snd (reg d tab) ! i = tab ! i"
  by (cases rule: reg_cases [of d tab]) (auto simp: nth_list_update)

lemma reg_slot:
  assumes "reg d tab = (x, tab')" "x \<noteq> -1" "used d"
  shows "0 \<le> x \<and> nat x < length tab' \<and> same (tab' ! nat x) d"
  using assms by (cases rule: reg_cases [of d tab]) (auto simp: same_refl)

text \<open>Registering a second time finds the slot of the first time and changes nothing.\<close>

lemma reg_again:
  assumes "reg d tab = (x, tab')" "x \<noteq> -1" "used d"
  shows "reg d tab' = (x, tab')"
proof (cases rule: reg_cases [of d tab])
  case (old i)
  then show ?thesis using assms by simp
next
  case (new i)
  have "first_slot (\<lambda>e. same e d) (tab[i := d]) = int i"
    using new assms(3) by (intro first_slot_eqI) (auto simp: same_refl)
  moreover have "\<exists>e \<in> set (tab[i := d]). same e d"
    using new(2) same_refl [OF assms(3)] set_update_memI by metis
  ultimately show ?thesis
    using new assms present [of "tab[i := d]" d] by simp
next
  case no_room
  then show ?thesis using assms by simp
qed

text \<open>No two used slots hold the same descriptor, if that was so before.\<close>

lemma reg_distinct:
  assumes "\<forall>i j. i < length tab \<longrightarrow> j < length tab \<longrightarrow> used (tab ! i) \<longrightarrow> same (tab ! j) (tab ! i) \<longrightarrow> i = j"
    and sym: "\<And>a b. used a \<Longrightarrow> same b a \<Longrightarrow> used b \<and> same a b"
  shows "\<forall>i j. i < length tab \<longrightarrow> j < length tab \<longrightarrow>
     used (snd (reg d tab) ! i) \<longrightarrow> same (snd (reg d tab) ! j) (snd (reg d tab) ! i) \<longrightarrow> i = j"
  using assms(1)
  by (cases rule: reg_cases [of d tab]) (auto simp: nth_list_update, (metis nth_mem sym)+)

text \<open>A new descriptor goes to the first of the blank slots that follow the used ones.\<close>

lemma reg_next:
  assumes "\<forall>e \<in> set tab. used e \<and> \<not> same e d" "\<not> used b" "\<not> same b d"
  shows "reg d (tab @ replicate (Suc n) b) = (int (length tab), tab @ d # replicate n b)"
proof -
  let ?tab = "tab @ replicate (Suc n) b"
  have "first_slot (\<lambda>e. \<not> used e) ?tab = int (length tab)"
    using assms by (intro first_slot_eqI) (auto simp: nth_append)
  moreover have "\<forall>e \<in> set ?tab. \<not> same e d" "\<exists>e \<in> set ?tab. \<not> used e"
    using assms by auto
  ultimately show ?thesis
    using blank [of ?tab d] by simp
qed

text \<open>A table that has room takes any descriptor, and filling a blank slot uses up one blank slot.\<close>

lemma reg_succeeds: "\<exists>e \<in> set tab. \<not> used e \<Longrightarrow> fst (reg d tab) \<noteq> -1"
  by (cases rule: reg_cases [of d tab]) auto

end

interpretation cipher_reg: registry register_cipher "\<lambda>d. cd_name d \<noteq> None"
    "\<lambda>e d. cd_name e \<noteq> None \<and> cd_ID e = cd_ID d"
  by unfold_locales (auto simp: register_cipher_def Let_def first_slot_nonneg not_le [symmetric])

interpretation hash_reg: registry register_hash "\<lambda>d. hd_name d \<noteq> None" "(=)"
  by unfold_locales (auto simp: register_hash_def Let_def first_slot_nonneg not_le [symmetric])

interpretation prng_reg: registry register_prng "\<lambda>d. pd_name d \<noteq> None" "(=)"
  by unfold_locales (auto simp: register_prng_def Let_def first_slot_nonneg not_le [symmetric])

section \<open>Properties of the tables\<close>

text \<open>
  Registering a named cipher in a table of 32 slots either fails, on a full table that does
  not hold its ID, or returns a slot that \<^verbatim>\<open>cipher_is_valid\<close> accepts and that holds a cipher of
  the same ID.  It leaves all other ciphers in their slots, and a second registration returns
  the same slot and changes nothing.
\<close>
theorem register_cipher_slot:
  assumes "register_cipher d tab = (x, tab')" "cd_name d \<noteq> None" "length tab = TAB_SIZE"
  shows "length tab' = TAB_SIZE \<and>
    (\<forall>i < TAB_SIZE. cd_name (tab ! i) \<noteq> None \<longrightarrow> tab' ! i = tab ! i) \<and>
    (if x = -1 then tab' = tab \<and> (\<forall>e \<in> set tab. cd_name e \<noteq> None \<and> cd_ID e \<noteq> cd_ID d)
     else cipher_is_valid x tab' = CRYPT_OK \<and> cd_ID (tab' ! nat x) = cd_ID d \<and>
          register_cipher d tab' = (x, tab'))"
proof -
  have len: "length tab' = TAB_SIZE"
    using assms cipher_reg.reg_length [of d tab] by simp
  moreover have "\<forall>i < TAB_SIZE. cd_name (tab ! i) \<noteq> None \<longrightarrow> tab' ! i = tab ! i"
    using assms cipher_reg.reg_keeps [of _ tab d] by auto
  moreover have "tab' = tab \<and> (\<forall>e \<in> set tab. cd_name e \<noteq> None \<and> cd_ID e \<noteq> cd_ID d)" if "x = -1"
    using assms(1) that by (cases rule: cipher_reg.reg_cases [of d tab]) auto
  moreover have "cipher_is_valid x tab' = CRYPT_OK \<and> cd_ID (tab' ! nat x) = cd_ID d \<and>
      register_cipher d tab' = (x, tab')" if "x \<noteq> -1"
    using cipher_reg.reg_slot [OF assms(1) that assms(2)] cipher_reg.reg_again [OF assms(1) that assms(2)] len
    by (auto simp: cipher_is_valid_def)
  ultimately show ?thesis
    by simp
qed

theorem register_cipher_slot_witness:
  "\<exists>(d :: byte cipher_desc) x tab'. cd_name d = Some ''xor'' \<and> register_cipher d (replicate 32 (d\<lparr>cd_name := None\<rparr>)) = (x, tab') \<and>
     length tab' = TAB_SIZE \<and>
     (\<forall>i < TAB_SIZE. cd_name (replicate 32 (d\<lparr>cd_name := None\<rparr>) ! i) \<noteq> None \<longrightarrow>
        tab' ! i = replicate 32 (d\<lparr>cd_name := None\<rparr>) ! i) \<and>
     (if x = -1 then tab' = replicate 32 (d\<lparr>cd_name := None\<rparr>) \<and>
           (\<forall>e \<in> set (replicate 32 (d\<lparr>cd_name := None\<rparr>)). cd_name e \<noteq> None \<and> cd_ID e \<noteq> cd_ID d)
      else cipher_is_valid x tab' = CRYPT_OK \<and> cd_ID (tab' ! nat x) = cd_ID d \<and>
           register_cipher d tab' = (x, tab'))"
proof -
  define d :: "byte cipher_desc" where
    "d = \<lparr>cd_name = Some ''xor'', cd_ID = 9, cd_min_key_length = 1, cd_max_key_length = 1, cd_block_length = 1,
          cd_default_rounds = 1, cd_setup = (\<lambda>key _ _. Inr (key ! 0)),
          cd_ecb_encrypt = (\<lambda>b k. Inr (map ((XOR) k) b)), cd_ecb_decrypt = (\<lambda>b k. Inr (map ((XOR) k) b)),
          cd_keysize = Inr\<rparr>"
  obtain x tab' where r: "register_cipher d (replicate 32 (d\<lparr>cd_name := None\<rparr>)) = (x, tab')"
    by fastforce
  have n: "cd_name d = Some ''xor''"
    by (simp add: d_def)
  have l: "length (replicate 32 (d\<lparr>cd_name := None\<rparr>)) = TAB_SIZE" "cd_name d \<noteq> None"
    by (simp_all add: TAB_SIZE_def n)
  show ?thesis
    using n r register_cipher_slot [OF r l(2) l(1)] by blast
qed

end
