(* ===== verification/Modes.thy ===== *)
theory Modes
  imports Registry
begin

text \<open>
  The chaining modes of \<^verbatim>\<open>Compression/_Encryption/modes\<close>: counter mode (\<^verbatim>\<open>ctr\<close>) and cipher feedback
  (\<^verbatim>\<open>cfb\<close>).  The states are the C structures with the arrays as byte lists; every function looks
  the cipher up in the descriptor table by its index, as the code does.  A locale states what a
  mode needs of the block cipher; the theories of the ciphers interpret it.

  Lemmas: the counter is a number that grows by one modulo its width; a mode applied to a text
  in pieces is the mode applied to the whole; decryption undoes encryption; the word-at-a-time
  path of the counter mode computes what the byte path computes.
\<close>


definition CTR_COUNTER_BIG_ENDIAN :: nat where "CTR_COUNTER_BIG_ENDIAN = 4096"
definition LTC_CTR_RFC3686 :: nat where "LTC_CTR_RFC3686 = 8192"

section \<open>Counter mode\<close>

record 'k symmetric_CTR =
  ctr_cipher :: int
  ctr_blocklen :: nat
  ctr_padlen :: nat
  ctr_mode :: nat
  ctr_ctrlen :: nat
  ctr_ctr :: "byte list"
  ctr_pad :: "byte list"
  ctr_key :: "'k"

text \<open>
  The two loops that increment the counter.  The little-endian one runs upwards from \<^verbatim>\<open>x\<close> while
  \<^verbatim>\<open>x < ctrlen\<close>, the big-endian one downwards from \<^verbatim>\<open>x - 1\<close> while that is at least \<^verbatim>\<open>ctrlen\<close>; both
  stop at the first byte that does not become 0.
\<close>

function ctr_inc_le :: "nat \<Rightarrow> nat \<Rightarrow> byte list \<Rightarrow> byte list" where
  "ctr_inc_le ctrlen x ctr =
     (if x < ctrlen then
        let ctr = ctr[x := ctr ! x + 1]
        in if ctr ! x \<noteq> 0 then ctr else ctr_inc_le ctrlen (x + 1) ctr
      else ctr)"
  by pat_completeness auto
termination by (relation "measure (\<lambda>(ctrlen, x, ctr). ctrlen - x)") auto

fun ctr_inc_be :: "nat \<Rightarrow> nat \<Rightarrow> byte list \<Rightarrow> byte list" where
  "ctr_inc_be ctrlen 0 ctr = ctr"
| "ctr_inc_be ctrlen (Suc x) ctr =
     (if x \<ge> ctrlen then
        let ctr = ctr[x := ctr ! x + 1]
        in if ctr ! x \<noteq> 0 then ctr else ctr_inc_be ctrlen x ctr
      else ctr)"

declare ctr_inc_le.simps [simp del]

definition ctr_increment :: "'k symmetric_CTR \<Rightarrow> byte list" where
  "ctr_increment st =
     (if ctr_mode st = 0 then ctr_inc_le (ctr_ctrlen st) 0 (ctr_ctr st)
      else ctr_inc_be (ctr_ctrlen st) (ctr_blocklen st) (ctr_ctr st))"

definition ctr_start ::
  "int \<Rightarrow> byte list \<Rightarrow> byte list \<Rightarrow> nat \<Rightarrow> nat \<Rightarrow> nat \<Rightarrow> 'k cipher_desc list \<Rightarrow> crypt_error + 'k symmetric_CTR" where
  "ctr_start cipher IV key keylen num_rounds mode tab =
     (if cipher_is_valid cipher tab \<noteq> CRYPT_OK then Inl (cipher_is_valid cipher tab)
      else
        let d = tab ! nat cipher;
            ctrlen = (if mode mod 256 \<noteq> 0 then mode mod 256 else cd_block_length d)
        in if ctrlen > cd_block_length d then Inl CRYPT_INVALID_ARG
        else
          let be = (mode div 4096 mod 2 = 1);
              ctrlen = (if be then cd_block_length d - ctrlen else ctrlen)
          in case cd_setup d key keylen num_rounds of
               Inl err \<Rightarrow> Inl err
             | Inr skey \<Rightarrow>
                 let st = \<lparr>ctr_cipher = cipher, ctr_blocklen = cd_block_length d, ctr_padlen = 0,
                           ctr_mode = (if be then CTR_COUNTER_BIG_ENDIAN else 0), ctr_ctrlen = ctrlen,
                           ctr_ctr = take (cd_block_length d) IV, ctr_pad = [], ctr_key = skey\<rparr>;
                     st = (if mode div 8192 mod 2 = 1 then st\<lparr>ctr_ctr := ctr_increment st\<rparr> else st)
                 in case cd_ecb_encrypt d (ctr_ctr st) skey of
                      Inl err \<Rightarrow> Inl err
                    | Inr pad \<Rightarrow> Inr (st\<lparr>ctr_pad := pad\<rparr>))"

text \<open>Refilling an empty pad at the head of the loop body.\<close>

definition ctr_refill :: "'k cipher_desc \<Rightarrow> 'k symmetric_CTR \<Rightarrow> crypt_error + 'k symmetric_CTR" where
  "ctr_refill d st =
     (if ctr_padlen st = ctr_blocklen st then
        let st = st\<lparr>ctr_ctr := ctr_increment st\<rparr>
        in case cd_ecb_encrypt d (ctr_ctr st) (ctr_key st) of
             Inl err \<Rightarrow> Inl err
           | Inr pad \<Rightarrow> Inr (st\<lparr>ctr_pad := pad, ctr_padlen := 0\<rparr>)
      else Inr st)"

text \<open>
  The main loop.  \<^verbatim>\<open>fast\<close> is the configuration \<^verbatim>\<open>LTC_FAST\<close>, which handles a whole block at once
  when the pad is fresh.  The test for an empty block length, which the code makes once before
  the loop, is part of the loop here, where it cannot change its outcome.
\<close>

function ctr_loop ::
  "bool \<Rightarrow> 'k cipher_desc \<Rightarrow> byte list \<Rightarrow> 'k symmetric_CTR \<Rightarrow> crypt_error + byte list \<times> 'k symmetric_CTR" where
  "ctr_loop fast d pt st =
     (if ctr_blocklen st < 1 then Inl CRYPT_INVALID_ARG
      else case pt of
        [] \<Rightarrow> Inr ([], st)
      | p # ps \<Rightarrow>
          (case ctr_refill d st of
             Inl err \<Rightarrow> Inl err
           | Inr st' \<Rightarrow>
               if fast \<and> ctr_padlen st' = 0 \<and> length pt \<ge> ctr_blocklen st then
                 (case ctr_loop fast d (drop (ctr_blocklen st) pt) (st'\<lparr>ctr_padlen := ctr_blocklen st\<rparr>) of
                    Inl err \<Rightarrow> Inl err
                  | Inr (ct, st'') \<Rightarrow> Inr (xor_bytes (take (ctr_blocklen st) pt) (ctr_pad st') @ ct, st''))
               else
                 (case ctr_loop fast d ps (st'\<lparr>ctr_padlen := ctr_padlen st' + 1\<rparr>) of
                    Inl err \<Rightarrow> Inl err
                  | Inr (ct, st'') \<Rightarrow> Inr ((p XOR ctr_pad st' ! ctr_padlen st') # ct, st''))))"
  by pat_completeness auto
termination by (relation "measure (\<lambda>(fast, d, pt, st). length pt)") auto

declare ctr_loop.simps [simp del]

definition ctr_encrypt ::
  "nat option \<Rightarrow> byte list \<Rightarrow> 'k symmetric_CTR \<Rightarrow> 'k cipher_desc list \<Rightarrow> crypt_error + byte list \<times> 'k symmetric_CTR" where
  "ctr_encrypt fast pt st tab =
     (if cipher_is_valid (ctr_cipher st) tab \<noteq> CRYPT_OK then Inl (cipher_is_valid (ctr_cipher st) tab)
      else if ctr_blocklen st < 1 \<or> ctr_blocklen st > MAXBLOCKSIZE \<or> ctr_padlen st > MAXBLOCKSIZE then
        Inl CRYPT_INVALID_ARG
      else if fast \<noteq> None \<and> ctr_blocklen st mod the fast \<noteq> 0 then Inl CRYPT_INVALID_ARG
      else ctr_loop (fast \<noteq> None) (tab ! nat (ctr_cipher st)) pt st)"

definition ctr_decrypt ::
  "nat option \<Rightarrow> byte list \<Rightarrow> 'k symmetric_CTR \<Rightarrow> 'k cipher_desc list \<Rightarrow> crypt_error + byte list \<times> 'k symmetric_CTR" where
  "ctr_decrypt fast ct st tab = ctr_encrypt fast ct st tab"

text \<open>The \<^verbatim>\<open>done\<close> functions of the registered ciphers do nothing, so only the check remains.\<close>

definition ctr_done :: "'k symmetric_CTR \<Rightarrow> 'k cipher_desc list \<Rightarrow> crypt_error" where
  "ctr_done st tab = cipher_is_valid (ctr_cipher st) tab"

section \<open>Cipher feedback mode\<close>

record 'k symmetric_CFB =
  cfb_cipher :: int
  cfb_blocklen :: nat
  cfb_padlen :: nat
  cfb_IV :: "byte list"
  cfb_pad :: "byte list"
  cfb_key :: "'k"

text \<open>
  \<^verbatim>\<open>pad\<close> is what the array \<^verbatim>\<open>pad\<close> of the caller's structure holds before the call: the function does
  not initialise it.
\<close>

definition cfb_start ::
  "int \<Rightarrow> byte list \<Rightarrow> byte list \<Rightarrow> nat \<Rightarrow> nat \<Rightarrow> byte list \<Rightarrow> 'k cipher_desc list \<Rightarrow> crypt_error + 'k symmetric_CFB" where
  "cfb_start cipher IV key keylen num_rounds pad tab =
     (if cipher_is_valid cipher tab \<noteq> CRYPT_OK then Inl (cipher_is_valid cipher tab)
      else
        let d = tab ! nat cipher
        in case cd_setup d key keylen num_rounds of
             Inl err \<Rightarrow> Inl err
           | Inr skey \<Rightarrow>
               (case cd_ecb_encrypt d (take (cd_block_length d) IV) skey of
                  Inl err \<Rightarrow> Inl err
                | Inr iv \<Rightarrow> Inr \<lparr>cfb_cipher = cipher, cfb_blocklen = cd_block_length d, cfb_padlen = 0,
                                cfb_IV = iv, cfb_pad = pad, cfb_key = skey\<rparr>))"

definition cfb_refill :: "'k cipher_desc \<Rightarrow> 'k symmetric_CFB \<Rightarrow> crypt_error + 'k symmetric_CFB" where
  "cfb_refill d st =
     (if cfb_padlen st = cfb_blocklen st then
        (case cd_ecb_encrypt d (take (cfb_blocklen st) (cfb_pad st)) (cfb_key st) of
           Inl err \<Rightarrow> Inl err
         | Inr iv \<Rightarrow> Inr (st\<lparr>cfb_IV := iv, cfb_padlen := 0\<rparr>))
      else Inr st)"

fun cfb_enc_loop ::
  "'k cipher_desc \<Rightarrow> byte list \<Rightarrow> 'k symmetric_CFB \<Rightarrow> crypt_error + byte list \<times> 'k symmetric_CFB" where
  "cfb_enc_loop d [] st = Inr ([], st)"
| "cfb_enc_loop d (p # pt) st =
     (case cfb_refill d st of
        Inl err \<Rightarrow> Inl err
      | Inr st \<Rightarrow>
          let c = p XOR cfb_IV st ! cfb_padlen st;
              st = st\<lparr>cfb_pad := (cfb_pad st)[cfb_padlen st := c], cfb_padlen := cfb_padlen st + 1\<rparr>
          in case cfb_enc_loop d pt st of
               Inl err \<Rightarrow> Inl err
             | Inr (ct, st) \<Rightarrow> Inr (c # ct, st))"

fun cfb_dec_loop ::
  "'k cipher_desc \<Rightarrow> byte list \<Rightarrow> 'k symmetric_CFB \<Rightarrow> crypt_error + byte list \<times> 'k symmetric_CFB" where
  "cfb_dec_loop d [] st = Inr ([], st)"
| "cfb_dec_loop d (c # ct) st =
     (case cfb_refill d st of
        Inl err \<Rightarrow> Inl err
      | Inr st \<Rightarrow>
          let p = c XOR cfb_IV st ! cfb_padlen st;
              st = st\<lparr>cfb_pad := (cfb_pad st)[cfb_padlen st := c], cfb_padlen := cfb_padlen st + 1\<rparr>
          in case cfb_dec_loop d ct st of
               Inl err \<Rightarrow> Inl err
             | Inr (pt, st) \<Rightarrow> Inr (p # pt, st))"

definition cfb_args :: "'k symmetric_CFB \<Rightarrow> 'k cipher_desc list \<Rightarrow> crypt_error" where
  "cfb_args st tab =
     (if cipher_is_valid (cfb_cipher st) tab \<noteq> CRYPT_OK then cipher_is_valid (cfb_cipher st) tab
      else if cfb_blocklen st > MAXBLOCKSIZE \<or> cfb_padlen st > MAXBLOCKSIZE then CRYPT_INVALID_ARG
      else CRYPT_OK)"

definition cfb_encrypt ::
  "byte list \<Rightarrow> 'k symmetric_CFB \<Rightarrow> 'k cipher_desc list \<Rightarrow> crypt_error + byte list \<times> 'k symmetric_CFB" where
  "cfb_encrypt pt st tab =
     (if cfb_args st tab \<noteq> CRYPT_OK then Inl (cfb_args st tab)
      else cfb_enc_loop (tab ! nat (cfb_cipher st)) pt st)"

definition cfb_decrypt ::
  "byte list \<Rightarrow> 'k symmetric_CFB \<Rightarrow> 'k cipher_desc list \<Rightarrow> crypt_error + byte list \<times> 'k symmetric_CFB" where
  "cfb_decrypt ct st tab =
     (if cfb_args st tab \<noteq> CRYPT_OK then Inl (cfb_args st tab)
      else cfb_dec_loop (tab ! nat (cfb_cipher st)) ct st)"

definition cfb_done :: "'k symmetric_CFB \<Rightarrow> 'k cipher_desc list \<Rightarrow> crypt_error" where
  "cfb_done st tab = cipher_is_valid (cfb_cipher st) tab"

section \<open>The counter as a number\<close>

primrec le_value :: "byte list \<Rightarrow> nat" where
  "le_value [] = 0"
| "le_value (b # bs) = unat b + 256 * le_value bs"

lemma le_value_bound: "le_value bs < 256 ^ length bs"
proof (induction bs)
  case (Cons b bs)
  have "unat b < 256"
    using unsigned_less [of b] by simp
  with Cons show ?case
    by simp
qed simp

lemma le_value_append: "le_value (xs @ ys) = le_value xs + 256 ^ length xs * le_value ys"
  by (induction xs) (simp_all add: algebra_simps)

lemma unat_byte_inc: "unat (b + 1 :: byte) = (if unat b = 255 then 0 else unat b + 1)"
  and byte_inc_zero: "b + 1 = 0 \<longleftrightarrow> unat b = 255"
proof -
  have b: "unat b < 256"
    using unsigned_less [of b] by simp
  have "unat (b + 1) = (unat b + 1) mod 256"
    by (simp add: unat_word_ariths)
  with b show *: "unat (b + 1) = (if unat b = 255 then 0 else unat b + 1)"
    by simp
  have "b + 1 = 0 \<longleftrightarrow> unat (b + 1) = 0"
    by (simp add: unat_eq_zero)
  with * show "b + 1 = 0 \<longleftrightarrow> unat b = 255"
    by simp
qed

fun inc_bytes :: "byte list \<Rightarrow> byte list" where
  "inc_bytes [] = []"
| "inc_bytes (b # bs) = (b + 1) # (if b + 1 = 0 then inc_bytes bs else bs)"

lemma length_inc_bytes [lengths, simp]: "length (inc_bytes bs) = length bs"
  by (induction bs) simp_all

lemma le_value_inc_bytes: "le_value (inc_bytes bs) = (le_value bs + 1) mod 256 ^ length bs"
proof (induction bs)
  case (Cons b bs)
  show ?case
  proof (cases "b + 1 = 0")
    case True
    then have "unat b = 255"
      by (simp only: byte_inc_zero)
    then have "le_value (b # bs) + 1 = 256 * (le_value bs + 1)"
      by simp
    then show ?thesis
      using True Cons by (simp add: mult_mod_right)
  next
    case False
    then have "le_value (inc_bytes (b # bs)) = le_value (b # bs) + 1"
      by (simp add: unat_byte_inc byte_inc_zero)
    then show ?thesis
      using le_value_bound [of "inc_bytes (b # bs)"]
      by (simp only: length_inc_bytes mod_less list.size le_value.simps)
  qed
qed simp

lemma ctr_inc_le_bytes:
  assumes "x \<le> ctrlen" "ctrlen \<le> length ctr"
  shows "ctr_inc_le ctrlen x ctr = take x ctr @ inc_bytes (take (ctrlen - x) (drop x ctr)) @ drop ctrlen ctr"
  using assms
proof (induction ctrlen x ctr rule: ctr_inc_le.induct)
  case (1 ctrlen x ctr)
  show ?case
  proof (cases "x < ctrlen")
    case True
    let ?ctr = "ctr[x := ctr ! x + 1]"
    have d: "drop x ctr = ctr ! x # drop (Suc x) ctr" "ctrlen - x = Suc (ctrlen - Suc x)"
      using True 1(3) by (simp_all add: Cons_nth_drop_Suc Suc_diff_Suc)
    have t: "take (Suc x) ?ctr = take x ctr @ [ctr ! x + 1]" "drop (Suc x) ?ctr = drop (Suc x) ctr"
      "drop ctrlen ?ctr = drop ctrlen ctr" "?ctr ! x = ctr ! x + 1"
      using True 1(3) by (simp_all add: take_Suc_conv_app_nth)
    have u: "?ctr = take x ctr @ (ctr ! x + 1) # drop (Suc x) ctr"
      using True 1(3) by (intro upd_conv_take_nth_drop) simp
    have s: "take (ctrlen - Suc x) (drop (Suc x) ctr) @ drop ctrlen ctr = drop (Suc x) ctr"
      using True by (metis append_take_drop_id drop_drop le_add_diff_inverse2 Suc_leI)
    show ?thesis
    proof (cases "ctr ! x + 1 = 0")
      case True
      then have "ctr_inc_le ctrlen x ctr = ctr_inc_le ctrlen (x + 1) ?ctr"
        using \<open>x < ctrlen\<close> t(4) by (subst ctr_inc_le.simps) (simp add: Let_def)
      then show ?thesis
        using 1(1) [OF \<open>x < ctrlen\<close> refl] 1(3) \<open>x < ctrlen\<close> t True by (simp add: d)
    next
      case False
      then have "ctr_inc_le ctrlen x ctr = ?ctr"
        using \<open>x < ctrlen\<close> t(4) by (subst ctr_inc_le.simps) (simp add: Let_def)
      then show ?thesis
        using False u s by (simp add: d)
    qed
  next
    case False
    then show ?thesis
      using 1 by (subst ctr_inc_le.simps) simp
  qed
qed

lemma ctr_inc_be_bytes:
  assumes "ctrlen \<le> x" "x \<le> length ctr"
  shows "ctr_inc_be ctrlen x ctr = take ctrlen ctr @ rev (inc_bytes (rev (take (x - ctrlen) (drop ctrlen ctr)))) @ drop x ctr"
  using assms
proof (induction ctrlen x ctr rule: ctr_inc_be.induct)
  case (2 ctrlen x ctr)
  show ?case
  proof (cases "ctrlen \<le> x")
    case True
    let ?ctr = "ctr[x := ctr ! x + 1]"
    have d: "take (Suc x - ctrlen) (drop ctrlen ctr) = take (x - ctrlen) (drop ctrlen ctr) @ [ctr ! x]"
      using True 2(3) by (simp add: Suc_diff_le take_Suc_conv_app_nth)
    have t: "take ctrlen ?ctr = take ctrlen ctr" "?ctr ! x = ctr ! x + 1"
      "take (x - ctrlen) (drop ctrlen ?ctr) = take (x - ctrlen) (drop ctrlen ctr)"
      using True 2(3) by (simp_all add: drop_update_swap)
    have v: "drop x ?ctr = (ctr ! x + 1) # drop (Suc x) ctr"
      using 2(3) Cons_nth_drop_Suc [of x ?ctr] by simp
    have u: "?ctr = take ctrlen ctr @ take (x - ctrlen) (drop ctrlen ctr) @ (ctr ! x + 1) # drop (Suc x) ctr"
      using True t v by (metis append_take_drop_id drop_drop le_add_diff_inverse2)
    show ?thesis
    proof (cases "ctr ! x + 1 = 0")
      case True
      then show ?thesis
        using 2(1) [OF \<open>ctrlen \<le> x\<close> refl] 2(3) \<open>ctrlen \<le> x\<close> t v by (simp add: d Let_def)
    next
      case False
      then show ?thesis
        using \<open>ctrlen \<le> x\<close> t(2) u by (simp add: d Let_def)
    qed
  next
    case False
    then have "ctrlen = Suc x"
      using 2 by simp
    then show ?thesis
      by simp
  qed
qed simp

text \<open>
  The counter of a state is a number of \<^verbatim>\<open>w\<close> bytes, the low ones of the array in little-endian
  mode and the last ones in big-endian mode.  Incrementing adds one to that number modulo
  \<^verbatim>\<open>256 ^ w\<close> and leaves the other bytes, the nonce, as they are.
\<close>
theorem ctr_increment_number:
  assumes "length (ctr_ctr st) = ctr_blocklen st" "ctr_ctrlen st \<le> ctr_blocklen st"
  shows "if ctr_mode st = 0
    then le_value (take (ctr_ctrlen st) (ctr_increment st)) =
           (le_value (take (ctr_ctrlen st) (ctr_ctr st)) + 1) mod 256 ^ ctr_ctrlen st \<and>
         drop (ctr_ctrlen st) (ctr_increment st) = drop (ctr_ctrlen st) (ctr_ctr st)
    else le_value (rev (drop (ctr_ctrlen st) (ctr_increment st))) =
           (le_value (rev (drop (ctr_ctrlen st) (ctr_ctr st))) + 1) mod 256 ^ (ctr_blocklen st - ctr_ctrlen st) \<and>
         take (ctr_ctrlen st) (ctr_increment st) = take (ctr_ctrlen st) (ctr_ctr st)"
  using assms ctr_inc_le_bytes [of 0 "ctr_ctrlen st" "ctr_ctr st"]
    ctr_inc_be_bytes [of "ctr_ctrlen st" "ctr_blocklen st" "ctr_ctr st"]
  by (simp add: ctr_increment_def le_value_inc_bytes)

theorem ctr_increment_number_witness:
  "le_value (take 4 (ctr_increment \<lparr>ctr_cipher = 0, ctr_blocklen = 8, ctr_padlen = 0, ctr_mode = 0, ctr_ctrlen = 4,
       ctr_ctr = [255, 255, 3, 4, 5, 6, 7, 8], ctr_pad = [], ctr_key = ()\<rparr>)) = (65535 + 3 * 65536 + 4 * 16777216 + 1) mod 256 ^ 4"
  using ctr_increment_number [of "\<lparr>ctr_cipher = 0, ctr_blocklen = 8, ctr_padlen = 0, ctr_mode = 0, ctr_ctrlen = 4,
       ctr_ctr = [255, 255, 3, 4, 5, 6, 7, 8], ctr_pad = [], ctr_key = ()\<rparr>"] by simp

section \<open>Specifications\<close>

text \<open>The counter block after \<^verbatim>\<open>n\<close> increments, and the key stream it stands for.\<close>

definition ctr_counter_at :: "'k symmetric_CTR \<Rightarrow> nat \<Rightarrow> byte list" where
  "ctr_counter_at st n = ((\<lambda>c. ctr_increment (st\<lparr>ctr_ctr := c\<rparr>)) ^^ n) (ctr_ctr st)"

definition ctr_stream_byte :: "(byte list \<Rightarrow> byte list) \<Rightarrow> 'k symmetric_CTR \<Rightarrow> nat \<Rightarrow> byte" where
  "ctr_stream_byte enc st i =
     enc (ctr_counter_at st (i div ctr_blocklen st)) ! (i mod ctr_blocklen st)"

text \<open>
  \<^verbatim>\<open>out\<close> and \<^verbatim>\<open>after\<close> describe what a context does: the bytes it makes of a text and the context it
  leaves after that many bytes, however the text is cut and whichever of the byte-wise, 4-byte
  and 8-byte configurations handles each piece.
\<close>

definition ctr_configs :: "nat option set" where
  "ctr_configs = {None, Some 4, Some 8}"

definition ctr_transforms ::
  "'k symmetric_CTR \<Rightarrow> 'k cipher_desc list \<Rightarrow> (byte list \<Rightarrow> byte list) \<Rightarrow> (nat \<Rightarrow> 'k symmetric_CTR) \<Rightarrow> bool" where
  "ctr_transforms st tab out after \<longleftrightarrow>
     (\<forall>pt. length (out pt) = length pt \<and> out (out pt) = pt) \<and>
     (\<forall>fast \<in> ctr_configs. \<forall>pt. ctr_encrypt fast pt st tab = Inr (out pt, after (length pt))) \<and>
     (\<forall>fast \<in> ctr_configs. \<forall>xs ys. ctr_encrypt fast ys (after (length xs)) tab =
        Inr (drop (length xs) (out (xs @ ys)), after (length (xs @ ys))) \<and> out xs = take (length xs) (out (xs @ ys)))"

lemma ctr_transformsD:
  assumes "ctr_transforms st tab out after"
  shows "length (out pt) = length pt" "out (out pt) = pt"
    and "fast \<in> ctr_configs \<Longrightarrow> ctr_encrypt fast pt st tab = Inr (out pt, after (length pt))"
    and "fast \<in> ctr_configs \<Longrightarrow> ctr_encrypt fast ys (after (length xs)) tab =
        Inr (drop (length xs) (out (xs @ ys)), after (length (xs @ ys)))"
    and "out xs = take (length xs) (out (xs @ ys))"
  using assms by (simp_all add: ctr_transforms_def) (auto simp: ctr_configs_def)

lemma ctr_counter_at_simps [simp]:
  "ctr_counter_at st 0 = ctr_ctr st"
  "ctr_counter_at st (Suc n) = ctr_increment (st\<lparr>ctr_ctr := ctr_counter_at st n\<rparr>)"
  by (simp_all add: ctr_counter_at_def)

lemma cfb_dec_enc_loop:
  "cfb_enc_loop d pt st = Inr (ct, st') \<Longrightarrow> cfb_dec_loop d ct st = Inr (pt, st')"
  by (induction d pt st arbitrary: ct st' rule: cfb_enc_loop.induct)
    (auto simp: Let_def split: sum.splits)

section \<open>What a mode needs of the block cipher\<close>

text \<open>
  \<^verbatim>\<open>enc\<close> is the block function of the descriptor \<^verbatim>\<open>d\<close>; the scheduled keys it is used with satisfy
  \<^verbatim>\<open>good\<close>.
\<close>

locale mode_cipher =
  fixes d :: "'k cipher_desc" and enc :: "'k \<Rightarrow> byte list \<Rightarrow> byte list" and good :: "'k \<Rightarrow> bool"
  assumes block_length: "0 < cd_block_length d" "cd_block_length d \<le> MAXBLOCKSIZE"
    and encrypts: "good k \<Longrightarrow> length b = cd_block_length d \<Longrightarrow> cd_ecb_encrypt d b k = Inr (enc k b)"
    and enc_length: "good k \<Longrightarrow> length b = cd_block_length d \<Longrightarrow> length (enc k b) = cd_block_length d"
    and setup_good: "cd_setup d key keylen num_rounds = Inr k \<Longrightarrow> good k"
begin

abbreviation bl :: nat where "bl \<equiv> cd_block_length d"

definition ctr_ok :: "'k symmetric_CTR \<Rightarrow> bool" where
  "ctr_ok st \<longleftrightarrow> ctr_blocklen st = bl \<and> ctr_padlen st \<le> bl \<and> ctr_ctrlen st \<le> bl \<and>
     length (ctr_ctr st) = bl \<and> length (ctr_pad st) = bl \<and> good (ctr_key st)"

definition refilled :: "'k symmetric_CTR \<Rightarrow> 'k symmetric_CTR" where
  "refilled st =
     (if ctr_padlen st = bl
      then st\<lparr>ctr_ctr := ctr_increment st, ctr_pad := enc (ctr_key st) (ctr_increment st), ctr_padlen := 0\<rparr>
      else st)"

lemma length_ctr_increment:
  "ctr_ctrlen st \<le> ctr_blocklen st \<Longrightarrow> length (ctr_ctr st) = ctr_blocklen st \<Longrightarrow>
   length (ctr_increment st) = ctr_blocklen st"
  using ctr_inc_le_bytes [of 0 "ctr_ctrlen st" "ctr_ctr st"]
    ctr_inc_be_bytes [of "ctr_ctrlen st" "ctr_blocklen st" "ctr_ctr st"]
  by (simp add: ctr_increment_def)

lemma ctr_refill_ok:
  "ctr_ok st \<Longrightarrow> ctr_refill d st = Inr (refilled st)"
  by (auto simp: ctr_refill_def refilled_def ctr_ok_def Let_def encrypts length_ctr_increment)

lemma refilled_ok:
  "ctr_ok st \<Longrightarrow> ctr_ok (refilled st) \<and> ctr_padlen (refilled st) < bl"
  using block_length by (auto simp: refilled_def ctr_ok_def enc_length length_ctr_increment)

abbreviation pad_next :: "'k symmetric_CTR \<Rightarrow> byte" where
  "pad_next st \<equiv> ctr_pad (refilled st) ! ctr_padlen (refilled st)"

definition ctr_next :: "'k symmetric_CTR \<Rightarrow> 'k symmetric_CTR" where
  "ctr_next st = (refilled st)\<lparr>ctr_padlen := ctr_padlen (refilled st) + 1\<rparr>"

lemma ctr_next_ok: "ctr_ok st \<Longrightarrow> ctr_ok (ctr_next st)"
  using refilled_ok [of st] by (simp add: ctr_next_def ctr_ok_def)

text \<open>The byte-wise loop as two functions: the bytes it produces and the state it leaves.\<close>

fun ctr_bytes :: "byte list \<Rightarrow> 'k symmetric_CTR \<Rightarrow> byte list" where
  "ctr_bytes [] st = []"
| "ctr_bytes (p # ps) st = (p XOR pad_next st) # ctr_bytes ps (ctr_next st)"

definition ctr_after :: "nat \<Rightarrow> 'k symmetric_CTR \<Rightarrow> 'k symmetric_CTR" where
  "ctr_after n = ctr_next ^^ n"

lemma ctr_after_simps [simp]: "ctr_after 0 st = st" "ctr_after (Suc n) st = ctr_after n (ctr_next st)"
    "ctr_after (m + n) st = ctr_after n (ctr_after m st)"
  by (simp_all add: ctr_after_def funpow_swap1 funpow_add add.commute [of m])

lemma ctr_after_ok: "ctr_ok st \<Longrightarrow> ctr_ok (ctr_after n st)"
  by (induction n arbitrary: st) (simp_all add: ctr_next_ok)

lemma length_ctr_bytes [simp]: "length (ctr_bytes pt st) = length pt"
  by (induction pt st rule: ctr_bytes.induct) simp_all

lemma ctr_bytes_append: "ctr_bytes (xs @ ys) st = ctr_bytes xs st @ ctr_bytes ys (ctr_after (length xs) st)"
  by (induction xs arbitrary: st) simp_all

lemma ctr_bytes_twice: "ctr_bytes (ctr_bytes pt st) st = pt"
  by (induction pt arbitrary: st) simp_all

lemma ctr_loop_slow:
  "ctr_ok st \<Longrightarrow> ctr_loop False d pt st = Inr (ctr_bytes pt st, ctr_after (length pt) st)"
proof (induction pt arbitrary: st)
  case Nil
  then show ?case
    using block_length by (simp add: ctr_loop.simps ctr_ok_def)
next
  case (Cons p pt)
  then have "ctr_loop False d pt (ctr_next st) = Inr (ctr_bytes pt (ctr_next st), ctr_after (length pt) (ctr_next st))"
    by (simp add: ctr_next_ok)
  with Cons.prems show ?case
    using block_length by (subst ctr_loop.simps) (simp add: ctr_refill_ok ctr_next_def ctr_ok_def)
qed

text \<open>A fresh pad covers the rest of its block.\<close>

lemma refilled_id [simp]: "ctr_padlen st < bl \<Longrightarrow> refilled st = st"
  by (simp add: refilled_def)

lemma ctr_block:
  assumes "ctr_ok st" "ctr_padlen st + length ps = bl"
  shows "ctr_bytes ps st = xor_bytes ps (drop (ctr_padlen st) (ctr_pad st)) \<and>
         ctr_after (length ps) st = st\<lparr>ctr_padlen := bl\<rparr>"
  using assms
proof (induction ps arbitrary: st)
  case (Cons p ps)
  then have less: "ctr_padlen st < length (ctr_pad st)" "ctr_padlen st < bl"
    by (simp_all add: ctr_ok_def)
  then have "ctr_next st = st\<lparr>ctr_padlen := ctr_padlen st + 1\<rparr>"
    by (simp add: ctr_next_def)
  with Cons less show ?case
    using ctr_next_ok [of st] by (simp add: Cons_nth_drop_Suc [symmetric])
qed simp

lemma ctr_loop_fast:
  "ctr_ok st \<Longrightarrow> ctr_loop True d pt st = Inr (ctr_bytes pt st, ctr_after (length pt) st)"
proof (induction pt arbitrary: st rule: length_induct)
  case (1 pt)
  have bl: "\<not> ctr_blocklen st < 1" "ctr_blocklen st = bl"
    using 1(2) block_length by (auto simp: ctr_ok_def)
  show ?case
  proof (cases pt)
    case Nil
    then show ?thesis
      using bl by (simp add: ctr_loop.simps)
  next
    case (Cons p ps)
    let ?r = "refilled st"
    note r = refilled_ok [OF 1(2)]
    show ?thesis
    proof (cases "ctr_padlen ?r = 0 \<and> bl \<le> length pt")
      case True
      let ?b = "take bl pt" and ?rest = "drop bl pt"
      have b: "ctr_bytes ?b ?r = xor_bytes ?b (ctr_pad ?r)" "ctr_after bl ?r = ?r\<lparr>ctr_padlen := bl\<rparr>"
        using True ctr_block [of ?r ?b] r by simp_all
      have same: "ctr_bytes pt st = ctr_bytes pt ?r" "ctr_after (length pt) st = ctr_after (length pt) ?r"
        using r Cons by (simp_all add: ctr_next_def)
      have "length pt = bl + length ?rest"
        using True by simp
      then have after: "ctr_after (length pt) st = ctr_after (length ?rest) (?r\<lparr>ctr_padlen := bl\<rparr>)"
        using same(2) b(2) ctr_after_simps(3) [of bl "length ?rest" ?r] by (simp del: ctr_after_simps)
      have "ctr_bytes (?b @ ?rest) ?r = xor_bytes ?b (ctr_pad ?r) @ ctr_bytes ?rest (?r\<lparr>ctr_padlen := bl\<rparr>)"
        using True b ctr_bytes_append [of ?b ?rest ?r] by simp
      moreover have "ctr_ok (?r\<lparr>ctr_padlen := bl\<rparr>)"
        using r by (simp add: ctr_ok_def)
      moreover have "length ?rest < length pt"
        using True block_length Cons by simp
      ultimately show ?thesis
        using 1 True bl Cons same(1) after by (subst ctr_loop.simps) (simp add: ctr_refill_ok del: ctr_after_simps)
    next
      case False
      then have "ctr_loop True d ps (ctr_next st) = Inr (ctr_bytes ps (ctr_next st), ctr_after (length ps) (ctr_next st))"
        using 1 Cons by (simp add: ctr_next_ok)
      then show ?thesis
        using False 1(2) bl Cons by (subst ctr_loop.simps) (auto simp: ctr_refill_ok ctr_next_def)
    qed
  qed
qed

text \<open>The state after \<^verbatim>\<open>p\<close> bytes of block \<^verbatim>\<open>j\<close> of a freshly started stream.\<close>

definition state_at :: "'k symmetric_CTR \<Rightarrow> nat \<Rightarrow> nat \<Rightarrow> 'k symmetric_CTR" where
  "state_at st j p = st\<lparr>ctr_ctr := ctr_counter_at st j, ctr_pad := enc (ctr_key st) (ctr_counter_at st j), ctr_padlen := p\<rparr>"

lemma ctr_increment_cong:
  "ctr_mode a = ctr_mode b \<Longrightarrow> ctr_ctrlen a = ctr_ctrlen b \<Longrightarrow> ctr_blocklen a = ctr_blocklen b \<Longrightarrow>
   ctr_ctr a = ctr_ctr b \<Longrightarrow> ctr_increment a = ctr_increment b"
  by (simp add: ctr_increment_def)

lemma refilled_state_at:
  "p < bl \<Longrightarrow> refilled (state_at st j p) = state_at st j p"
  "refilled (state_at st j bl) = state_at st (Suc j) 0"
proof -
  have "ctr_increment (state_at st j bl) = ctr_increment (st\<lparr>ctr_ctr := ctr_counter_at st j\<rparr>)"
    by (rule ctr_increment_cong) (simp_all add: state_at_def)
  then show "refilled (state_at st j bl) = state_at st (Suc j) 0"
    by (simp add: refilled_def) (simp add: state_at_def)
qed (simp add: refilled_def state_at_def)

lemma ctr_bytes_stream:
  assumes "ctr_blocklen st = bl" "p \<le> bl" "i < length pt"
  shows "ctr_bytes pt (state_at st j p) ! i = pt ! i XOR ctr_stream_byte (enc (ctr_key st)) st (j * bl + p + i)"
  using assms(2,3)
proof (induction pt arbitrary: i j p)
  case (Cons b pt)
  obtain j' p' where n: "refilled (state_at st j p) = state_at st j' p'" "p' < bl" "j' * bl + p' = j * bl + p"
  proof (cases "p = bl")
    case True
    then show thesis
      using that [of "Suc j" 0] block_length by (simp add: refilled_state_at)
  next
    case False
    then show thesis
      using that [of j p] Cons.prems by (simp add: refilled_state_at)
  qed
  have next_st: "ctr_next (state_at st j p) = state_at st j' (Suc p')"
    by (simp only: ctr_next_def n) (simp add: state_at_def)
  show ?case
  proof (cases i)
    case 0
    have "(j * bl + p) div bl = j'" "(j * bl + p) mod bl = p'"
      using n(2) by (simp_all add: n(3) [symmetric])
    then show ?thesis
      using 0 by (simp add: n(1) ctr_stream_byte_def assms(1)) (simp add: state_at_def)
  next
    case (Suc k)
    then show ?thesis
      using Cons.IH [of "Suc p'" k j'] Cons.prems n(2,3) by (simp add: next_st)
  qed
qed simp

text \<open>A started context is well-formed and its pad is the encrypted counter.\<close>

lemma ctr_start_ok:
  assumes "ctr_start cipher IV key keylen num_rounds mode tab = Inr st"
    and tab: "tab ! nat cipher = d" and IV: "bl \<le> length IV"
  shows "ctr_ok st \<and> ctr_padlen st = 0 \<and> ctr_pad st = enc (ctr_key st) (ctr_ctr st) \<and>
         ctr_cipher st = cipher \<and> cipher_is_valid cipher tab = CRYPT_OK"
proof -
  have valid: "cipher_is_valid cipher tab = CRYPT_OK"
    using assms(1) by (auto simp: ctr_start_def split: if_splits)
  obtain ctrlen m rfc skey where k: "cd_setup d key keylen num_rounds = Inr skey" "ctrlen \<le> bl"
    and st: "(let s = \<lparr>ctr_cipher = cipher, ctr_blocklen = bl, ctr_padlen = 0, ctr_mode = m, ctr_ctrlen = ctrlen,
                 ctr_ctr = take bl IV, ctr_pad = [], ctr_key = skey\<rparr>;
            s = (if rfc then s\<lparr>ctr_ctr := ctr_increment s\<rparr> else s)
        in case cd_ecb_encrypt d (ctr_ctr s) skey of Inl err \<Rightarrow> Inl err | Inr pad \<Rightarrow> Inr (s\<lparr>ctr_pad := pad\<rparr>)) = Inr st"
  proof -
    let ?w = "if mode mod 256 \<noteq> 0 then mode mod 256 else bl"
    let ?l = "if mode div 4096 mod 2 = 1 then bl - ?w else ?w"
    have "?w \<le> bl"
      using assms(1) valid unfolding ctr_start_def Let_def tab by (auto split: if_splits)
    then have "?l \<le> bl" by simp
    then show thesis
      using assms(1) valid that [of _ ?l "if mode div 4096 mod 2 = 1 then CTR_COUNTER_BIG_ENDIAN else 0" "mode div 8192 mod 2 = 1"]
      unfolding ctr_start_def Let_def tab using \<open>?w \<le> bl\<close> by (auto split: sum.splits)
  qed
  define s where "s = \<lparr>ctr_cipher = cipher, ctr_blocklen = bl, ctr_padlen = 0, ctr_mode = m, ctr_ctrlen = ctrlen,
                 ctr_ctr = take bl IV, ctr_pad = [], ctr_key = skey\<rparr>"
  define c where "c = (if rfc then ctr_increment s else take bl IV)"
  have len: "length c = bl"
    using length_ctr_increment [of s] k(2) IV by (simp add: c_def s_def)
  have "st = s\<lparr>ctr_ctr := c, ctr_pad := enc skey c\<rparr>"
    using st encrypts [OF setup_good [OF k(1)] len]
    unfolding s_def [symmetric] Let_def c_def by (auto simp: s_def split: if_splits)
  then show ?thesis
    using len valid k enc_length [OF setup_good [OF k(1)] len] setup_good [OF k(1)]
    by (simp add: ctr_ok_def s_def)
qed

lemma ctr_encrypt_bytes:
  assumes "ctr_ok st" "tab ! nat (ctr_cipher st) = d" "cipher_is_valid (ctr_cipher st) tab = CRYPT_OK"
    and "\<And>n. fast = Some n \<Longrightarrow> bl mod n = 0"
  shows "ctr_encrypt fast pt st tab = Inr (ctr_bytes pt st, ctr_after (length pt) st)"
  using assms block_length
  by (cases fast) (auto simp: ctr_encrypt_def ctr_loop_slow ctr_loop_fast ctr_ok_def)

lemma ctr_encrypt_start:
  assumes "ctr_start cipher IV key keylen num_rounds mode tab = Inr st"
    and "tab ! nat cipher = d" "bl \<le> length IV" "\<And>n. fast = Some n \<Longrightarrow> bl mod n = 0"
  shows "ctr_encrypt fast pt st tab = Inr (ctr_bytes pt st, ctr_after (length pt) st)"
    and "i < length pt \<Longrightarrow> ctr_bytes pt st ! i = pt ! i XOR ctr_stream_byte (enc (ctr_key st)) st i"
proof -
  note ok = ctr_start_ok [OF assms(1-3)]
  then show "ctr_encrypt fast pt st tab = Inr (ctr_bytes pt st, ctr_after (length pt) st)"
    using assms(2,4) by (intro ctr_encrypt_bytes) simp_all
  have "state_at st 0 0 = st"
    using ok by (simp add: state_at_def)
  then show "i < length pt \<Longrightarrow> ctr_bytes pt st ! i = pt ! i XOR ctr_stream_byte (enc (ctr_key st)) st i"
    using ctr_bytes_stream [of st 0 i pt 0] ok by (simp add: ctr_ok_def)
qed

lemma ctr_session:
  assumes "ctr_start cipher IV key keylen num_rounds mode tab = Inr st"
    and "tab ! nat cipher = d" "bl \<le> length IV" "bl mod 8 = 0"
  shows "ctr_transforms st tab (\<lambda>pt. ctr_bytes pt st) (\<lambda>n. ctr_after n st)"
  unfolding ctr_transforms_def
proof (intro conjI allI ballI)
  note ok = ctr_start_ok [OF assms(1-3)]
  have fast: "bl mod n = 0" if "fast \<in> ctr_configs" "fast = Some n" for fast and n :: nat
    using that assms(4) by (auto simp: ctr_configs_def)
  show "length (ctr_bytes pt st) = length pt" "ctr_bytes (ctr_bytes pt st) st = pt" for pt
    by (simp_all add: ctr_bytes_twice)
  show "ctr_encrypt fast xs st tab = Inr (ctr_bytes xs st, ctr_after (length xs) st)"
    if "fast \<in> ctr_configs" for fast xs
    using ctr_encrypt_start(1) [OF assms(1-3), where fast = fast and pt = xs] fast [OF that] by blast
  have cipher: "ctr_cipher (ctr_after n s) = ctr_cipher s" for n s
    by (induction n arbitrary: s) (simp_all add: ctr_next_def refilled_def)
  have "ctr_encrypt fast ys (ctr_after n st) tab = Inr (ctr_bytes ys (ctr_after n st), ctr_after (length ys) (ctr_after n st))"
    if "fast \<in> ctr_configs" for fast ys n
    using ok assms(2) fast [OF that] by (intro ctr_encrypt_bytes) (simp_all add: ctr_after_ok cipher)
  then show "ctr_encrypt fast ys (ctr_after (length xs) st) tab =
      Inr (drop (length xs) (ctr_bytes (xs @ ys) st), ctr_after (length (xs @ ys)) st)"
    if "fast \<in> ctr_configs" for fast xs ys
    using that by (simp add: ctr_bytes_append)
  show "ctr_bytes xs st = take (length xs) (ctr_bytes (xs @ ys) st)" for xs ys
    by (simp add: ctr_bytes_append)
qed

text \<open>Cipher feedback: the loop always succeeds and keeps its state well-formed.\<close>

definition cfb_ok :: "'k symmetric_CFB \<Rightarrow> bool" where
  "cfb_ok st \<longleftrightarrow> cfb_blocklen st = bl \<and> cfb_padlen st \<le> bl \<and> length (cfb_IV st) = bl \<and>
     length (cfb_pad st) = MAXBLOCKSIZE \<and> good (cfb_key st)"

lemma cfb_refill_ok:
  assumes "cfb_ok st"
  shows "\<exists>st'. cfb_refill d st = Inr st' \<and> cfb_ok st' \<and> cfb_padlen st' < bl"
  using assms block_length by (auto simp: cfb_refill_def cfb_ok_def encrypts enc_length)

lemma cfb_enc_loop_ok:
  "cfb_ok st \<Longrightarrow> \<exists>ct st'. cfb_enc_loop d pt st = Inr (ct, st') \<and> length ct = length pt \<and> cfb_ok st'"
proof (induction pt arbitrary: st)
  case (Cons p pt)
  from cfb_refill_ok [OF Cons.prems] obtain s where
    s: "cfb_refill d st = Inr s" "cfb_ok s" "cfb_padlen s < bl" by blast
  let ?c = "p XOR cfb_IV s ! cfb_padlen s"
  have "cfb_ok (s\<lparr>cfb_pad := (cfb_pad s)[cfb_padlen s := ?c], cfb_padlen := cfb_padlen s + 1\<rparr>)"
    using s by (simp add: cfb_ok_def)
  from Cons.IH [OF this] show ?case
    using s(1) by (auto simp: Let_def)
qed simp

lemma cfb_start_ok:
  assumes "cfb_start cipher IV key keylen num_rounds pad tab = Inr st"
    and "tab ! nat cipher = d" "bl \<le> length IV" "length pad = MAXBLOCKSIZE"
  shows "cfb_ok st \<and> cfb_cipher st = cipher \<and> cipher_is_valid cipher tab = CRYPT_OK"
  using assms block_length
  by (auto simp: cfb_start_def Let_def cfb_ok_def encrypts enc_length setup_good split: if_splits sum.splits)

lemma cfb_encrypt_start:
  assumes "cfb_start cipher IV key keylen num_rounds pad tab = Inr st"
    and "tab ! nat cipher = d" "bl \<le> length IV" "length pad = MAXBLOCKSIZE"
  shows "\<exists>ct st'. cfb_encrypt pt st tab = Inr (ct, st') \<and> length ct = length pt \<and> cfb_decrypt ct st tab = Inr (pt, st')"
proof -
  note ok = cfb_start_ok [OF assms]
  then obtain ct st' where e: "cfb_enc_loop d pt st = Inr (ct, st')" "length ct = length pt"
    using cfb_enc_loop_ok [of st pt] by blast
  moreover have "cfb_args st tab = CRYPT_OK"
    using ok block_length by (simp add: cfb_args_def cfb_ok_def)
  ultimately show ?thesis
    using ok assms(2) cfb_dec_enc_loop [OF e(1)] by (simp add: cfb_encrypt_def cfb_decrypt_def)
qed

end

lemma cfb_enc_loop_append:
  "cfb_enc_loop d (xs @ ys) st =
    (case cfb_enc_loop d xs st of
       Inl err \<Rightarrow> Inl err
     | Inr (ct, st') \<Rightarrow> (case cfb_enc_loop d ys st' of Inl err \<Rightarrow> Inl err | Inr (ct', st'') \<Rightarrow> Inr (ct @ ct', st'')))"
  by (induction xs arbitrary: st) (auto simp: Let_def split: sum.splits)

lemma cfb_dec_loop_append:
  "cfb_dec_loop d (xs @ ys) st =
    (case cfb_dec_loop d xs st of
       Inl err \<Rightarrow> Inl err
     | Inr (pt, st') \<Rightarrow> (case cfb_dec_loop d ys st' of Inl err \<Rightarrow> Inl err | Inr (pt', st'') \<Rightarrow> Inr (pt @ pt', st'')))"
  by (induction xs arbitrary: st) (auto simp: Let_def split: sum.splits)

end
