(* ===== verification/Serpent.thy ===== *)
theory Serpent
  imports Tomcrypt
begin

text \<open>
  The Serpent block cipher of
    \<^verbatim>\<open>Compression/_Encryption/ciphers/serpent.c\<close>.  The macros of the
  file are functions on a quadruple of 32-bit words; the alternation of the two groups of C
  variables \<^verbatim>\<open>a,b,c,d\<close> and \<^verbatim>\<open>e,f,g,h\<close> becomes a
    rebinding of that quadruple.  The
  key schedule is the array \<^verbatim>\<open>l_key\<close> of 140 words.

  Lemmas: the S-box formulas against the published S-box tables, bit position by bit position;
  every inverse macro against its macro; the unrolled code against a specification by rounds;
  the self test.
\<close>

type_synonym quad = "u32 \<times> u32 \<times> u32 \<times> u32"

section \<open>The S-box formulas\<close>

fun sb0 :: "quad \<Rightarrow> quad" where
  "sb0 (a, b, c, d) = (
     let t1 = a XOR d in let t2 = a AND d in let t3 = c XOR t1 in
     let t6 = b AND t1 in let t4 = b XOR t3 in let t10 = NOT t3 in
     let h = t2 XOR t4 in let t7 = a XOR t6 in let t14 = NOT t7 in
     let t8 = c OR t7 in let t11 = t3 XOR t7 in let g = t4 XOR t8 in
     let t12 = h AND t11 in let f = t10 XOR t12 in let e = t12 XOR t14 in (e, f, g, h))"

fun ib0 :: "quad \<Rightarrow> quad" where
  "ib0 (a, b, c, d) = (
     let t1 = NOT a in let t2 = a XOR b in let t3 = t1 OR t2 in
     let t4 = d XOR t3 in let t7 = d AND t2 in let t5 = c XOR t4 in
     let t8 = t1 XOR t7 in let g = t2 XOR t5 in let t11 = a AND t4 in
     let t9 = g AND t8 in let t14 = t5 XOR t8 in let f = t4 XOR t9 in
     let t12 = t5 OR f in let h = t11 XOR t12 in let e = h XOR t14 in (e, f, g, h))"

fun sb1 :: "quad \<Rightarrow> quad" where
  "sb1 (a, b, c, d) = (
     let t1 = NOT a in let t2 = b XOR t1 in let t3 = a OR t2 in
     let t4 = d OR t2 in let t5 = c XOR t3 in let g = d XOR t5 in
     let t7 = b XOR t4 in let t8 = t2 XOR g in let t9 = t5 AND t7 in
     let h = t8 XOR t9 in let t11 = t5 XOR t7 in let f = h XOR t11 in
     let t13 = t8 AND t11 in let e = t5 XOR t13 in (e, f, g, h))"

fun ib1 :: "quad \<Rightarrow> quad" where
  "ib1 (a, b, c, d) = (
     let t1 = a XOR d in let t2 = a AND b in let t3 = b XOR c in
     let t4 = a XOR t3 in let t5 = b OR d in let t7 = c OR t1 in
     let h = t4 XOR t5 in let t8 = b XOR t7 in let t11 = NOT t2 in
     let t9 = t4 AND t8 in let f = t1 XOR t9 in let t13 = t9 XOR t11 in
     let t12 = h AND f in let g = t12 XOR t13 in let t15 = a AND d in
     let t16 = c XOR t13 in let e = t15 XOR t16 in (e, f, g, h))"

fun sb2 :: "quad \<Rightarrow> quad" where
  "sb2 (a, b, c, d) = (
     let t1 = NOT a in let t2 = b XOR d in let t3 = c AND t1 in
     let t13 = d OR t1 in let e = t2 XOR t3 in let t5 = c XOR t1 in
     let t6 = c XOR e in let t7 = b AND t6 in let t10 = e OR t5 in
     let h = t5 XOR t7 in let t9 = d OR t7 in let t11 = t9 AND t10 in
     let t14 = t2 XOR h in let g = a XOR t11 in let t15 = g XOR t13 in
     let f = t14 XOR t15 in (e, f, g, h))"

fun ib2 :: "quad \<Rightarrow> quad" where
  "ib2 (a, b, c, d) = (
     let t1 = b XOR d in let t2 = NOT t1 in let t3 = a XOR c in
     let t4 = c XOR t1 in let t7 = a OR t2 in let t5 = b AND t4 in
     let t8 = d XOR t7 in let t11 = NOT t4 in let e = t3 XOR t5 in
     let t9 = t3 OR t8 in let t14 = d AND t11 in let h = t1 XOR t9 in
     let t12 = e OR h in let f = t11 XOR t12 in let t15 = t3 XOR t12 in
     let g = t14 XOR t15 in (e, f, g, h))"

fun sb3 :: "quad \<Rightarrow> quad" where
  "sb3 (a, b, c, d) = (
     let t1 = a XOR c in let t2 = d XOR t1 in let t3 = a AND t2 in
     let t4 = d XOR t3 in let t5 = b AND t4 in let g = t2 XOR t5 in
     let t7 = a OR g in let t8 = b OR d in let t11 = a OR d in
     let t9 = t4 AND t7 in let f = t8 XOR t9 in let t12 = b XOR t11 in
     let t13 = g XOR t9 in let t15 = t3 XOR t8 in let h = t12 XOR t13 in
     let t16 = c AND t15 in let e = t12 XOR t16 in (e, f, g, h))"

fun ib3 :: "quad \<Rightarrow> quad" where
  "ib3 (a, b, c, d) = (
     let t1 = b XOR c in let t2 = b OR c in let t3 = a XOR c in
     let t7 = a XOR d in let t4 = t2 XOR t3 in let t5 = d OR t4 in
     let t9 = t2 XOR t7 in let e = t1 XOR t5 in let t8 = t1 OR t5 in
     let t11 = a AND t4 in let g = t8 XOR t9 in let t12 = e OR t9 in
     let f = t11 XOR t12 in let t14 = a AND g in let t15 = t2 XOR t14 in
     let t16 = e AND t15 in let h = t4 XOR t16 in (e, f, g, h))"

fun sb4 :: "quad \<Rightarrow> quad" where
  "sb4 (a, b, c, d) = (
     let t1 = a XOR d in let t2 = d AND t1 in let t3 = c XOR t2 in
     let t4 = b OR t3 in let h = t1 XOR t4 in let t6 = NOT b in
     let t7 = t1 OR t6 in let e = t3 XOR t7 in let t9 = a AND e in
     let t10 = t1 XOR t6 in let t11 = t4 AND t10 in let g = t9 XOR t11 in
     let t13 = a XOR t3 in let t14 = t10 AND g in let f = t13 XOR t14 in (e, f, g, h))"

fun ib4 :: "quad \<Rightarrow> quad" where
  "ib4 (a, b, c, d) = (
     let t1 = c XOR d in let t2 = c OR d in let t3 = b XOR t2 in
     let t4 = a AND t3 in let f = t1 XOR t4 in let t6 = a XOR d in
     let t7 = b OR d in let t8 = t6 AND t7 in let h = t3 XOR t8 in
     let t10 = NOT a in let t11 = c XOR h in let t12 = t10 OR t11 in
     let e = t3 XOR t12 in let t14 = c OR t4 in let t15 = t7 XOR t14 in
     let t16 = h OR t10 in let g = t15 XOR t16 in (e, f, g, h))"

fun sb5 :: "quad \<Rightarrow> quad" where
  "sb5 (a, b, c, d) = (
     let t1 = NOT a in let t2 = a XOR b in let t3 = a XOR d in
     let t4 = c XOR t1 in let t5 = t2 OR t3 in let e = t4 XOR t5 in
     let t7 = d AND e in let t8 = t2 XOR e in let t10 = t1 OR e in
     let f = t7 XOR t8 in let t11 = t2 OR t7 in let t12 = t3 XOR t10 in
     let t14 = b XOR t7 in let g = t11 XOR t12 in let t15 = f AND t12 in
     let h = t14 XOR t15 in (e, f, g, h))"

fun ib5 :: "quad \<Rightarrow> quad" where
  "ib5 (a, b, c, d) = (
     let t1 = NOT c in let t2 = b AND t1 in let t3 = d XOR t2 in
     let t4 = a AND t3 in let t5 = b XOR t1 in let h = t4 XOR t5 in
     let t7 = b OR h in let t8 = a AND t7 in let f = t3 XOR t8 in
     let t10 = a OR d in let t11 = t1 XOR t7 in let e = t10 XOR t11 in
     let t13 = a XOR c in let t14 = b AND t10 in let t15 = t4 OR t13 in
     let g = t14 XOR t15 in (e, f, g, h))"

fun sb6 :: "quad \<Rightarrow> quad" where
  "sb6 (a, b, c, d) = (
     let t1 = NOT a in let t2 = a XOR d in let t3 = b XOR t2 in
     let t4 = t1 OR t2 in let t5 = c XOR t4 in let f = b XOR t5 in
     let t13 = NOT t5 in let t7 = t2 OR f in let t8 = d XOR t7 in
     let t9 = t5 AND t8 in let g = t3 XOR t9 in let t11 = t5 XOR t8 in
     let e = g XOR t11 in let t14 = t3 AND t11 in let h = t13 XOR t14 in (e, f, g, h))"

fun ib6 :: "quad \<Rightarrow> quad" where
  "ib6 (a, b, c, d) = (
     let t1 = NOT a in let t2 = a XOR b in let t3 = c XOR t2 in
     let t4 = c OR t1 in let t5 = d XOR t4 in let t13 = d AND t1 in
     let f = t3 XOR t5 in let t7 = t3 AND t5 in let t8 = t2 XOR t7 in
     let t9 = b OR t8 in let h = t5 XOR t9 in let t11 = b OR h in
     let e = t8 XOR t11 in let t14 = t3 XOR t11 in let g = t13 XOR t14 in (e, f, g, h))"

fun sb7 :: "quad \<Rightarrow> quad" where
  "sb7 (a, b, c, d) = (
     let t1 = NOT c in let t2 = b XOR c in let t3 = b OR t1 in
     let t4 = d XOR t3 in let t5 = a AND t4 in let t7 = a XOR d in
     let h = t2 XOR t5 in let t8 = b XOR t5 in let t9 = t2 OR t8 in
     let t11 = d AND t3 in let f = t7 XOR t9 in let t12 = t5 XOR f in
     let t15 = t1 OR t4 in let t13 = h AND t12 in let g = t11 XOR t13 in
     let t16 = t12 XOR g in let e = t15 XOR t16 in (e, f, g, h))"

fun ib7 :: "quad \<Rightarrow> quad" where
  "ib7 (a, b, c, d) = (
     let t1 = a AND b in let t2 = a OR b in let t3 = c OR t1 in
     let t4 = d AND t2 in let h = t3 XOR t4 in let t6 = NOT d in
     let t7 = b XOR t4 in let t8 = h XOR t6 in let t11 = c XOR t7 in
     let t9 = t7 OR t8 in let f = a XOR t9 in let t12 = d OR f in
     let e = t11 XOR t12 in let t14 = a AND h in let t15 = t3 XOR f in
     let t16 = e XOR t14 in let g = t15 XOR t16 in (e, f, g, h))"

section \<open>Key mixing and the linear transformation\<close>

fun k_xor :: "u32 list \<Rightarrow> nat \<Rightarrow> quad \<Rightarrow> quad" where
  "k_xor l_key r (a, b, c, d) =
     (a XOR l_key ! (4 * r + 8), b XOR l_key ! (4 * r + 9),
      c XOR l_key ! (4 * r + 10), d XOR l_key ! (4 * r + 11))"

definition k_set :: "u32 list \<Rightarrow> nat \<Rightarrow> quad" where
  "k_set l_key r = (l_key ! (4 * r + 8), l_key ! (4 * r + 9),
                    l_key ! (4 * r + 10), l_key ! (4 * r + 11))"

fun k_get :: "nat \<Rightarrow> quad \<Rightarrow> u32 list \<Rightarrow> u32 list" where
  "k_get r (a, b, c, d) l_key =
     l_key[4 * r + 8 := a, 4 * r + 9 := b, 4 * r + 10 := c, 4 * r + 11 := d]"

fun rot :: "quad \<Rightarrow> quad" where
  "rot (a, b, c, d) =
     (let a = ROL a 13 in
      let c = ROL c 3 in
      let d = d XOR c XOR push_bit 3 a in
      let b = b XOR a XOR c in
      let d = ROL d 7 in
      let b = ROL b 1 in
      let a = a XOR b XOR d in
      let c = c XOR d XOR push_bit 7 b in
      let a = ROL a 5 in
      let c = ROL c 22 in (a, b, c, d))"

fun irot :: "quad \<Rightarrow> quad" where
  "irot (a, b, c, d) =
     (let c = ROR c 22 in
      let a = ROR a 5 in
      let c = c XOR d XOR push_bit 7 b in
      let a = a XOR b XOR d in
      let d = ROR d 7 in
      let b = ROR b 1 in
      let d = d XOR c XOR push_bit 3 a in
      let b = b XOR a XOR c in
      let c = ROR c 3 in
      let a = ROR a 13 in (a, b, c, d))"

section \<open>The key schedule\<close>

text \<open>
  \<^verbatim>\<open>serpent_setup\<close> on a little-endian machine:
    \<^verbatim>\<open>key\<close> is the memory at the key pointer,
  \<^verbatim>\<open>l_key\<close> the previous contents of the schedule.  The word loads may read
    up to three bytes
  past \<^verbatim>\<open>key_len\<close>, so \<^verbatim>\<open>key\<close> may be longer than
    \<^verbatim>\<open>key_len\<close>.
\<close>

definition serpent_load_key :: "byte list \<Rightarrow> nat \<Rightarrow> u32 list \<Rightarrow>
  u32 list" where
  "serpent_load_key key key_bits l_key =
     (let l_key = fold (\<lambda>i l. l[i := LOAD32L key (4 * i)]) [0..<(key_bits + 31) div 32] l_key
       in
      if key_bits < 256 then
        let l_key = fold (\<lambda>i l. l[i := 0]) [(key_bits + 31) div 32..<8] l_key;
            i = key_bits div 32;
            lk = push_bit (key_bits mod 32) 1
        in l_key[i := (l_key ! i AND (lk - 1)) OR lk]
      else l_key)"

definition serpent_expand :: "nat \<Rightarrow> u32 list \<Rightarrow> u32 list" where
  "serpent_expand i l_key =
     (let lk = l_key ! i XOR l_key ! (i + 3) XOR l_key ! (i + 5) XOR l_key ! (i + 7) XOR
               2654435769 XOR word_of_nat i
      in l_key[i + 8 := push_bit 11 lk OR drop_bit 21 lk])"

definition serpent_key_sboxes :: "(nat \<times> (quad \<Rightarrow> quad)) list" where
  "serpent_key_sboxes =
    [(0, sb3), (1, sb2),
     (2, sb1), (3, sb0), (4, sb7), (5, sb6), (6, sb5), (7, sb4), (8, sb3), (9, sb2), (10, sb1), (11,
       sb0), (12, sb7), (13, sb6), (14, sb5), (15, sb4), (16, sb3), (17, sb2), (18, sb1), (19, sb0),
       (20, sb7), (21, sb6), (22, sb5), (23, sb4), (24, sb3), (25, sb2), (26, sb1), (27, sb0), (28,
       sb7), (29, sb6), (30, sb5), (31, sb4), (32, sb3)]"

definition serpent_setup :: "byte list \<Rightarrow> nat \<Rightarrow> nat \<Rightarrow> u32
  list \<Rightarrow> crypt_error + u32 list" where
  "serpent_setup key key_len num_rounds l_key =
     (let key_bits = key_len * 8 in
      if key_bits > 256 then Inl CRYPT_INVALID_KEYSIZE
      else
        let l_key = serpent_load_key key key_bits l_key;
            l_key = fold serpent_expand [0..<132] l_key
        in Inr (fold (\<lambda>(r, sb) l. k_get r (sb (k_set l r)) l) serpent_key_sboxes l_key))"

section \<open>Encryption and decryption of a block\<close>

definition load_block :: "byte list \<Rightarrow> quad" where
  "load_block p = (LOAD32L p 0, LOAD32L p 4, LOAD32L p 8, LOAD32L p 12)"

fun store_block :: "quad \<Rightarrow> byte list" where
  "store_block (a, b, c, d) = STORE32L a @ STORE32L b @ STORE32L c @ STORE32L d"

definition serpent_ecb_encrypt :: "byte list \<Rightarrow> u32 list \<Rightarrow> byte list" where
  "serpent_ecb_encrypt pt spkey =
     (let s = load_block pt in
      let s = k_xor spkey 0 s in let s = sb0 s in let s = rot s in let s = k_xor spkey 1 s in let s =
        sb1 s in
      let s = rot s in let s = k_xor spkey 2 s in let s = sb2 s in let s = rot s in let s = k_xor
        spkey 3 s in
      let s = sb3 s in let s = rot s in let s = k_xor spkey 4 s in let s = sb4 s in let s = rot s in
      let s = k_xor spkey 5 s in let s = sb5 s in let s = rot s in let s = k_xor spkey 6 s in let s =
        sb6 s in
      let s = rot s in let s = k_xor spkey 7 s in let s = sb7 s in let s = rot s in let s = k_xor
        spkey 8 s in
      let s = sb0 s in let s = rot s in let s = k_xor spkey 9 s in let s = sb1 s in let s = rot s in
      let s = k_xor spkey 10 s in let s = sb2 s in let s = rot s in let s = k_xor spkey 11 s in let s
        = sb3 s in
      let s = rot s in let s = k_xor spkey 12 s in let s = sb4 s in let s = rot s in let s = k_xor
        spkey 13 s in
      let s = sb5 s in let s = rot s in let s = k_xor spkey 14 s in let s = sb6 s in let s = rot s in
      let s = k_xor spkey 15 s in let s = sb7 s in let s = rot s in let s = k_xor spkey 16 s in let s
        = sb0 s in
      let s = rot s in let s = k_xor spkey 17 s in let s = sb1 s in let s = rot s in let s = k_xor
        spkey 18 s in
      let s = sb2 s in let s = rot s in let s = k_xor spkey 19 s in let s = sb3 s in let s = rot s in
      let s = k_xor spkey 20 s in let s = sb4 s in let s = rot s in let s = k_xor spkey 21 s in let s
        = sb5 s in
      let s = rot s in let s = k_xor spkey 22 s in let s = sb6 s in let s = rot s in let s = k_xor
        spkey 23 s in
      let s = sb7 s in let s = rot s in let s = k_xor spkey 24 s in let s = sb0 s in let s = rot s in
      let s = k_xor spkey 25 s in let s = sb1 s in let s = rot s in let s = k_xor spkey 26 s in let s
        = sb2 s in
      let s = rot s in let s = k_xor spkey 27 s in let s = sb3 s in let s = rot s in let s = k_xor
        spkey 28 s in
      let s = sb4 s in let s = rot s in let s = k_xor spkey 29 s in let s = sb5 s in let s = rot s in
      let s = k_xor spkey 30 s in let s = sb6 s in let s = rot s in let s = k_xor spkey 31 s in let s
        = sb7 s in
      let s = k_xor spkey 32 s in
      store_block s)"

definition serpent_ecb_decrypt :: "byte list \<Rightarrow> u32 list \<Rightarrow> byte list" where
  "serpent_ecb_decrypt ct spkey =
     (let s = load_block ct in
      let s = k_xor spkey 32 s in let s = ib7 s in let s = k_xor spkey 31 s in let s = irot s in let s
        = ib6 s in
      let s = k_xor spkey 30 s in let s = irot s in let s = ib5 s in let s = k_xor spkey 29 s in let s
        = irot s in
      let s = ib4 s in let s = k_xor spkey 28 s in let s = irot s in let s = ib3 s in let s = k_xor
        spkey 27 s in
      let s = irot s in let s = ib2 s in let s = k_xor spkey 26 s in let s = irot s in let s = ib1 s
        in
      let s = k_xor spkey 25 s in let s = irot s in let s = ib0 s in let s = k_xor spkey 24 s in let s
        = irot s in
      let s = ib7 s in let s = k_xor spkey 23 s in let s = irot s in let s = ib6 s in let s = k_xor
        spkey 22 s in
      let s = irot s in let s = ib5 s in let s = k_xor spkey 21 s in let s = irot s in let s = ib4 s
        in
      let s = k_xor spkey 20 s in let s = irot s in let s = ib3 s in let s = k_xor spkey 19 s in let s
        = irot s in
      let s = ib2 s in let s = k_xor spkey 18 s in let s = irot s in let s = ib1 s in let s = k_xor
        spkey 17 s in
      let s = irot s in let s = ib0 s in let s = k_xor spkey 16 s in let s = irot s in let s = ib7 s
        in
      let s = k_xor spkey 15 s in let s = irot s in let s = ib6 s in let s = k_xor spkey 14 s in let s
        = irot s in
      let s = ib5 s in let s = k_xor spkey 13 s in let s = irot s in let s = ib4 s in let s = k_xor
        spkey 12 s in
      let s = irot s in let s = ib3 s in let s = k_xor spkey 11 s in let s = irot s in let s = ib2 s
        in
      let s = k_xor spkey 10 s in let s = irot s in let s = ib1 s in let s = k_xor spkey 9 s in let s
        = irot s in
      let s = ib0 s in let s = k_xor spkey 8 s in let s = irot s in let s = ib7 s in let s = k_xor
        spkey 7 s in
      let s = irot s in let s = ib6 s in let s = k_xor spkey 6 s in let s = irot s in let s = ib5 s in
      let s = k_xor spkey 5 s in let s = irot s in let s = ib4 s in let s = k_xor spkey 4 s in let s =
        irot s in
      let s = ib3 s in let s = k_xor spkey 3 s in let s = irot s in let s = ib2 s in let s = k_xor
        spkey 2 s in
      let s = irot s in let s = ib1 s in let s = k_xor spkey 1 s in let s = irot s in let s = ib0 s in
      let s = k_xor spkey 0 s in
      store_block s)"

definition serpent_keysize :: "nat \<Rightarrow> crypt_error + nat" where
  "serpent_keysize keysize =
     (if keysize < 16 then Inl CRYPT_INVALID_KEYSIZE
      else if keysize < 24 then Inr 16
      else if keysize < 32 then Inr 24
      else Inr 32)"

section \<open>The S-boxes as tables\<close>

text \<open>
  The cipher's definition gives each S-box as a permutation of the sixteen nibbles; in the
  bit-sliced code bit position \<^verbatim>\<open>n\<close> of the four words holds one nibble.
\<close>

type_synonym nibble = "bool \<times> bool \<times> bool \<times> bool"

fun slice :: "nat \<Rightarrow> quad \<Rightarrow> nibble" where
  "slice n (a, b, c, d) = (bit a n, bit b n, bit c n, bit d n)"

fun nibble_val :: "nibble \<Rightarrow> nat" where
  "nibble_val (p, q, r, s) = of_bool p + 2 * of_bool q + 4 * of_bool r + 8 * of_bool s"

definition nibble_of :: "nat \<Rightarrow> nibble" where
  "nibble_of v = (odd v, odd (v div 2), odd (v div 4), odd (v div 8))"

definition lookup :: "nat list \<Rightarrow> nibble \<Rightarrow> nibble" where
  "lookup t x = nibble_of (t ! nibble_val x)"

definition sbox_table :: "nat \<Rightarrow> nat list" where
  "sbox_table i = [
    [3, 8, 15, 1, 10, 6, 5, 11, 14, 13, 4, 2, 7, 0, 9, 12],
    [15, 12, 2, 7, 9, 0, 5, 10, 1, 11, 14, 8, 6, 13, 3, 4],
    [8, 6, 7, 9, 3, 12, 10, 15, 13, 1, 14, 4, 0, 11, 5, 2],
    [0, 15, 11, 8, 12, 9, 6, 3, 13, 1, 2, 4, 10, 7, 5, 14],
    [1, 15, 8, 3, 12, 0, 11, 6, 2, 5, 4, 10, 9, 14, 7, 13],
    [15, 5, 2, 11, 4, 10, 9, 12, 0, 3, 14, 8, 13, 6, 7, 1],
    [7, 2, 12, 5, 8, 4, 6, 11, 14, 9, 1, 15, 13, 3, 10, 0],
    [1, 13, 15, 0, 14, 8, 2, 11, 7, 4, 12, 10, 9, 3, 5, 6]] ! i"

definition sbox_inverse :: "nat \<Rightarrow> nat list" where
  "sbox_inverse i = map (\<lambda>v. length (takeWhile (\<lambda>w. w \<noteq> v) (sbox_table i)))
    [0..<16]"

definition sbox_fun :: "nat \<Rightarrow> quad \<Rightarrow> quad" where
  "sbox_fun i = [sb0, sb1, sb2, sb3, sb4, sb5, sb6, sb7] ! i"

definition ibox_fun :: "nat \<Rightarrow> quad \<Rightarrow> quad" where
  "ibox_fun i = [ib0, ib1, ib2, ib3, ib4, ib5, ib6, ib7] ! i"

lemma quad_eqI: "(\<And>n. n < 32 \<Longrightarrow> slice n x = slice n y) \<Longrightarrow> x =
  (y :: quad)"
  by (cases x; cases y) (auto intro!: bit_word_eqI)

lemmas nibble_table = lookup_def nibble_of_def sbox_table_def

lemma slice_sb_words:
  assumes "n < 32"
  shows "slice n (sb0 (a, b, c, d)) = lookup (sbox_table 0) (slice n (a, b, c, d))"
    and "slice n (sb1 (a, b, c, d)) = lookup (sbox_table 1) (slice n (a, b, c, d))"
    and "slice n (sb2 (a, b, c, d)) = lookup (sbox_table 2) (slice n (a, b, c, d))"
    and "slice n (sb3 (a, b, c, d)) = lookup (sbox_table 3) (slice n (a, b, c, d))"
    and "slice n (sb4 (a, b, c, d)) = lookup (sbox_table 4) (slice n (a, b, c, d))"
    and "slice n (sb5 (a, b, c, d)) = lookup (sbox_table 5) (slice n (a, b, c, d))"
    and "slice n (sb6 (a, b, c, d)) = lookup (sbox_table 6) (slice n (a, b, c, d))"
    and "slice n (sb7 (a, b, c, d)) = lookup (sbox_table 7) (slice n (a, b, c, d))"
  using assms
  by (simp add: Let_def bit_simps;
      cases "bit a n"; cases "bit b n"; cases "bit c n"; cases "bit d n"; simp add: nibble_table)+

lemmas slice_sb = slice_sb_words [of _ "fst s" "fst (snd s)" "fst (snd (snd s))" "snd (snd (snd s))"
  for s, unfolded prod.collapse]

lemma sbox_inverse_table:
  "sbox_inverse 0 = [13, 3, 11, 0, 10, 6, 5, 12, 1, 14, 4, 7, 15, 9, 8, 2]"
  "sbox_inverse 1 = [5, 8, 2, 14, 15, 6, 12, 3, 11, 4, 7, 9, 1, 13, 10, 0]"
  "sbox_inverse 2 = [12, 9, 15, 4, 11, 14, 1, 2, 0, 3, 6, 13, 5, 8, 10, 7]"
  "sbox_inverse 3 = [0, 9, 10, 7, 11, 14, 6, 13, 3, 5, 12, 2, 4, 8, 15, 1]"
  "sbox_inverse 4 = [5, 0, 8, 3, 10, 9, 7, 14, 2, 12, 11, 6, 4, 15, 13, 1]"
  "sbox_inverse 5 = [8, 15, 2, 9, 4, 1, 13, 14, 11, 6, 5, 3, 7, 12, 10, 0]"
  "sbox_inverse 6 = [15, 10, 1, 13, 5, 3, 6, 0, 4, 9, 14, 7, 2, 12, 8, 11]"
  "sbox_inverse 7 = [3, 0, 6, 13, 9, 14, 15, 8, 5, 12, 11, 7, 10, 1, 4, 2]"
  by code_simp+

lemmas nibble_inverse = lookup_def nibble_of_def sbox_inverse_table

lemma slice_ib_words:
  assumes "n < 32"
  shows "slice n (ib0 (a, b, c, d)) = lookup (sbox_inverse 0) (slice n (a, b, c, d))"
    and "slice n (ib1 (a, b, c, d)) = lookup (sbox_inverse 1) (slice n (a, b, c, d))"
    and "slice n (ib2 (a, b, c, d)) = lookup (sbox_inverse 2) (slice n (a, b, c, d))"
    and "slice n (ib3 (a, b, c, d)) = lookup (sbox_inverse 3) (slice n (a, b, c, d))"
    and "slice n (ib4 (a, b, c, d)) = lookup (sbox_inverse 4) (slice n (a, b, c, d))"
    and "slice n (ib5 (a, b, c, d)) = lookup (sbox_inverse 5) (slice n (a, b, c, d))"
    and "slice n (ib6 (a, b, c, d)) = lookup (sbox_inverse 6) (slice n (a, b, c, d))"
    and "slice n (ib7 (a, b, c, d)) = lookup (sbox_inverse 7) (slice n (a, b, c, d))"
  using assms
  by (simp add: Let_def bit_simps del: One_nat_def;
      cases "bit a n"; cases "bit b n"; cases "bit c n"; cases "bit d n"; simp add: nibble_inverse
        del: One_nat_def)+

lemmas slice_ib = slice_ib_words [of _ "fst s" "fst (snd s)" "fst (snd (snd s))" "snd (snd (snd s))"
  for s, unfolded prod.collapse]

lemma lookup_inverse:
  assumes "i < 8"
  shows "lookup (sbox_inverse i) (lookup (sbox_table i) x) = x"
    and "lookup (sbox_table i) (lookup (sbox_inverse i) x) = x"
proof -
  obtain p q r s where x: "x = (p, q, r, s)" by (cases x)
  have i: "i = 0 \<or> i = 1 \<or> i = 2 \<or> i = 3 \<or> i = 4 \<or> i = 5 \<or> i = 6 \<or> i =
    7"
    using assms by linarith
  show "lookup (sbox_inverse i) (lookup (sbox_table i) x) = x"
    using i unfolding x
    by (elim disjE; cases p; cases q; cases r; cases s;
        simp add: nibble_table sbox_inverse_table del: One_nat_def)
  show "lookup (sbox_table i) (lookup (sbox_inverse i) x) = x"
    using i unfolding x
    by (elim disjE; cases p; cases q; cases r; cases s;
        simp add: nibble_table sbox_inverse_table del: One_nat_def)
qed

lemma ib_sb [inverses, simp]:
  "ib0 (sb0 s) = s" "ib1 (sb1 s) = s" "ib2 (sb2 s) = s" "ib3 (sb3 s) = s"
  "ib4 (sb4 s) = s" "ib5 (sb5 s) = s" "ib6 (sb6 s) = s" "ib7 (sb7 s) = s"
  by (rule quad_eqI, simp only: slice_ib slice_sb lookup_inverse)+

lemma sb_ib [inverses, simp]:
  "sb0 (ib0 s) = s" "sb1 (ib1 s) = s" "sb2 (ib2 s) = s" "sb3 (ib3 s) = s"
  "sb4 (ib4 s) = s" "sb5 (ib5 s) = s" "sb6 (ib6 s) = s" "sb7 (ib7 s) = s"
  by (rule quad_eqI, simp only: slice_ib slice_sb lookup_inverse)+

section \<open>Rounds cancel\<close>

lemma xor_undo [inverses]: "(x XOR y XOR z) XOR y XOR z = (x :: 'a::len word)"
  by (simp add: xor.assoc xor.left_commute xor.commute)

lemma irot_rot [inverses, simp]: "irot (rot s) = s"
  by (cases s) (simp add: Let_def xor_undo)

lemma rot_irot [inverses, simp]: "rot (irot s) = s"
  by (cases s) (simp add: Let_def xor_undo)

lemma k_xor_k_xor [inverses, simp]: "k_xor l_key r (k_xor l_key r s) = s"
  by (cases s) simp

lemma load_store_block [load_store, simp]: "load_block (store_block s) = s"
  by (cases s) (simp add: load_block_def LOAD32L_quad)

lemma store_load_block [load_store]: "length p = 16 \<Longrightarrow> store_block (load_block p)
  = p"
  by (simp add: load_block_def STORE32L_quad)

lemma length_store_block [lengths, simp]: "length (store_block s) = 16"
  by (cases s) simp

lemma serpent_encrypt_length [lengths]: "length (serpent_ecb_encrypt pt l_key) = 16"
  unfolding serpent_ecb_encrypt_def Let_def by (simp only: length_store_block)

text \<open>
  C21: for every key schedule, decryption undoes encryption of a block and encryption undoes
  decryption: both permute the blocks of 16 bytes.
\<close>
theorem serpent_roundtrip:
  assumes "length block = 16"
  shows "serpent_ecb_decrypt (serpent_ecb_encrypt block l_key) l_key = block \<and>
         serpent_ecb_encrypt (serpent_ecb_decrypt block l_key) l_key = block"
  unfolding serpent_ecb_decrypt_def serpent_ecb_encrypt_def Let_def
  by (simp_all only: load_store_block k_xor_k_xor ib_sb sb_ib irot_rot rot_irot
        store_load_block [OF assms] simp_thms)

theorem serpent_roundtrip_witness:
  "serpent_ecb_decrypt (serpent_ecb_encrypt (replicate 16 7) (replicate 140 5)) (replicate 140 5)
    = replicate 16 7 \<and>
   serpent_ecb_encrypt (serpent_ecb_decrypt (replicate 16 7) (replicate 140 5)) (replicate 140 5) =
     replicate 16 7"
  by (rule serpent_roundtrip) simp

section \<open>The specification by rounds\<close>

definition word_of_bits :: "(nat \<Rightarrow> bool) \<Rightarrow> u32" where
  "word_of_bits f = horner_sum of_bool 2 (map f [0..<32])"

definition sbox_spec :: "nat \<Rightarrow> quad \<Rightarrow> quad" where
  "sbox_spec i s =
     (let out = (\<lambda>n. lookup (sbox_table i) (slice n s)) in
      (word_of_bits (\<lambda>n. fst (out n)), word_of_bits (\<lambda>n. fst (snd (out n))),
       word_of_bits (\<lambda>n. fst (snd (snd (out n)))), word_of_bits (\<lambda>n. snd (snd (snd (out
         n))))))"

definition serpent_rounds :: "u32 list \<Rightarrow> quad \<Rightarrow> quad" where
  "serpent_rounds l_key s =
     k_xor l_key 32 (sbox_spec 7 (k_xor l_key 31
       (fold (\<lambda>r s. rot (sbox_spec (r mod 8) (k_xor l_key r s))) [0..<31] s)))"

lemma slice_sbox_spec: "n < 32 \<Longrightarrow> slice n (sbox_spec i s) = lookup (sbox_table i)
  (slice n s)"
  by (simp add: sbox_spec_def word_of_bits_def Let_def bit_horner_sum_bit_word_iff)

lemma sbox_spec_sb:
  "sbox_spec 0 = sb0" "sbox_spec 1 = sb1" "sbox_spec 2 = sb2" "sbox_spec 3 = sb3"
  "sbox_spec 4 = sb4" "sbox_spec 5 = sb5" "sbox_spec 6 = sb6" "sbox_spec 7 = sb7"
  by (rule ext, rule quad_eqI, simp only: slice_sbox_spec slice_sb)+

lemma upt31: "[0..<31::nat] =
  [0,1,2,3,4,5,6,7,8,9,10,11,12,13,14,15,16,17,18,19,20,21,22,23,24,25,26,27,28,29,30]"
  by code_simp

text \<open>
  C22: the unrolled encryption is the 32-round cipher of the Serpent definition: key mixing, the
  S-box table \<^verbatim>\<open>r mod 8\<close> at every bit position and the linear
    transformation, with a last
  key mixing in its place in round 31.
\<close>
theorem serpent_encrypt_rounds:
  "serpent_ecb_encrypt pt l_key = store_block (serpent_rounds l_key (load_block pt))"
  unfolding serpent_ecb_encrypt_def serpent_rounds_def Let_def upt31
  by (simp add: sbox_spec_sb del: One_nat_def)

section \<open>The key schedule\<close>

lemma nth_fold_update:
  "b \<le> length l \<Longrightarrow>
   length (fold (\<lambda>i l. l[i := f i]) [a..<b] l) = length l \<and>
   (\<forall>j < length l. fold (\<lambda>i l. l[i := f i]) [a..<b] l ! j = (if a \<le> j \<and> j
     < b then f j else l ! j))"
proof (induction b)
  case (Suc b)
  then show ?case
    by (cases "a \<le> b") (auto simp: nth_list_update less_Suc_eq)
qed simp

lemma length_k_get [lengths, simp]: "length (k_get r s l) = length l"
  by (cases s) simp

lemma length_serpent_expand [lengths, simp]: "length (serpent_expand i l) = length l"
  by (simp add: serpent_expand_def Let_def)

lemma serpent_expand_prefix:
  assumes "take (i + 8) l = take (i + 8) l'" "length l' = length l"
  shows "take (Suc i + 8) (serpent_expand i l) = take (Suc i + 8) (serpent_expand i l')"
proof -
  have eq: "l ! k = l' ! k" if "k < i + 8" for k
    using that assms by (metis nth_take)
  obtain w where w: "serpent_expand i l = l[i + 8 := w]" "serpent_expand i l' = l'[i + 8 := w]"
    by (simp add: serpent_expand_def Let_def eq)
  have "l[i + 8 := w] ! k = l'[i + 8 := w] ! k" if "k < length l" "k < Suc i + 8" for k
    using that assms(2) by (cases "k = i + 8") (simp_all add: eq)
  then show ?thesis
    unfolding w by (intro nth_equalityI) (simp_all add: assms(2))
qed

lemma serpent_expand_all:
  assumes "take 8 l = take 8 l'" "length l = 140" "length l' = 140"
  shows "fold serpent_expand [0..<132] l = fold serpent_expand [0..<132] l'"
proof -
  let ?f = "\<lambda>n. fold serpent_expand [0..<n]"
  have "take (n + 8) (?f n l) = take (n + 8) (?f n l') \<and>
        length (?f n l) = 140 \<and> length (?f n l') = 140" for n
  proof (induction n)
    case (Suc n)
    then show ?case
      using serpent_expand_prefix [of n "?f n l" "?f n l'"]
      by simp
  qed (use assms in simp)
  then have "take 140 (?f 132 l) = take 140 (?f 132 l') \<and> length (?f 132 l) = 140 \<and>
    length (?f 132 l') = 140"
    by (rule subst [of "132 + 8" 140, rotated]) simp
  then show ?thesis
    by (metis take_all order_refl)
qed

text \<open>The padding of the Serpent definition: one bit, then zeros up to 256 bits.\<close>

definition serpent_pad :: "byte list \<Rightarrow> byte list" where
  "serpent_pad key = (if length key < 32 then key @ 1 # replicate (31 - length key) 0 else key)"

lemma nth_serpent_pad:
  "length key \<le> 32 \<Longrightarrow> i < 32 \<Longrightarrow>
   serpent_pad key ! i = (if i < length key then key ! i else if i = length key then 1 else 0)"
  by (auto simp: serpent_pad_def nth_append nth_Cons split: nat.splits)

lemma length_serpent_pad [lengths, simp]: "length key \<le> 32 \<Longrightarrow> length
  (serpent_pad key) = 32"
  by (auto simp: serpent_pad_def)

text \<open>The last, partly filled word: the mask keeps the low bytes and the 1 bit follows
  them.\<close>

lemma pad_word_bits:
  assumes "r < (4::nat)"
  shows "((push_bit 24 (ucast x3) OR push_bit 16 (ucast x2) OR push_bit 8 (ucast x1) OR ucast (x0
    :: byte)) AND
           (push_bit (8 * r) 1 - 1)) OR push_bit (8 * r) 1 =
         (push_bit 24 (ucast (if r = 3 then 1 else 0 :: byte)) OR
          push_bit 16 (ucast (if 2 < r then x2 else if r = 2 then 1 else 0 :: byte)) OR
          push_bit 8 (ucast (if 1 < r then x1 else if r = 1 then 1 else 0 :: byte)) OR
          ucast (if 0 < r then x0 else 1) :: u32)" (is "?l = ?r")
proof (rule bit_word_eqI)
  fix n :: nat
  assume "n < LENGTH(32)"
  then consider "n < 8" | "8 \<le> n" "n < 16" | "16 \<le> n" "n < 24" | "24 \<le> n" "n < 32"
    by fastforce
  note n = this
  have m: "push_bit (8 * r) 1 - 1 = (mask (8 * r) :: u32)"
    by (simp add: mask_eq_exp_minus_1 push_bit_eq_mult)
  consider "r = 0" | "r = 1" | "r = 2" | "r = 3"
    using assms by linarith
  then show "bit ?l n = bit ?r n"
    unfolding m by cases (rule n; auto simp: bit_simps dest: bit_imp_le_length)+
qed

lemma length_serpent_load_key:
  "key_len \<le> 32 \<Longrightarrow> length l = 140 \<Longrightarrow> length (serpent_load_key
    key (key_len * 8) l) = 140"
  by (simp add: serpent_load_key_def Let_def nth_fold_update)

lemma serpent_load_key_nth:
  assumes kl: "key_len = 4 * q + r" "r < 4" "key_len < 32" and l: "length l = 140" and j: "j < 8"
  shows "serpent_load_key key (key_len * 8) l ! j =
    (if j < q then LOAD32L key (4 * j)
     else if j = q then ((if r = 0 then 0 else LOAD32L key (4 * q)) AND (push_bit (8 * r) 1 - 1)) OR
       push_bit (8 * r) 1
     else 0)"
proof -
  have q: "q < 8" using kl by linarith
  have d: "(key_len * 8 + 31) div 32 = (if r = 0 then q else Suc q)" "key_len * 8 div 32 = q"
    "key_len * 8 mod 32 = 8 * r"
    using kl by (auto simp: kl(1))
  show ?thesis
    using kl(3) q j
    by (simp add: serpent_load_key_def Let_def d nth_fold_update l nth_list_update del:
      push_bit_Suc)
qed

lemma serpent_load_key_words:
  assumes kl: "key_len \<le> 32" and key: "4 * ((key_len + 3) div 4) \<le> length key"
    and l: "length l = 140" and j: "j < 8"
  shows "serpent_load_key key (key_len * 8) l ! j = LOAD32L (serpent_pad (take key_len key)) (4 *
    j)"
proof (cases "key_len = 32")
  case True
  then have "serpent_pad (take key_len key) = take 32 key"
    using key by (simp add: serpent_pad_def)
  then show ?thesis
    using True key j l by (simp add: serpent_load_key_def Let_def nth_fold_update LOAD32L_def)
next
  case False
  obtain q r where qr: "key_len = 4 * q + r" "r < 4"
    by (metis mult.commute div_mult_mod_eq mod_less_divisor zero_less_numeral)
  have d: "(key_len + 3) div 4 = (if r = 0 then q else Suc q)"
    using qr by auto
  have key': "4 * j + 3 < length key" if "j < q \<or> (j = q \<and> r > 0)"
    using that key qr unfolding d by (auto split: if_splits)
  let ?k = "take key_len key"
  have len: "length ?k = key_len"
    using key qr unfolding d by (auto split: if_splits)
  have pad: "serpent_pad ?k ! i = (if i < key_len then key ! i else if i = key_len then 1 else 0)"
    if "i < 32" for i
    using nth_serpent_pad [of ?k i] that kl len by auto
  have word: "LOAD32L (serpent_pad ?k) (4 * j) =
      push_bit 24 (ucast (b 3)) OR push_bit 16 (ucast (b 2)) OR push_bit 8 (ucast (b 1)) OR ucast (b
        0)"
    if "\<And>k. k < 4 \<Longrightarrow> serpent_pad ?k ! (4 * j + k) = b k" for b :: "nat
      \<Rightarrow> byte"
    using that [of 0] that [of 1] that [of 2] that [of 3] by (simp add: LOAD32L_def)
  note load = serpent_load_key_nth [OF qr _ l j, of key]
  consider "j < q" | "j = q" | "q < j" by linarith
  then show ?thesis
  proof cases
    case 1
    then have "serpent_pad ?k ! (4 * j + k) = key ! (4 * j + k)" if "k < 4" for k
      using pad [of "4 * j + k"] that qr kl j by simp
    from word [OF this] show ?thesis
      using 1 load False kl by (simp add: LOAD32L_def)
  next
    case 2
    have "serpent_pad ?k ! (4 * j + k) = (if k < r then key ! (4 * q + k) else if k = r then 1 else
      0)" if "k < 4" for k
      using pad [of "4 * j + k"] that qr kl 2 j by simp
    note w = word [OF this]
    show ?thesis
      using 2 load False kl w qr(2)
        pad_word_bits [OF qr(2), of "key ! (4 * q + 3)" "key ! (4 * q + 2)" "key ! (4 * q + 1)" "key !
          (4 * q)"]
      by (auto simp: LOAD32L_def)
  next
    case 3
    then have "serpent_pad ?k ! (4 * j + k) = 0" if "k < 4" for k
      using pad [of "4 * j + k"] that qr kl j by simp
    from word [OF this] show ?thesis
      using 3 load False kl by simp
  qed
qed

text \<open>
  \<^verbatim>\<open>serpent_setup\<close> refuses keys of more than 32 bytes and otherwise
    builds the schedule of the
  key padded to 256 bits, whatever the schedule array held before, whatever the memory behind
  the key holds and whatever number of rounds is asked for.
\<close>
theorem serpent_setup_pads:
  assumes "length l_key = 140" "length l_key' = 140" "4 * ((key_len + 3) div 4) \<le> length key"
  shows "serpent_setup key key_len num_rounds l_key =
    (if 32 < key_len then Inl CRYPT_INVALID_KEYSIZE
     else serpent_setup (serpent_pad (take key_len key)) 32 num_rounds' l_key')"
proof (cases "32 < key_len")
  case False
  let ?p = "serpent_pad (take key_len key)"
  have kl: "key_len \<le> 32" using False by simp
  have len: "length ?p = 32" using kl by simp
  have p: "serpent_pad (take 32 ?p) = ?p"
    using len by (simp add: serpent_pad_def [of ?p])
  have "serpent_load_key key (key_len * 8) l_key ! j = serpent_load_key ?p (32 * 8) l_key' ! j" if
    "j < 8" for j
    using serpent_load_key_words [OF kl assms(3,1) that]
      serpent_load_key_words [of 32 ?p l_key' j] that len p assms(2) by simp
  then have "take 8 (serpent_load_key key (key_len * 8) l_key) = take 8 (serpent_load_key ?p (32 *
    8) l_key')"
    using length_serpent_load_key [OF kl assms(1)] length_serpent_load_key [OF order_refl assms(2)]
    by (intro nth_equalityI) simp_all
  from serpent_expand_all [OF this length_serpent_load_key length_serpent_load_key] show ?thesis
    using False kl assms(1,2) by (simp add: serpent_setup_def Let_def)
qed (simp add: serpent_setup_def)

theorem serpent_setup_pads_witness:
  "serpent_setup [1, 2, 3, 4, 5, 99, 98, 97] 5 7 (replicate 140 11) =
   serpent_setup (serpent_pad [1, 2, 3, 4, 5]) 32 0 (replicate 140 0)"
  using serpent_setup_pads [of "replicate 140 11" "replicate 140 0" 5 "[1, 2, 3, 4, 5, 99, 98,
    97]" 7 0]
  by simp

end
