(* ===== verification/Twofish.thy ===== *)
theory Twofish
  imports Tomcrypt
begin

text \<open>
  The Twofish block cipher of \<^verbatim>\<open>Compression/_Encryption/ciphers/twofish/twofish.c\<close>.  The source
  holds two variants: the scheduled key of the large variant stores the four key-dependent
  S-boxes as tables of 256 words, the small variant (\<^verbatim>\<open>LTC_TWOFISH_SMALL\<close>) recomputes them.
  Both are modelled and proved equal.  \<^verbatim>\<open>sbox\<close> and \<^verbatim>\<open>mds_column_mult\<close> are the computed
  versions of the file; the tables that can replace them are in a file the repository does not
  have.
\<close>

section \<open>Tables\<close>

definition MDS_POLY :: u32 where "MDS_POLY = 361"
definition RS_POLY :: u32 where "RS_POLY = 333"

definition MDS :: "byte list list" where
  "MDS = [[1, 239, 91, 91], [91, 239, 239, 1], [239, 91, 1, 239], [239, 1, 239, 91]]"

definition RS :: "byte list list" where
  "RS = [[1, 164, 85, 135, 90, 88, 219, 158],
         [164, 86, 130, 243, 30, 198, 104, 229],
         [2, 161, 252, 193, 71, 174, 61, 25],
         [164, 85, 135, 90, 88, 219, 158, 3]]"

definition qord :: "nat list list" where
  "qord = [[1, 1, 0, 0, 1], [0, 1, 1, 0, 0], [0, 0, 0, 1, 1], [1, 0, 1, 1, 0]]"

definition qbox :: "byte list list list" where
  "qbox =
    [[[8, 1, 7, 13, 6, 15, 3, 2, 0, 11, 5, 9, 14, 12, 10, 4],
      [14, 12, 11, 8, 1, 2, 3, 5, 15, 4, 10, 6, 7, 0, 9, 13],
      [11, 10, 5, 14, 6, 13, 9, 0, 12, 8, 15, 3, 2, 4, 7, 1],
      [13, 7, 15, 4, 1, 2, 6, 14, 9, 11, 3, 0, 8, 5, 12, 10]],
     [[2, 8, 11, 13, 15, 7, 6, 14, 3, 1, 9, 4, 0, 10, 12, 5],
      [1, 14, 2, 11, 4, 12, 3, 7, 6, 13, 10, 5, 15, 9, 0, 8],
      [4, 12, 7, 5, 1, 6, 9, 10, 0, 14, 13, 8, 2, 11, 3, 15],
      [11, 9, 5, 1, 12, 3, 13, 14, 6, 4, 7, 15, 2, 0, 8, 10]]]"

section \<open>Substitution and the two linear transforms\<close>

definition sbox :: "nat \<Rightarrow> u32 \<Rightarrow> u32" where
  "sbox i x =
     (let a0 = ucast (drop_bit 4 x AND 15) :: byte;
          b0 = ucast (x AND 15) :: byte;
          a1 = a0 XOR b0;
          b1 = (a0 XOR (push_bit 3 b0 OR drop_bit 1 b0) XOR push_bit 3 a0) AND 15;
          a2 = qbox ! i ! 0 ! unat a1;
          b2 = qbox ! i ! 1 ! unat b1;
          a3 = a2 XOR b2;
          b3 = (a2 XOR (push_bit 3 b2 OR drop_bit 1 b2) XOR push_bit 3 a2) AND 15;
          a4 = qbox ! i ! 2 ! unat a3;
          b4 = qbox ! i ! 3 ! unat b3;
          y = push_bit 4 b4 + a4
      in ucast y)"

text \<open>One line of the unrolled multiplier; \<^verbatim>\<open>B[0]\<close> and \<^verbatim>\<open>P[0]\<close> stay 0.\<close>

fun gf_step :: "u32 \<Rightarrow> u32 \<times> u32 \<times> u32 \<Rightarrow> u32 \<times> u32 \<times> u32" where
  "gf_step p (result, a, b) =
     (result XOR [0, b] ! unat (a AND 1), drop_bit 1 a, [0, p] ! unat (drop_bit 7 b) XOR push_bit 1 b)"

definition gf_mult :: "u32 \<Rightarrow> u32 \<Rightarrow> u32 \<Rightarrow> u32" where
  "gf_mult a b p =
     (let (result, a, b) = (gf_step p ^^ 7) (0, a, b)
      in result XOR [0, b] ! unat (a AND 1))"

definition mds_column_mult :: "byte \<Rightarrow> nat \<Rightarrow> u32" where
  "mds_column_mult x col =
     (let x01 = ucast x;
          x5B = gf_mult (ucast x) 91 MDS_POLY;
          xEF = gf_mult (ucast x) 239 MDS_POLY
      in if col = 0 then x01 OR push_bit 8 x5B OR push_bit 16 xEF OR push_bit 24 xEF
         else if col = 1 then xEF OR push_bit 8 xEF OR push_bit 16 x5B OR push_bit 24 x01
         else if col = 2 then x5B OR push_bit 8 xEF OR push_bit 16 x01 OR push_bit 24 xEF
         else if col = 3 then x5B OR push_bit 8 x01 OR push_bit 16 xEF OR push_bit 24 x5B
         else 0)"

definition mds_mult :: "byte list \<Rightarrow> byte list" where
  "mds_mult xs = STORE32L (fold (\<lambda>x tmp. tmp XOR mds_column_mult (xs ! x) x) [0..<4] 0)"

definition rs_mult :: "byte list \<Rightarrow> byte list" where
  "rs_mult xs =
     map (\<lambda>x. fold (\<lambda>y out. out XOR ucast (gf_mult (ucast (xs ! y)) (ucast (RS ! x ! y)) RS_POLY)) [0..<8] 0) [0..<4]"

section \<open>The function h\<close>

text \<open>
  The three cases of the \<^verbatim>\<open>switch\<close> fall through: \<^verbatim>\<open>k = 4\<close> runs all three, \<^verbatim>\<open>k = 3\<close> the last two.
\<close>

definition sub8 :: "nat \<Rightarrow> byte \<Rightarrow> byte \<Rightarrow> byte" where
  "sub8 i y m = ucast (sbox i (ucast y) XOR ucast m)"

definition h_case4 :: "byte list \<Rightarrow> byte list \<Rightarrow> nat \<Rightarrow> byte list" where
  "h_case4 y M offset =
     [sub8 1 (y ! 0) (M ! (4 * (6 + offset) + 0)), sub8 0 (y ! 1) (M ! (4 * (6 + offset) + 1)),
      sub8 0 (y ! 2) (M ! (4 * (6 + offset) + 2)), sub8 1 (y ! 3) (M ! (4 * (6 + offset) + 3))]"

definition h_case3 :: "byte list \<Rightarrow> byte list \<Rightarrow> nat \<Rightarrow> byte list" where
  "h_case3 y M offset =
     [sub8 1 (y ! 0) (M ! (4 * (4 + offset) + 0)), sub8 1 (y ! 1) (M ! (4 * (4 + offset) + 1)),
      sub8 0 (y ! 2) (M ! (4 * (4 + offset) + 2)), sub8 0 (y ! 3) (M ! (4 * (4 + offset) + 3))]"

definition sub8_2 :: "nat \<Rightarrow> nat \<Rightarrow> nat \<Rightarrow> byte \<Rightarrow> byte \<Rightarrow> byte \<Rightarrow> byte" where
  "sub8_2 i j k y m n = ucast (sbox i (sbox j (sbox k (ucast y) XOR ucast m) XOR ucast n))"

definition h_case2 :: "byte list \<Rightarrow> byte list \<Rightarrow> nat \<Rightarrow> byte list" where
  "h_case2 y M offset =
     [sub8_2 1 0 0 (y ! 0) (M ! (4 * (2 + offset) + 0)) (M ! (4 * (0 + offset) + 0)),
      sub8_2 0 0 1 (y ! 1) (M ! (4 * (2 + offset) + 1)) (M ! (4 * (0 + offset) + 1)),
      sub8_2 1 1 0 (y ! 2) (M ! (4 * (2 + offset) + 2)) (M ! (4 * (0 + offset) + 2)),
      sub8_2 0 1 1 (y ! 3) (M ! (4 * (2 + offset) + 3)) (M ! (4 * (0 + offset) + 3))]"

definition h_func :: "byte list \<Rightarrow> byte list \<Rightarrow> nat \<Rightarrow> nat \<Rightarrow> byte list" where
  "h_func xs M k offset =
     (let y = take 4 xs;
          y = (if k = 4 then h_case4 y M offset else y);
          y = (if k = 4 \<or> k = 3 then h_case3 y M offset else y);
          y = (if k = 4 \<or> k = 3 \<or> k = 2 then h_case2 y M offset else y)
      in mds_mult y)"

section \<open>Scheduled keys\<close>

record twofish_key =
  tf_S :: "u32 list list"
  tf_K :: "u32 list"

record twofish_small_key =
  ts_S :: "byte list"
  ts_K :: "u32 list"
  ts_start :: nat

definition tf_rs_words :: "byte list \<Rightarrow> nat \<Rightarrow> byte list" where
  "tf_rs_words M k = concat (map (\<lambda>x. rs_mult (drop (x * 8) M)) [0..<k])"

definition tf_subkeys :: "byte list \<Rightarrow> nat \<Rightarrow> u32 list" where
  "tf_subkeys M k = concat (map (\<lambda>x.
     let A = LOAD32L (h_func (replicate 4 (word_of_nat (x + x))) M k 0) 0;
         B = LOAD32L (h_func (replicate 4 (word_of_nat (x + x + 1))) M k 1) 0;
         B = ROL B 8
     in [A + B, ROL (B + B + A) 9]) [0..<20])"

definition tf_sboxes :: "byte list \<Rightarrow> nat \<Rightarrow> u32 list list" where
  "tf_sboxes S k =
    (let tmpx0 = (\<lambda>x. ucast (sbox 0 (word_of_nat x)) :: byte);
         tmpx1 = (\<lambda>x. ucast (sbox 1 (word_of_nat x)) :: byte);
         q = (\<lambda>i x j. sbox i (x XOR ucast (S ! j)));
         col = (\<lambda>c f. map (\<lambda>x. mds_column_mult (ucast (f x)) c) [0..<256])
     in if k = 2 then
          [col 0 (\<lambda>x. q 1 (q 0 (ucast (tmpx0 x)) 0) 4), col 1 (\<lambda>x. q 0 (q 0 (ucast (tmpx1 x)) 1) 5),
           col 2 (\<lambda>x. q 1 (q 1 (ucast (tmpx0 x)) 2) 6), col 3 (\<lambda>x. q 0 (q 1 (ucast (tmpx1 x)) 3) 7)]
        else if k = 3 then
          [col 0 (\<lambda>x. q 1 (q 0 (q 0 (ucast (tmpx1 x)) 0) 4) 8), col 1 (\<lambda>x. q 0 (q 0 (q 1 (ucast (tmpx1 x)) 1) 5) 9),
           col 2 (\<lambda>x. q 1 (q 1 (q 0 (ucast (tmpx0 x)) 2) 6) 10), col 3 (\<lambda>x. q 0 (q 1 (q 1 (ucast (tmpx0 x)) 3) 7) 11)]
        else
          [col 0 (\<lambda>x. q 1 (q 0 (q 0 (q 1 (ucast (tmpx1 x)) 0) 4) 8) 12),
           col 1 (\<lambda>x. q 0 (q 0 (q 1 (q 1 (ucast (tmpx0 x)) 1) 5) 9) 13),
           col 2 (\<lambda>x. q 1 (q 1 (q 0 (q 0 (ucast (tmpx0 x)) 2) 6) 10) 14),
           col 3 (\<lambda>x. q 0 (q 1 (q 1 (q 0 (ucast (tmpx1 x)) 3) 7) 11) 15)])"

definition twofish_setup :: "byte list \<Rightarrow> nat \<Rightarrow> nat \<Rightarrow> crypt_error + twofish_key" where
  "twofish_setup key keylen num_rounds =
     (if num_rounds \<noteq> 16 \<and> num_rounds \<noteq> 0 then Inl CRYPT_INVALID_ROUNDS
      else if keylen \<noteq> 16 \<and> keylen \<noteq> 24 \<and> keylen \<noteq> 32 then Inl CRYPT_INVALID_KEYSIZE
      else let k = keylen div 8;
               M = take keylen key
           in Inr \<lparr>tf_S = tf_sboxes (tf_rs_words M k) k, tf_K = tf_subkeys M k\<rparr>)"

definition twofish_small_setup :: "byte list \<Rightarrow> nat \<Rightarrow> nat \<Rightarrow> crypt_error + twofish_small_key" where
  "twofish_small_setup key keylen num_rounds =
     (if num_rounds \<noteq> 16 \<and> num_rounds \<noteq> 0 then Inl CRYPT_INVALID_ROUNDS
      else if keylen \<noteq> 16 \<and> keylen \<noteq> 24 \<and> keylen \<noteq> 32 then Inl CRYPT_INVALID_KEYSIZE
      else let k = keylen div 8;
               M = take keylen key
           in Inr \<lparr>ts_S = tf_rs_words M k, ts_K = tf_subkeys M k,
                   ts_start = (if k = 4 then 0 else if k = 3 then 1 else 2)\<rparr>)"

section \<open>The round function\<close>

definition g_func :: "twofish_key \<Rightarrow> u32 \<Rightarrow> u32" where
  "g_func skey x = tf_S skey ! 0 ! byte_at x 0 XOR tf_S skey ! 1 ! byte_at x 1 XOR
                   tf_S skey ! 2 ! byte_at x 2 XOR tf_S skey ! 3 ! byte_at x 3"

definition g1_func :: "twofish_key \<Rightarrow> u32 \<Rightarrow> u32" where
  "g1_func skey x = tf_S skey ! 1 ! byte_at x 0 XOR tf_S skey ! 2 ! byte_at x 1 XOR
                    tf_S skey ! 3 ! byte_at x 2 XOR tf_S skey ! 0 ! byte_at x 3"

text \<open>The small variant; the inner loop runs while \<^verbatim>\<open>z\<close> has not reached 5.\<close>

function tf_small_mix :: "twofish_small_key \<Rightarrow> nat \<Rightarrow> nat \<Rightarrow> nat \<Rightarrow> byte \<Rightarrow> byte" where
  "tf_small_mix skey y z i g =
     (if z \<ge> 5 then g
      else let g = g XOR ts_S skey ! (4 * i + y);
               g = ucast (sbox (qord ! y ! z) (ucast g))
           in tf_small_mix skey y (z + 1) (i + 1) g)"
  by pat_completeness auto
termination by (relation "measure (\<lambda>(skey, y, z, i, g). 5 - z)") auto

declare tf_small_mix.simps [simp del]

definition g_func_small :: "twofish_small_key \<Rightarrow> u32 \<Rightarrow> u32" where
  "g_func_small skey x = fold (\<lambda>y res.
     let z = ts_start skey;
         g = ucast (sbox (qord ! y ! z) (drop_bit (8 * y) x AND 255)) :: byte;
         g = tf_small_mix skey y (z + 1) 0 g
     in res XOR mds_column_mult g y) [0..<4] 0"

definition g1_func_small :: "twofish_small_key \<Rightarrow> u32 \<Rightarrow> u32" where
  "g1_func_small skey x = g_func_small skey (ROL x 8)"

section \<open>Encryption and decryption of a block\<close>

type_synonym tf_block = "u32 \<times> u32 \<times> u32 \<times> u32"

fun tf_enc_cycle :: "twofish_key \<Rightarrow> nat \<Rightarrow> tf_block \<Rightarrow> tf_block" where
  "tf_enc_cycle skey k (a, b, c, d) =
     (let t2 = g1_func skey b in
      let t1 = g_func skey a + t2 in
      let c = ROR (c XOR (t1 + tf_K skey ! k)) 1 in
      let d = ROL d 1 XOR (t2 + t1 + tf_K skey ! (k + 1)) in
      let t2 = g1_func skey d in
      let t1 = g_func skey c + t2 in
      let a = ROR (a XOR (t1 + tf_K skey ! (k + 2))) 1 in
      let b = ROL b 1 XOR (t2 + t1 + tf_K skey ! (k + 3)) in (a, b, c, d))"

fun tf_dec_cycle :: "twofish_key \<Rightarrow> nat \<Rightarrow> tf_block \<Rightarrow> tf_block" where
  "tf_dec_cycle skey k (a, b, c, d) =
     (let t2 = g1_func skey d in
      let t1 = g_func skey c + t2 in
      let a = ROL a 1 XOR (t1 + tf_K skey ! (k + 2)) in
      let b = ROR (b XOR (t2 + t1 + tf_K skey ! (k + 3))) 1 in
      let t2 = g1_func skey b in
      let t1 = g_func skey a + t2 in
      let c = ROL c 1 XOR (t1 + tf_K skey ! k) in
      let d = ROR (d XOR (t2 + t1 + tf_K skey ! (k + 1))) 1 in (a, b, c, d))"

definition twofish_ecb_encrypt :: "byte list \<Rightarrow> twofish_key \<Rightarrow> byte list" where
  "twofish_ecb_encrypt pt skey =
     (let a = LOAD32L pt 0 XOR tf_K skey ! 0;
          b = LOAD32L pt 4 XOR tf_K skey ! 1;
          c = LOAD32L pt 8 XOR tf_K skey ! 2;
          d = LOAD32L pt 12 XOR tf_K skey ! 3;
          (a, b, c, d) = fold (tf_enc_cycle skey) [8, 12, 16, 20, 24, 28, 32, 36] (a, b, c, d)
      in STORE32L (c XOR tf_K skey ! 4) @ STORE32L (d XOR tf_K skey ! 5) @
         STORE32L (a XOR tf_K skey ! 6) @ STORE32L (b XOR tf_K skey ! 7))"

definition twofish_ecb_decrypt :: "byte list \<Rightarrow> twofish_key \<Rightarrow> byte list" where
  "twofish_ecb_decrypt ct skey =
     (let ta = LOAD32L ct 0; tb = LOAD32L ct 4; tc = LOAD32L ct 8; td = LOAD32L ct 12;
          a = tc XOR tf_K skey ! 6;
          b = td XOR tf_K skey ! 7;
          c = ta XOR tf_K skey ! 4;
          d = tb XOR tf_K skey ! 5;
          (a, b, c, d) = fold (tf_dec_cycle skey) [36, 32, 28, 24, 20, 16, 12, 8] (a, b, c, d)
      in STORE32L (a XOR tf_K skey ! 0) @ STORE32L (b XOR tf_K skey ! 1) @
         STORE32L (c XOR tf_K skey ! 2) @ STORE32L (d XOR tf_K skey ! 3))"

definition twofish_keysize :: "nat \<Rightarrow> crypt_error + nat" where
  "twofish_keysize keysize =
     (if keysize < 16 then Inl CRYPT_INVALID_KEYSIZE
      else if keysize < 24 then Inr 16
      else if keysize < 32 then Inr 24
      else Inr 32)"

section \<open>Decryption undoes encryption\<close>

lemma tf_cycles_cancel [inverses]:
  "tf_dec_cycle skey k (tf_enc_cycle skey k s) = s"
  "tf_enc_cycle skey k (tf_dec_cycle skey k s) = s"
  by (cases s; simp add: Let_def)+

lemma tf_rounds_cancel [inverses]:
  "fold (tf_dec_cycle skey) [36, 32, 28, 24, 20, 16, 12, 8]
     (fold (tf_enc_cycle skey) [8, 12, 16, 20, 24, 28, 32, 36] s) = s"
  "fold (tf_enc_cycle skey) [8, 12, 16, 20, 24, 28, 32, 36]
     (fold (tf_dec_cycle skey) [36, 32, 28, 24, 20, 16, 12, 8] s) = s"
  by (simp_all add: tf_cycles_cancel)

fun tf_in :: "u32 list \<Rightarrow> tf_block \<Rightarrow> tf_block" where
  "tf_in K (a, b, c, d) = (a XOR K ! 0, b XOR K ! 1, c XOR K ! 2, d XOR K ! 3)"

fun tf_out :: "u32 list \<Rightarrow> tf_block \<Rightarrow> tf_block" where
  "tf_out K (a, b, c, d) = (c XOR K ! 4, d XOR K ! 5, a XOR K ! 6, b XOR K ! 7)"

fun tf_unout :: "u32 list \<Rightarrow> tf_block \<Rightarrow> tf_block" where
  "tf_unout K (ta, tb, tc, td) = (tc XOR K ! 6, td XOR K ! 7, ta XOR K ! 4, tb XOR K ! 5)"

fun tf_store :: "tf_block \<Rightarrow> byte list" where
  "tf_store (a, b, c, d) = STORE32L a @ STORE32L b @ STORE32L c @ STORE32L d"

definition tf_load :: "byte list \<Rightarrow> tf_block" where
  "tf_load p = (LOAD32L p 0, LOAD32L p 4, LOAD32L p 8, LOAD32L p 12)"

lemma tf_io [simp]: "tf_load (tf_store s) = s" "tf_in K (tf_in K s) = s"
    "tf_unout K (tf_out K s) = s" "tf_out K (tf_unout K s) = s"
  by (cases s; simp add: tf_load_def LOAD32L_quad)+

lemma tf_store_load: "length p = 16 \<Longrightarrow> tf_store (tf_load p) = p"
  by (simp add: tf_load_def STORE32L_quad)

lemma tf_encrypt_parts:
  "twofish_ecb_encrypt pt skey =
    tf_store (tf_out (tf_K skey) (fold (tf_enc_cycle skey) [8, 12, 16, 20, 24, 28, 32, 36] (tf_in (tf_K skey) (tf_load pt))))"
  unfolding twofish_ecb_encrypt_def tf_load_def Let_def tf_in.simps
  by (cases "fold (tf_enc_cycle skey) [8, 12, 16, 20, 24, 28, 32, 36]
       (LOAD32L pt 0 XOR tf_K skey ! 0, LOAD32L pt 4 XOR tf_K skey ! 1,
        LOAD32L pt 8 XOR tf_K skey ! 2, LOAD32L pt 12 XOR tf_K skey ! 3)")
    (simp only: prod.case tf_out.simps tf_store.simps)

lemma tf_decrypt_parts:
  "twofish_ecb_decrypt ct skey =
    tf_store (tf_in (tf_K skey) (fold (tf_dec_cycle skey) [36, 32, 28, 24, 20, 16, 12, 8] (tf_unout (tf_K skey) (tf_load ct))))"
  unfolding twofish_ecb_decrypt_def tf_load_def Let_def tf_unout.simps
  by (cases "fold (tf_dec_cycle skey) [36, 32, 28, 24, 20, 16, 12, 8]
       (LOAD32L ct 8 XOR tf_K skey ! 6, LOAD32L ct 12 XOR tf_K skey ! 7,
        LOAD32L ct 0 XOR tf_K skey ! 4, LOAD32L ct 4 XOR tf_K skey ! 5)")
    (simp only: prod.case tf_in.simps tf_store.simps)

lemma length_tf_store [simp]: "length (tf_store s) = 16"
  by (cases s) simp

lemma length_twofish_ecb_encrypt [lengths, simp]: "length (twofish_ecb_encrypt pt skey) = 16"
  by (simp only: tf_encrypt_parts length_tf_store)

lemma twofish_dec_enc: "length block = 16 \<Longrightarrow> twofish_ecb_decrypt (twofish_ecb_encrypt block skey) skey = block"
  and twofish_enc_dec: "length block = 16 \<Longrightarrow> twofish_ecb_encrypt (twofish_ecb_decrypt block skey) skey = block"
  by (simp_all only: tf_encrypt_parts tf_decrypt_parts tf_io tf_rounds_cancel tf_store_load)

text \<open>
  C25: for every scheduled key, Twofish decryption undoes encryption of a block of sixteen bytes
  and encryption undoes decryption.
\<close>
theorem twofish_roundtrip:
  assumes "length block = 16"
  shows "twofish_ecb_decrypt (twofish_ecb_encrypt block skey) skey = block \<and>
         twofish_ecb_encrypt (twofish_ecb_decrypt block skey) skey = block"
  by (simp only: twofish_dec_enc [OF assms] twofish_enc_dec [OF assms] simp_thms)

theorem twofish_roundtrip_witness:
  "twofish_ecb_decrypt (twofish_ecb_encrypt (replicate 16 9) \<lparr>tf_S = [], tf_K = replicate 40 3\<rparr>)
     \<lparr>tf_S = [], tf_K = replicate 40 3\<rparr> = replicate 16 9 \<and>
   twofish_ecb_encrypt (twofish_ecb_decrypt (replicate 16 9) \<lparr>tf_S = [], tf_K = replicate 40 3\<rparr>)
     \<lparr>tf_S = [], tf_K = replicate 40 3\<rparr> = replicate 16 9"
  by (rule twofish_roundtrip) simp

section \<open>The two variants of the round function\<close>

lemma sbox_byte: "ucast (ucast (sbox i x) :: byte) = sbox i x"
  by (simp only: sbox_def Let_def ucast_down_up)

lemma ucast_byte_xor: "(ucast (x XOR y) :: u32) = ucast x XOR ucast (y :: byte)"
  by (rule bit_word_eqI) (auto simp: bit_simps)

lemma ucast_byte_xor_down: "(ucast (x XOR y) :: byte) = ucast x XOR ucast (y :: u32)"
  by (rule bit_word_eqI) (auto simp: bit_simps)

lemma upt4: "[0..<4] = [0, 1, 2, 3 :: nat]"
  by code_simp

lemma nth_tf_col: "map f [0..<256] ! byte_at x n = f (byte_at x n)"
  by simp

lemma g_func_columns:
  "g_func skey x = (let S = tf_S skey in
     S ! 0 ! byte_at x 0 XOR S ! 1 ! byte_at x 1 XOR S ! 2 ! byte_at x 2 XOR S ! 3 ! byte_at x 3)"
  by (simp only: g_func_def Let_def)

lemma g_func_small_unfold:
  "g_func_small skey x =
     (let c = (\<lambda>y. mds_column_mult (tf_small_mix skey y (ts_start skey + 1) 0
                     (ucast (sbox (qord ! y ! ts_start skey) (drop_bit (8 * y) x AND 255)))) y)
      in c 0 XOR c 1 XOR c 2 XOR c 3)"
  by (simp only: g_func_small_def upt4 fold_simps Let_def o_apply id_apply xor.left_neutral xor.assoc)

text \<open>The inner loop of the small variant, from each of its three starting points.\<close>

lemma tf_small_mix_5: "tf_small_mix skey y 5 i g = g"
  by (simp add: tf_small_mix.simps)

lemma tf_small_mix_step:
  "z < 5 \<Longrightarrow> tf_small_mix skey y z i g =
     tf_small_mix skey y (z + 1) (i + 1) (ucast (sbox (qord ! y ! z) (ucast g XOR ucast (ts_S skey ! (4 * i + y)))))"
  by (subst tf_small_mix.simps) (simp add: Let_def ucast_byte_xor)

lemma tf_small_mix_start:
  "tf_small_mix skey y 3 0 g =
     ucast (sbox (qord ! y ! 4) (sbox (qord ! y ! 3) (ucast g XOR ucast (ts_S skey ! y)) XOR ucast (ts_S skey ! (4 + y))))"
  "tf_small_mix skey y 2 0 g =
     ucast (sbox (qord ! y ! 4) (sbox (qord ! y ! 3) (sbox (qord ! y ! 2)
       (ucast g XOR ucast (ts_S skey ! y)) XOR ucast (ts_S skey ! (4 + y))) XOR ucast (ts_S skey ! (8 + y))))"
  "tf_small_mix skey y 1 0 g =
     ucast (sbox (qord ! y ! 4) (sbox (qord ! y ! 3) (sbox (qord ! y ! 2) (sbox (qord ! y ! 1)
       (ucast g XOR ucast (ts_S skey ! y)) XOR ucast (ts_S skey ! (4 + y))) XOR
        ucast (ts_S skey ! (8 + y))) XOR ucast (ts_S skey ! (12 + y))))"
  using tf_small_mix_step [of 1 skey y] tf_small_mix_step [of 2 skey y]
    tf_small_mix_step [of 3 skey y] tf_small_mix_step [of 4 skey y]
  by (simp_all add: sbox_byte tf_small_mix_5 numeral_2_eq_2 [symmetric])

lemma qord_nth:
  "qord ! 0 = [1, 1, 0, 0, 1]" "qord ! 1 = [0, 1, 1, 0, 0]" "qord ! 2 = [0, 0, 0, 1, 1]" "qord ! 3 = [1, 0, 1, 1, 0]"
  by (simp_all add: qord_def)

lemmas tf_column = sbox_byte word_byte_at and_255 nth_tf_col qord_nth tf_small_mix_start

lemma g_func_large_small:
  assumes "k = 2 \<or> k = 3 \<or> k = 4"
  shows "g_func \<lparr>tf_S = tf_sboxes S k, tf_K = K\<rparr> x =
         g_func_small \<lparr>ts_S = S, ts_K = K, ts_start = (if k = 4 then 0 else if k = 3 then 1 else 2)\<rparr> x"
  using assms
proof (elim disjE)
  assume k: "k = 2"
  show ?thesis
    unfolding k g_func_columns g_func_small_unfold tf_sboxes_def Let_def
    by (simp add: tf_column del: One_nat_def)
next
  assume k: "k = 3"
  show ?thesis
    unfolding k g_func_columns g_func_small_unfold tf_sboxes_def Let_def
    by (simp add: tf_column del: One_nat_def)
next
  assume k: "k = 4"
  show ?thesis
    unfolding k g_func_columns g_func_small_unfold tf_sboxes_def Let_def
    by (simp add: tf_column del: One_nat_def)
qed

text \<open>Rotating left by eight bits moves byte \<^verbatim>\<open>y - 1\<close> to byte \<^verbatim>\<open>y\<close>.\<close>

lemma byte_ROL_8:
  "byte_at (ROL x 8) 0 = byte_at x 3" "byte_at (ROL x 8) 1 = byte_at x 0"
  "byte_at (ROL x 8) 2 = byte_at x 1" "byte_at (ROL x 8) 3 = byte_at x 2"
proof -
  have "(ucast (drop_bit (8 * y) (ROL x 8)) :: byte) = ucast (drop_bit (8 * ((y + 3) mod 4)) x)" if "y < 4" for y
  proof (rule bit_word_eqI)
    fix n :: nat
    assume n: "n < LENGTH(8)"
    have "(24 + (8 * y + n)) mod 32 = 8 * ((y + 3) mod 4) + n"
      using n that by (cases "y = 0") (auto simp: le_mod_geq)
    moreover have "8 * y + n < 32"
      using n that by simp
    ultimately show "bit (ucast (drop_bit (8 * y) (ROL x 8)) :: byte) n =
        bit (ucast (drop_bit (8 * ((y + 3) mod 4)) x) :: byte) n"
      using n by (simp add: bit_ucast_iff bit_drop_bit_eq bit_ROL)
  qed
  from this [of 0] this [of 1] this [of 2] this [of 3] show
    "byte_at (ROL x 8) 0 = byte_at x 3" "byte_at (ROL x 8) 1 = byte_at x 0"
    "byte_at (ROL x 8) 2 = byte_at x 1" "byte_at (ROL x 8) 3 = byte_at x 2"
    by (simp_all add: byte_at_ucast)
qed

lemma g1_func_rotate: "g1_func skey x = g_func skey (ROL x 8)"
  unfolding g1_func_def g_func_def byte_ROL_8 by (simp only: xor.assoc xor.left_commute xor.commute)

text \<open>
  C26: on every key that the setup accepts, the table-driven round functions of the large variant
  compute what the recomputing round functions of the small variant compute, with the same
  subkeys.
\<close>
theorem twofish_variants_agree:
  assumes "twofish_setup key keylen num_rounds = Inr skey"
  shows "\<exists>small. twofish_small_setup key keylen num_rounds = Inr small \<and> ts_K small = tf_K skey \<and>
           (\<forall>x. g_func skey x = g_func_small small x \<and> g1_func skey x = g1_func_small small x)"
proof -
  define k where "k = keylen div 8"
  have n: "num_rounds = 16 \<or> num_rounds = 0" and len: "keylen = 16 \<or> keylen = 24 \<or> keylen = 32"
    using assms by (auto simp: twofish_setup_def split: if_splits)
  then have k: "k = 2 \<or> k = 3 \<or> k = 4"
    by (auto simp: k_def)
  have skey: "skey = \<lparr>tf_S = tf_sboxes (tf_rs_words (take keylen key) k) k, tf_K = tf_subkeys (take keylen key) k\<rparr>"
    using assms n len by (auto simp: twofish_setup_def k_def Let_def)
  let ?small = "\<lparr>ts_S = tf_rs_words (take keylen key) k, ts_K = tf_subkeys (take keylen key) k,
                 ts_start = (if k = 4 then 0 else if k = 3 then 1 else 2)\<rparr>"
  have "twofish_small_setup key keylen num_rounds = Inr ?small"
    using n len by (auto simp: twofish_small_setup_def k_def Let_def)
  moreover have "g_func skey x = g_func_small ?small x \<and> g1_func skey x = g1_func_small ?small x" for x
    unfolding skey g1_func_rotate g1_func_small_def using g_func_large_small [OF k] by blast
  ultimately show ?thesis
    by (intro exI [of _ ?small]) (simp add: skey)
qed

theorem twofish_variants_agree_witness:
  "\<exists>skey small. twofish_setup (replicate 24 5) 24 16 = Inr skey \<and>
     twofish_small_setup (replicate 24 5) 24 16 = Inr small \<and> ts_K small = tf_K skey \<and>
     (\<forall>x. g_func skey x = g_func_small small x \<and> g1_func skey x = g1_func_small small x)"
proof -
  obtain skey where "twofish_setup (replicate 24 5) 24 16 = Inr skey"
    by (simp add: twofish_setup_def Let_def)
  from this twofish_variants_agree [OF this] show ?thesis
    by blast
qed

lemma all_less_4: "(\<forall>c < 4. P c) \<longleftrightarrow> P 0 \<and> P 1 \<and> P 2 \<and> P (3 :: nat)"
  by (auto simp: less_Suc_eq numeral_eq_Suc)

lemma tf_sboxes_shape [lengths]:
  "length (tf_sboxes S k) = 4" "\<forall>c < 4. length (tf_sboxes S k ! c) = 256"
  unfolding all_less_4 by (simp_all add: tf_sboxes_def Let_def del: One_nat_def upt_rec_numeral)

lemma length_tf_subkeys [lengths]: "length (tf_subkeys M k) = 40"
  by (simp add: tf_subkeys_def Let_def length_concat comp_def sum_list_triv)

text \<open>
  \<^verbatim>\<open>twofish_setup\<close> accepts exactly the key lengths 16, 24 and 32 with 0 or 16 rounds, reports a
  bad number of rounds first, and builds 40 subkeys and four tables of 256 words, so that no
  access of the cipher leaves its arrays.
\<close>
theorem twofish_setup_result:
  "case twofish_setup key keylen num_rounds of
     Inl e \<Rightarrow> (if num_rounds = 0 \<or> num_rounds = 16 then e = CRYPT_INVALID_KEYSIZE \<and> keylen \<notin> {16, 24, 32}
              else e = CRYPT_INVALID_ROUNDS)
   | Inr skey \<Rightarrow> keylen \<in> {16, 24, 32} \<and> (num_rounds = 0 \<or> num_rounds = 16) \<and>
       length (tf_K skey) = 40 \<and> length (tf_S skey) = 4 \<and> map length (tf_S skey) = replicate 4 256"
  by (auto simp: twofish_setup_def Let_def tf_sboxes_shape length_tf_subkeys intro!: nth_equalityI)

section \<open>The multiplication in the field and the MDS matrix\<close>

definition xtime :: "u32 \<Rightarrow> u32 \<Rightarrow> u32" where
  "xtime p b = (if bit b 7 then p else 0) XOR push_bit 1 b"

definition fits_byte :: "u32 \<Rightarrow> bool" where
  "fits_byte w \<longleftrightarrow> drop_bit 8 w = 0"

lemma fits_byte_bit: "fits_byte w \<longleftrightarrow> (\<forall>n \<ge> 8. \<not> bit w n)"
proof
  assume "fits_byte w"
  then have "\<not> bit (drop_bit 8 w) n" for n
    by (simp add: fits_byte_def)
  then show "\<forall>n \<ge> 8. \<not> bit w n"
    by (metis bit_drop_bit_eq comp_apply le_add_diff_inverse)
next
  assume "\<forall>n \<ge> 8. \<not> bit w n"
  then show "fits_byte w"
    unfolding fits_byte_def by (intro bit_word_eqI) (simp add: bit_drop_bit_eq)
qed

lemma fits_byte_xor: "fits_byte x \<Longrightarrow> fits_byte y \<Longrightarrow> fits_byte (x XOR y)"
  by (simp add: fits_byte_bit bit_xor_iff)

lemma fits_byte_ucast [simp]: "fits_byte (ucast (b :: byte))"
  by (auto simp: fits_byte_bit bit_ucast_iff dest: bit_imp_le_length)

lemma drop_bit_7_byte:
  assumes "fits_byte b"
  shows "drop_bit 7 b = of_bool (bit b 7)"
proof (rule bit_word_eqI)
  fix n :: nat
  have "\<not> bit b (7 + n)" if "n \<noteq> 0"
    using assms that by (simp add: fits_byte_bit)
  then show "bit (drop_bit 7 b) n = bit (of_bool (bit b 7) :: u32) n"
    by (cases "n = 0") (simp_all add: bit_drop_bit_eq bit_of_bool_iff)
qed

lemma fits_byte_xtime:
  assumes "fits_byte b" "bit p 8" "drop_bit 9 p = 0"
  shows "fits_byte (xtime p b)"
proof -
  have "\<not> bit (xtime p b) n" if n: "8 \<le> n" for n
  proof (cases "n = 8")
    case True
    then show ?thesis
      using assms(2) by (simp add: xtime_def bit_xor_iff bit_push_bit_iff del: push_bit_Suc One_nat_def)
  next
    case False
    then have "bit p n = bit (drop_bit 9 p) (n - 9)" "\<not> bit b (n - 1)"
      using n assms(1) by (simp_all add: bit_drop_bit_eq fits_byte_bit)
    then show ?thesis
      using assms(3) by (simp add: xtime_def bit_xor_iff bit_push_bit_iff del: push_bit_Suc One_nat_def)
  qed
  then show ?thesis
    by (simp add: fits_byte_bit)
qed

lemma bit_mask_index: "[0, x] ! unat (a AND 1) = (if odd a then x else (0 :: u32))"
  by (simp add: and_one_eq mod_2_eq_odd)

lemma gf_step_xtime:
  "fits_byte b \<Longrightarrow> gf_step p (result, a, b) = (result XOR (if odd a then b else 0), drop_bit 1 a, xtime p b)"
  by (simp add: bit_mask_index drop_bit_7_byte xtime_def)

lemma gf_steps:
  assumes "fits_byte b" "bit p 8" "drop_bit 9 p = 0"
  shows "(gf_step p ^^ n) (0, a, b) =
    (fold (\<lambda>i r. r XOR (if bit a i then (xtime p ^^ i) b else 0)) [0..<n] 0, drop_bit n a, (xtime p ^^ n) b) \<and>
    fits_byte ((xtime p ^^ n) b)"
proof (induction n)
  case (Suc n)
  then have fits: "fits_byte ((xtime p ^^ n) b)"
    by blast
  have "odd (drop_bit n a) = bit a n"
    by (simp add: bit_iff_odd_drop_bit)
  then show ?case
    using Suc gf_step_xtime [OF fits, of p] fits_byte_xtime [OF fits assms(2,3)]
    by (simp add: drop_bit_drop_bit)
qed (simp add: assms(1))

lemma gf_mult_sum:
  assumes "fits_byte b" "bit p 8" "drop_bit 9 p = 0"
  shows "gf_mult a b p = fold (\<lambda>i r. r XOR (if bit a i then (xtime p ^^ i) b else 0)) [0..<8] 0"
proof -
  have "odd (drop_bit 7 a) = bit a 7"
    by (simp add: bit_iff_odd_drop_bit)
  moreover have "[0..<8] = [0..<7] @ [7 :: nat]"
    by code_simp
  ultimately show ?thesis
    using gf_steps [OF assms, of 7 a] by (simp add: gf_mult_def bit_mask_index)
qed

lemma upt8: "[0..<8] = [0, 1, 2, 3, 4, 5, 6, 7 :: nat]"
  by code_simp

lemma poly_bits [simp]: "bit MDS_POLY 8" "drop_bit 9 MDS_POLY = 0" "bit RS_POLY 8" "drop_bit 9 RS_POLY = 0"
  by (simp_all add: MDS_POLY_def RS_POLY_def)

lemma fits_byte_gf_mult:
  assumes "fits_byte b" "bit p 8" "drop_bit 9 p = 0"
  shows "fits_byte (gf_mult a b p)"
proof -
  have "fits_byte (if bit a i then (xtime p ^^ i) b else 0)" for i
    using gf_steps [OF assms, of i a] by (simp add: fits_byte_def)
  then have "fits_byte (fold (\<lambda>i r. r XOR (if bit a i then (xtime p ^^ i) b else 0)) is r)" if "fits_byte r" for "is" r
    using that by (induction "is" arbitrary: r) (simp_all add: fits_byte_xor)
  from this [of 0] show ?thesis
    by (simp add: gf_mult_sum [OF assms] fits_byte_def)
qed

text \<open>
  The branch-free multiplier adds up, for the set bits of its first operand, the doubled
  second operand: multiplication of polynomials modulo \<^verbatim>\<open>p\<close>.  It distributes over exclusive-or, and its
  intermediate value never leaves the range 0 to 255, so its two-entry tables are indexed by 0
  or 1 only.
\<close>
theorem gf_mult_polynomial:
  assumes "fits_byte b" "bit p 8" "drop_bit 9 p = 0"
  shows "gf_mult a b p = fold (\<lambda>i r. r XOR (if bit a i then (xtime p ^^ i) b else 0)) [0..<8] 0 \<and>
         gf_mult (a XOR c) b p = gf_mult a b p XOR gf_mult c b p \<and>
         fits_byte (gf_mult a b p) \<and> fits_byte ((xtime p ^^ n) b)"
proof -
  have "(if bit (a XOR c) i then w else 0) = (if bit a i then w else 0) XOR (if bit c i then w else 0)" for i and w :: u32
    by (simp add: bit_xor_iff)
  then have "gf_mult (a XOR c) b p = gf_mult a b p XOR gf_mult c b p"
    unfolding gf_mult_sum [OF assms] upt8
    by (simp only: fold_simps o_apply id_apply xor.left_neutral) (simp only: xor.assoc xor.left_commute)
  then show ?thesis
    using gf_mult_sum [OF assms] fits_byte_gf_mult [OF assms] gf_steps [OF assms, of n a] by blast
qed

theorem gf_mult_polynomial_witness:
  "gf_mult 17 91 MDS_POLY = fold (\<lambda>i r. r XOR (if bit (17 :: u32) i then (xtime MDS_POLY ^^ i) 91 else 0)) [0..<8] 0 \<and>
   gf_mult (17 XOR 6) 91 MDS_POLY = gf_mult 17 91 MDS_POLY XOR gf_mult 6 91 MDS_POLY \<and>
   fits_byte (gf_mult 17 91 MDS_POLY) \<and> fits_byte ((xtime MDS_POLY ^^ 100) 91)"
  by (rule gf_mult_polynomial) (simp_all add: fits_byte_def)

lemma bit_fold_masks:
  "bit (fold (\<lambda>i r. r XOR (if bit a i then 2 ^ i else 0)) [0..<m] (0 :: u32)) n \<longleftrightarrow> n < m \<and> n < 32 \<and> bit (a :: u32) n"
proof (induction m)
  case (Suc m)
  have "bit (if bit a m then 2 ^ m else 0 :: u32) n \<longleftrightarrow> n = m \<and> n < 32 \<and> bit a n"
    by (auto simp: bit_exp_iff)
  with Suc show ?case
    by (auto simp: bit_xor_iff less_Suc_eq)
qed simp

lemma xtime_powers_of_one: "i < 8 \<Longrightarrow> (xtime MDS_POLY ^^ i) 1 = 2 ^ i"
proof (induction i)
  case (Suc i)
  then have "\<not> bit (2 ^ i :: u32) 7"
    by (simp add: bit_exp_iff)
  with Suc show ?case
    by (simp add: xtime_def)
qed simp

lemma gf_mult_one: "gf_mult (ucast (x :: byte)) 1 MDS_POLY = ucast x"
proof -
  have "gf_mult (ucast x) 1 MDS_POLY =
      fold (\<lambda>i r. r XOR (if bit (ucast x :: u32) i then (xtime MDS_POLY ^^ i) 1 else 0)) [0..<8] 0"
    by (rule gf_mult_sum) (simp_all add: fits_byte_def)
  also have "\<dots> = fold (\<lambda>i r. r XOR (if bit (ucast x :: u32) i then 2 ^ i else 0)) [0..<8] 0"
    by (rule fold_cong) (simp_all add: xtime_powers_of_one)
  finally have "bit (gf_mult (ucast x) 1 MDS_POLY) n \<longleftrightarrow> n < 8 \<and> n < 32 \<and> bit (ucast x :: u32) n" for n
    by (simp only: bit_fold_masks)
  note b = this
  show ?thesis
    by (rule bit_word_eqI, simp only: b bit_ucast_iff) (auto dest: bit_imp_le_length)
qed

lemma fits_byte_ucastE: "fits_byte a \<Longrightarrow> ucast (ucast a :: byte) = a"
  by (rule bit_word_eqI) (simp add: fits_byte_bit bit_ucast_iff; metis not_le)

lemma STORE32L_join:
  assumes "fits_byte a" "fits_byte b" "fits_byte c" "fits_byte d"
  shows "STORE32L (a OR push_bit 8 b OR push_bit 16 c OR push_bit 24 d) = [ucast a, ucast b, ucast c, ucast d]"
proof -
  have "a OR push_bit 8 b OR push_bit 16 c OR push_bit 24 d =
     push_bit 24 (ucast (ucast d :: byte)) OR push_bit 16 (ucast (ucast c :: byte)) OR
     push_bit 8 (ucast (ucast b :: byte)) OR ucast (ucast a :: byte)"
    unfolding fits_byte_ucastE [OF assms(1)] fits_byte_ucastE [OF assms(2)]
      fits_byte_ucastE [OF assms(3)] fits_byte_ucastE [OF assms(4)]
    by (simp only: or.assoc or.commute or.left_commute)
  then show ?thesis
    by (simp only: STORE32L_def bytes_join32)
qed

lemma MDS_nth: "MDS ! 0 = [1, 239, 91, 91]" "MDS ! 1 = [91, 239, 239, 1]"
    "MDS ! 2 = [239, 91, 1, 239]" "MDS ! 3 = [239, 1, 239, 91]"
  by (simp_all add: MDS_def)

lemma mds_column_bytes:
  fixes x :: byte
  defines "g \<equiv> \<lambda>m :: byte. (ucast (gf_mult (ucast x) (ucast m) MDS_POLY) :: byte)"
  assumes "c < 4"
  shows "STORE32L (mds_column_mult x c) = map (\<lambda>i. g (MDS ! i ! c)) [0, 1, 2, 3]"
proof -
  have f: "fits_byte (gf_mult (ucast x) 91 MDS_POLY)" "fits_byte (gf_mult (ucast x) 239 MDS_POLY)"
    by (rule fits_byte_gf_mult; simp add: fits_byte_def)+
  have g1: "g 1 = x"
    by (simp add: g_def gf_mult_one)
  have "c = 0 \<or> c = 1 \<or> c = 2 \<or> c = 3"
    using assms(2) by linarith
  then show ?thesis
    by (elim disjE) (simp_all add: mds_column_mult_def Let_def MDS_nth g1 STORE32L_join f del: One_nat_def,
      simp_all add: g_def)
qed

lemma STORE32L_xor: "STORE32L (x XOR y) = xor_bytes (STORE32L x) (STORE32L y)"
  by (simp add: STORE32L_def ucast_byte_xor_down drop_bit_xor)

text \<open>
  The column table behind \<^verbatim>\<open>mds_mult\<close> is the MDS matrix of the file: byte \<^verbatim>\<open>i\<close> of the result is the
  sum over \<^verbatim>\<open>j\<close> of the field products of the matrix entry \<^verbatim>\<open>MDS[i][j]\<close> and the input byte \<^verbatim>\<open>j\<close>.
\<close>
theorem mds_mult_matrix:
  "mds_mult [a, b, c, d] = map (\<lambda>i. fold (\<lambda>j out. out XOR
      ucast (gf_mult (ucast ([a, b, c, d] ! j)) (ucast (MDS ! i ! j)) MDS_POLY)) [0..<4] 0) [0..<4]"
  unfolding mds_mult_def upt4
  by (simp only: fold_simps o_apply id_apply xor.left_neutral STORE32L_xor mds_column_bytes
      list.map xor_bytes_Cons xor_bytes_Nil)

end
