(* ===== verification/AES.thy ===== *)
theory AES
  imports Tomcrypt
begin

text \<open>
  The encryption half of AES from \<^verbatim>\<open>Compression/_Encryption/ciphers/aes/aes.c\<close> and the tables of
  \<^verbatim>\<open>aes_tab.c\<close>, in the configuration of \<^verbatim>\<open>C_Encryption.cpp\<close> (\<^verbatim>\<open>ENCRYPT_ONLY\<close>, not \<^verbatim>\<open>LTC_SMALL_CODE\<close>):
  key expansion and the table-driven encryption of a block.  The lemmas relate the tables to the
  S-box and the column transform of the standard and the table-driven rounds to a specification
  on bytes.
\<close>

section \<open>Tables\<close>

definition TE0 :: "u32 list" where
  "TE0 = [
     3328402341, 4168907908, 4000806809, 4135287693, 4294111757, 3597364157, 3731845041,
     2445657428, 1613770832, 33620227, 3462883241, 1445669757, 3892248089, 3050821474,
     1303096294, 3967186586, 2412431941, 528646813, 2311702848, 4202528135, 4026202645,
     2992200171, 2387036105, 4226871307, 1101901292, 3017069671, 1604494077, 1169141738,
     597466303, 1403299063, 3832705686, 2613100635, 1974974402, 3791519004, 1033081774,
     1277568618, 1815492186, 2118074177, 4126668546, 2211236943, 1748251740, 1369810420,
     3521504564, 4193382664, 3799085459, 2883115123, 1647391059, 706024767, 134480908,
     2512897874, 1176707941, 2646852446, 806885416, 932615841, 168101135, 798661301,
     235341577, 605164086, 461406363, 3756188221, 3454790438, 1311188841, 2142417613,
     3933566367, 302582043, 495158174, 1479289972, 874125870, 907746093, 3698224818,
     3025820398, 1537253627, 2756858614, 1983593293, 3084310113, 2108928974, 1378429307,
     3722699582, 1580150641, 327451799, 2790478837, 3117535592, 0, 3253595436, 1075847264,
     3825007647, 2041688520, 3059440621, 3563743934, 2378943302, 1740553945, 1916352843,
     2487896798, 2555137236, 2958579944, 2244988746, 3151024235, 3320835882, 1336584933,
     3992714006, 2252555205, 2588757463, 1714631509, 293963156, 2319795663, 3925473552,
     67240454, 4269768577, 2689618160, 2017213508, 631218106, 1269344483, 2723238387,
     1571005438, 2151694528, 93294474, 1066570413, 563977660, 1882732616, 4059428100,
     1673313503, 2008463041, 2950355573, 1109467491, 537923632, 3858759450, 4260623118,
     3218264685, 2177748300, 403442708, 638784309, 3287084079, 3193921505, 899127202,
     2286175436, 773265209, 2479146071, 1437050866, 4236148354, 2050833735, 3362022572,
     3126681063, 840505643, 3866325909, 3227541664, 427917720, 2655997905, 2749160575,
     1143087718, 1412049534, 999329963, 193497219, 2353415882, 3354324521, 1807268051,
     672404540, 2816401017, 3160301282, 369822493, 2916866934, 3688947771, 1681011286,
     1949973070, 336202270, 2454276571, 201721354, 1210328172, 3093060836, 2680341085,
     3184776046, 1135389935, 3294782118, 965841320, 831886756, 3554993207, 4068047243,
     3588745010, 2345191491, 1849112409, 3664604599, 26054028, 2983581028, 2622377682,
     1235855840, 3630984372, 2891339514, 4092916743, 3488279077, 3395642799, 4101667470,
     1202630377, 268961816, 1874508501, 4034427016, 1243948399, 1546530418, 941366308,
     1470539505, 1941222599, 2546386513, 3421038627, 2715671932, 3899946140, 1042226977,
     2521517021, 1639824860, 227249030, 260737669, 3765465232, 2084453954, 1907733956,
     3429263018, 2420656344, 100860677, 4160157185, 470683154, 3261161891, 1781871967,
     2924959737, 1773779408, 394692241, 2579611992, 974986535, 664706745, 3655459128,
     3958962195, 731420851, 571543859, 3530123707, 2849626480, 126783113, 865375399,
     765172662, 1008606754, 361203602, 3387549984, 2278477385, 2857719295, 1344809080,
     2782912378, 59542671, 1503764984, 160008576, 437062935, 1707065306, 3622233649,
     2218934982, 3496503480, 2185314755, 697932208, 1512910199, 504303377, 2075177163,
     2824099068, 1841019862, 739644986]"

definition TE1 :: "u32 list" where
  "TE1 = [
     2781242211, 2230877308, 2582542199, 2381740923, 234877682, 3184946027, 2984144751,
     1418839493, 1348481072, 50462977, 2848876391, 2102799147, 434634494, 1656084439,
     3863849899, 2599188086, 1167051466, 2636087938, 1082771913, 2281340285, 368048890,
     3954334041, 3381544775, 201060592, 3963727277, 1739838676, 4250903202, 3930435503,
     3206782108, 4149453988, 2531553906, 1536934080, 3262494647, 484572669, 2923271059,
     1783375398, 1517041206, 1098792767, 49674231, 1334037708, 1550332980, 4098991525,
     886171109, 150598129, 2481090929, 1940642008, 1398944049, 1059722517, 201851908,
     1385547719, 1699095331, 1587397571, 674240536, 2704774806, 252314885, 3039795866,
     151914247, 908333586, 2602270848, 1038082786, 651029483, 1766729511, 3447698098,
     2682942837, 454166793, 2652734339, 1951935532, 775166490, 758520603, 3000790638,
     4004797018, 4217086112, 4137964114, 1299594043, 1639438038, 3464344499, 2068982057,
     1054729187, 1901997871, 2534638724, 4121318227, 1757008337, 0, 750906861, 1614815264,
     535035132, 3363418545, 3988151131, 3201591914, 1183697867, 3647454910, 1265776953,
     3734260298, 3566750796, 3903871064, 1250283471, 1807470800, 717615087, 3847203498,
     384695291, 3313910595, 3617213773, 1432761139, 2484176261, 3481945413, 283769337,
     100925954, 2180939647, 4037038160, 1148730428, 3123027871, 3813386408, 4087501137,
     4267549603, 3229630528, 2315620239, 2906624658, 3156319645, 1215313976, 82966005,
     3747855548, 3245848246, 1974459098, 1665278241, 807407632, 451280895, 251524083,
     1841287890, 1283575245, 337120268, 891687699, 801369324, 3787349855, 2721421207,
     3431482436, 959321879, 1469301956, 4065699751, 2197585534, 1199193405, 2898814052,
     3887750493, 724703513, 2514908019, 2696962144, 2551808385, 3516813135, 2141445340,
     1715741218, 2119445034, 2872807568, 2198571144, 3398190662, 700968686, 3547052216,
     1009259540, 2041044702, 3803995742, 487983883, 1991105499, 1004265696, 1449407026,
     1316239930, 504629770, 3683797321, 168560134, 1816667172, 3837287516, 1570751170,
     1857934291, 4014189740, 2797888098, 2822345105, 2754712981, 936633572, 2347923833,
     852879335, 1133234376, 1500395319, 3084545389, 2348912013, 1689376213, 3533459022,
     3762923945, 3034082412, 4205598294, 133428468, 634383082, 2949277029, 2398386810,
     3913789102, 403703816, 3580869306, 2297460856, 1867130149, 1918643758, 607656988,
     4049053350, 3346248884, 1368901318, 600565992, 2090982877, 2632479860, 557719327,
     3717614411, 3697393085, 2249034635, 2232388234, 2430627952, 1115438654, 3295786421,
     2865522278, 3633334344, 84280067, 33027830, 303828494, 2747425121, 1600795957,
     4188952407, 3496589753, 2434238086, 1486471617, 658119965, 3106381470, 953803233,
     334231800, 3005978776, 857870609, 3151128937, 1890179545, 2298973838, 2805175444,
     3056442267, 574365214, 2450884487, 550103529, 1233637070, 4289353045, 2018519080,
     2057691103, 2399374476, 4166623649, 2148108681, 387583245, 3664101311, 836232934,
     3330556482, 3100665960, 3280093505, 2955516313, 2002398509, 287182607, 3413881008,
     4238890068, 3597515707, 975967766]"

definition TE2 :: "u32 list" where
  "TE2 = [
     1671808611, 2089089148, 2006576759, 2072901243, 4061003762, 1807603307, 1873927791,
     3310653893, 810573872, 16974337, 1739181671, 729634347, 4263110654, 3613570519,
     2883997099, 1989864566, 3393556426, 2191335298, 3376449993, 2106063485, 4195741690,
     1508618841, 1204391495, 4027317232, 2917941677, 3563566036, 2734514082, 2951366063,
     2629772188, 2767672228, 1922491506, 3227229120, 3082974647, 4246528509, 2477669779,
     644500518, 911895606, 1061256767, 4144166391, 3427763148, 878471220, 2784252325,
     3845444069, 4043897329, 1905517169, 3631459288, 827548209, 356461077, 67897348,
     3344078279, 593839651, 3277757891, 405286936, 2527147926, 84871685, 2595565466,
     118033927, 305538066, 2157648768, 3795705826, 3945188843, 661212711, 2999812018,
     1973414517, 152769033, 2208177539, 745822252, 439235610, 455947803, 1857215598,
     1525593178, 2700827552, 1391895634, 994932283, 3596728278, 3016654259, 695947817,
     3812548067, 795958831, 2224493444, 1408607827, 3513301457, 0, 3979133421, 543178784,
     4229948412, 2982705585, 1542305371, 1790891114, 3410398667, 3201918910, 961245753,
     1256100938, 1289001036, 1491644504, 3477767631, 3496721360, 4012557807, 2867154858,
     4212583931, 1137018435, 1305975373, 861234739, 2241073541, 1171229253, 4178635257,
     33948674, 2139225727, 1357946960, 1011120188, 2679776671, 2833468328, 1374921297,
     2751356323, 1086357568, 2408187279, 2460827538, 2646352285, 944271416, 4110742005,
     3168756668, 3066132406, 3665145818, 560153121, 271589392, 4279952895, 4077846003,
     3530407890, 3444343245, 202643468, 322250259, 3962553324, 1608629855, 2543990167,
     1154254916, 389623319, 3294073796, 2817676711, 2122513534, 1028094525, 1689045092,
     1575467613, 422261273, 1939203699, 1621147744, 2174228865, 1339137615, 3699352540,
     577127458, 712922154, 2427141008, 2290289544, 1187679302, 3995715566, 3100863416,
     339486740, 3732514782, 1591917662, 186455563, 3681988059, 3762019296, 844522546,
     978220090, 169743370, 1239126601, 101321734, 611076132, 1558493276, 3260915650,
     3547250131, 2901361580, 1655096418, 2443721105, 2510565781, 3828863972, 2039214713,
     3878868455, 3359869896, 928607799, 1840765549, 2374762893, 3580146133, 1322425422,
     2850048425, 1823791212, 1459268694, 4094161908, 3928346602, 1706019429, 2056189050,
     2934523822, 135794696, 3134549946, 2022240376, 628050469, 779246638, 472135708,
     2800834470, 3032970164, 3327236038, 3894660072, 3715932637, 1956440180, 522272287,
     1272813131, 3185336765, 2340818315, 2323976074, 1888542832, 1044544574, 3049550261,
     1722469478, 1222152264, 50660867, 4127324150, 236067854, 1638122081, 895445557,
     1475980887, 3117443513, 2257655686, 3243809217, 489110045, 2662934430, 3778599393,
     4162055160, 2561878936, 288563729, 1773916777, 3648039385, 2391345038, 2493985684,
     2612407707, 505560094, 2274497927, 3911240169, 3460925390, 1442818645, 678973480,
     3749357023, 2358182796, 2717407649, 2306869641, 219617805, 3218761151, 3862026214,
     1120306242, 1756942440, 1103331905, 2578459033, 762796589, 252780047, 2966125488,
     1425844308, 3151392187, 372911126]"

definition TE3 :: "u32 list" where
  "TE3 = [
     1667474886, 2088535288, 2004326894, 2071694838, 4075949567, 1802223062, 1869591006,
     3318043793, 808472672, 16843522, 1734846926, 724270422, 4278065639, 3621216949,
     2880169549, 1987484396, 3402253711, 2189597983, 3385409673, 2105378810, 4210693615,
     1499065266, 1195886990, 4042263547, 2913856577, 3570689971, 2728590687, 2947541573,
     2627518243, 2762274643, 1920112356, 3233831835, 3082273397, 4261223649, 2475929149,
     640051788, 909531756, 1061110142, 4160160501, 3435941763, 875846760, 2779116625,
     3857003729, 4059105529, 1903268834, 3638064043, 825316194, 353713962, 67374088,
     3351728789, 589522246, 3284360861, 404236336, 2526454071, 84217610, 2593830191,
     117901582, 303183396, 2155911963, 3806477791, 3958056653, 656894286, 2998062463,
     1970642922, 151591698, 2206440989, 741110872, 437923380, 454765878, 1852748508,
     1515908788, 2694904667, 1381168804, 993742198, 3604373943, 3014905469, 690584402,
     3823320797, 791638366, 2223281939, 1398011302, 3520161977, 0, 3991743681, 538992704,
     4244381667, 2981218425, 1532751286, 1785380564, 3419096717, 3200178535, 960056178,
     1246420628, 1280103576, 1482221744, 3486468741, 3503319995, 4025428677, 2863326543,
     4227536621, 1128514950, 1296947098, 859002214, 2240123921, 1162203018, 4193849577,
     33687044, 2139062782, 1347481760, 1010582648, 2678045221, 2829640523, 1364325282,
     2745433693, 1077985408, 2408548869, 2459086143, 2644360225, 943212656, 4126475505,
     3166494563, 3065430391, 3671750063, 555836226, 269496352, 4294908645, 4092792573,
     3537006015, 3452783745, 202118168, 320025894, 3974901699, 1600119230, 2543297077,
     1145359496, 387397934, 3301201811, 2812801621, 2122220284, 1027426170, 1684319432,
     1566435258, 421079858, 1936954854, 1616945344, 2172753945, 1330631070, 3705438115,
     572679748, 707427924, 2425400123, 2290647819, 1179044492, 4008585671, 3099120491,
     336870440, 3739122087, 1583276732, 185277718, 3688593069, 3772791771, 842159716,
     976899700, 168435220, 1229577106, 101059084, 606366792, 1549591736, 3267517855,
     3553849021, 2897014595, 1650632388, 2442242105, 2509612081, 3840161747, 2038008818,
     3890688725, 3368567691, 926374254, 1835907034, 2374863873, 3587531953, 1313788572,
     2846482505, 1819063512, 1448540844, 4109633523, 3941213647, 1701162954, 2054852340,
     2930698567, 134748176, 3132806511, 2021165296, 623210314, 774795868, 471606328,
     2795958615, 3031746419, 3334885783, 3907527627, 3722280097, 1953799400, 522133822,
     1263263126, 3183336545, 2341176845, 2324333839, 1886425312, 1044267644, 3048588401,
     1718004428, 1212733584, 50529542, 4143317495, 235803164, 1633788866, 892690282,
     1465383342, 3115962473, 2256965911, 3250673817, 488449850, 2661202215, 3789633753,
     4177007595, 2560144171, 286339874, 1768537042, 3654906025, 2391705863, 2492770099,
     2610673197, 505291324, 2273808917, 3924369609, 3469625735, 1431699370, 673740880,
     3755965093, 2358021891, 2711746649, 2307489801, 218961690, 3217021541, 3873845719,
     1111672452, 1751693520, 1094828930, 2576986153, 757954394, 252645662, 2964376443,
     1414855848, 3149649517, 370555436]"

definition Te4_0 :: "u32 list" where
  "Te4_0 = [
     99, 124, 119, 123, 242, 107, 111, 197, 48, 1, 103, 43, 254, 215, 171, 118, 202, 130, 201,
     125, 250, 89, 71, 240, 173, 212, 162, 175, 156, 164, 114, 192, 183, 253, 147, 38, 54, 63,
     247, 204, 52, 165, 229, 241, 113, 216, 49, 21, 4, 199, 35, 195, 24, 150, 5, 154, 7, 18,
     128, 226, 235, 39, 178, 117, 9, 131, 44, 26, 27, 110, 90, 160, 82, 59, 214, 179, 41, 227,
     47, 132, 83, 209, 0, 237, 32, 252, 177, 91, 106, 203, 190, 57, 74, 76, 88, 207, 208, 239,
     170, 251, 67, 77, 51, 133, 69, 249, 2, 127, 80, 60, 159, 168, 81, 163, 64, 143, 146, 157,
     56, 245, 188, 182, 218, 33, 16, 255, 243, 210, 205, 12, 19, 236, 95, 151, 68, 23, 196,
     167, 126, 61, 100, 93, 25, 115, 96, 129, 79, 220, 34, 42, 144, 136, 70, 238, 184, 20,
     222, 94, 11, 219, 224, 50, 58, 10, 73, 6, 36, 92, 194, 211, 172, 98, 145, 149, 228, 121,
     231, 200, 55, 109, 141, 213, 78, 169, 108, 86, 244, 234, 101, 122, 174, 8, 186, 120, 37,
     46, 28, 166, 180, 198, 232, 221, 116, 31, 75, 189, 139, 138, 112, 62, 181, 102, 72, 3,
     246, 14, 97, 53, 87, 185, 134, 193, 29, 158, 225, 248, 152, 17, 105, 217, 142, 148, 155,
     30, 135, 233, 206, 85, 40, 223, 140, 161, 137, 13, 191, 230, 66, 104, 65, 153, 45, 15,
     176, 84, 187, 22]"

definition Te4_1 :: "u32 list" where
  "Te4_1 = [
     25344, 31744, 30464, 31488, 61952, 27392, 28416, 50432, 12288, 256, 26368, 11008, 65024,
     55040, 43776, 30208, 51712, 33280, 51456, 32000, 64000, 22784, 18176, 61440, 44288,
     54272, 41472, 44800, 39936, 41984, 29184, 49152, 46848, 64768, 37632, 9728, 13824, 16128,
     63232, 52224, 13312, 42240, 58624, 61696, 28928, 55296, 12544, 5376, 1024, 50944, 8960,
     49920, 6144, 38400, 1280, 39424, 1792, 4608, 32768, 57856, 60160, 9984, 45568, 29952,
     2304, 33536, 11264, 6656, 6912, 28160, 23040, 40960, 20992, 15104, 54784, 45824, 10496,
     58112, 12032, 33792, 21248, 53504, 0, 60672, 8192, 64512, 45312, 23296, 27136, 51968,
     48640, 14592, 18944, 19456, 22528, 52992, 53248, 61184, 43520, 64256, 17152, 19712,
     13056, 34048, 17664, 63744, 512, 32512, 20480, 15360, 40704, 43008, 20736, 41728, 16384,
     36608, 37376, 40192, 14336, 62720, 48128, 46592, 55808, 8448, 4096, 65280, 62208, 53760,
     52480, 3072, 4864, 60416, 24320, 38656, 17408, 5888, 50176, 42752, 32256, 15616, 25600,
     23808, 6400, 29440, 24576, 33024, 20224, 56320, 8704, 10752, 36864, 34816, 17920, 60928,
     47104, 5120, 56832, 24064, 2816, 56064, 57344, 12800, 14848, 2560, 18688, 1536, 9216,
     23552, 49664, 54016, 44032, 25088, 37120, 38144, 58368, 30976, 59136, 51200, 14080,
     27904, 36096, 54528, 19968, 43264, 27648, 22016, 62464, 59904, 25856, 31232, 44544, 2048,
     47616, 30720, 9472, 11776, 7168, 42496, 46080, 50688, 59392, 56576, 29696, 7936, 19200,
     48384, 35584, 35328, 28672, 15872, 46336, 26112, 18432, 768, 62976, 3584, 24832, 13568,
     22272, 47360, 34304, 49408, 7424, 40448, 57600, 63488, 38912, 4352, 26880, 55552, 36352,
     37888, 39680, 7680, 34560, 59648, 52736, 21760, 10240, 57088, 35840, 41216, 35072, 3328,
     48896, 58880, 16896, 26624, 16640, 39168, 11520, 3840, 45056, 21504, 47872, 5632]"

definition Te4_2 :: "u32 list" where
  "Te4_2 = [
     6488064, 8126464, 7798784, 8060928, 15859712, 7012352, 7274496, 12910592, 3145728, 65536,
     6750208, 2818048, 16646144, 14090240, 11206656, 7733248, 13238272, 8519680, 13172736,
     8192000, 16384000, 5832704, 4653056, 15728640, 11337728, 13893632, 10616832, 11468800,
     10223616, 10747904, 7471104, 12582912, 11993088, 16580608, 9633792, 2490368, 3538944,
     4128768, 16187392, 13369344, 3407872, 10813440, 15007744, 15794176, 7405568, 14155776,
     3211264, 1376256, 262144, 13041664, 2293760, 12779520, 1572864, 9830400, 327680,
     10092544, 458752, 1179648, 8388608, 14811136, 15400960, 2555904, 11665408, 7667712,
     589824, 8585216, 2883584, 1703936, 1769472, 7208960, 5898240, 10485760, 5373952, 3866624,
     14024704, 11730944, 2686976, 14876672, 3080192, 8650752, 5439488, 13697024, 0, 15532032,
     2097152, 16515072, 11599872, 5963776, 6946816, 13303808, 12451840, 3735552, 4849664,
     4980736, 5767168, 13565952, 13631488, 15663104, 11141120, 16449536, 4390912, 5046272,
     3342336, 8716288, 4521984, 16318464, 131072, 8323072, 5242880, 3932160, 10420224,
     11010048, 5308416, 10682368, 4194304, 9371648, 9568256, 10289152, 3670016, 16056320,
     12320768, 11927552, 14286848, 2162688, 1048576, 16711680, 15925248, 13762560, 13434880,
     786432, 1245184, 15466496, 6225920, 9895936, 4456448, 1507328, 12845056, 10944512,
     8257536, 3997696, 6553600, 6094848, 1638400, 7536640, 6291456, 8454144, 5177344,
     14417920, 2228224, 2752512, 9437184, 8912896, 4587520, 15597568, 12058624, 1310720,
     14548992, 6160384, 720896, 14352384, 14680064, 3276800, 3801088, 655360, 4784128, 393216,
     2359296, 6029312, 12713984, 13828096, 11272192, 6422528, 9502720, 9764864, 14942208,
     7929856, 15138816, 13107200, 3604480, 7143424, 9240576, 13959168, 5111808, 11075584,
     7077888, 5636096, 15990784, 15335424, 6619136, 7995392, 11403264, 524288, 12189696,
     7864320, 2424832, 3014656, 1835008, 10878976, 11796480, 12976128, 15204352, 14483456,
     7602176, 2031616, 4915200, 12386304, 9109504, 9043968, 7340032, 4063232, 11862016,
     6684672, 4718592, 196608, 16121856, 917504, 6356992, 3473408, 5701632, 12124160, 8781824,
     12648448, 1900544, 10354688, 14745600, 16252928, 9961472, 1114112, 6881280, 14221312,
     9306112, 9699328, 10158080, 1966080, 8847360, 15269888, 13500416, 5570560, 2621440,
     14614528, 9175040, 10551296, 8978432, 851968, 12517376, 15073280, 4325376, 6815744,
     4259840, 10027008, 2949120, 983040, 11534336, 5505024, 12255232, 1441792]"

definition Te4_3 :: "u32 list" where
  "Te4_3 = [
     1660944384, 2080374784, 1996488704, 2063597568, 4060086272, 1795162112, 1862270976,
     3305111552, 805306368, 16777216, 1728053248, 721420288, 4261412864, 3607101440,
     2868903936, 1979711488, 3388997632, 2181038080, 3372220416, 2097152000, 4194304000,
     1493172224, 1191182336, 4026531840, 2902458368, 3556769792, 2717908992, 2936012800,
     2617245696, 2751463424, 1912602624, 3221225472, 3070230528, 4244635648, 2466250752,
     637534208, 905969664, 1056964608, 4143972352, 3422552064, 872415232, 2768240640,
     3841982464, 4043309056, 1895825408, 3623878656, 822083584, 352321536, 67108864,
     3338665984, 587202560, 3271557120, 402653184, 2516582400, 83886080, 2583691264,
     117440512, 301989888, 2147483648, 3791650816, 3942645760, 654311424, 2986344448,
     1962934272, 150994944, 2197815296, 738197504, 436207616, 452984832, 1845493760,
     1509949440, 2684354560, 1375731712, 989855744, 3590324224, 3003121664, 687865856,
     3808428032, 788529152, 2214592512, 1392508928, 3506438144, 0, 3976200192, 536870912,
     4227858432, 2969567232, 1526726656, 1778384896, 3405774848, 3187671040, 956301312,
     1241513984, 1275068416, 1476395008, 3472883712, 3489660928, 4009754624, 2852126720,
     4211081216, 1124073472, 1291845632, 855638016, 2231369728, 1157627904, 4177526784,
     33554432, 2130706432, 1342177280, 1006632960, 2667577344, 2818572288, 1358954496,
     2734686208, 1073741824, 2399141888, 2449473536, 2634022912, 939524096, 4110417920,
     3154116608, 3053453312, 3657433088, 553648128, 268435456, 4278190080, 4076863488,
     3523215360, 3439329280, 201326592, 318767104, 3959422976, 1593835520, 2533359616,
     1140850688, 385875968, 3288334336, 2801795072, 2113929216, 1023410176, 1677721600,
     1560281088, 419430400, 1929379840, 1610612736, 2164260864, 1325400064, 3690987520,
     570425344, 704643072, 2415919104, 2281701376, 1174405120, 3992977408, 3087007744,
     335544320, 3724541952, 1577058304, 184549376, 3674210304, 3758096384, 838860800,
     973078528, 167772160, 1224736768, 100663296, 603979776, 1543503872, 3254779904,
     3539992576, 2885681152, 1644167168, 2432696320, 2499805184, 3825205248, 2030043136,
     3875536896, 3355443200, 922746880, 1828716544, 2365587456, 3573547008, 1308622848,
     2835349504, 1811939328, 1442840576, 4093640704, 3925868544, 1694498816, 2046820352,
     2919235584, 134217728, 3120562176, 2013265920, 620756992, 771751936, 469762048,
     2785017856, 3019898880, 3321888768, 3892314112, 3707764736, 1946157056, 520093696,
     1258291200, 3170893824, 2332033024, 2315255808, 1879048192, 1040187392, 3036676096,
     1711276032, 1207959552, 50331648, 4127195136, 234881024, 1627389952, 889192448,
     1459617792, 3103784960, 2248146944, 3238002688, 486539264, 2650800128, 3774873600,
     4160749568, 2550136832, 285212672, 1761607680, 3640655872, 2382364672, 2483027968,
     2600468480, 503316480, 2264924160, 3909091328, 3456106496, 1426063360, 671088640,
     3741319168, 2348810240, 2701131776, 2298478592, 218103808, 3204448256, 3858759680,
     1107296256, 1744830464, 1090519040, 2566914048, 754974720, 251658240, 2952790016,
     1409286144, 3137339392, 369098752]"

definition rcon :: "u32 list" where
  "rcon = [
     16777216, 33554432, 67108864, 134217728, 268435456, 536870912, 1073741824, 2147483648,
     452984832, 905969664]"


section \<open>Key expansion\<close>

record rijndael_key =
  rj_eK :: "u32 list"
  rj_Nr :: nat

definition setup_mix :: "u32 \<Rightarrow> u32" where
  "setup_mix temp = Te4_3 ! byte_at temp 2 XOR Te4_2 ! byte_at temp 1 XOR
                    Te4_1 ! byte_at temp 0 XOR Te4_0 ! byte_at temp 3"

text \<open>
  One pass of each of the three loops.  \<^verbatim>\<open>eK\<close> is the part of the schedule written so far and
  \<^verbatim>\<open>rk\<close> the running pointer into it, four, six or eight words before its end.
\<close>

definition aes_expand_128 :: "nat \<Rightarrow> u32 list \<Rightarrow> u32 list" where
  "aes_expand_128 i eK =
     (let rk = drop (4 * i) eK;
          rk4 = rk ! 0 XOR setup_mix (rk ! 3) XOR rcon ! i;
          rk5 = rk ! 1 XOR rk4;
          rk6 = rk ! 2 XOR rk5;
          rk7 = rk ! 3 XOR rk6
      in eK @ [rk4, rk5, rk6, rk7])"

definition aes_expand_192 :: "nat \<Rightarrow> u32 list \<Rightarrow> u32 list" where
  "aes_expand_192 i eK =
     (let rk = drop (6 * i) eK;
          rk6 = rk ! 0 XOR setup_mix (rk ! 5) XOR rcon ! i;
          rk7 = rk ! 1 XOR rk6;
          rk8 = rk ! 2 XOR rk7;
          rk9 = rk ! 3 XOR rk8;
          eK = eK @ [rk6, rk7, rk8, rk9]
      in if i + 1 = 8 then eK
         else let rk10 = rk ! 4 XOR rk9;
                  rk11 = rk ! 5 XOR rk10
              in eK @ [rk10, rk11])"

definition aes_expand_256 :: "nat \<Rightarrow> u32 list \<Rightarrow> u32 list" where
  "aes_expand_256 i eK =
     (let rk = drop (8 * i) eK;
          rk8 = rk ! 0 XOR setup_mix (rk ! 7) XOR rcon ! i;
          rk9 = rk ! 1 XOR rk8;
          rk10 = rk ! 2 XOR rk9;
          rk11 = rk ! 3 XOR rk10;
          eK = eK @ [rk8, rk9, rk10, rk11]
      in if i + 1 = 7 then eK
         else let rk12 = rk ! 4 XOR setup_mix (ROR rk11 8);
                  rk13 = rk ! 5 XOR rk12;
                  rk14 = rk ! 6 XOR rk13;
                  rk15 = rk ! 7 XOR rk14
              in eK @ [rk12, rk13, rk14, rk15])"

definition rijndael_enc_setup :: "byte list \<Rightarrow> nat \<Rightarrow> nat \<Rightarrow> crypt_error + rijndael_key" where
  "rijndael_enc_setup key keylen num_rounds =
     (if keylen \<noteq> 16 \<and> keylen \<noteq> 24 \<and> keylen \<noteq> 32 then Inl CRYPT_INVALID_KEYSIZE
      else if num_rounds \<noteq> 0 \<and> num_rounds \<noteq> 10 + (keylen div 8 - 2) * 2 then Inl CRYPT_INVALID_ROUNDS
      else
        let Nr = 10 + (keylen div 8 - 2) * 2;
            rk = [LOAD32H key 0, LOAD32H key 4, LOAD32H key 8, LOAD32H key 12]
        in if keylen = 16 then
             Inr \<lparr>rj_eK = fold aes_expand_128 [0..<10] rk, rj_Nr = Nr\<rparr>
           else if keylen = 24 then
             Inr \<lparr>rj_eK = fold aes_expand_192 [0..<8] (rk @ [LOAD32H key 16, LOAD32H key 20]), rj_Nr = Nr\<rparr>
           else
             Inr \<lparr>rj_eK = fold aes_expand_256 [0..<7]
                    (rk @ [LOAD32H key 16, LOAD32H key 20, LOAD32H key 24, LOAD32H key 28]), rj_Nr = Nr\<rparr>)"

section \<open>Encryption of a block\<close>

type_synonym aes_state = "u32 \<times> u32 \<times> u32 \<times> u32"

text \<open>A full round; \<^verbatim>\<open>k\<close> is the position of its round key.\<close>

definition aes_mix :: "u32 \<Rightarrow> u32 \<Rightarrow> u32 \<Rightarrow> u32 \<Rightarrow> u32 \<Rightarrow> u32" where
  "aes_mix a b c d k = TE0 ! byte_at a 3 XOR TE1 ! byte_at b 2 XOR TE2 ! byte_at c 1 XOR TE3 ! byte_at d 0 XOR k"

fun aes_round :: "u32 list \<Rightarrow> nat \<Rightarrow> aes_state \<Rightarrow> aes_state" where
  "aes_round rk k (s0, s1, s2, s3) =
     (aes_mix s0 s1 s2 s3 (rk ! k), aes_mix s1 s2 s3 s0 (rk ! (k + 1)),
      aes_mix s2 s3 s0 s1 (rk ! (k + 2)), aes_mix s3 s0 s1 s2 (rk ! (k + 3)))"

definition aes_last :: "u32 \<Rightarrow> u32 \<Rightarrow> u32 \<Rightarrow> u32 \<Rightarrow> u32 \<Rightarrow> u32" where
  "aes_last a b c d k = Te4_3 ! byte_at a 3 XOR Te4_2 ! byte_at b 2 XOR Te4_1 ! byte_at c 1 XOR Te4_0 ! byte_at d 0 XOR k"

text \<open>
  The loop makes two rounds per pass and leaves after the first round of the last pass;
  \<^verbatim>\<open>r\<close> counts the passes down.  It returns the position of the last round key.
\<close>

fun aes_rounds :: "u32 list \<Rightarrow> nat \<Rightarrow> nat \<Rightarrow> aes_state \<Rightarrow> nat \<times> aes_state" where
  "aes_rounds rk 0 k s = (k, s)"
| "aes_rounds rk (Suc r) k s =
     (let t = aes_round rk (k + 4) s;
          k = k + 8
      in if r = 0 then (k, t) else aes_rounds rk r k (aes_round rk k t))"

definition rijndael_enc_ecb_encrypt :: "byte list \<Rightarrow> rijndael_key \<Rightarrow> byte list" where
  "rijndael_enc_ecb_encrypt pt skey =
     (let rk = rj_eK skey;
          s0 = LOAD32H pt 0 XOR rk ! 0;
          s1 = LOAD32H pt 4 XOR rk ! 1;
          s2 = LOAD32H pt 8 XOR rk ! 2;
          s3 = LOAD32H pt 12 XOR rk ! 3;
          (k, t0, t1, t2, t3) = aes_rounds rk (rj_Nr skey div 2) 0 (s0, s1, s2, s3)
      in STORE32H (aes_last t0 t1 t2 t3 (rk ! k)) @
         STORE32H (aes_last t1 t2 t3 t0 (rk ! (k + 1))) @
         STORE32H (aes_last t2 t3 t0 t1 (rk ! (k + 2))) @
         STORE32H (aes_last t3 t0 t1 t2 (rk ! (k + 3))))"

definition rijndael_enc_keysize :: "nat \<Rightarrow> crypt_error + nat" where
  "rijndael_enc_keysize keysize =
     (if keysize < 16 then Inl CRYPT_INVALID_KEYSIZE
      else if keysize < 24 then Inr 16
      else if keysize < 32 then Inr 24
      else Inr 32)"

section \<open>The specification on bytes\<close>

text \<open>
  A state is the list of its sixteen bytes, column after column.  The S-box is the low byte of
  the table \<^verbatim>\<open>Te4_0\<close>.
\<close>

definition aes_S :: "byte list" where
  "aes_S = map ucast Te4_0"

definition mul2 :: "byte \<Rightarrow> byte" where
  "mul2 b = push_bit 1 b XOR (if bit b 7 then 27 else 0)"

definition mul3 :: "byte \<Rightarrow> byte" where
  "mul3 b = mul2 b XOR b"

definition sub_byte :: "byte \<Rightarrow> byte" where
  "sub_byte b = aes_S ! unat b"

definition sub_bytes :: "byte list \<Rightarrow> byte list" where
  "sub_bytes st = map sub_byte st"

definition shift_rows :: "byte list \<Rightarrow> byte list" where
  "shift_rows st = map (\<lambda>i. st ! ((i + 4 * (i mod 4)) mod 16)) [0..<16]"

fun mix_column :: "byte list \<Rightarrow> byte list" where
  "mix_column [a, b, c, d] =
     [mul2 a XOR mul3 b XOR c XOR d, a XOR mul2 b XOR mul3 c XOR d,
      a XOR b XOR mul2 c XOR mul3 d, mul3 a XOR b XOR c XOR mul2 d]"
| "mix_column _ = []"

definition mix_columns :: "byte list \<Rightarrow> byte list" where
  "mix_columns st = mix_column (take 4 st) @ mix_column (take 4 (drop 4 st)) @
                    mix_column (take 4 (drop 8 st)) @ mix_column (take 4 (drop 12 st))"

definition round_key :: "u32 list \<Rightarrow> nat \<Rightarrow> byte list" where
  "round_key rk i = concat (map STORE32H [rk ! (4 * i), rk ! (4 * i + 1), rk ! (4 * i + 2), rk ! (4 * i + 3)])"

definition aes_spec :: "u32 list \<Rightarrow> nat \<Rightarrow> byte list \<Rightarrow> byte list" where
  "aes_spec rk Nr pt =
     (let st = xor_bytes pt (round_key rk 0);
          st = fold (\<lambda>i st. xor_bytes (mix_columns (shift_rows (sub_bytes st))) (round_key rk i)) [1..<Nr] st
      in xor_bytes (shift_rows (sub_bytes st)) (round_key rk Nr))"

section \<open>The tables are the column transform of the S-box\<close>

definition join_bytes :: "byte \<Rightarrow> byte \<Rightarrow> byte \<Rightarrow> byte \<Rightarrow> u32" where
  "join_bytes a b c d = push_bit 24 (ucast a) OR push_bit 16 (ucast b) OR push_bit 8 (ucast c) OR ucast d"

lemma STORE32H_join_bytes: "STORE32H (join_bytes a b c d) = [a, b, c, d]"
  unfolding STORE32H_def join_bytes_def by (simp only: bytes_join32)

text \<open>The S-box, its double and its triple, evaluated.\<close>

lemma aes_S_eval: "aes_S = [
     99, 124, 119, 123, 242, 107, 111, 197, 48, 1, 103, 43, 254, 215, 171, 118, 202, 130, 201,
     125, 250, 89, 71, 240, 173, 212, 162, 175, 156, 164, 114, 192, 183, 253, 147, 38, 54, 63,
     247, 204, 52, 165, 229, 241, 113, 216, 49, 21, 4, 199, 35, 195, 24, 150, 5, 154, 7, 18,
     128, 226, 235, 39, 178, 117, 9, 131, 44, 26, 27, 110, 90, 160, 82, 59, 214, 179, 41, 227,
     47, 132, 83, 209, 0, 237, 32, 252, 177, 91, 106, 203, 190, 57, 74, 76, 88, 207, 208, 239,
     170, 251, 67, 77, 51, 133, 69, 249, 2, 127, 80, 60, 159, 168, 81, 163, 64, 143, 146, 157,
     56, 245, 188, 182, 218, 33, 16, 255, 243, 210, 205, 12, 19, 236, 95, 151, 68, 23, 196,
     167, 126, 61, 100, 93, 25, 115, 96, 129, 79, 220, 34, 42, 144, 136, 70, 238, 184, 20,
     222, 94, 11, 219, 224, 50, 58, 10, 73, 6, 36, 92, 194, 211, 172, 98, 145, 149, 228, 121,
     231, 200, 55, 109, 141, 213, 78, 169, 108, 86, 244, 234, 101, 122, 174, 8, 186, 120, 37,
     46, 28, 166, 180, 198, 232, 221, 116, 31, 75, 189, 139, 138, 112, 62, 181, 102, 72, 3,
     246, 14, 97, 53, 87, 185, 134, 193, 29, 158, 225, 248, 152, 17, 105, 217, 142, 148, 155,
     30, 135, 233, 206, 85, 40, 223, 140, 161, 137, 13, 191, 230, 66, 104, 65, 153, 45, 15,
     176, 84, 187, 22]"
  by (simp add: aes_S_def Te4_0_def)

lemmas AES_eval = aes_S_eval mul2_def mul3_def join_bytes_def

lemma TE0_table: "TE0 = map (\<lambda>s. join_bytes (mul2 s) s s (mul3 s)) aes_S"
  by (simp add: AES_eval TE0_def)

lemma TE1_table: "TE1 = map (\<lambda>s. join_bytes (mul3 s) (mul2 s) s s) aes_S"
  by (simp add: AES_eval TE1_def)

lemma TE2_table: "TE2 = map (\<lambda>s. join_bytes s (mul3 s) (mul2 s) s) aes_S"
  by (simp add: AES_eval TE2_def)

lemma TE3_table: "TE3 = map (\<lambda>s. join_bytes s s (mul3 s) (mul2 s)) aes_S"
  by (simp add: AES_eval TE3_def)

lemma Te4_tables:
  "Te4_0 = map (join_bytes 0 0 0) aes_S"
  "Te4_1 = map (\<lambda>s. join_bytes 0 0 s 0) aes_S"
  "Te4_2 = map (\<lambda>s. join_bytes 0 s 0 0) aes_S"
  "Te4_3 = map (\<lambda>s. join_bytes s 0 0 0) aes_S"
  by (simp_all add: aes_S_eval join_bytes_def Te4_0_def Te4_1_def Te4_2_def Te4_3_def)

lemma length_aes_S [lengths, simp]: "length aes_S = 256"
  by (simp add: aes_S_def Te4_0_def)

section \<open>Table-driven rounds against the specification\<close>

lemma STORE32H_xor: "STORE32H (x XOR y) = xor_bytes (STORE32H x) (STORE32H y)"
proof -
  have u: "(ucast (x XOR y) :: byte) = ucast x XOR ucast y" for x y :: u32
    by (rule bit_word_eqI) (auto simp: bit_simps)
  show ?thesis
    by (simp add: STORE32H_def u drop_bit_xor)
qed

text \<open>\<^verbatim>\<open>word_byte x n\<close> is the byte that \<^verbatim>\<open>byte_at x n\<close> indexes a table with.\<close>

definition word_byte :: "u32 \<Rightarrow> nat \<Rightarrow> byte" where
  "word_byte x n = ucast (drop_bit (8 * n) x)"

lemma nth_AES_map: "map f aes_S ! byte_at x n = f (sub_byte (word_byte x n))"
proof -
  have "map f aes_S ! byte_at x n = f (aes_S ! byte_at x n)"
    by simp
  then show ?thesis
    by (simp only: byte_at_ucast sub_byte_def word_byte_def)
qed

lemma STORE32H_word_bytes: "STORE32H x = [word_byte x 3, word_byte x 2, word_byte x 1, word_byte x 0]"
  by (simp add: STORE32H_def word_byte_def)

lemma xor_bytes_quads:
  "xor_bytes [a, b, c, d] [p, q, r, s] = [a XOR p, b XOR q, c XOR r, d XOR s]"
  by simp

lemma aes_mix_column:
  "STORE32H (aes_mix a b c d k) = xor_bytes
     (mix_column [sub_byte (word_byte a 3), sub_byte (word_byte b 2), sub_byte (word_byte c 1), sub_byte (word_byte d 0)])
     (STORE32H k)"
  unfolding aes_mix_def TE0_table TE1_table TE2_table TE3_table nth_AES_map STORE32H_xor STORE32H_join_bytes
    mix_column.simps STORE32H_word_bytes [of k] xor_bytes_quads
  by (simp only: xor.assoc)

lemma aes_last_column:
  "STORE32H (aes_last a b c d k) = xor_bytes
     [sub_byte (word_byte a 3), sub_byte (word_byte b 2), sub_byte (word_byte c 1), sub_byte (word_byte d 0)]
     (STORE32H k)"
  unfolding aes_last_def Te4_tables nth_AES_map STORE32H_xor STORE32H_join_bytes
    STORE32H_word_bytes [of k] xor_bytes_quads
  by simp

fun aes_bytes :: "aes_state \<Rightarrow> byte list" where
  "aes_bytes (s0, s1, s2, s3) = STORE32H s0 @ STORE32H s1 @ STORE32H s2 @ STORE32H s3"

lemma upt16: "[0..<16] = [0, 1, 2, 3, 4, 5, 6, 7, 8, 9, 10, 11, 12, 13, 14, 15 :: nat]"
  by code_simp

lemma shift_sub_bytes:
  "shift_rows (sub_bytes (aes_bytes (s0, s1, s2, s3))) = map sub_byte
     [word_byte s0 3, word_byte s1 2, word_byte s2 1, word_byte s3 0, word_byte s1 3, word_byte s2 2, word_byte s3 1, word_byte s0 0,
      word_byte s2 3, word_byte s3 2, word_byte s0 1, word_byte s1 0, word_byte s3 3, word_byte s0 2, word_byte s1 1, word_byte s2 0]"
  by (simp add: shift_rows_def sub_bytes_def STORE32H_word_bytes upt16)

lemma xor_bytes_append:
  "length xs = length ys \<Longrightarrow> xor_bytes (xs @ xs') (ys @ ys') = xor_bytes xs ys @ xor_bytes xs' ys'"
  by (simp add: xor_bytes_def)

lemma length_mix_column [simp]: "length (mix_column [a, b, c, d]) = 4"
  by simp

lemma aes_round_spec:
  "aes_bytes (aes_round rk (4 * i) s) =
     xor_bytes (mix_columns (shift_rows (sub_bytes (aes_bytes s)))) (round_key rk i)"
proof -
  obtain s0 s1 s2 s3 where s: "s = (s0, s1, s2, s3)" by (cases s)
  show ?thesis
    unfolding s shift_sub_bytes
    unfolding aes_round.simps aes_bytes.simps aes_mix_column mix_columns_def round_key_def
    by (simp add: xor_bytes_append del: mix_column.simps)
qed

lemma round_key_0: "round_key rk 0 = STORE32H (rk ! 0) @ STORE32H (rk ! 1) @ STORE32H (rk ! 2) @ STORE32H (rk ! 3)"
  by (simp add: round_key_def numeral_2_eq_2)

lemma aes_rounds_fold:
  "0 < r \<Longrightarrow> aes_rounds rk r (8 * j) s =
     (8 * (j + r), fold (\<lambda>i. aes_round rk (4 * i)) [2 * j + 1..<2 * (j + r)] s)"
proof (induction r arbitrary: j s)
  case (Suc r)
  show ?case
  proof (cases "r = 0")
    case True
    then show ?thesis
      by (simp add: upt_rec [of "Suc (2 * j)"] algebra_simps)
  next
    case False
    have "[2 * j + 1..<2 * (j + Suc r)] = (2 * j + 1) # (2 * j + 2) # [2 * (j + 1) + 1..<2 * (j + 1 + r)]"
      using False by (simp add: upt_conv_Cons)
    moreover have "8 * j + 8 = 8 * (j + 1)" "8 * j + 4 = 4 * (2 * j + 1)" "4 * (2 * j + 2) = 8 * (j + 1)"
      by simp_all
    ultimately show ?thesis
      using False Suc.IH [of "j + 1" "aes_round rk (8 * (j + 1)) (aes_round rk (4 * (2 * j + 1)) s)"]
      by (simp only: aes_rounds.simps Let_def if_False fold_simps o_apply simp_thms neq0_conv)
        (simp add: algebra_simps)
  qed
qed simp

lemma aes_bytes_fold:
  "aes_bytes (fold (\<lambda>i. aes_round rk (4 * i)) is s) =
     fold (\<lambda>i st. xor_bytes (mix_columns (shift_rows (sub_bytes st))) (round_key rk i)) is (aes_bytes s)"
  by (induction "is" arbitrary: s) (simp_all add: aes_round_spec)

lemma aes_bytes_in:
  assumes "length pt = 16"
  shows "aes_bytes (LOAD32H pt 0 XOR a, LOAD32H pt 4 XOR b, LOAD32H pt 8 XOR c, LOAD32H pt 12 XOR d) =
    xor_bytes pt (STORE32H a @ STORE32H b @ STORE32H c @ STORE32H d)"
proof -
  have "pt = take 4 pt @ take 4 (drop 4 pt) @ take 4 (drop 8 pt) @ take 4 (drop 12 pt)"
    using assms take_add [of 4 4 pt] take_add [of 8 4 pt] take_add [of 12 4 pt] by simp
  then have pt: "STORE32H (LOAD32H pt 0) @ STORE32H (LOAD32H pt 4) @ STORE32H (LOAD32H pt 8) @ STORE32H (LOAD32H pt 12) = pt"
    using assms by (simp add: STORE32H_LOAD32H)
  have "aes_bytes (p XOR a, q XOR b, r XOR c, s XOR d) = xor_bytes (STORE32H p @ STORE32H q @ STORE32H r @ STORE32H s)
      (STORE32H a @ STORE32H b @ STORE32H c @ STORE32H d)" for p q r s
    by (simp add: STORE32H_xor xor_bytes_append)
  from this [of "LOAD32H pt 0" "LOAD32H pt 4" "LOAD32H pt 8" "LOAD32H pt 12"] show ?thesis
    by (simp only: pt)
qed

text \<open>
  C24: the table-driven encryption is the AES of the standard on bytes: round key addition, then
  \<^verbatim>\<open>Nr - 1\<close> rounds of substitution, row shift, column mixing and key addition, and a last round
  without column mixing, for every even positive number of rounds.
\<close>
theorem rijndael_encrypt_spec:
  assumes "length pt = 16" "rj_Nr skey = 2 * r" "0 < r"
  shows "rijndael_enc_ecb_encrypt pt skey = aes_spec (rj_eK skey) (rj_Nr skey) pt"
proof -
  let ?rk = "rj_eK skey"
  let ?in = "(LOAD32H pt 0 XOR ?rk ! 0, LOAD32H pt 4 XOR ?rk ! 1, LOAD32H pt 8 XOR ?rk ! 2, LOAD32H pt 12 XOR ?rk ! 3)"
  obtain t0 t1 t2 t3 where t: "fold (\<lambda>i. aes_round ?rk (4 * i)) [1..<2 * r] ?in = (t0, t1, t2, t3)"
    by (rule prod_cases4)
  have rounds: "aes_rounds ?rk r 0 ?in = (8 * r, t0, t1, t2, t3)"
    using aes_rounds_fold [OF assms(3), of ?rk 0 ?in] t by (simp del: One_nat_def)
  have bytes: "aes_bytes (t0, t1, t2, t3) =
      fold (\<lambda>i st. xor_bytes (mix_columns (shift_rows (sub_bytes st))) (round_key ?rk i)) [1..<2 * r]
        (xor_bytes pt (round_key ?rk 0))"
    unfolding t [symmetric] aes_bytes_fold aes_bytes_in [OF assms(1)] round_key_0 ..
  have "rijndael_enc_ecb_encrypt pt skey =
      xor_bytes (shift_rows (sub_bytes (aes_bytes (t0, t1, t2, t3)))) (round_key ?rk (2 * r))"
    unfolding shift_sub_bytes
    by (simp add: rijndael_enc_ecb_encrypt_def assms(2) rounds Let_def aes_last_column round_key_def del: One_nat_def)
      (simp add: STORE32H_word_bytes)
  then show ?thesis
    unfolding bytes aes_spec_def Let_def assms(2) .
qed

theorem rijndael_encrypt_spec_witness:
  "rijndael_enc_ecb_encrypt (replicate 16 7) \<lparr>rj_eK = replicate 44 9, rj_Nr = 10\<rparr> =
   aes_spec (replicate 44 9) 10 (replicate 16 7)"
  using rijndael_encrypt_spec [of "replicate 16 7" "\<lparr>rj_eK = replicate 44 9, rj_Nr = 10\<rparr>" 5] by simp

lemma length_rijndael_enc_ecb_encrypt [lengths, simp]: "length (rijndael_enc_ecb_encrypt pt skey) = 16"
  by (simp add: rijndael_enc_ecb_encrypt_def Let_def split: prod.splits)

lemma length_aes_expand [lengths]:
  "length (aes_expand_128 i eK) = length eK + 4"
  "length (aes_expand_192 i eK) = length eK + (if i + 1 = 8 then 4 else 6)"
  "length (aes_expand_256 i eK) = length eK + (if i + 1 = 7 then 4 else 8)"
  by (simp_all add: aes_expand_128_def aes_expand_192_def aes_expand_256_def Let_def)

lemma fold_extends:
  "(\<And>i l. \<exists>ys. f i l = l @ ys) \<Longrightarrow> \<exists>ys. fold f is l = l @ ys"
  by (induction "is" arbitrary: l) (simp, metis append_assoc fold_simps(2))

lemma aes_expand_extends:
  "\<exists>ys. fold aes_expand_128 is eK = eK @ ys"
  "\<exists>ys. fold aes_expand_192 is eK = eK @ ys"
  "\<exists>ys. fold aes_expand_256 is eK = eK @ ys"
  by (rule fold_extends, simp add: aes_expand_128_def aes_expand_192_def aes_expand_256_def Let_def)+

lemma length_aes_schedule [lengths]:
  "length eK = 4 \<Longrightarrow> length (fold aes_expand_128 [0..<10] eK) = 44"
  "length eK = 6 \<Longrightarrow> length (fold aes_expand_192 [0..<8] eK) = 52"
  "length eK = 8 \<Longrightarrow> length (fold aes_expand_256 [0..<7] eK) = 60"
proof -
  have u: "[0..<10] = [0, 1, 2, 3, 4, 5, 6, 7, 8, 9 :: nat]" "[0..<8] = [0, 1, 2, 3, 4, 5, 6, 7 :: nat]"
    "[0..<7] = [0, 1, 2, 3, 4, 5, 6 :: nat]"
    by code_simp+
  show "length eK = 4 \<Longrightarrow> length (fold aes_expand_128 [0..<10] eK) = 44"
    "length eK = 6 \<Longrightarrow> length (fold aes_expand_192 [0..<8] eK) = 52"
    "length eK = 8 \<Longrightarrow> length (fold aes_expand_256 [0..<7] eK) = 60"
    by (simp_all add: u length_aes_expand)
qed

lemma nth_extended: "\<exists>ys. l = xs @ ys \<Longrightarrow> i < length xs \<Longrightarrow> l ! i = xs ! i"
  by (auto simp: nth_append)

lemma nth_loaded_words:
  "i < 4 \<Longrightarrow> [f 0, f 4, f 8, f 12] ! i = f (4 * i :: nat)"
  "i < 6 \<Longrightarrow> [f 0, f 4, f 8, f 12, f 16, f 20] ! i = f (4 * i)"
  "i < 8 \<Longrightarrow> [f 0, f 4, f 8, f 12, f 16, f 20, f 24, f 28] ! i = f (4 * i)"
  by (auto simp: less_Suc_eq numeral_eq_Suc)

lemma rijndael_setup_facts:
  "case rijndael_enc_setup key keylen num_rounds of
     Inl e \<Rightarrow> (if keylen \<in> {16, 24, 32} then e = CRYPT_INVALID_ROUNDS \<and> num_rounds \<notin> {0, keylen div 4 + 6}
              else e = CRYPT_INVALID_KEYSIZE)
   | Inr skey \<Rightarrow> keylen \<in> {16, 24, 32} \<and> num_rounds \<in> {0, keylen div 4 + 6} \<and>
       rj_Nr skey = keylen div 4 + 6 \<and> length (rj_eK skey) = 4 * (rj_Nr skey + 1) \<and>
       (\<forall>i < keylen div 4. rj_eK skey ! i = LOAD32H key (4 * i))"
proof -
  note ext = aes_expand_extends [THEN nth_extended]
  consider "keylen = 16" | "keylen = 24" | "keylen = 32" | "keylen \<notin> {16, 24, 32}" by auto
  then show ?thesis
  proof cases
    case 1
    then show ?thesis
      using ext(1) [of _ "[LOAD32H key 0, LOAD32H key 4, LOAD32H key 8, LOAD32H key 12]" "[0..<10]"]
      by (auto simp: rijndael_enc_setup_def Let_def length_aes_schedule nth_loaded_words)
  next
    case 2
    then show ?thesis
      using ext(2) [of _ "[LOAD32H key 0, LOAD32H key 4, LOAD32H key 8, LOAD32H key 12, LOAD32H key 16, LOAD32H key 20]" "[0..<8]"]
      by (auto simp: rijndael_enc_setup_def Let_def length_aes_schedule nth_loaded_words)
  next
    case 3
    then show ?thesis
      using ext(3) [of _ "[LOAD32H key 0, LOAD32H key 4, LOAD32H key 8, LOAD32H key 12,
          LOAD32H key 16, LOAD32H key 20, LOAD32H key 24, LOAD32H key 28]" "[0..<7]"]
      by (auto simp: rijndael_enc_setup_def Let_def length_aes_schedule nth_loaded_words)
  next
    case 4
    then show ?thesis
      by (simp add: rijndael_enc_setup_def)
  qed
qed

text \<open>
  The key setup accepts exactly the key lengths 16, 24 and 32, each with its own number of
  rounds or 0, reports a bad key length first, and writes \<^verbatim>\<open>4 (Nr + 1)\<close> words of round keys with
  the key itself as the first words; \<^verbatim>\<open>Nr\<close> is 10, 12 or 14.
\<close>
theorem rijndael_setup_result:
  "case rijndael_enc_setup key keylen num_rounds of
     Inl e \<Rightarrow> (if keylen \<in> {16, 24, 32} then e = CRYPT_INVALID_ROUNDS \<and> num_rounds \<notin> {0, keylen div 4 + 6}
              else e = CRYPT_INVALID_KEYSIZE)
   | Inr skey \<Rightarrow> keylen \<in> {16, 24, 32} \<and> num_rounds \<in> {0, keylen div 4 + 6} \<and>
       rj_Nr skey = keylen div 4 + 6 \<and> length (rj_eK skey) = 4 * (rj_Nr skey + 1) \<and>
       take (keylen div 4) (rj_eK skey) = map (\<lambda>i. LOAD32H key (4 * i)) [0..<keylen div 4]"
  using rijndael_setup_facts [where key = key and keylen = keylen and num_rounds = num_rounds]
  by (auto split: sum.splits intro!: nth_equalityI)

end
