(* ===== verification/Ciphers.thy ===== *)
theory Ciphers
  imports Modes Serpent Blowfish Twofish AES
begin

text \<open>
  The union \<^verbatim>\<open>symmetric_key\<close>, the descriptors of the four ciphers and the table that
  \<^verbatim>\<open>register_all\<close> of \<^verbatim>\<open>C_Encryption.cpp\<close> builds from them.  Each cipher interprets the interface
  of the chaining modes, and the properties of the modes follow for every registered cipher.
\<close>

section \<open>Descriptors\<close>

datatype symmetric_key =
    SK_rijndael rijndael_key
  | SK_blowfish blowfish_key
  | SK_serpent "u32 list"
  | SK_twofish twofish_key

text \<open>
  A descriptor function given a key of another cipher reads a union member that was not
  written.  No code does that; the model returns \<^verbatim>\<open>CRYPT_ERROR\<close> there.  The null pointers of the
  encryption-only AES are the constant error.  The schedule array of Serpent starts with zeros:
  its result does not depend on the previous contents.
\<close>

definition aes_enc_desc :: "symmetric_key cipher_desc" where
  "aes_enc_desc =
     \<lparr>cd_name = Some ''aes'', cd_ID = 6, cd_min_key_length = 16, cd_max_key_length = 32,
      cd_block_length = 16, cd_default_rounds = 10,
      cd_setup = (\<lambda>key keylen num_rounds. map_sum id SK_rijndael (rijndael_enc_setup key keylen num_rounds)),
      cd_ecb_encrypt = (\<lambda>pt k. case k of SK_rijndael key \<Rightarrow> Inr (rijndael_enc_ecb_encrypt pt key) | _ \<Rightarrow> Inl CRYPT_ERROR),
      cd_ecb_decrypt = (\<lambda>ct k. Inl CRYPT_ERROR),
      cd_keysize = rijndael_enc_keysize\<rparr>"

definition blowfish_desc :: "symmetric_key cipher_desc" where
  "blowfish_desc =
     \<lparr>cd_name = Some ''blowfish'', cd_ID = 0, cd_min_key_length = 8, cd_max_key_length = 56,
      cd_block_length = 8, cd_default_rounds = 16,
      cd_setup = (\<lambda>key keylen num_rounds. map_sum id SK_blowfish (blowfish_setup key keylen num_rounds)),
      cd_ecb_encrypt = (\<lambda>pt k. case k of SK_blowfish key \<Rightarrow> Inr (blowfish_ecb_encrypt pt key) | _ \<Rightarrow> Inl CRYPT_ERROR),
      cd_ecb_decrypt = (\<lambda>ct k. case k of SK_blowfish key \<Rightarrow> Inr (blowfish_ecb_decrypt ct key) | _ \<Rightarrow> Inl CRYPT_ERROR),
      cd_keysize = blowfish_keysize\<rparr>"

definition serpent_desc :: "symmetric_key cipher_desc" where
  "serpent_desc =
     \<lparr>cd_name = Some ''serpent'', cd_ID = 101, cd_min_key_length = 16, cd_max_key_length = 32,
      cd_block_length = 16, cd_default_rounds = 0,
      cd_setup = (\<lambda>key keylen num_rounds. map_sum id SK_serpent (serpent_setup key keylen num_rounds (replicate 140 0))),
      cd_ecb_encrypt = (\<lambda>pt k. case k of SK_serpent key \<Rightarrow> Inr (serpent_ecb_encrypt pt key) | _ \<Rightarrow> Inl CRYPT_ERROR),
      cd_ecb_decrypt = (\<lambda>ct k. case k of SK_serpent key \<Rightarrow> Inr (serpent_ecb_decrypt ct key) | _ \<Rightarrow> Inl CRYPT_ERROR),
      cd_keysize = serpent_keysize\<rparr>"

definition twofish_desc :: "symmetric_key cipher_desc" where
  "twofish_desc =
     \<lparr>cd_name = Some ''twofish'', cd_ID = 7, cd_min_key_length = 16, cd_max_key_length = 32,
      cd_block_length = 16, cd_default_rounds = 16,
      cd_setup = (\<lambda>key keylen num_rounds. map_sum id SK_twofish (twofish_setup key keylen num_rounds)),
      cd_ecb_encrypt = (\<lambda>pt k. case k of SK_twofish key \<Rightarrow> Inr (twofish_ecb_encrypt pt key) | _ \<Rightarrow> Inl CRYPT_ERROR),
      cd_ecb_decrypt = (\<lambda>ct k. case k of SK_twofish key \<Rightarrow> Inr (twofish_ecb_decrypt ct key) | _ \<Rightarrow> Inl CRYPT_ERROR),
      cd_keysize = twofish_keysize\<rparr>"

text \<open>The initial contents of the table and its contents after the registrations.\<close>

definition blank_cipher :: "symmetric_key cipher_desc" where
  "blank_cipher =
     \<lparr>cd_name = None, cd_ID = 0, cd_min_key_length = 0, cd_max_key_length = 0,
      cd_block_length = 0, cd_default_rounds = 0,
      cd_setup = (\<lambda>_ _ _. Inl CRYPT_ERROR), cd_ecb_encrypt = (\<lambda>_ _. Inl CRYPT_ERROR),
      cd_ecb_decrypt = (\<lambda>_ _. Inl CRYPT_ERROR), cd_keysize = (\<lambda>_. Inl CRYPT_ERROR)\<rparr>"

definition register_ciphers :: "symmetric_key cipher_desc list \<Rightarrow> symmetric_key cipher_desc list" where
  "register_ciphers tab =
     fold (\<lambda>d tab. snd (register_cipher d tab)) [aes_enc_desc, blowfish_desc, serpent_desc, twofish_desc] tab"

definition cipher_descriptor :: "symmetric_key cipher_desc list" where
  "cipher_descriptor = register_ciphers (replicate TAB_SIZE blank_cipher)"

section \<open>The table after registration\<close>

lemma desc_simps [simp]:
  "cd_name aes_enc_desc = Some ''aes''" "cd_ID aes_enc_desc = 6"
  "cd_name blowfish_desc = Some ''blowfish''" "cd_ID blowfish_desc = 0"
  "cd_name serpent_desc = Some ''serpent''" "cd_ID serpent_desc = 101"
  "cd_name twofish_desc = Some ''twofish''" "cd_ID twofish_desc = 7"
  "cd_name blank_cipher = None" "cd_block_length aes_enc_desc = 16" "cd_block_length blowfish_desc = 8"
  "cd_block_length serpent_desc = 16" "cd_block_length twofish_desc = 16"
  by (simp_all add: aes_enc_desc_def blowfish_desc_def serpent_desc_def twofish_desc_def blank_cipher_def)

lemma register_next:
  assumes "\<forall>e \<in> set tab. cd_name e \<noteq> None \<and> cd_ID e \<noteq> cd_ID d" "cd_name b = None"
  shows "snd (register_cipher d (tab @ replicate (Suc n) b)) = tab @ d # replicate n b"
  using cipher_reg.reg_next [of tab d b n] assms by simp

lemma cipher_descriptor_table:
  "cipher_descriptor = [aes_enc_desc, blowfish_desc, serpent_desc, twofish_desc] @ replicate 28 blank_cipher"
proof -
  have "TAB_SIZE = Suc (Suc (Suc (Suc 28)))"
    by (simp add: TAB_SIZE_def)
  then show ?thesis
    using register_next [of "[]" aes_enc_desc blank_cipher "Suc (Suc (Suc 28))"]
      register_next [of "[aes_enc_desc]" blowfish_desc blank_cipher "Suc (Suc 28)"]
      register_next [of "[aes_enc_desc, blowfish_desc]" serpent_desc blank_cipher "Suc 28"]
      register_next [of "[aes_enc_desc, blowfish_desc, serpent_desc]" twofish_desc blank_cipher 28]
    by (simp add: cipher_descriptor_def register_ciphers_def)
qed

text \<open>
  After \<^verbatim>\<open>register_all\<close> on the blank table the four ciphers are found by name in the slots 0
  to 3, which are exactly the valid ones.
\<close>
theorem registered_ciphers:
  "find_cipher name cipher_descriptor =
     (if name = ''aes'' then 0 else if name = ''blowfish'' then 1 else if name = ''serpent'' then 2
      else if name = ''twofish'' then 3 else -1) \<and>
   length cipher_descriptor = TAB_SIZE \<and>
   (cipher_is_valid c cipher_descriptor = CRYPT_OK) = (c \<in> {0, 1, 2, 3})"
proof -
  have "(cipher_is_valid c cipher_descriptor = CRYPT_OK) = (c \<in> {0, 1, 2, 3})"
  proof (cases "0 \<le> c \<and> c < 32")
    case True
    have "cipher_descriptor ! nat c = blank_cipher" if "4 \<le> c"
      using that True by (simp add: cipher_descriptor_table nth_append)
    moreover have "c = 0 \<or> c = 1 \<or> c = 2 \<or> c = 3 \<or> 4 \<le> c"
      using True by linarith
    ultimately show ?thesis
      using True by (auto simp: cipher_is_valid_def TAB_SIZE_def cipher_descriptor_table)
  qed (auto simp: cipher_is_valid_def TAB_SIZE_def)
  moreover have "find_cipher name cipher_descriptor = -1" if "name \<notin> {''aes'', ''blowfish'', ''serpent'', ''twofish''}"
  proof (cases rule: first_slot_cases [of "\<lambda>d. cd_name d = Some name" cipher_descriptor])
    case (found i)
    then have "cipher_descriptor ! i \<in> {aes_enc_desc, blowfish_desc, serpent_desc, twofish_desc, blank_cipher}"
      using nth_mem [of i cipher_descriptor] by (auto simp: cipher_descriptor_table)
    then show ?thesis
      using found(3) that by auto
  qed (simp add: find_cipher_def)
  ultimately show ?thesis
    by (simp add: find_cipher_def first_slot_def cipher_descriptor_table TAB_SIZE_def)
qed

section \<open>The ciphers provide what the modes need\<close>

text \<open>The block function of a descriptor.\<close>

definition block_fun :: "symmetric_key cipher_desc \<Rightarrow> symmetric_key \<Rightarrow> byte list \<Rightarrow> byte list" where
  "block_fun d k b = (case cd_ecb_encrypt d b k of Inl err \<Rightarrow> [] | Inr c \<Rightarrow> c)"

lemma map_sum_Inr: "map_sum id f x = Inr y \<longleftrightarrow> (\<exists>z. x = Inr z \<and> y = f z)"
  by (cases x) auto

interpretation aes_mode: mode_cipher aes_enc_desc "block_fun aes_enc_desc" "\<lambda>k. \<exists>s. k = SK_rijndael s"
  by unfold_locales (auto simp: aes_enc_desc_def block_fun_def MAXBLOCKSIZE_def map_sum_Inr)

interpretation blowfish_mode: mode_cipher blowfish_desc "block_fun blowfish_desc" "\<lambda>k. \<exists>s. k = SK_blowfish s"
  by unfold_locales (auto simp: blowfish_desc_def block_fun_def MAXBLOCKSIZE_def map_sum_Inr)

interpretation serpent_mode: mode_cipher serpent_desc "block_fun serpent_desc" "\<lambda>k. \<exists>s. k = SK_serpent s"
  by unfold_locales (auto simp: serpent_desc_def block_fun_def MAXBLOCKSIZE_def map_sum_Inr serpent_encrypt_length)

interpretation twofish_mode: mode_cipher twofish_desc "block_fun twofish_desc" "\<lambda>k. \<exists>s. k = SK_twofish s"
  by unfold_locales (auto simp: twofish_desc_def block_fun_def MAXBLOCKSIZE_def map_sum_Inr)

lemma registered_slot:
  assumes "cipher_is_valid c cipher_descriptor = CRYPT_OK"
  obtains "cipher_descriptor ! nat c = aes_enc_desc" | "cipher_descriptor ! nat c = blowfish_desc"
    | "cipher_descriptor ! nat c = serpent_desc" | "cipher_descriptor ! nat c = twofish_desc"
proof -
  have "0 \<le> c" "c < 32" "cd_name (cipher_descriptor ! nat c) \<noteq> None"
    using assms by (auto simp: cipher_is_valid_def TAB_SIZE_def split: if_splits)
  moreover from this have "nat c < 4"
    by (cases "nat c < 4") (auto simp: cipher_descriptor_table nth_append)
  then have "nat c = 0 \<or> nat c = 1 \<or> nat c = 2 \<or> nat c = 3"
    by linarith
  ultimately show thesis
    using that by (auto simp: cipher_descriptor_table)
qed

section \<open>Counter mode with the registered ciphers\<close>

lemma ctr_start_valid:
  "ctr_start c IV key keylen num_rounds mode tab = Inr st \<Longrightarrow> cipher_is_valid c tab = CRYPT_OK"
  by (auto simp: ctr_start_def split: if_splits)

lemma ctr_registered:
  assumes st: "ctr_start c IV key keylen num_rounds mode cipher_descriptor = Inr st"
    and IV: "cd_block_length (cipher_descriptor ! nat c) \<le> length IV"
  shows "\<exists>out after. ctr_transforms st cipher_descriptor out after \<and>
    (\<forall>pt i. i < length pt \<longrightarrow> out pt ! i =
       pt ! i XOR ctr_stream_byte (block_fun (cipher_descriptor ! nat c) (ctr_key st)) st i)"
  using ctr_start_valid [OF st]
proof (cases rule: registered_slot)
  case 1
  with aes_mode.ctr_session [OF st 1] aes_mode.ctr_encrypt_start(2) [OF st 1, of None] IV show ?thesis
    by (intro exI conjI) auto
next
  case 2
  with blowfish_mode.ctr_session [OF st 2] blowfish_mode.ctr_encrypt_start(2) [OF st 2, of None] IV show ?thesis
    by (intro exI conjI) auto
next
  case 3
  with serpent_mode.ctr_session [OF st 3] serpent_mode.ctr_encrypt_start(2) [OF st 3, of None] IV show ?thesis
    by (intro exI conjI) auto
next
  case 4
  with twofish_mode.ctr_session [OF st 4] twofish_mode.ctr_encrypt_start(2) [OF st 4, of None] IV show ?thesis
    by (intro exI conjI) auto
qed

text \<open>
  With any registered cipher, key, initial vector and counter layout, a started counter mode
  context encrypts every text to one of the same length, and decrypting that from the same
  context gives the text back and the same final context, also when the two sides use different
  word-wise configurations.
\<close>
theorem ctr_roundtrip:
  assumes "ctr_start c IV key keylen num_rounds mode cipher_descriptor = Inr st"
    and "cd_block_length (cipher_descriptor ! nat c) \<le> length IV"
    and "fast \<in> {None, Some 4, Some 8}" "fast' \<in> {None, Some 4, Some 8}"
  shows "\<exists>ct st'. ctr_encrypt fast pt st cipher_descriptor = Inr (ct, st') \<and> length ct = length pt \<and>
           ctr_decrypt fast' ct st cipher_descriptor = Inr (pt, st')"
proof -
  obtain out after where o: "ctr_transforms st cipher_descriptor out after"
    using ctr_registered [OF assms(1,2)] by blast
  note t = ctr_transformsD [OF o]
  show ?thesis
    using t(1) [of pt] t(2) [of pt] t(3) [of fast pt] t(3) [of fast' "out pt"] assms(3,4)
    by (simp add: ctr_decrypt_def ctr_configs_def)
qed

text \<open>
  C23: byte \<^verbatim>\<open>i\<close> of the result is byte \<^verbatim>\<open>i\<close> of the text mixed with byte \<^verbatim>\<open>i mod b\<close> of the encrypted
  counter after \<^verbatim>\<open>i div b\<close> increments, \<^verbatim>\<open>b\<close> being the block length.
\<close>
theorem ctr_stream:
  assumes "ctr_start c IV key keylen num_rounds mode cipher_descriptor = Inr st"
    and "cd_block_length (cipher_descriptor ! nat c) \<le> length IV"
    and "fast \<in> {None, Some 4, Some 8}"
    and "ctr_encrypt fast pt st cipher_descriptor = Inr (ct, st')" "i < length pt"
  shows "ct ! i = pt ! i XOR
     block_fun (cipher_descriptor ! nat c) (ctr_key st) (ctr_counter_at st (i div ctr_blocklen st)) ! (i mod ctr_blocklen st)"
proof -
  obtain out after where o: "ctr_transforms st cipher_descriptor out after"
    "out pt ! i = pt ! i XOR ctr_stream_byte (block_fun (cipher_descriptor ! nat c) (ctr_key st)) st i"
    using ctr_registered [OF assms(1,2)] assms(5) by blast
  have "ct = out pt"
    using ctr_transformsD(3) [OF o(1), of fast pt] assms(3,4) by (simp add: ctr_configs_def)
  then show ?thesis
    using o(2) by (simp add: ctr_stream_byte_def)
qed

text \<open>
  Cutting a text into two pieces, each handled byte-wise or word-wise, gives the same bytes and
  the same final context as handling the whole text, in whichever configuration.
\<close>
theorem ctr_pieces:
  assumes "ctr_start c IV key keylen num_rounds mode cipher_descriptor = Inr st"
    and "cd_block_length (cipher_descriptor ! nat c) \<le> length IV"
    and "fast \<in> {None, Some 4, Some 8}" "fast' \<in> {None, Some 4, Some 8}" "fast'' \<in> {None, Some 4, Some 8}"
  shows "\<exists>ct st' ct' st''. ctr_encrypt fast xs st cipher_descriptor = Inr (ct, st') \<and>
     ctr_encrypt fast' ys st' cipher_descriptor = Inr (ct', st'') \<and>
     ctr_encrypt fast'' (xs @ ys) st cipher_descriptor = Inr (ct @ ct', st'')"
proof -
  obtain out after where o: "ctr_transforms st cipher_descriptor out after"
    using ctr_registered [OF assms(1,2)] by blast
  note t = ctr_transformsD [OF o]
  have "out (xs @ ys) = out xs @ drop (length xs) (out (xs @ ys))"
    using t(5) [of xs ys] by (metis append_take_drop_id)
  then show ?thesis
    using t(3) [of fast xs] t(4) [of fast' ys xs] t(3) [of fast'' "xs @ ys"] assms(3-5)
    by (simp add: ctr_configs_def)
qed

section \<open>Cipher feedback with the registered ciphers\<close>

lemma cfb_start_valid:
  "cfb_start c IV key keylen num_rounds pad tab = Inr st \<Longrightarrow> cipher_is_valid c tab = CRYPT_OK"
  by (auto simp: cfb_start_def split: if_splits)

text \<open>
  C20: with any registered cipher, a started cipher feedback context encrypts every text to one of
  the same length, and decrypting that from the same context gives the text back and leaves the
  context the encryption left.
\<close>
theorem cfb_roundtrip:
  assumes st: "cfb_start c IV key keylen num_rounds pad cipher_descriptor = Inr st"
    and IV: "cd_block_length (cipher_descriptor ! nat c) \<le> length IV" and pad: "length pad = MAXBLOCKSIZE"
  shows "\<exists>ct st'. cfb_encrypt pt st cipher_descriptor = Inr (ct, st') \<and> length ct = length pt \<and>
           cfb_decrypt ct st cipher_descriptor = Inr (pt, st')"
  using cfb_start_valid [OF st]
proof (cases rule: registered_slot)
  case 1
  with aes_mode.cfb_encrypt_start [OF st 1 _ pad] IV show ?thesis by simp
next
  case 2
  with blowfish_mode.cfb_encrypt_start [OF st 2 _ pad] IV show ?thesis by simp
next
  case 3
  with serpent_mode.cfb_encrypt_start [OF st 3 _ pad] IV show ?thesis by simp
next
  case 4
  with twofish_mode.cfb_encrypt_start [OF st 4 _ pad] IV show ?thesis by simp
qed

text \<open>The context that the witnesses use: Twofish with a key of sixteen bytes.\<close>

lemma twofish_slot:
  "cipher_is_valid 3 cipher_descriptor = CRYPT_OK" "cipher_descriptor ! nat 3 = twofish_desc"
    "cipher_descriptor ! 3 = twofish_desc"
  by (simp_all add: cipher_is_valid_def TAB_SIZE_def cipher_descriptor_table)

lemma twofish_setup_some:
  "\<exists>s. cd_setup twofish_desc (replicate 16 1) 16 0 = Inr (SK_twofish s)"
  by (simp add: twofish_desc_def twofish_setup_def Let_def)

lemma twofish_encrypts: "cd_ecb_encrypt twofish_desc b (SK_twofish s) = Inr (twofish_ecb_encrypt b s)"
  by (simp add: twofish_desc_def)

lemma twofish_ctr_start:
  "\<exists>st. ctr_start 3 (replicate 16 0) (replicate 16 1) 16 0 0 cipher_descriptor = Inr st"
  using twofish_setup_some by (auto simp: ctr_start_def twofish_slot Let_def twofish_encrypts)

lemma twofish_cfb_start:
  "\<exists>st. cfb_start 3 (replicate 16 0) (replicate 16 1) 16 0 (replicate 128 0) cipher_descriptor = Inr st"
  using twofish_setup_some by (auto simp: cfb_start_def twofish_slot Let_def twofish_encrypts)

lemma twofish_IV: "cd_block_length (cipher_descriptor ! nat 3) \<le> length (replicate 16 0)"
  by (simp only: twofish_slot) simp

theorem ctr_roundtrip_witness:
  "\<exists>st ct st'. ctr_start 3 (replicate 16 0) (replicate 16 1) 16 0 0 cipher_descriptor = Inr st \<and>
     ctr_encrypt None [1, 2, 3] st cipher_descriptor = Inr (ct, st') \<and> length ct = 3 \<and>
     ctr_decrypt (Some 8) ct st cipher_descriptor = Inr ([1, 2, 3], st')"
proof -
  obtain st where st: "ctr_start 3 (replicate 16 0) (replicate 16 1) 16 0 0 cipher_descriptor = Inr st"
    using twofish_ctr_start by blast
  from ctr_roundtrip [OF st twofish_IV, of None "Some 8" "[1, 2, 3]"] st show ?thesis
    by auto
qed

theorem ctr_stream_witness:
  "\<exists>st ct st'. ctr_start 3 (replicate 16 0) (replicate 16 1) 16 0 0 cipher_descriptor = Inr st \<and>
     ctr_encrypt None [1, 2, 3] st cipher_descriptor = Inr (ct, st') \<and>
     ct ! 2 = 3 XOR block_fun twofish_desc (ctr_key st) (ctr_counter_at st (2 div ctr_blocklen st)) ! (2 mod ctr_blocklen st)"
proof -
  obtain st where st: "ctr_start 3 (replicate 16 0) (replicate 16 1) 16 0 0 cipher_descriptor = Inr st"
    using twofish_ctr_start by blast
  moreover obtain ct st' where e: "ctr_encrypt None [1, 2, 3] st cipher_descriptor = Inr (ct, st')"
    using twofish_mode.ctr_encrypt_start(1) [OF st, of None "[1, 2, 3]"] twofish_slot by auto
  ultimately show ?thesis
    using ctr_stream [OF st twofish_IV _ e, of 2] twofish_slot by auto
qed

theorem ctr_pieces_witness:
  "\<exists>st ct st' ct' st''. ctr_start 3 (replicate 16 0) (replicate 16 1) 16 0 0 cipher_descriptor = Inr st \<and>
     ctr_encrypt None [1, 2, 3] st cipher_descriptor = Inr (ct, st') \<and>
     ctr_encrypt (Some 4) [4, 5] st' cipher_descriptor = Inr (ct', st'') \<and>
     ctr_encrypt (Some 8) [1, 2, 3, 4, 5] st cipher_descriptor = Inr (ct @ ct', st'')"
proof -
  obtain st where st: "ctr_start 3 (replicate 16 0) (replicate 16 1) 16 0 0 cipher_descriptor = Inr st"
    using twofish_ctr_start by blast
  from ctr_pieces [OF st twofish_IV, of None "Some 4" "Some 8" "[1, 2, 3]" "[4, 5]"] st show ?thesis
    by auto
qed

theorem cfb_roundtrip_witness:
  "\<exists>st ct st'. cfb_start 3 (replicate 16 0) (replicate 16 1) 16 0 (replicate 128 0) cipher_descriptor = Inr st \<and>
     cfb_encrypt [1, 2, 3] st cipher_descriptor = Inr (ct, st') \<and> length ct = 3 \<and>
     cfb_decrypt ct st cipher_descriptor = Inr ([1, 2, 3], st')"
proof -
  obtain st where st: "cfb_start 3 (replicate 16 0) (replicate 16 1) 16 0 (replicate 128 0) cipher_descriptor = Inr st"
    using twofish_cfb_start by blast
  from cfb_roundtrip [OF st twofish_IV, of "[1, 2, 3]"] st show ?thesis
    by (auto simp: MAXBLOCKSIZE_def)
qed

end
