(* ===== verification/Encryption.thy ===== *)
theory Encryption
  imports Callbacks Ciphers
begin

text \<open>
  The encryption of data streams in \<^verbatim>\<open>Compression/_Encryption/C_Encryption.cpp\<close>: the common interface
  to the two chaining modes and the loop \<^verbatim>\<open>docrypt\<close>, which passes the data of a callback through
  a cipher.  It composes the ciphers, the modes and the callbacks.
\<close>

section \<open>Encryption modes\<close>

datatype 'k mode_state = MS_ctr "'k symmetric_CTR" | MS_cfb "'k symmetric_CFB"

definition find_mode :: "string \<Rightarrow> int" where
  "find_mode name = (if name = ''ctr'' then 0 else if name = ''cfb'' then 1 else -1)"

definition mode_name :: "int \<Rightarrow> string" where
  "mode_name mode = (if mode = 0 then ''ctr'' else if mode = 1 then ''cfb'' else '''')"

definition CTR_COUNTER_LITTLE_ENDIAN :: nat where "CTR_COUNTER_LITTLE_ENDIAN = 0"

text \<open>\<^verbatim>\<open>pad\<close> is what the object holds in the array \<^verbatim>\<open>cfb.pad\<close> when it is made; it is not initialised.\<close>

definition mode_start :: "int \<Rightarrow> int \<Rightarrow> byte list \<Rightarrow> byte list \<Rightarrow> nat \<Rightarrow> nat \<Rightarrow> byte list \<Rightarrow> 'k cipher_desc list \<Rightarrow>
    crypt_error + 'k mode_state" where
  "mode_start mode cipher iv key keysize rounds pad tab =
     (if mode = 0 then map_sum id MS_ctr (ctr_start cipher iv key keysize rounds CTR_COUNTER_LITTLE_ENDIAN tab)
      else if mode = 1 then map_sum id MS_cfb (cfb_start cipher iv key keysize rounds pad tab)
      else Inl CRYPT_ERROR)"

text \<open>\<^verbatim>\<open>fast\<close> is the configuration \<^verbatim>\<open>LTC_FAST\<close> of the counter mode.\<close>

definition mode_encrypt :: "nat option \<Rightarrow> 'k cipher_desc list \<Rightarrow> byte list \<Rightarrow> 'k mode_state \<Rightarrow>
    crypt_error + byte list \<times> 'k mode_state" where
  "mode_encrypt fast tab pt st =
     (case st of
        MS_ctr s \<Rightarrow> map_sum id (map_prod id MS_ctr) (ctr_encrypt fast pt s tab)
      | MS_cfb s \<Rightarrow> map_sum id (map_prod id MS_cfb) (cfb_encrypt pt s tab))"

definition mode_decrypt :: "nat option \<Rightarrow> 'k cipher_desc list \<Rightarrow> byte list \<Rightarrow> 'k mode_state \<Rightarrow>
    crypt_error + byte list \<times> 'k mode_state" where
  "mode_decrypt fast tab ct st =
     (case st of
        MS_ctr s \<Rightarrow> map_sum id (map_prod id MS_ctr) (ctr_decrypt fast ct s tab)
      | MS_cfb s \<Rightarrow> map_sum id (map_prod id MS_cfb) (cfb_decrypt ct s tab))"

section \<open>The stream loop\<close>

datatype TEncrypt = ENCRYPT | DECRYPT

text \<open>
  \<^verbatim>\<open>docrypt\<close> ignores the outcome of \<^verbatim>\<open>start\<close>, of each step and of \<^verbatim>\<open>done\<close>.  After a failed start the
  object holds indeterminate memory, and what a step then does to the buffer is not determined by
  the source: the function \<^verbatim>\<open>junk\<close> stands for it, as it does for a step that fails.  The remainder
  carried between turns is always empty, because a turn writes all it read.  Allocation succeeds.
\<close>

definition crypt_step :: "TEncrypt \<Rightarrow> nat option \<Rightarrow> 'k cipher_desc list \<Rightarrow> (byte list \<Rightarrow> byte list) \<Rightarrow>
    byte list \<Rightarrow> 'k mode_state option \<Rightarrow> byte list \<times> 'k mode_state option" where
  "crypt_step DoEncryption fast tab junk buf st =
     (case st of
        None \<Rightarrow> (junk buf, None)
      | Some s \<Rightarrow>
        (case (if DoEncryption = ENCRYPT then mode_encrypt fast tab buf s else mode_decrypt fast tab buf s) of
           Inl err \<Rightarrow> (junk buf, Some s)
         | Inr (out, s) \<Rightarrow> (out, Some s)))"

partial_function (option) docrypt_loop :: "TEncrypt \<Rightarrow> nat option \<Rightarrow> 'k cipher_desc list \<Rightarrow> (byte list \<Rightarrow> byte list) \<Rightarrow>
    's callback \<Rightarrow> 'k mode_state option \<Rightarrow> 's \<Rightarrow> (int \<times> 's) option" where
  "docrypt_loop DoEncryption fast tab junk cb st s =
     (case cb_read cb LARGE_BUFFER_SIZE s of (InSize, buf, s) \<Rightarrow>
        if InSize < 0 then Some (InSize, s)
        else if InSize = 0 then Some (0, s)
        else
          case crypt_step DoEncryption fast tab junk (take (nat InSize) buf) st of (out, st) \<Rightarrow>
          case cb_write cb out s of (x, s) \<Rightarrow>
            if x < 0 then Some (x, s) else docrypt_loop DoEncryption fast tab junk cb st s)"

declare docrypt_loop.simps [code]

definition docrypt :: "TEncrypt \<Rightarrow> int \<Rightarrow> int \<Rightarrow> byte list \<Rightarrow> nat \<Rightarrow> nat \<Rightarrow> byte list \<Rightarrow>
    nat option \<Rightarrow> 'k cipher_desc list \<Rightarrow> byte list \<Rightarrow> (byte list \<Rightarrow> byte list) \<Rightarrow> 's callback \<Rightarrow> 's \<Rightarrow> (int \<times> 's) option" where
  "docrypt DoEncryption cipher mode key keysize rounds iv fast tab pad junk cb s =
     docrypt_loop DoEncryption fast tab junk cb
       (case mode_start mode cipher iv key keysize rounds pad tab of Inl err \<Rightarrow> None | Inr st \<Rightarrow> Some st) s"

section \<open>Steps that make up a function of the whole stream\<close>

text \<open>
  \<^verbatim>\<open>realises step st f\<close>: whatever pieces a stream comes in, the steps from \<^verbatim>\<open>st\<close> on succeed and their
  results join to \<^verbatim>\<open>f\<close> of the stream.
\<close>

primrec crypt_run :: "(byte list \<Rightarrow> 'm \<Rightarrow> crypt_error + byte list \<times> 'm) \<Rightarrow> byte list list \<Rightarrow> 'm \<Rightarrow> crypt_error + byte list" where
  "crypt_run step [] st = Inr []"
| "crypt_run step (x # xs) st =
     (case step x st of
        Inl err \<Rightarrow> Inl err
      | Inr (out, st) \<Rightarrow> (case crypt_run step xs st of Inl err \<Rightarrow> Inl err | Inr outs \<Rightarrow> Inr (out @ outs)))"

definition realises :: "(byte list \<Rightarrow> 'm \<Rightarrow> crypt_error + byte list \<times> 'm) \<Rightarrow> 'm \<Rightarrow> (byte list \<Rightarrow> byte list) \<Rightarrow> bool" where
  "realises step st f \<longleftrightarrow> (\<forall>xs. crypt_run step xs st = Inr (f (concat xs))) \<and> (\<forall>x. length (f x) = length x)"

lemma realises_step:
  assumes "realises step st f"
  obtains st' where "step x st = Inr (f x, st')" "realises step st' (\<lambda>y. drop (length x) (f (x @ y)))"
    "\<And>y. f (x @ y) = f x @ drop (length x) (f (x @ y))"
proof -
  have run: "crypt_run step xs st = Inr (f (concat xs))" for xs
    using assms by (simp add: realises_def)
  obtain out st' where step: "step x st = Inr (out, st')"
    using run [of "[x]"] by (auto split: sum.splits)
  then have out: "out = f x"
    using run [of "[x]"] by simp
  have rest: "crypt_run step xs st' = Inr (drop (length x) (f (x @ concat xs))) \<and>
      f (x @ concat xs) = f x @ drop (length x) (f (x @ concat xs))" for xs
  proof -
    obtain outs where outs: "crypt_run step xs st' = Inr outs" "f (x @ concat xs) = f x @ outs"
      using run [of "x # xs"] step out by (auto split: sum.splits)
    moreover have "length (f x) = length x"
      using assms by (simp add: realises_def)
    ultimately show ?thesis
      by simp
  qed
  have "realises step st' (\<lambda>y. drop (length x) (f (x @ y)))"
    using rest assms by (simp add: realises_def)
  moreover have "f (x @ y) = f x @ drop (length x) (f (x @ y))" for y
    using rest [of "[y]"] by simp
  ultimately show thesis
    using that step out by blast
qed

definition mode_step :: "TEncrypt \<Rightarrow> nat option \<Rightarrow> 'k cipher_desc list \<Rightarrow> byte list \<Rightarrow> 'k mode_state \<Rightarrow>
    crypt_error + byte list \<times> 'k mode_state" where
  "mode_step DoEncryption fast tab =
     (if DoEncryption = ENCRYPT then mode_encrypt fast tab else mode_decrypt fast tab)"

lemma crypt_step_mode_step:
  "mode_step DoEncryption fast tab x s = Inr (out, s') \<Longrightarrow>
   crypt_step DoEncryption fast tab junk x (Some s) = (out, Some s')"
  by (simp add: crypt_step_def mode_step_def split: if_splits)

context byte_stream
begin

lemma docrypt_loop_stream:
  assumes "realises (mode_step DoEncryption fast tab) st f" "length (inp s) \<le> room s"
  shows "\<exists>s'. docrypt_loop DoEncryption fast tab junk cb (Some st) s = Some (0, s') \<and>
     out s' = out s @ f (inp s) \<and> room s' = room s - length (inp s)"
  using assms
proof (induction "length (inp s)" arbitrary: s st f rule: less_induct)
  case less
  show ?case
  proof (cases "inp s = []")
    case True
    have "length (f []) = 0"
      using less.prems(1) unfolding realises_def by (metis list.size(3))
    then show ?thesis
      using True read_end [OF True, of LARGE_BUFFER_SIZE] by (subst docrypt_loop.simps) auto
  next
    case False
    then obtain k s1 where r: "0 < k" "k \<le> length (inp s)" "cb_read cb LARGE_BUFFER_SIZE s = (int k, take k (inp s), s1)"
        "inp s1 = drop k (inp s)" "out s1 = out s" "room s1 = room s"
      using read_some [OF False, of LARGE_BUFFER_SIZE] by (auto simp: LARGE_BUFFER_SIZE_def)
    let ?x = "take k (inp s)"
    obtain st' where st': "mode_step DoEncryption fast tab ?x st = Inr (f ?x, st')"
        "realises (mode_step DoEncryption fast tab) st' (\<lambda>y. drop (length ?x) (f (?x @ y)))"
        "\<And>y. f (?x @ y) = f ?x @ drop (length ?x) (f (?x @ y))"
      using realises_step [OF less.prems(1)] by blast
    have len: "length (f ?x) = k"
      using less.prems(1) r(2) by (simp add: realises_def)
    then obtain x s2 where w: "0 \<le> x" "cb_write cb (f ?x) s1 = (x, s2)" "inp s2 = drop k (inp s)"
        "out s2 = out s @ f ?x" "room s2 = room s - k"
      using write_fits [of "f ?x" s1] r less.prems(2) by auto
    have step: "docrypt_loop DoEncryption fast tab junk cb (Some st) s = docrypt_loop DoEncryption fast tab junk cb (Some st') s2"
      using r w by (subst docrypt_loop.simps) (simp add: crypt_step_mode_step [OF st'(1)])
    have "length (inp s2) < length (inp s)" "length (inp s2) \<le> room s2"
      using r w less.prems False by simp_all
    from less.hyps [OF this(1) st'(2) this(2)] obtain s' where
      s': "docrypt_loop DoEncryption fast tab junk cb (Some st') s2 = Some (0, s')"
        "out s' = out s2 @ drop (length ?x) (f (?x @ inp s2))" "room s' = room s2 - length (inp s2)"
      by blast
    have "out s' = out s @ f (inp s)"
      using s'(2) w(3,4) st'(3) [of "drop k (inp s)"] by simp
    then show ?thesis
      using step s' w r(2) less.prems(2) by simp
  qed
qed

end

section \<open>The modes realise functions of the stream\<close>

lemma ctr_realises:
  assumes "ctr_transforms st tab out after" "fast \<in> ctr_configs"
  shows "realises (mode_step e fast tab) (MS_ctr st) out"
proof -
  note t = ctr_transformsD [OF assms(1)]
  have step: "mode_step e fast tab x (MS_ctr s) = map_sum id (map_prod id MS_ctr) (ctr_encrypt fast x s tab)" for x s
    by (simp add: mode_step_def mode_encrypt_def mode_decrypt_def ctr_decrypt_def)
  have "crypt_run (mode_step e fast tab) xs (MS_ctr (after (length ys))) = Inr (drop (length ys) (out (ys @ concat xs)))"
    for xs ys
  proof (induction xs arbitrary: ys)
    case Nil
    then show ?case
      using t(1) by simp
  next
    case (Cons x xs)
    have "drop (length ys) (out (ys @ x @ concat xs)) =
        drop (length ys) (out (ys @ x)) @ drop (length (ys @ x)) (out (ys @ x @ concat xs))"
    proof -
      have "out (ys @ x) = take (length (ys @ x)) (out ((ys @ x) @ concat xs))"
        by (rule t(5))
      then show ?thesis
        by (metis append.assoc append_take_drop_id drop_append diff_is_0_eq drop_0 length_append le_add1 t(1))
    qed
    then show ?case
      using Cons.IH [of "ys @ x"] t(4) [OF assms(2), of x ys] by (simp add: step)
  qed
  note run = this
  have "crypt_run (mode_step e fast tab) xs (MS_ctr st) = Inr (out (concat xs))" for xs
  proof (cases xs)
    case Nil
    then show ?thesis
      using t(1) [of "[]"] by simp
  next
    case (Cons x xs')
    have "out x @ drop (length x) (out (x @ concat xs')) = out (x @ concat xs')"
      using t(5) [of x "concat xs'"] by (metis append_take_drop_id)
    then show ?thesis
      using Cons run [of xs' x] t(3) [OF assms(2), of x] by (simp add: step)
  qed
  then show ?thesis
    by (simp add: realises_def t(1))
qed

text \<open>A cipher feedback context uses its pad only where it has written it.\<close>

definition cfb_agree :: "'k symmetric_CFB \<Rightarrow> 'k symmetric_CFB \<Rightarrow> bool" where
  "cfb_agree s t \<longleftrightarrow> cfb_cipher s = cfb_cipher t \<and> cfb_blocklen s = cfb_blocklen t \<and> cfb_padlen s = cfb_padlen t \<and>
     cfb_IV s = cfb_IV t \<and> cfb_key s = cfb_key t \<and> cfb_padlen s \<le> cfb_blocklen s \<and>
     cfb_blocklen s \<le> length (cfb_pad s) \<and> length (cfb_pad s) = length (cfb_pad t) \<and>
     take (cfb_padlen s) (cfb_pad s) = take (cfb_padlen t) (cfb_pad t) \<and> 0 < cfb_blocklen s"

lemma cfb_refill_agree:
  assumes "cfb_agree s t" "cfb_refill d s = Inr s'"
  shows "\<exists>t'. cfb_refill d t = Inr t' \<and> cfb_agree s' t' \<and> cfb_padlen s' < cfb_blocklen s'"
  using assms by (auto simp: cfb_refill_def cfb_agree_def split: if_splits sum.splits)

lemma cfb_put_agree:
  assumes "cfb_agree s t" "cfb_padlen s < cfb_blocklen s"
  shows "cfb_agree (s\<lparr>cfb_pad := (cfb_pad s)[cfb_padlen s := c], cfb_padlen := cfb_padlen s + 1\<rparr>)
     (t\<lparr>cfb_pad := (cfb_pad t)[cfb_padlen t := c], cfb_padlen := cfb_padlen t + 1\<rparr>)"
  using assms by (auto simp: cfb_agree_def take_Suc_conv_app_nth)

lemma cfb_enc_loop_agree:
  assumes "cfb_agree s t" "cfb_enc_loop d pt s = Inr (ct, s')"
  shows "\<exists>t'. cfb_enc_loop d pt t = Inr (ct, t') \<and> cfb_agree s' t'"
  using assms
proof (induction pt arbitrary: s t ct s')
  case (Cons p pt)
  obtain s1 where s1: "cfb_refill d s = Inr s1"
    using Cons.prems(2) by (auto split: sum.splits)
  then obtain t1 where t1: "cfb_refill d t = Inr t1" "cfb_agree s1 t1" "cfb_padlen s1 < cfb_blocklen s1"
    using cfb_refill_agree [OF Cons.prems(1)] by blast
  have same: "cfb_IV t1 = cfb_IV s1" "cfb_padlen t1 = cfb_padlen s1"
    using t1(2) by (simp_all add: cfb_agree_def)
  let ?c = "p XOR cfb_IV s1 ! cfb_padlen s1"
  let ?put = "\<lambda>u. u\<lparr>cfb_pad := (cfb_pad u)[cfb_padlen u := ?c], cfb_padlen := cfb_padlen u + 1\<rparr>"
  obtain ct' where ct': "ct = ?c # ct'" "cfb_enc_loop d pt (?put s1) = Inr (ct', s')"
    using Cons.prems(2) s1 by (auto simp: Let_def split: sum.splits)
  then show ?case
    using Cons.IH [OF cfb_put_agree [OF t1(2,3)] ct'(2)] t1(1) same by (auto simp: Let_def)
qed auto

context mode_cipher
begin

lemma cfb_refill_keeps: "cfb_refill d st = Inr st' \<Longrightarrow> cfb_cipher st' = cfb_cipher st"
  by (auto simp: cfb_refill_def split: if_splits sum.splits)

text \<open>Both loops succeed on well-formed states of the cipher and keep them.\<close>

definition cfb_here :: "'k cipher_desc list \<Rightarrow> 'k symmetric_CFB \<Rightarrow> bool" where
  "cfb_here tab st \<longleftrightarrow> cfb_ok st \<and> cipher_is_valid (cfb_cipher st) tab = CRYPT_OK \<and> tab ! nat (cfb_cipher st) = d"

lemma cfb_refill_here:
  assumes "cfb_here tab st"
  obtains s where "cfb_refill d st = Inr s" "cfb_here tab (s\<lparr>cfb_pad := (cfb_pad s)[cfb_padlen s := c], cfb_padlen := cfb_padlen s + 1\<rparr>)"
proof -
  have ok: "cfb_ok st"
    using assms by (simp add: cfb_here_def)
  obtain s where s: "cfb_refill d st = Inr s" "cfb_ok s" "cfb_padlen s < bl"
    using cfb_refill_ok [OF ok] by blast
  moreover have "cfb_ok (s\<lparr>cfb_pad := (cfb_pad s)[cfb_padlen s := c], cfb_padlen := cfb_padlen s + 1\<rparr>)"
    using s by (simp add: cfb_ok_def)
  ultimately show thesis
    using that [OF s(1)] assms cfb_refill_keeps [OF s(1)] by (simp add: cfb_here_def)
qed

lemma cfb_enc_loop_here:
  "cfb_here tab st \<Longrightarrow> \<exists>ct st'. cfb_enc_loop d pt st = Inr (ct, st') \<and> length ct = length pt \<and> cfb_here tab st'"
proof (induction pt arbitrary: st)
  case (Cons p pt)
  obtain s0 where "cfb_refill d st = Inr s0"
    using cfb_refill_here [OF Cons.prems] by blast
  then obtain s where s: "cfb_refill d st = Inr s"
      "cfb_here tab (s\<lparr>cfb_pad := (cfb_pad s)[cfb_padlen s := p XOR cfb_IV s0 ! cfb_padlen s0], cfb_padlen := cfb_padlen s + 1\<rparr>)" "s = s0"
    using cfb_refill_here [OF Cons.prems, of "p XOR cfb_IV s0 ! cfb_padlen s0"] by auto
  from Cons.IH [OF s(2)] show ?case
    using s(1,3) by (auto simp: Let_def)
qed simp

lemma cfb_dec_loop_here:
  "cfb_here tab st \<Longrightarrow> \<exists>pt st'. cfb_dec_loop d ct st = Inr (pt, st') \<and> length pt = length ct \<and> cfb_here tab st'"
proof (induction ct arbitrary: st)
  case (Cons c ct)
  obtain s where s: "cfb_refill d st = Inr s"
      "cfb_here tab (s\<lparr>cfb_pad := (cfb_pad s)[cfb_padlen s := c], cfb_padlen := cfb_padlen s + 1\<rparr>)"
    using cfb_refill_here [OF Cons.prems] by blast
  from Cons.IH [OF s(2)] show ?case
    using s(1) by (auto simp: Let_def)
qed simp

text \<open>What cipher feedback makes of a whole text.\<close>

definition cfb_enc_text :: "'k symmetric_CFB \<Rightarrow> byte list \<Rightarrow> byte list" where
  "cfb_enc_text st pt = (case cfb_enc_loop d pt st of Inr (ct, _) \<Rightarrow> ct)"

definition cfb_dec_text :: "'k symmetric_CFB \<Rightarrow> byte list \<Rightarrow> byte list" where
  "cfb_dec_text st ct = (case cfb_dec_loop d ct st of Inr (pt, _) \<Rightarrow> pt)"

lemma cfb_args_here: "cfb_here tab st \<Longrightarrow> cfb_args st tab = CRYPT_OK"
  using block_length by (simp add: cfb_here_def cfb_args_def cfb_ok_def)

lemma cfb_enc_run:
  "cfb_here tab st \<Longrightarrow> crypt_run (mode_step ENCRYPT fast tab) xs (MS_cfb st) = Inr (cfb_enc_text st (concat xs))"
proof (induction xs arbitrary: st)
  case (Cons x xs)
  obtain ct st' where e: "cfb_enc_loop d x st = Inr (ct, st')" "cfb_here tab st'"
    using cfb_enc_loop_here [OF Cons.prems, of x] by blast
  obtain ct2 st2 where e2: "cfb_enc_loop d (concat xs) st' = Inr (ct2, st2)"
    using cfb_enc_loop_here [OF e(2), of "concat xs"] by blast
  have "cfb_enc_text st (concat (x # xs)) = ct @ cfb_enc_text st' (concat xs)"
    by (simp add: cfb_enc_text_def cfb_enc_loop_append e(1) e2)
  moreover have "mode_step ENCRYPT fast tab x (MS_cfb st) = Inr (ct, MS_cfb st')"
    using Cons.prems e(1) cfb_args_here [OF Cons.prems]
    by (simp add: mode_step_def mode_encrypt_def cfb_encrypt_def cfb_here_def)
  ultimately show ?case
    using Cons.IH [OF e(2)] by simp
qed (simp add: cfb_enc_text_def)

lemma cfb_dec_run:
  "cfb_here tab st \<Longrightarrow> crypt_run (mode_step DECRYPT fast tab) xs (MS_cfb st) = Inr (cfb_dec_text st (concat xs))"
proof (induction xs arbitrary: st)
  case (Cons x xs)
  obtain pt st' where e: "cfb_dec_loop d x st = Inr (pt, st')" "cfb_here tab st'"
    using cfb_dec_loop_here [OF Cons.prems, of x] by blast
  obtain pt2 st2 where e2: "cfb_dec_loop d (concat xs) st' = Inr (pt2, st2)"
    using cfb_dec_loop_here [OF e(2), of "concat xs"] by blast
  have "cfb_dec_text st (concat (x # xs)) = pt @ cfb_dec_text st' (concat xs)"
    by (simp add: cfb_dec_text_def cfb_dec_loop_append e(1) e2)
  moreover have "mode_step DECRYPT fast tab x (MS_cfb st) = Inr (pt, MS_cfb st')"
    using Cons.prems e(1) cfb_args_here [OF Cons.prems]
    by (simp add: mode_step_def mode_decrypt_def cfb_decrypt_def cfb_here_def)
  ultimately show ?case
    using Cons.IH [OF e(2)] by simp
qed (simp add: cfb_dec_text_def)

lemma cfb_realises:
  assumes "cfb_here tab st"
  shows "realises (mode_step ENCRYPT fast tab) (MS_cfb st) (cfb_enc_text st)"
    and "realises (mode_step DECRYPT fast tab) (MS_cfb st) (cfb_dec_text st)"
proof -
  have "length (cfb_enc_text st x) = length x" "length (cfb_dec_text st x) = length x" for x
    using cfb_enc_loop_here [OF assms, of x] cfb_dec_loop_here [OF assms, of x]
    by (auto simp: cfb_enc_text_def cfb_dec_text_def)
  then show "realises (mode_step ENCRYPT fast tab) (MS_cfb st) (cfb_enc_text st)"
    "realises (mode_step DECRYPT fast tab) (MS_cfb st) (cfb_dec_text st)"
    by (simp_all add: realises_def cfb_enc_run [OF assms] cfb_dec_run [OF assms])
qed

lemma cfb_texts_cancel:
  assumes "cfb_here tab s" "cfb_agree s t"
  shows "cfb_dec_text t (cfb_enc_text s pt) = pt"
proof -
  obtain ct s' where e: "cfb_enc_loop d pt s = Inr (ct, s')"
    using cfb_enc_loop_here [OF assms(1), of pt] by blast
  then obtain t' where "cfb_enc_loop d pt t = Inr (ct, t')"
    using cfb_enc_loop_agree [OF assms(2)] by blast
  then show ?thesis
    using e by (auto simp: cfb_enc_text_def cfb_dec_text_def dest: cfb_dec_enc_loop)
qed

text \<open>Two objects started alike, whatever their pads held, agree.\<close>

lemma mode_start_functions:
  assumes "mode_start mode c iv key keysize rounds pad tab = Inr st" "tab ! nat c = d" "bl \<le> length iv"
    "length pad = MAXBLOCKSIZE" "length pad' = MAXBLOCKSIZE" "bl mod 8 = 0" "fast \<in> ctr_configs" "fast' \<in> ctr_configs"
  shows "\<exists>st' f g. mode_start mode c iv key keysize rounds pad' tab = Inr st' \<and>
     realises (mode_step ENCRYPT fast tab) st f \<and> realises (mode_step DECRYPT fast' tab) st' g \<and> (\<forall>x. g (f x) = x)"
proof -
  consider (ctr) s where "mode = 0" "st = MS_ctr s" "ctr_start c iv key keysize rounds CTR_COUNTER_LITTLE_ENDIAN tab = Inr s"
    | (cfb) s where "mode = 1" "st = MS_cfb s" "cfb_start c iv key keysize rounds pad tab = Inr s"
    using assms(1) by (cases "ctr_start c iv key keysize rounds CTR_COUNTER_LITTLE_ENDIAN tab";
        cases "cfb_start c iv key keysize rounds pad tab") (auto simp: mode_start_def split: if_splits)
  then show ?thesis
  proof cases
    case ctr
    note t = ctr_session [OF ctr(3) assms(2,3,6)]
    show ?thesis
      using ctr ctr_realises [OF t assms(7), of ENCRYPT] ctr_realises [OF t assms(8), of DECRYPT]
        ctr_transformsD(2) [OF t] by (auto simp: mode_start_def)
  next
    case cfb
    let ?s' = "s\<lparr>cfb_pad := pad'\<rparr>"
    have s': "cfb_start c iv key keysize rounds pad' tab = Inr ?s'"
      using cfb(3) by (auto simp: cfb_start_def Let_def split: if_splits sum.splits)
    have here: "cfb_here tab s" "cfb_here tab ?s'"
      using cfb_start_ok [OF cfb(3) assms(2,3,4)] cfb_start_ok [OF s' assms(2,3,5)] assms(2)
      by (simp_all add: cfb_here_def)
    moreover have "cfb_agree s ?s'"
      using cfb(3) here block_length assms(4,5)
      by (auto simp: cfb_agree_def cfb_here_def cfb_ok_def cfb_start_def Let_def split: if_splits sum.splits)
    ultimately show ?thesis
      using cfb(1,2) s' cfb_realises(1) [OF here(1)] cfb_realises(2) [OF here(2)] cfb_texts_cancel
      by (fastforce simp: mode_start_def)
  qed
qed

end

section \<open>Encrypting and decrypting in memory\<close>

lemma mem_docrypt:
  assumes "mode_start mode c iv key keysize rounds pad tab = Inr st"
    and "realises (mode_step e fast tab) st f" "length xs \<le> space"
  shows "mem_run (docrypt e c mode key keysize rounds iv fast tab pad junk) xs space = Some (int (length xs), f xs)"
  using mem.docrypt_loop_stream [OF assms(2), of "\<lparr>rm_read = xs, rm_written = [], rm_left = space\<rparr>" junk] assms(3)
  by (auto simp: mem_run_def docrypt_def assms(1))

lemma registered_mode_functions:
  assumes "mode_start mode c iv key keysize rounds pad cipher_descriptor = Inr st"
    and "cd_block_length (cipher_descriptor ! nat c) \<le> length iv" "length pad = MAXBLOCKSIZE" "length pad' = MAXBLOCKSIZE"
    and "fast \<in> ctr_configs" "fast' \<in> ctr_configs"
  shows "\<exists>st' f g. mode_start mode c iv key keysize rounds pad' cipher_descriptor = Inr st' \<and>
     realises (mode_step ENCRYPT fast cipher_descriptor) st f \<and>
     realises (mode_step DECRYPT fast' cipher_descriptor) st' g \<and> (\<forall>x. g (f x) = x)"
proof -
  have "cipher_is_valid c cipher_descriptor = CRYPT_OK"
    using assms(1) by (auto simp: mode_start_def ctr_start_def cfb_start_def split: if_splits)
  then show ?thesis
  proof (cases rule: registered_slot)
    case 1
    then show ?thesis using aes_mode.mode_start_functions [OF assms(1) 1 _ assms(3,4)] assms(2,5,6) by simp
  next
    case 2
    then show ?thesis using blowfish_mode.mode_start_functions [OF assms(1) 2 _ assms(3,4)] assms(2,5,6) by simp
  next
    case 3
    then show ?thesis using serpent_mode.mode_start_functions [OF assms(1) 3 _ assms(3,4)] assms(2,5,6) by simp
  next
    case 4
    then show ?thesis using twofish_mode.mode_start_functions [OF assms(1) 4 _ assms(3,4)] assms(2,5,6) by simp
  qed
qed

text \<open>
  C13: encrypting a buffer of any length with \<^verbatim>\<open>docrypt\<close> and any registered cipher and mode writes as
  many bytes, and decrypting these with the same key and initial vector gives the buffer back,
  whatever the uninitialised memory of the two mode objects held and whichever configuration of
  the counter mode each side uses.
\<close>
theorem docrypt_roundtrip:
  assumes "mode_start mode c iv key keysize rounds pad cipher_descriptor = Inr st"
    and "cd_block_length (cipher_descriptor ! nat c) \<le> length iv" "length pad = MAXBLOCKSIZE" "length pad' = MAXBLOCKSIZE"
    and "fast \<in> {None, Some 4, Some 8}" "fast' \<in> {None, Some 4, Some 8}" "length xs \<le> space"
  shows "\<exists>ys. length ys = length xs \<and>
     mem_run (docrypt ENCRYPT c mode key keysize rounds iv fast cipher_descriptor pad junk) xs space = Some (int (length xs), ys) \<and>
     mem_run (docrypt DECRYPT c mode key keysize rounds iv fast' cipher_descriptor pad' junk') ys space = Some (int (length xs), xs)"
proof -
  obtain st' f g where f: "mode_start mode c iv key keysize rounds pad' cipher_descriptor = Inr st'"
      "realises (mode_step ENCRYPT fast cipher_descriptor) st f"
      "realises (mode_step DECRYPT fast' cipher_descriptor) st' g" "\<forall>x. g (f x) = x"
    using registered_mode_functions [OF assms(1-4), of fast fast'] assms(5,6) by (auto simp: ctr_configs_def)
  have "length (f xs) = length xs"
    using f(2) by (simp add: realises_def)
  then show ?thesis
    using mem_docrypt [OF assms(1) f(2) assms(7)] mem_docrypt [OF f(1) f(3), of "f xs" space] f(4) assms(7)
    by (intro exI [of _ "f xs"]) simp
qed

theorem docrypt_roundtrip_witness:
  "\<exists>ys. length ys = 3 \<and>
     mem_run (docrypt ENCRYPT 3 0 (replicate 16 1) 16 0 (replicate 16 0) None cipher_descriptor (replicate 128 0) id) [1, 2, 3] 5 =
       Some (3, ys) \<and>
     mem_run (docrypt DECRYPT 3 0 (replicate 16 1) 16 0 (replicate 16 0) (Some 8) cipher_descriptor (replicate 128 7) id) ys 5 =
       Some (3, [1, 2, 3])"
proof -
  obtain st where "ctr_start 3 (replicate 16 0) (replicate 16 1) 16 0 0 cipher_descriptor = Inr st"
    using twofish_ctr_start by blast
  then have "mode_start 0 3 (replicate 16 0) (replicate 16 1) 16 0 (replicate 128 0) cipher_descriptor = Inr (MS_ctr st)"
    by (simp add: mode_start_def CTR_COUNTER_LITTLE_ENDIAN_def)
  from docrypt_roundtrip [OF this twofish_IV, of "replicate 128 7" None "Some 8" "[1, 2, 3]" 5 id id] show ?thesis
    by (simp add: MAXBLOCKSIZE_def numeral_3_eq_3)
qed

end
