(* ===== verification/Method_Strings.thy ===== *)
theory Method_Strings
  imports Prelude
begin

text \<open>
  The string functions of \<^verbatim>\<open>Compression/Common.cpp\<close> that method descriptions are parsed and printed
  with.  A C string is the list of its characters before the terminating zero; the functions that
  cut a string in place return the pieces.
\<close>

section \<open>Copying and splitting\<close>

text \<open>
  \<^verbatim>\<open>strncopy\<close> copies at most \<^verbatim>\<open>len - 1\<close> characters.  The counter is decremented before the test, so
  that a length of 0 would not stop it; no caller passes 0.
\<close>

fun strncopy :: "string \<Rightarrow> nat \<Rightarrow> string" where
  "strncopy [] i = []"
| "strncopy (c # from) i = (if i - 1 \<noteq> 0 then c # strncopy from (i - 1) else [])"

text \<open>
  One turn of the outer loop of \<^verbatim>\<open>split\<close> cuts the current piece at the first splitter; \<^verbatim>\<open>more\<close> is
  the number of pieces that still have room in the result, whose last slot takes \<^verbatim>\<open>NULL\<close>.
\<close>

function split_more :: "string \<Rightarrow> char \<Rightarrow> nat \<Rightarrow> string list" where
  "split_more str splitter more =
     (if str = [] \<or> more = 0 then [str]
      else
        let piece = takeWhile (\<lambda>c. c \<noteq> splitter) str; rest = dropWhile (\<lambda>c. c \<noteq> splitter) str
        in if rest = [] then [piece] else piece # split_more (tl rest) splitter (more - 1))"
  by pat_completeness auto
termination
proof (relation "measure (\<lambda>(str, splitter, more). length str)")
  fix str :: string and splitter more piece rest
  assume "rest = dropWhile (\<lambda>c. c \<noteq> splitter) str" "rest \<noteq> []"
  then have "length (tl rest) < length rest" "length rest \<le> length str"
    by (simp_all add: length_dropWhile_le)
  then show "((tl rest, splitter, more - 1), str, splitter, more) \<in> measure (\<lambda>(str, splitter, more). length str)"
    by simp
qed simp

declare split_more.simps [simp del]

definition split :: "string \<Rightarrow> char \<Rightarrow> nat \<Rightarrow> string list" where
  "split str splitter result_size = split_more str splitter (result_size - 2)"

section \<open>Numbers\<close>

definition is_digit :: "char \<Rightarrow> bool" where
  "is_digit c \<longleftrightarrow> 48 \<le> (of_char c :: nat) \<and> (of_char c :: nat) \<le> 57"

fun parse_digits :: "u32 \<Rightarrow> string \<Rightarrow> u32 \<times> string" where
  "parse_digits n [] = (n, [])"
| "parse_digits n (c # cs) =
     (if is_digit c then parse_digits (n * 10 + of_char c - 48) cs else (n, c # cs))"

text \<open>The pair holds the number, a wrapping 32-bit integer, and the error flag after the call.\<close>

definition parseInt :: "string \<Rightarrow> bool \<Rightarrow> u32 \<times> bool" where
  "parseInt param error =
     (let param = (if param \<noteq> [] \<and> hd param = CHR ''='' then tl param else param);
          (n, rest) = parse_digits 0 param
      in (n, error \<or> param = [] \<or> rest \<noteq> []))"

text \<open>The suffix is one character; what follows it is not looked at.\<close>

definition parseMem :: "string \<Rightarrow> bool \<Rightarrow> u32 \<times> bool" where
  "parseMem param error =
     (let param = (if param \<noteq> [] \<and> hd param = CHR ''='' then tl param else param);
          error = (error \<or> param = []);
          (n, rest) = parse_digits 0 param
      in if rest = [] \<or> hd rest = CHR ''^'' then (push_bit (unat n) 1, error)
         else if hd rest = CHR ''b'' then (n, error)
         else if hd rest = CHR ''k'' then (n * 1024, error)
         else if hd rest = CHR ''m'' then (n * 1048576, error)
         else if hd rest = CHR ''g'' then (n * 1073741824, error)
         else (0, True))"

text \<open>What \<^verbatim>\<open>%d\<close> and \<^verbatim>\<open>%u\<close> print for a number that is not negative.\<close>

fun show_digits :: "nat \<Rightarrow> string" where
  "show_digits n = (if n < 10 then [char_of (48 + n)] else show_digits (n div 10) @ [char_of (48 + n mod 10)])"

declare show_digits.simps [simp del]

definition showMem :: "u32 \<Rightarrow> string" where
  "showMem mem =
     (if mem mod 1073741824 = 0 then show_digits (unat (mem div 1073741824)) @ ''gb''
      else if mem mod 1048576 = 0 then show_digits (unat (mem div 1048576)) @ ''mb''
      else if mem mod 1024 = 0 then show_digits (unat (mem div 1024)) @ ''kb''
      else show_digits (unat mem) @ ''b'')"

section \<open>Hexadecimal\<close>

text \<open>\<^verbatim>\<open>char2int\<close> of \<^verbatim>\<open>Common.h\<close> is meant to give the value of a hexadecimal digit.\<close>

definition tolower :: "int \<Rightarrow> int" where
  "tolower c = (if 65 \<le> c \<and> c \<le> 90 then c + 32 else c)"

definition char2int :: "char \<Rightarrow> int" where
  "char2int c = (if is_digit c then of_char c - 48 else tolower (of_char c) - 97)"

fun decode16 :: "string \<Rightarrow> byte list" where
  "decode16 (c1 # c2 # src) = word_of_int (char2int c1 * 16 + char2int c2) # decode16 src"
| "decode16 src = []"

section \<open>Splitting loses nothing\<close>

primrec join :: "char \<Rightarrow> string list \<Rightarrow> string" where
  "join c [] = []"
| "join c (p # ps) = (if ps = [] then p else p @ c # join c ps)"

lemma split_more_not_Nil [simp]: "split_more str c n \<noteq> []"
  by (subst split_more.simps) (simp add: Let_def)

lemma join_split_more: "join c (split_more str c n) = str"
proof (induction str c n rule: split_more.induct)
  case (1 str c n)
  let ?p = "takeWhile (\<lambda>d. d \<noteq> c) str" and ?r = "dropWhile (\<lambda>d. d \<noteq> c) str"
  have str: "?p @ ?r = str"
    by simp
  show ?case
  proof (cases "str = [] \<or> n = 0 \<or> ?r = []")
    case True
    then show ?thesis
      using str by (subst split_more.simps) (auto simp: Let_def simp del: dropWhile_eq_Nil_conv takeWhile_dropWhile_id)
  next
    case False
    then have r: "?r = c # tl ?r"
      using hd_dropWhile [of "\<lambda>d. d \<noteq> c" str] by (metis list.collapse)
    then have "split_more str c n = ?p # split_more (tl ?r) c (n - 1)"
      using False by (subst split_more.simps) (simp add: Let_def del: dropWhile_eq_Nil_conv)
    then show ?thesis
      using 1 [OF _ refl refl] False r str by (metis join.simps(2) split_more_not_Nil)
  qed
qed

lemma split_more_count: "length (split_more str c n) \<le> Suc n"
proof (induction str c n rule: split_more.induct)
  case (1 str c n)
  then show ?case
    by (subst split_more.simps) (auto simp: Let_def)
qed

lemma split_more_pieces:
  assumes "c \<notin> set p" "0 < n"
  shows "split_more (p @ c # str) c n = p # split_more str c (n - 1)"
proof -
  have "takeWhile (\<lambda>d. d \<noteq> c) (p @ c # str) = p" "dropWhile (\<lambda>d. d \<noteq> c) (p @ c # str) = c # str"
    using assms(1) by (induction p) auto
  then show ?thesis
    using assms(2) by (subst split_more.simps) (simp add: Let_def)
qed

lemma split_more_last: "c \<notin> set p \<Longrightarrow> split_more p c n = [p]"
  by (subst split_more.simps) (auto simp: Let_def dropWhile_eq_Nil_conv takeWhile_eq_all_conv)

text \<open>Splitting joined pieces gives them back when they hold no splitter and there is room.\<close>

lemma split_more_join:
  "ps \<noteq> [] \<Longrightarrow> \<forall>p \<in> set ps. c \<notin> set p \<Longrightarrow> length ps \<le> Suc n \<Longrightarrow>
   split_more (join c ps) c n = ps"
proof (induction ps arbitrary: n)
  case (Cons p ps)
  show ?case
  proof (cases "ps = []")
    case True
    then show ?thesis
      using Cons.prems by (simp add: split_more_last)
  next
    case False
    then have "0 < n" "length ps \<le> Suc (n - 1)"
      using Cons.prems(3) by (cases ps; simp)+
    then show ?thesis
      using Cons False by (simp add: split_more_pieces)
  qed
qed simp

section \<open>Numbers are parsed as they are printed\<close>

lemma is_digit_char_of: "d < 10 \<Longrightarrow> is_digit (char_of (48 + d :: nat))" "d < 10 \<Longrightarrow> (of_char (char_of (48 + d :: nat)) :: nat) = 48 + d"
  by (simp_all add: is_digit_def)

lemma parse_digits_append:
  "parse_digits n (xs @ ys) = (case parse_digits n xs of (m, []) \<Rightarrow> parse_digits m ys | (m, rest) \<Rightarrow> (m, rest @ ys))"
  by (induction n xs rule: parse_digits.induct) (auto split: list.splits)

lemma parse_show_digits: "parse_digits 0 (show_digits k) = (of_nat k, [])"
proof (induction k rule: show_digits.induct)
  case (1 n)
  have digit: "(of_char (char_of (48 + d :: nat)) :: u32) = 48 + of_nat d" if "d < 10" for d
  proof -
    have "(of_char (char_of (48 + d :: nat)) :: u32) = of_nat (of_char (char_of (48 + d :: nat)))"
      by (rule of_nat_of_char [symmetric])
    then show ?thesis
      using that by (simp add: is_digit_char_of)
  qed
  show ?case
  proof (cases "n < 10")
    case True
    then show ?thesis
      using digit is_digit_char_of(1) by (subst show_digits.simps) simp
  next
    case False
    have "parse_digits 0 (show_digits n) = (of_nat (n div 10) * 10 + of_nat (n mod 10), [])"
      using 1 [OF False] False digit [of "n mod 10"] is_digit_char_of(1) [of "n mod 10"]
      by (subst show_digits.simps) (simp add: parse_digits_append)
    also have "(of_nat (n div 10) * 10 + of_nat (n mod 10) :: u32) = of_nat n"
      by (metis div_mult_mod_eq of_nat_add of_nat_mult of_nat_numeral)
    finally show ?thesis .
  qed
qed

lemma show_digits_not_Nil [simp]: "show_digits k \<noteq> []"
  by (subst show_digits.simps) simp

lemma show_digits_all: "list_all is_digit (show_digits k)"
proof (induction k rule: show_digits.induct)
  case (1 n)
  then show ?case
    using is_digit_char_of(1) [of n] is_digit_char_of(1) [of "n mod 10"]
    by (subst show_digits.simps) simp
qed

lemma show_digits_chars: "c \<in> set (show_digits k) \<Longrightarrow> is_digit c"
  using show_digits_all [of k] by (simp add: list_all_iff)

lemma show_digits_length: "k < 10 ^ n \<Longrightarrow> 0 < n \<Longrightarrow> length (show_digits k) \<le> n"
proof (induction k arbitrary: n rule: show_digits.induct)
  case (1 k)
  show ?case
  proof (cases "k < 10")
    case True
    then show ?thesis
      using 1(3) by (subst show_digits.simps) simp
  next
    case False
    then obtain m where n: "n = Suc m" "0 < m"
      using 1(2,3) by (cases n; cases "n - 1") auto
    then have "length (show_digits (k div 10)) \<le> m"
      using 1(1) [OF False, of m] 1(2) by (simp add: div_less_iff_less_mult mult.commute)
    then show ?thesis
      using False n by (subst show_digits.simps) simp
  qed
qed

lemma parseInt_show: "parseInt (show_digits k) e = (of_nat k, e)"
proof -
  have "hd (show_digits k) \<noteq> CHR ''=''"
    using show_digits_chars [of "hd (show_digits k)" k] by (auto simp: is_digit_def)
  then show ?thesis
    by (simp add: parseInt_def parse_show_digits)
qed

section \<open>Properties\<close>

text \<open>
  Joining the pieces of a split with the splitter gives the string back; there are at most
  \<^verbatim>\<open>result_size - 1\<close> pieces, so that the array has room for the final \<^verbatim>\<open>NULL\<close>.
\<close>
theorem split_join:
  "join splitter (split str splitter (n + 2)) = str \<and> length (split str splitter (n + 2)) < n + 2"
  using split_more_count [of str splitter n] by (simp add: split_def join_split_more)

lemma parseMem_digits:
  assumes "suffix = [] \<or> \<not> is_digit (hd suffix)"
  shows "parseMem (show_digits k @ suffix) e =
     (if suffix = [] \<or> hd suffix = CHR ''^'' then (push_bit (unat (of_nat k :: u32)) 1, e)
      else if hd suffix = CHR ''b'' then (of_nat k, e)
      else if hd suffix = CHR ''k'' then (of_nat k * 1024, e)
      else if hd suffix = CHR ''m'' then (of_nat k * 1048576, e)
      else if hd suffix = CHR ''g'' then (of_nat k * 1073741824, e)
      else (0, True))"
proof -
  have "parse_digits 0 (show_digits k @ suffix) = (of_nat k, suffix)"
    using assms by (cases suffix) (simp_all add: parse_digits_append parse_show_digits)
  moreover have "hd (show_digits k) \<noteq> CHR ''=''"
    using show_digits_chars [of "hd (show_digits k)" k] by (auto simp: is_digit_def)
  ultimately show ?thesis
    by (simp add: parseMem_def)
qed

text \<open>
  \<^verbatim>\<open>parseInt\<close> reads a 32-bit number back from its decimal digits, with or without a leading equals
  sign, and \<^verbatim>\<open>parseMem\<close> reads an amount of memory back from what \<^verbatim>\<open>showMem\<close> prints for it; neither
  touches the error flag.
\<close>
theorem parse_printed:
  "parseInt (show_digits (unat n)) e = (n, e) \<and> parseInt (CHR ''='' # show_digits (unat n)) e = (n, e) \<and>
   parseMem (showMem n) e = (n, e)"
proof -
  have "parseInt (CHR ''='' # show_digits (unat n)) e = (n, e)"
    by (simp add: parseInt_def parse_show_digits)
  moreover have "n div g * g = n" if "n mod g = 0" for g
    using div_mult_mod_eq [of n g] that by simp
  ultimately show ?thesis
    by (simp add: parseInt_show showMem_def parseMem_digits is_digit_def)
qed

text \<open>
  \<^verbatim>\<open>decode16\<close> does not tell the digits a to f from 0 to 5: two strings of hexadecimal digits that
  differ only so decode to the same bytes.
\<close>
theorem decode16_collapses:
  "decode16 ''0a1b2c3d4e5f'' = decode16 ''001122334455'' \<and> decode16 ''ff'' = [0x55]"
  by code_simp

end
