(* ===== verification/Encryption_Method.thy ===== *)
theory Encryption_Method
  imports Encryption Method_Strings
begin

text \<open>
  The class \<^verbatim>\<open>ENCRYPTION_METHOD\<close> of \<^verbatim>\<open>C_Encryption.cpp\<close>: its parameters, how they are parsed from and
  printed to a method description such as \<^verbatim>\<open>aes-256/ctr:n1000:r0:k...\<close>, and the two methods that
  pass a stream through \<^verbatim>\<open>docrypt\<close>.
\<close>

definition MAX_METHOD_STRLEN :: nat where "MAX_METHOD_STRLEN = 2048"
definition MAX_PARAMETERS :: nat where "MAX_PARAMETERS = 200"
definition MAXKEYSIZE :: nat where "MAXKEYSIZE = 64"

record encryption_method =
  em_cipher :: int
  em_mode :: int
  em_key :: string
  em_iv :: string
  em_salt :: string
  em_code :: string
  em_numIterations :: int
  em_rounds :: int
  em_keySize :: int
  em_ivSize :: int

text \<open>The constructor; \<^verbatim>\<open>ivSize\<close>, which it does not set, is set by the parser.\<close>

definition new_ENCRYPTION_METHOD :: "int \<Rightarrow> encryption_method" where
  "new_ENCRYPTION_METHOD ivSize =
     \<lparr>em_cipher = -1, em_mode = -1, em_key = '''', em_iv = '''', em_salt = '''', em_code = '''',
      em_numIterations = 1000, em_rounds = 0, em_keySize = -1, em_ivSize = ivSize\<rparr>"

section \<open>Parsing\<close>

text \<open>One parameter; the flag is the variable \<^verbatim>\<open>error\<close>.  The arrays have \<^verbatim>\<open>MAXKEYSIZE*2+1\<close> characters.\<close>

definition parse_param :: "string \<Rightarrow> encryption_method \<Rightarrow> encryption_method \<times> bool" where
  "parse_param param p =
     (case param of
        [] \<Rightarrow> (p, True)
      | c # s \<Rightarrow>
        (if c = CHR ''k'' then (p\<lparr>em_key := strncopy s (MAXKEYSIZE * 2 + 1)\<rparr>, False)
         else if c = CHR ''i'' then (p\<lparr>em_iv := strncopy s (MAXKEYSIZE * 2 + 1)\<rparr>, False)
         else if c = CHR ''s'' then (p\<lparr>em_salt := strncopy s (MAXKEYSIZE * 2 + 1)\<rparr>, False)
         else if c = CHR ''c'' then (p\<lparr>em_code := strncopy s (MAXKEYSIZE * 2 + 1)\<rparr>, False)
         else if c = CHR ''n'' then (case parseInt s False of (n, error) \<Rightarrow> (p\<lparr>em_numIterations := sint n\<rparr>, error))
         else if c = CHR ''r'' then (case parseInt s False of (n, error) \<Rightarrow> (p\<lparr>em_rounds := sint n\<rparr>, error))
         else (p, True)))"

fun parse_params :: "string list \<Rightarrow> encryption_method \<Rightarrow> encryption_method option" where
  "parse_params [] p = Some p"
| "parse_params (param # params) p =
     (case parse_param param p of (p, error) \<Rightarrow> if error then None else parse_params params p)"

definition parse_ENCRYPTION :: "'k cipher_desc list \<Rightarrow> string list \<Rightarrow> encryption_method option" where
  "parse_ENCRYPTION tab parameters =
     (let local_method = strncopy (parameters ! 0) MAX_METHOD_STRLEN;
          parts = split local_method (CHR ''/'') 3;
          mode = (if length parts > 1 then find_mode (parts ! 1) else 0);
          parts = split (parts ! 0) (CHR ''-'') 3;
          cipher = find_cipher (parts ! 0) tab;
          (n, error) = (if length parts > 1 then parseInt (parts ! 1) False else (0, False));
          keySize = uint (n div 8)
      in if mode < 0 \<or> cipher < 0 \<or> error then None
      else
        let p = (new_ENCRYPTION_METHOD (int (cd_block_length (tab ! nat cipher))))
              \<lparr>em_cipher := cipher, em_mode := mode,
               em_keySize := (if keySize \<noteq> 0 then keySize else int (cd_max_key_length (tab ! nat cipher)))\<rparr>
        in parse_params (tl parameters) p)"

text \<open>The parameters as \<^verbatim>\<open>ParseCompressionMethod\<close> makes them from a method string.\<close>

definition method_parameters :: "string \<Rightarrow> string list" where
  "method_parameters method = split (strncopy method MAX_METHOD_STRLEN) (CHR '':'') MAX_PARAMETERS"

section \<open>Printing\<close>

definition show_int :: "int \<Rightarrow> string" where
  "show_int i = (if i < 0 then CHR ''-'' # show_digits (nat (- i)) else show_digits (nat i))"

definition show_opt :: "char \<Rightarrow> string \<Rightarrow> string" where
  "show_opt c s = (if s \<noteq> [] then CHR '':'' # c # s else [])"

definition ShowCompressionMethod :: "'k cipher_desc list \<Rightarrow> encryption_method \<Rightarrow> string" where
  "ShowCompressionMethod tab m =
     the (cd_name (tab ! nat (em_cipher m))) @ ''-'' @ show_int (em_keySize m * 8) @ ''/'' @ mode_name (em_mode m) @
     '':n'' @ show_int (em_numIterations m) @ '':r'' @ show_int (em_rounds m) @
     show_opt (CHR ''k'') (em_key m) @ show_opt (CHR ''i'') (em_iv m) @
     show_opt (CHR ''s'') (em_salt m) @ show_opt (CHR ''c'') (em_code m)"

section \<open>Compression and decompression\<close>

text \<open>
  The key and the initial vector are decoded into arrays on the stack, of which the decoded bytes
  overwrite a prefix; \<^verbatim>\<open>stack\<close> is what they held.  The number of rounds is an \<^verbatim>\<open>int\<close> in the code; a negative one is
  passed on as the unsigned number of the same bits, which the ciphers refuse, or ignore, like the negative one.
\<close>

definition em_docrypt :: "TEncrypt \<Rightarrow> encryption_method \<Rightarrow> byte list \<Rightarrow> nat option \<Rightarrow> 'k cipher_desc list \<Rightarrow> byte list \<Rightarrow>
    (byte list \<Rightarrow> byte list) \<Rightarrow> 's callback \<Rightarrow> 's \<Rightarrow> (int \<times> 's) option" where
  "em_docrypt e m stack fast tab pad junk cb s =
     (let key_bytes = decode16 (em_key m) @ drop (length (decode16 (em_key m))) stack;
          iv_bytes = decode16 (em_iv m) @ drop (length (decode16 (em_iv m))) stack
      in docrypt e (em_cipher m) (em_mode m) key_bytes (length (em_key m) div 2) (unat (word_of_int (em_rounds m) :: u32)) iv_bytes
           fast tab pad junk cb s)"

definition em_doit :: "encryption_method \<Rightarrow> string \<Rightarrow> int option" where
  "em_doit m what =
     (if what = ''encryption?'' then Some 1
      else if what = ''keySize'' then Some (em_keySize m)
      else if what = ''ivSize'' then Some (em_ivSize m)
      else if what = ''numIterations'' then Some (em_numIterations m)
      else None)"

section \<open>A printed method is parsed back\<close>

definition em_valid :: "encryption_method \<Rightarrow> bool" where
  "em_valid m \<longleftrightarrow> em_cipher m \<in> {0, 1, 2, 3} \<and> em_mode m \<in> {0, 1} \<and>
     0 < em_keySize m \<and> em_keySize m < 2 ^ 28 \<and> 0 \<le> em_numIterations m \<and> em_numIterations m < 2 ^ 31 \<and>
     0 \<le> em_rounds m \<and> em_rounds m < 2 ^ 31 \<and> em_ivSize m = int (cd_block_length (cipher_descriptor ! nat (em_cipher m))) \<and>
     (\<forall>s \<in> {em_key m, em_iv m, em_salt m, em_code m}. CHR '':'' \<notin> set s \<and> length s \<le> 128)"

definition opt_param :: "char \<Rightarrow> string \<Rightarrow> string list" where
  "opt_param c s = (if s \<noteq> [] then [c # s] else [])"

definition em_params :: "encryption_method \<Rightarrow> string list" where
  "em_params m =
     [CHR ''n'' # show_int (em_numIterations m), CHR ''r'' # show_int (em_rounds m)] @
     opt_param (CHR ''k'') (em_key m) @ opt_param (CHR ''i'') (em_iv m) @
     opt_param (CHR ''s'') (em_salt m) @ opt_param (CHR ''c'') (em_code m)"

definition em_name :: "encryption_method \<Rightarrow> string" where
  "em_name m = the (cd_name (cipher_descriptor ! nat (em_cipher m))) @ ''-'' @ show_int (em_keySize m * 8) @ ''/'' @
     mode_name (em_mode m)"

lemma join_Cons_append: "join c (p # ps) = p @ concat (map ((#) c) ps)"
  by (induction ps arbitrary: p) simp_all

lemma show_join: "ShowCompressionMethod cipher_descriptor m = join (CHR '':'') (em_name m # em_params m)"
  by (simp add: join_Cons_append ShowCompressionMethod_def em_name_def em_params_def show_opt_def opt_param_def)

lemma strncopy_id: "length s < n \<Longrightarrow> strncopy s n = s"
  by (induction s n rule: strncopy.induct) auto

lemma parse_params_append:
  "parse_params (xs @ ys) p = (case parse_params xs p of None \<Rightarrow> None | Some p \<Rightarrow> parse_params ys p)"
  by (induction xs arbitrary: p) (auto split: prod.splits)

lemma parse_show_int:
  assumes "0 \<le> i" "i < 2 ^ 31"
  shows "parseInt (show_int i) False = (of_int i, False)" "sint (of_int i :: u32) = i"
  using assms by (simp_all add: show_int_def parseInt_show sint_sbintrunc' signed_take_bit_int_eq_self)

lemma parse_opt:
  assumes "length s \<le> 128"
  shows "parse_params (opt_param (CHR ''k'') s) p = Some (if s = [] then p else p\<lparr>em_key := s\<rparr>)"
    "parse_params (opt_param (CHR ''i'') s) p = Some (if s = [] then p else p\<lparr>em_iv := s\<rparr>)"
    "parse_params (opt_param (CHR ''s'') s) p = Some (if s = [] then p else p\<lparr>em_salt := s\<rparr>)"
    "parse_params (opt_param (CHR ''c'') s) p = Some (if s = [] then p else p\<lparr>em_code := s\<rparr>)"
  using assms by (simp_all add: opt_param_def parse_param_def strncopy_id MAXKEYSIZE_def)

lemma parse_em_params:
  assumes "em_valid m" "em_key p = []" "em_iv p = []" "em_salt p = []" "em_code p = []"
    "em_cipher p = em_cipher m" "em_mode p = em_mode m" "em_keySize p = em_keySize m" "em_ivSize p = em_ivSize m"
  shows "parse_params (em_params m) p = Some m"
proof -
  let ?opts = "opt_param (CHR ''k'') (em_key m) @ opt_param (CHR ''i'') (em_iv m) @
     opt_param (CHR ''s'') (em_salt m) @ opt_param (CHR ''c'') (em_code m)"
  let ?p = "p\<lparr>em_numIterations := em_numIterations m, em_rounds := em_rounds m\<rparr>"
  have "parse_params (em_params m) p = parse_params ?opts ?p"
    using assms(1) by (simp add: em_valid_def em_params_def parse_param_def parse_show_int)
  also have "\<dots> = Some m"
    using assms by (simp add: parse_params_append parse_opt em_valid_def)
  finally show ?thesis .
qed

lemma show_int_nonneg: "0 \<le> i \<Longrightarrow> show_int i = show_digits (nat i)"
  by (simp add: show_int_def)

lemma show_int_length:
  assumes "0 \<le> i" "i < 2 ^ 31"
  shows "length (show_int i) \<le> 10"
proof -
  have "nat i < 10 ^ 10"
    using assms by (simp add: nat_less_iff)
  then show ?thesis
    using assms(1) show_digits_length [of "nat i" 10] by (simp add: show_int_nonneg)
qed

lemma show_int_no: "0 \<le> i \<Longrightarrow> c \<in> set (show_int i) \<Longrightarrow> is_digit c"
  using show_digits_chars by (auto simp: show_int_nonneg)

lemma em_cipher_name:
  assumes "c \<in> {0, 1, 2, 3}"
  obtains name where "cd_name (cipher_descriptor ! nat c) = Some name" "find_cipher name cipher_descriptor = c"
    "name \<in> {''aes'', ''blowfish'', ''serpent'', ''twofish''}"
  using assms that by (auto simp: cipher_descriptor_table find_cipher_def first_slot_def)

lemma em_mode_name:
  "mode \<in> {0, 1} \<Longrightarrow> find_mode (mode_name mode) = mode \<and> mode_name mode \<in> {''ctr'', ''cfb''}"
  by (auto simp: find_mode_def mode_name_def)

lemma parse_em_name:
  assumes "em_valid m"
  shows "parse_ENCRYPTION cipher_descriptor (em_name m # em_params m) = Some m"
proof -
  note valid = assms [unfolded em_valid_def]
  obtain name where name: "cd_name (cipher_descriptor ! nat (em_cipher m)) = Some name"
      "find_cipher name cipher_descriptor = em_cipher m" "name \<in> {''aes'', ''blowfish'', ''serpent'', ''twofish''}"
    using em_cipher_name valid by blast
  have mode: "find_mode (mode_name (em_mode m)) = em_mode m" "mode_name (em_mode m) \<in> {''ctr'', ''cfb''}"
    using em_mode_name valid by blast+
  let ?ks = "show_int (em_keySize m * 8)"
  have ks: "c \<in> set ?ks \<Longrightarrow> is_digit c" for c
    using show_int_no [of "em_keySize m * 8" c] valid by simp
  have nodash: "CHR ''-'' \<notin> set name" "CHR ''/'' \<notin> set (name @ ''-'' @ ?ks)"
    using name(3) ks [of "CHR ''/''"] by (auto simp: is_digit_def)
  have len: "length ?ks \<le> 10"
    using valid by (intro show_int_length) simp_all
  have "length (em_name m) < MAX_METHOD_STRLEN"
    using name mode(2) len by (auto simp: em_name_def MAX_METHOD_STRLEN_def)
  moreover have "split (em_name m) (CHR ''/'') 3 = [name @ ''-'' @ ?ks, mode_name (em_mode m)]"
    using split_more_pieces [OF nodash(2), of 1 "mode_name (em_mode m)"] name(1)
    by (simp add: split_def em_name_def split_more.simps [of _ _ 0])
  moreover have "split (name @ ''-'' @ ?ks) (CHR ''-'') 3 = [name, ?ks]"
    using split_more_pieces [OF nodash(1), of 1 ?ks] by (simp add: split_def split_more.simps [of _ _ 0])
  moreover have "parseInt ?ks False = (of_int (em_keySize m * 8), False)"
    using valid by (intro parse_show_int) auto
  moreover have "uint ((of_int (em_keySize m * 8) :: u32) div 8) = em_keySize m"
  proof -
    have "uint (of_int (em_keySize m * 8) :: u32) = em_keySize m * 8"
      unfolding uint_word_of_int using valid by (intro mod_pos_pos_trivial) simp_all
    then show ?thesis
      by (simp only: uint_div) simp
  qed
  moreover have "\<not> em_mode m < 0" "\<not> em_cipher m < 0" "em_keySize m \<noteq> 0"
    using valid by auto
  ultimately show ?thesis
    using valid mode(1) name(2)
    by (simp add: parse_ENCRYPTION_def strncopy_id Let_def parse_em_params [OF assms] new_ENCRYPTION_METHOD_def
      del: parse_params.simps of_int_mult)
qed

lemma em_pieces:
  assumes "em_valid m"
  shows "\<forall>p \<in> set (em_name m # em_params m). CHR '':'' \<notin> set p" "length (em_name m # em_params m) \<le> 7"
    "length (ShowCompressionMethod cipher_descriptor m) < MAX_METHOD_STRLEN"
proof -
  note valid = assms [unfolded em_valid_def]
  have c: "em_cipher m \<in> {0, 1, 2, 3}" "em_mode m \<in> {0, 1}"
    using valid by blast+
  obtain name where name: "cd_name (cipher_descriptor ! nat (em_cipher m)) = Some name"
      "name \<in> {''aes'', ''blowfish'', ''serpent'', ''twofish''}"
    by (rule em_cipher_name [OF c(1)])
  have mode: "mode_name (em_mode m) \<in> {''ctr'', ''cfb''}"
    using em_mode_name [OF c(2)] by blast
  have ints: "0 \<le> em_keySize m * 8" "em_keySize m * 8 < 2 ^ 31" "0 \<le> em_numIterations m" "em_numIterations m < 2 ^ 31"
      "0 \<le> em_rounds m" "em_rounds m < 2 ^ 31"
    using valid by simp_all
  have colon: "CHR '':'' \<notin> set (show_int i)" if "0 \<le> i" for i
    using show_int_no [OF that, of "CHR '':''"] by (auto simp: is_digit_def)
  have texts: "CHR '':'' \<notin> set s \<and> length s \<le> 128" if "s \<in> {em_key m, em_iv m, em_salt m, em_code m}" for s
    using valid that by blast
  have opt: "CHR '':'' \<notin> set p" if "p \<in> set (opt_param c s)" "c \<noteq> CHR '':''" "s \<in> {em_key m, em_iv m, em_salt m, em_code m}" for p c s
    using that(1,2) texts [OF that(3)] by (auto simp: opt_param_def split: if_splits)
  have "CHR '':'' \<notin> set name" "CHR '':'' \<notin> set (mode_name (em_mode m))"
    using name(2) mode by auto
  then have name_ok: "CHR '':'' \<notin> set (em_name m)"
    using name(1) colon [OF ints(1)] by (simp add: em_name_def)
  have "CHR '':'' \<notin> set p" if p: "p \<in> set (em_params m)" for p
  proof -
    have "p = CHR ''n'' # show_int (em_numIterations m) \<or> p = CHR ''r'' # show_int (em_rounds m) \<or>
        p \<in> set (opt_param (CHR ''k'') (em_key m)) \<or> p \<in> set (opt_param (CHR ''i'') (em_iv m)) \<or>
        p \<in> set (opt_param (CHR ''s'') (em_salt m)) \<or> p \<in> set (opt_param (CHR ''c'') (em_code m))"
      using p by (simp add: em_params_def)
    then show ?thesis
      using colon [OF ints(3)] colon [OF ints(5)] opt [of p "CHR ''k''" "em_key m"] opt [of p "CHR ''i''" "em_iv m"]
        opt [of p "CHR ''s''" "em_salt m"] opt [of p "CHR ''c''" "em_code m"] by (elim disjE) simp_all
  qed
  then show "\<forall>p \<in> set (em_name m # em_params m). CHR '':'' \<notin> set p"
    using name_ok by simp
  show "length (em_name m # em_params m) \<le> 7"
    by (simp add: em_params_def opt_param_def)
  have "length (show_opt c s) \<le> 130" if "s \<in> {em_key m, em_iv m, em_salt m, em_code m}" for c s
    using texts [OF that] by (simp add: show_opt_def)
  then have "length (show_opt (CHR ''k'') (em_key m)) \<le> 130" "length (show_opt (CHR ''i'') (em_iv m)) \<le> 130"
    "length (show_opt (CHR ''s'') (em_salt m)) \<le> 130" "length (show_opt (CHR ''c'') (em_code m)) \<le> 130"
    by blast+
  moreover have "length name \<le> 8" "length (mode_name (em_mode m)) \<le> 3"
    using name(2) mode by auto
  ultimately have "length (ShowCompressionMethod cipher_descriptor m) \<le> 8 + 1 + 10 + 1 + 3 + 2 + 10 + 2 + 10 + 4 * 130"
    using show_int_length [OF ints(1,2)] show_int_length [OF ints(3,4)] show_int_length [OF ints(5,6)]
    by (simp add: ShowCompressionMethod_def name(1))
  then show "length (ShowCompressionMethod cipher_descriptor m) < MAX_METHOD_STRLEN"
    by (simp add: MAX_METHOD_STRLEN_def)
qed

text \<open>
  C19: the description that \<^verbatim>\<open>ShowCompressionMethod\<close> prints is parsed back to the same method: for
  every registered cipher and mode, every positive key size, counts that fit an \<^verbatim>\<open>int\<close>, and texts of
  at most 128 characters without a colon.
\<close>
theorem parse_shown_method:
  assumes "em_valid m"
  shows "parse_ENCRYPTION cipher_descriptor (method_parameters (ShowCompressionMethod cipher_descriptor m)) = Some m"
proof -
  note p = em_pieces [OF assms]
  have "split_more (join (CHR '':'') (em_name m # em_params m)) (CHR '':'') 198 = em_name m # em_params m"
    using p(2) by (intro split_more_join [OF _ p(1)]) simp_all
  then have "method_parameters (ShowCompressionMethod cipher_descriptor m) = em_name m # em_params m"
    unfolding method_parameters_def strncopy_id [OF p(3)] split_def MAX_PARAMETERS_def
    unfolding show_join by simp
  then show ?thesis
    by (simp add: parse_em_name [OF assms])
qed

theorem parse_shown_method_witness:
  "let m = \<lparr>em_cipher = 0, em_mode = 1, em_key = ''00ff'', em_iv = [], em_salt = ''12'', em_code = [],
            em_numIterations = 1000, em_rounds = 0, em_keySize = 32, em_ivSize = 16\<rparr>
   in parse_ENCRYPTION cipher_descriptor (method_parameters (ShowCompressionMethod cipher_descriptor m)) = Some m"
  unfolding Let_def by (rule parse_shown_method) (simp add: em_valid_def cipher_descriptor_table)

end
