(* ===== verification/Grz_Codes.thy ===== *)
theory Grz_Codes
  imports Prelude
begin

text \<open>The constants of \<^verbatim>\<open>Compression/GRZip/libGRZip.h\<close>: result codes, and the largest block.\<close>

definition GRZ_NO_ERROR :: int where "GRZ_NO_ERROR = 0"
definition GRZ_NOT_ENOUGH_MEMORY :: int where "GRZ_NOT_ENOUGH_MEMORY = -1"
definition GRZ_CRC_ERROR :: int where "GRZ_CRC_ERROR = -2"
definition GRZ_UNEXPECTED_EOF :: int where "GRZ_UNEXPECTED_EOF = -3"
definition GRZ_NOT_COMPRESSIBLE :: int where "GRZ_NOT_COMPRESSIBLE = -4"
definition GRZ_FAST_BWT_FAILS :: int where "GRZ_FAST_BWT_FAILS = -5"

lemmas grz_codes = GRZ_NO_ERROR_def GRZ_NOT_ENOUGH_MEMORY_def GRZ_CRC_ERROR_def
  GRZ_UNEXPECTED_EOF_def GRZ_NOT_COMPRESSIBLE_def GRZ_FAST_BWT_FAILS_def

definition GRZ_Log2MaxBlockSize :: nat where "GRZ_Log2MaxBlockSize = 23"
definition GRZ_MaxBlockSize :: nat where "GRZ_MaxBlockSize = 8 * 1024 * 1024 - 512"

end
