(* ===== verification/Grz_LZP.thy ===== *)
theory Grz_LZP
  imports Grz_Codes
begin

text \<open>
  \<^verbatim>\<open>Compression/GRZip/LZP.c\<close>: the LZP preprocessor that GRZip runs before the block sort.
  The encoder replaces a string that repeats what followed the last occurrence of the current
  order-4 context by a match flag and a length; the decoder keeps the same hash table of
  contexts and copies from its own output.

  The input block of the encoder is a total map from offsets to bytes, because the early check
  reads four bytes at \<^verbatim>\<open>Ptr+LZP_MinMatchLen-4\<close>, possibly past the block.  Pointers are offsets
  (\<^verbatim>\<open>Input\<close> for the encoder, \<^verbatim>\<open>Output\<close> for the decoder), the hash table maps an index to such a
  pointer, \<^verbatim>\<open>None\<close> for NULL.  \<^verbatim>\<open>*Output++=\<dots>\<close> appends to the list of bytes written, so the
  length of that list is \<^verbatim>\<open>Output-OutputBeg\<close>.  Lengths are natural numbers: blocks have fewer
  than \<^verbatim>\<open>2^31\<close> bytes, so the encoder's \<^verbatim>\<open>uint32\<close> counters do not wrap; in the decoder, which may
  run on damaged input, the wrap-around is written out.
\<close>

section \<open>Definitions\<close>

definition LZP_MatchFlag :: byte where "LZP_MatchFlag = 0xF2"
definition LZP_RunFlag :: byte where "LZP_RunFlag = 0xF3"
definition LZP_XorFlag :: byte where "LZP_XorFlag = 0xFF XOR LZP_RunFlag"

lemma lzp_flag_values: "LZP_MatchFlag = 242" "LZP_RunFlag = 243" "LZP_XorFlag = 12"
  by (simp_all add: LZP_MatchFlag_def LZP_RunFlag_def LZP_XorFlag_def)

type_synonym lzp_table = "u32 \<Rightarrow> nat option"

definition lzp_hash :: "u32 \<Rightarrow> u32 \<Rightarrow> u32" where
  "lzp_hash HT_Size Ctx = (drop_bit 15 Ctx XOR Ctx XOR drop_bit 3 Ctx) AND HT_Size"

text \<open>The context reloaded after a match: the four bytes before the pointer, latest lowest.\<close>

definition lzp_ctx_back :: "(nat \<Rightarrow> byte) \<Rightarrow> nat \<Rightarrow> u32" where
  "lzp_ctx_back mem p = ucast (mem (p - 1)) + push_bit 8 (ucast (mem (p - 2))) +
     push_bit 16 (ucast (mem (p - 3))) + push_bit 24 (ucast (mem (p - 4)))"

definition lzp_ctx_push :: "u32 \<Rightarrow> byte \<Rightarrow> u32" where
  "lzp_ctx_push Ctx Ch = push_bit 8 Ctx OR ucast Ch"

text \<open>The comparison loop: the number of equal bytes from \<open>Ptr\<close> and \<open>Pointer\<close> on.\<close>

function lzp_match_len :: "(nat \<Rightarrow> byte) \<Rightarrow> nat \<Rightarrow> nat \<Rightarrow> nat \<Rightarrow> nat" where
  "lzp_match_len mem InputEnd Ptr Pointer =
     (if Ptr < InputEnd \<and> mem Ptr = mem Pointer
      then Suc (lzp_match_len mem InputEnd (Suc Ptr) (Suc Pointer)) else 0)"
  by pat_completeness auto
termination by (relation "measure (\<lambda>(mem, e, p, q). e - p)") auto

declare lzp_match_len.simps [simp del]

text \<open>
  The early check compares the last four bytes of the shortest acceptable match; a match
  shorter than \<^verbatim>\<open>LZP_MinMatchLen\<close> counts as none.
\<close>

definition lzp_common_length :: "(nat \<Rightarrow> byte) \<Rightarrow> nat \<Rightarrow> nat \<Rightarrow> nat \<Rightarrow> nat \<Rightarrow> nat" where
  "lzp_common_length mem InputEnd MinMatchLen Input Pointer =
     (let early = (\<forall>k \<in> {0, 1, 2, 3}. mem (Input + MinMatchLen + k - 4) = mem (Pointer + MinMatchLen + k - 4));
          n = (if early then lzp_match_len mem InputEnd Input Pointer else 0)
      in if n < MinMatchLen then 0 else n)"

text \<open>The length code: one \<^verbatim>\<open>RunFlag\<close> per 255, then the rest; \<open>None\<close> is the early return.\<close>

fun lzp_put_length :: "nat \<Rightarrow> nat \<Rightarrow> byte list \<Rightarrow> byte list \<times> bool" where
  "lzp_put_length OutputEnd CommonLength out =
     (if CommonLength > 254
      then let out' = out @ [LZP_RunFlag]
           in if length out' \<ge> OutputEnd then (out', False)
              else lzp_put_length OutputEnd (CommonLength - 255) out'
      else (out @ [word_of_nat CommonLength XOR LZP_XorFlag], True))"

declare lzp_put_length.simps [simp del]

function lzp_enc_loop :: "(nat \<Rightarrow> byte) \<Rightarrow> nat \<Rightarrow> nat \<Rightarrow> u32 \<Rightarrow> nat \<Rightarrow> u32 \<Rightarrow> lzp_table \<Rightarrow> byte list
    \<Rightarrow> int \<times> byte list" where
  "lzp_enc_loop mem Size MinMatchLen HT_Size Input Ctx Contexts out =
     (if Input < Size \<and> length out < Size - 1 then
        let HashIndex = lzp_hash HT_Size Ctx;
            Contexts' = Contexts(HashIndex \<mapsto> Input)
        in case Contexts HashIndex of
             Some Pointer \<Rightarrow>
               let CommonLength = lzp_common_length mem Size MinMatchLen Input Pointer
               in if CommonLength \<noteq> 0 then
                    (case lzp_put_length (Size - 1) (CommonLength - MinMatchLen + 1) (out @ [LZP_MatchFlag]) of
                       (out', False) \<Rightarrow> (GRZ_NOT_COMPRESSIBLE, out')
                     | (out', True) \<Rightarrow>
                         lzp_enc_loop mem Size MinMatchLen HT_Size (Input + CommonLength)
                           (lzp_ctx_back mem (Input + CommonLength)) Contexts' out')
                  else
                    let Ch = mem Input
                    in lzp_enc_loop mem Size MinMatchLen HT_Size (Suc Input) (lzp_ctx_push Ctx Ch) Contexts'
                         (if Ch = LZP_MatchFlag then out @ [Ch, LZP_XorFlag] else out @ [Ch])
           | None \<Rightarrow>
               lzp_enc_loop mem Size MinMatchLen HT_Size (Suc Input) (lzp_ctx_push Ctx (mem Input)) Contexts'
                 (out @ [mem Input])
      else if length out \<ge> Size - 1 then (GRZ_NOT_COMPRESSIBLE, out)
      else (int (length out), out))"
  by pat_completeness auto
termination by (relation "measure (\<lambda>(mem, n, m, h, i, c, t, out). n - i)") auto

declare lzp_enc_loop.simps [simp del]

text \<open>
  The table has \<^verbatim>\<open>HT_Size + 1\<close> entries.  The code asks for four bytes for each and uses them as pointers: the
  model is that of a target with pointers of four bytes, and of a table whose size in bytes does not wrap, with \<^verbatim>\<open>HT_Size\<close>
  below \<^verbatim>\<open>2 ^ 30 - 1\<close>.
\<close>

definition GRZip_LZP_Encode :: "bool \<Rightarrow> (nat \<Rightarrow> byte) \<Rightarrow> nat \<Rightarrow> nat \<Rightarrow> u32 \<Rightarrow> int \<times> byte list" where
  "GRZip_LZP_Encode alloc_ok Input Size MinMatchLen HT_Size =
     (if \<not> alloc_ok then (GRZ_NOT_ENOUGH_MEMORY, [])
      else lzp_enc_loop Input Size MinMatchLen HT_Size 4 (lzp_ctx_back Input 4) (\<lambda>_. None)
             (map Input [0..<4]))"

text \<open>
  The decoder.  \<open>None\<close> stands for a read beyond the compressed block, which the C code does not
  check for.  The length accumulates in a \<^verbatim>\<open>uint32\<close>.
\<close>

fun lzp_get_length :: "nat \<Rightarrow> byte list \<Rightarrow> (nat \<times> byte list) option" where
  "lzp_get_length CommonLength [] = None"
| "lzp_get_length CommonLength (b # Input) =
     (let n = (CommonLength + unat (b XOR LZP_XorFlag)) mod 2 ^ 32
      in if b = LZP_RunFlag then lzp_get_length n Input else Some (n, Input))"

fun lzp_copy :: "nat \<Rightarrow> nat \<Rightarrow> byte list \<Rightarrow> byte list" where
  "lzp_copy 0 Pointer out = out"
| "lzp_copy (Suc n) Pointer out = lzp_copy n (Suc Pointer) (out @ [out ! Pointer])"

lemma lzp_get_length_shorter: "lzp_get_length n inp = Some (m, rest) \<Longrightarrow> length rest < length inp"
  by (induction n inp rule: lzp_get_length.induct) (auto simp: Let_def split: if_splits)

function lzp_dec_loop :: "nat \<Rightarrow> u32 \<Rightarrow> byte list \<Rightarrow> u32 \<Rightarrow> lzp_table \<Rightarrow> byte list \<Rightarrow> byte list option" where
  "lzp_dec_loop MinMatchLen HT_Size Input Ctx Contexts out =
     (case Input of [] \<Rightarrow> Some out
      | Ch # Input' \<Rightarrow>
        let HashIndex = lzp_hash HT_Size Ctx;
            Contexts' = Contexts(HashIndex \<mapsto> length out)
        in case Contexts HashIndex of
             Some Pointer \<Rightarrow>
               if Ch \<noteq> LZP_MatchFlag
               then lzp_dec_loop MinMatchLen HT_Size Input' (lzp_ctx_push Ctx Ch) Contexts' (out @ [Ch])
               else (case lzp_get_length 0 Input' of
                       None \<Rightarrow> None
                     | Some (CommonLength, Input'') \<Rightarrow>
                         if CommonLength \<noteq> 0 then
                           let out' = lzp_copy ((CommonLength + MinMatchLen + 2 ^ 32 - 1) mod 2 ^ 32) Pointer out
                           in lzp_dec_loop MinMatchLen HT_Size Input''
                                (lzp_ctx_back ((!) out') (length out')) Contexts' out'
                         else lzp_dec_loop MinMatchLen HT_Size Input'' (lzp_ctx_push Ctx LZP_MatchFlag)
                                Contexts' (out @ [LZP_MatchFlag]))
           | None \<Rightarrow>
               lzp_dec_loop MinMatchLen HT_Size Input' (lzp_ctx_push Ctx Ch) Contexts' (out @ [Ch]))"
  by pat_completeness auto
termination
  by (relation "measure (\<lambda>(m, h, inp, c, t, out). length inp)") (auto dest: lzp_get_length_shorter)

declare lzp_dec_loop.simps [simp del]

definition GRZip_LZP_Decode :: "bool \<Rightarrow> byte list \<Rightarrow> nat \<Rightarrow> u32 \<Rightarrow> (int \<times> byte list) option" where
  "GRZip_LZP_Decode alloc_ok Input MinMatchLen HT_Size =
     (if \<not> alloc_ok then Some (GRZ_NOT_ENOUGH_MEMORY, [])
      else if length Input < 4 then None
      else map_option (\<lambda>out. (int (length out), out))
        (lzp_dec_loop MinMatchLen HT_Size (drop 4 Input) (lzp_ctx_back ((!) Input) 4) (\<lambda>_. None) (take 4 Input)))"

section \<open>Index and length codes\<close>

lemma lzp_hash_bound: "lzp_hash HT_Size Ctx \<le> HT_Size"
  unfolding lzp_hash_def by (rule word_and_le1)

lemma lzp_match_len_spec:
  "p \<le> e \<Longrightarrow> p + lzp_match_len mem e p q \<le> e \<and> (\<forall>k < lzp_match_len mem e p q. mem (p + k) = mem (q + k))"
proof (induction mem e p q rule: lzp_match_len.induct)
  case (1 mem e p q)
  show ?case
  proof (cases "p < e \<and> mem p = mem q")
    case True
    with "1.IH" have IH: "Suc p + lzp_match_len mem e (Suc p) (Suc q) \<le> e"
      "\<forall>k < lzp_match_len mem e (Suc p) (Suc q). mem (Suc p + k) = mem (Suc q + k)"
      by auto
    show ?thesis
      using True IH by (auto simp: lzp_match_len.simps [of mem e p q] less_Suc_eq_0_disj)
  next
    case False
    with "1.prems" show ?thesis by (auto simp: lzp_match_len.simps [of mem e p q])
  qed
qed

lemma lzp_common_length_spec:
  assumes "lzp_common_length mem e m p q = n" and "n \<noteq> 0" and "p \<le> e"
  shows "m \<le> n" "p + n \<le> e" "\<And>k. k < n \<Longrightarrow> mem (p + k) = mem (q + k)"
  using assms lzp_match_len_spec [of p e mem q]
  by (auto simp: lzp_common_length_def Let_def split: if_splits)

lemma lzp_put_length_out:
  "\<exists>ws. fst (lzp_put_length e n out) = out @ ws \<and> ws \<noteq> []"
  by (induction e n out rule: lzp_put_length.induct)
     (subst lzp_put_length.simps, fastforce simp: Let_def)

text \<open>What the encoder's length code means to the decoder: the round trip of the length code.\<close>

lemma lzp_get_put_length:
  assumes "lzp_put_length e n out = (out', True)" and "a + n < 2 ^ 32"
  shows "\<exists>ws. out' = out @ ws \<and> (\<forall>rest. lzp_get_length a (ws @ rest) = Some (a + n, rest))"
  using assms
proof (induction e n out arbitrary: a rule: lzp_put_length.induct)
  case (1 e n out)
  show ?case
  proof (cases "n > 254")
    case True
    with "1.prems"(1) have ok: "lzp_put_length e (n - 255) (out @ [LZP_RunFlag]) = (out', True)"
      and nfull: "\<not> Suc (length out) \<ge> e"
      by (auto simp: lzp_put_length.simps [of e n out] Let_def split: if_splits)
    obtain ws where ws: "out' = (out @ [LZP_RunFlag]) @ ws"
      "\<forall>rest. lzp_get_length (a + 255) (ws @ rest) = Some (a + 255 + (n - 255), rest)"
      using "1.IH" [OF True refl _ ok, of "a + 255"] "1.prems"(2) True nfull by auto
    have "lzp_get_length a (LZP_RunFlag # ws @ rest) = Some (a + n, rest)" for rest
      using ws(2) True "1.prems"(2) by (simp add: lzp_flag_values)
    with ws(1) show ?thesis by (intro exI [of _ "LZP_RunFlag # ws"]) simp
  next
    case False
    let ?b = "word_of_nat n XOR LZP_XorFlag"
    have un: "unat (word_of_nat n :: byte) = n" using False by (simp add: unat_of_nat)
    have "?b \<noteq> LZP_RunFlag"
    proof
      assume "?b = LZP_RunFlag"
      then have "?b XOR LZP_XorFlag = LZP_RunFlag XOR LZP_XorFlag" by simp
      then have "(word_of_nat n :: byte) = 255" by (simp add: lzp_flag_values)
      then have "unat (word_of_nat n :: byte) = 255" by simp
      with un False show False by simp
    qed
    moreover have "out' = out @ [?b]"
      using False "1.prems"(1) by (simp add: lzp_put_length.simps [of e n out])
    ultimately show ?thesis
      using un "1.prems"(2) by (intro exI [of _ "[?b]"]) simp
  qed
qed

text \<open>The byte-by-byte copy reproduces a string that repeats earlier output, overlap included.\<close>

lemma lzp_copy_prefix:
  assumes "q < i" and "\<And>k. k < n \<Longrightarrow> mem (i + k) = mem (q + k)"
  shows "lzp_copy n q (map mem [0..<i]) = map mem [0..<i + n]"
  using assms
proof (induction n arbitrary: q i)
  case (Suc n)
  have "mem q = mem i" using Suc.prems(2) [of 0] by simp
  then have "lzp_copy (Suc n) q (map mem [0..<i]) = lzp_copy n (Suc q) (map mem [0..<Suc i])"
    using Suc.prems(1) by simp
  also have "\<dots> = map mem [0..<Suc i + n]"
    using Suc.prems(1) Suc.prems(2) [of "Suc _"] by (intro Suc.IH) auto
  finally show ?case by simp
qed simp

section \<open>Round trip\<close>

definition lzp_table_ok :: "lzp_table \<Rightarrow> nat \<Rightarrow> bool" where
  "lzp_table_ok T i \<longleftrightarrow> (\<forall>h p. T h = Some p \<longrightarrow> p < i)"

lemma lzp_table_ok_upd: "lzp_table_ok T i \<Longrightarrow> i < j \<Longrightarrow> lzp_table_ok (T(h \<mapsto> i)) j"
  by (fastforce simp: lzp_table_ok_def split: if_splits)

lemma lzp_ctx_back_map:
  "4 \<le> i \<Longrightarrow> lzp_ctx_back ((!) (map mem [0..<i])) i = lzp_ctx_back mem i"
  by (simp add: lzp_ctx_back_def)

text \<open>One decoder step per kind of item the encoder writes.\<close>

lemma lzp_dec_steps:
  "lzp_dec_loop m ht [] ctx T out = Some out"
  "T (lzp_hash ht ctx) = None \<Longrightarrow> lzp_dec_loop m ht (c # ws) ctx T out =
     lzp_dec_loop m ht ws (lzp_ctx_push ctx c) (T(lzp_hash ht ctx \<mapsto> length out)) (out @ [c])"
  "T (lzp_hash ht ctx) = Some p \<Longrightarrow> c \<noteq> LZP_MatchFlag \<Longrightarrow> lzp_dec_loop m ht (c # ws) ctx T out =
     lzp_dec_loop m ht ws (lzp_ctx_push ctx c) (T(lzp_hash ht ctx \<mapsto> length out)) (out @ [c])"
  "T (lzp_hash ht ctx) = Some p \<Longrightarrow> lzp_dec_loop m ht (LZP_MatchFlag # LZP_XorFlag # ws) ctx T out =
     lzp_dec_loop m ht ws (lzp_ctx_push ctx LZP_MatchFlag) (T(lzp_hash ht ctx \<mapsto> length out))
       (out @ [LZP_MatchFlag])"
  by (subst lzp_dec_loop.simps; simp add: lzp_flag_values)+

lemma lzp_dec_match:
  assumes "T (lzp_hash ht ctx) = Some p" and "lzp_get_length 0 ws = Some (cl, rest)" and "0 < cl"
    and "cl + m < 2 ^ 32"
  shows "lzp_dec_loop m ht (LZP_MatchFlag # ws) ctx T out =
     (let out' = lzp_copy (cl + m - 1) p out
      in lzp_dec_loop m ht rest (lzp_ctx_back ((!) out') (length out')) (T(lzp_hash ht ctx \<mapsto> length out)) out')"
proof -
  have "(cl + m + 2 ^ 32 - 1) mod 2 ^ 32 = cl + m - 1"
    using assms(3,4) by (simp add: mod_if)
  with assms show ?thesis by (subst lzp_dec_loop.simps) (simp add: Let_def)
qed

text \<open>
  The simulation: from the same context and table, with the decoder's output equal to the part
  of the block the encoder has consumed, the decoder turns whatever the encoder still writes
  into the rest of the block.  One lemma per item the encoder writes.
\<close>

definition lzp_sim :: "(nat \<Rightarrow> byte) \<Rightarrow> nat \<Rightarrow> nat \<Rightarrow> u32 \<Rightarrow> nat \<Rightarrow> u32 \<Rightarrow> lzp_table \<Rightarrow> byte list \<Rightarrow> byte list \<Rightarrow> bool" where
  "lzp_sim mem Size m ht i ctx T out out' \<longleftrightarrow>
     (\<exists>ws. out' = out @ ws \<and> lzp_dec_loop m ht ws ctx T (map mem [0..<i]) = Some (map mem [0..<Size]))"

lemma lzp_sim_done: "lzp_sim mem Size m ht Size ctx T out out"
  by (simp add: lzp_sim_def lzp_dec_steps(1))

lemma lzp_sim_fresh:
  assumes "T (lzp_hash ht ctx) = None"
    and "lzp_sim mem Size m ht (Suc i) (lzp_ctx_push ctx (mem i)) (T(lzp_hash ht ctx \<mapsto> i)) (out @ [mem i]) out'"
  shows "lzp_sim mem Size m ht i ctx T out out'"
proof -
  obtain ws where "out' = (out @ [mem i]) @ ws"
    "lzp_dec_loop m ht ws (lzp_ctx_push ctx (mem i)) (T(lzp_hash ht ctx \<mapsto> i)) (map mem [0..<Suc i])
     = Some (map mem [0..<Size])"
    using assms(2) unfolding lzp_sim_def by blast
  then show ?thesis unfolding lzp_sim_def
    by (intro exI [of _ "mem i # ws"]) (simp add: lzp_dec_steps(2) [where T = T, OF assms(1)])
qed

lemma lzp_sim_literal:
  assumes T: "T (lzp_hash ht ctx) = Some p"
    and "lzp_sim mem Size m ht (Suc i) (lzp_ctx_push ctx (mem i)) (T(lzp_hash ht ctx \<mapsto> i))
           (if mem i = LZP_MatchFlag then out @ [mem i, LZP_XorFlag] else out @ [mem i]) out'"
  shows "lzp_sim mem Size m ht i ctx T out out'"
proof -
  obtain ws where ws: "out' = (if mem i = LZP_MatchFlag then out @ [mem i, LZP_XorFlag] else out @ [mem i]) @ ws"
    "lzp_dec_loop m ht ws (lzp_ctx_push ctx (mem i)) (T(lzp_hash ht ctx \<mapsto> i)) (map mem [0..<Suc i])
     = Some (map mem [0..<Size])"
    using assms(2) unfolding lzp_sim_def by blast
  show ?thesis
  proof (cases "mem i = LZP_MatchFlag")
    case True
    with ws show ?thesis unfolding lzp_sim_def
      by (intro exI [of _ "LZP_MatchFlag # LZP_XorFlag # ws"]) (simp add: lzp_dec_steps(4) [where T = T, OF T])
  next
    case False
    with ws show ?thesis unfolding lzp_sim_def
      by (intro exI [of _ "mem i # ws"]) (simp add: lzp_dec_steps(3) [where T = T, OF T])
  qed
qed

lemma lzp_sim_match:
  assumes T: "T (lzp_hash ht ctx) = Some p" and p: "p < i" and i: "4 \<le> i" "i \<le> Size"
    and size: "Size < 2 ^ 31" "m < 2 ^ 31"
    and n: "lzp_common_length mem Size m i p = n" "n \<noteq> 0"
    and put: "lzp_put_length (Size - 1) (n - m + 1) (out @ [LZP_MatchFlag]) = (o', True)"
    and sim: "lzp_sim mem Size m ht (i + n) (lzp_ctx_back mem (i + n)) (T(lzp_hash ht ctx \<mapsto> i)) o' out'"
  shows "lzp_sim mem Size m ht i ctx T out out'"
proof -
  note n' = lzp_common_length_spec [OF n i(2)]
  obtain ws where ws: "out' = o' @ ws"
    "lzp_dec_loop m ht ws (lzp_ctx_back mem (i + n)) (T(lzp_hash ht ctx \<mapsto> i)) (map mem [0..<i + n])
     = Some (map mem [0..<Size])"
    using sim unfolding lzp_sim_def by blast
  have lt: "0 + (n - m + 1) < 2 ^ 32" using n'(2) size by simp
  obtain cs where cs: "o' = (out @ [LZP_MatchFlag]) @ cs"
    "\<forall>rest. lzp_get_length 0 (cs @ rest) = Some (n - m + 1, rest)"
    using lzp_get_put_length [OF put lt] by auto
  have cp: "lzp_copy n p (map mem [0..<i]) = map mem [0..<i + n]"
    by (rule lzp_copy_prefix [OF p n'(3)])
  have "lzp_dec_loop m ht (LZP_MatchFlag # cs @ ws) ctx T (map mem [0..<i]) = Some (map mem [0..<Size])"
    using cs(2) n'(1,2) i size ws(2)
    by (subst lzp_dec_match [where T = T, OF T])
       (auto simp: cp Let_def lzp_ctx_back_map simp del: upt_Suc fun_upd_apply)
  with ws(1) cs(1) show ?thesis unfolding lzp_sim_def
    by (intro exI [of _ "LZP_MatchFlag # cs @ ws"]) simp
qed

lemma lzp_loop_sim:
  assumes "lzp_enc_loop mem Size m ht i ctx T out = (r, out')" and "r \<ge> 0"
    and "4 \<le> i" and "i \<le> Size" and "lzp_table_ok T i" and "Size < 2 ^ 31" and "m < 2 ^ 31"
  shows "lzp_sim mem Size m ht i ctx T out out'"
  using assms
proof (induction mem Size m ht i ctx T out rule: lzp_enc_loop.induct)
  case (1 mem Size m ht i ctx T out)
  note enc = "1.prems"(1) [unfolded lzp_enc_loop.simps [of mem Size m ht i ctx T out]]
  show ?case
  proof (cases "i < Size \<and> length out < Size - 1")
    case False
    then have "out' = out" "i = Size"
      using enc "1.prems"(2,4) by (auto simp: grz_codes Let_def split: if_splits)
    then show ?thesis by (simp add: lzp_sim_done)
  next
    case go: True
    have tab: "\<And>j. i < j \<Longrightarrow> lzp_table_ok (T(lzp_hash ht ctx \<mapsto> i)) j"
      using "1.prems"(5) by (rule lzp_table_ok_upd)
    note IH = "1.IH" [OF go refl refl]
    show ?thesis
    proof (cases "T (lzp_hash ht ctx)")
      case None
      show ?thesis
        by (rule lzp_sim_fresh [where T = T, OF None], rule IH(1) [OF None])
           (use None go enc "1.prems" tab in \<open>simp_all add: Let_def del: fun_upd_apply\<close>)
    next
      case (Some p)
      have p: "p < i" using Some "1.prems"(5) by (auto simp: lzp_table_ok_def)
      show ?thesis
      proof (cases "lzp_common_length mem Size m i p = 0")
        case True
        show ?thesis
          by (rule lzp_sim_literal [where T = T, OF Some], rule IH(3) [OF Some refl _ refl])
             (use Some True go enc "1.prems" tab in \<open>simp_all add: Let_def del: fun_upd_apply\<close>)
      next
        case False
        obtain o' ok where put: "lzp_put_length (Size - 1) (lzp_common_length mem Size m i p - m + 1)
          (out @ [LZP_MatchFlag]) = (o', ok)" by fastforce
        have ok using put enc go Some False "1.prems"(2) by (cases ok) (auto simp: Let_def grz_codes)
        then have put: "lzp_put_length (Size - 1) (lzp_common_length mem Size m i p - m + 1)
          (out @ [LZP_MatchFlag]) = (o', True)" using put by simp
        have j: "i + lzp_common_length mem Size m i p \<le> Size"
          using lzp_common_length_spec(2) [OF refl False "1.prems"(4)] .
        show ?thesis
          by (rule lzp_sim_match [where T = T, OF Some p "1.prems"(3,4,6,7) refl False put],
              rule IH(2) [OF Some refl False put [symmetric] refl])
             (use Some False go enc put j "1.prems" tab in \<open>simp_all add: Let_def del: fun_upd_apply\<close>)
      qed
    qed
  qed
qed

section \<open>Bounds\<close>

lemma lzp_put_length_bound:
  "length out \<le> e \<Longrightarrow> length (fst (lzp_put_length e n out)) \<le> Suc e"
proof (induction e n out rule: lzp_put_length.induct)
  case (1 e n out)
  then show ?case by (subst lzp_put_length.simps) (auto simp: Let_def)
qed

lemma lzp_loop_bound:
  assumes "lzp_enc_loop mem Size m ht i ctx T out = (r, out')" and "length out \<le> Size" and "2 \<le> Size"
  shows "length out' \<le> Size \<and> (r = GRZ_NOT_COMPRESSIBLE \<or> r = int (length out') \<and> length out' < Size - 1)"
  using assms
proof (induction mem Size m ht i ctx T out rule: lzp_enc_loop.induct)
  case (1 mem Size m ht i ctx T out)
  note enc = "1.prems"(1) [unfolded lzp_enc_loop.simps [of mem Size m ht i ctx T out]]
  show ?case
  proof (cases "i < Size \<and> length out < Size - 1")
    case False
    then show ?thesis using enc "1.prems"(2) by (auto simp: Let_def split: if_splits)
  next
    case go: True
    note IH = "1.IH" [OF go refl refl]
    have room: "Suc (length out) \<le> Size" "Suc (Suc (length out)) \<le> Size" using go by auto
    show ?thesis
    proof (cases "T (lzp_hash ht ctx)")
      case None
      then show ?thesis using IH(1) [OF None] room go enc "1.prems"(3) by (simp add: Let_def del: fun_upd_apply)
    next
      case (Some p)
      show ?thesis
      proof (cases "lzp_common_length mem Size m i p = 0")
        case True
        then show ?thesis using IH(3) [OF Some refl _ refl] room go enc Some "1.prems"(3)
          by (simp add: Let_def del: fun_upd_apply split: if_splits)
      next
        case False
        obtain o' ok where put: "lzp_put_length (Size - 1) (lzp_common_length mem Size m i p - m + 1)
          (out @ [LZP_MatchFlag]) = (o', ok)" by fastforce
        have len: "length o' \<le> Size"
          using lzp_put_length_bound [of "out @ [LZP_MatchFlag]" "Size - 1"
            "lzp_common_length mem Size m i p - m + 1"] put go by simp
        show ?thesis
        proof (cases ok)
          case True
          with put have put: "lzp_put_length (Size - 1) (lzp_common_length mem Size m i p - m + 1)
            (out @ [LZP_MatchFlag]) = (o', True)" by simp
          show ?thesis using IH(2) [OF Some refl False put [symmetric] refl] len put go enc Some False "1.prems"(3)
            by (simp add: Let_def del: fun_upd_apply)
        next
          case False': False
          then show ?thesis using len put go enc Some False by (simp add: Let_def)
        qed
      qed
    qed
  qed
qed

section \<open>Properties\<close>

lemma lzp_decodes:
  assumes "GRZip_LZP_Encode True mem Size MinMatchLen HT_Size = (r, out)" and "r \<ge> 0"
    and "Size < 2 ^ 31" and "MinMatchLen < 2 ^ 31"
  shows "GRZip_LZP_Decode True out MinMatchLen HT_Size = Some (int Size, map mem [0..<Size])"
proof -
  have enc: "lzp_enc_loop mem Size MinMatchLen HT_Size 4 (lzp_ctx_back mem 4) (\<lambda>_. None) (map mem [0..<4]) = (r, out)"
    using assms(1) by (simp add: GRZip_LZP_Encode_def)
  have "4 \<le> Size"
    using enc assms(2) by (subst (asm) lzp_enc_loop.simps) (auto simp: grz_codes split: if_splits)
  then have "lzp_sim mem Size MinMatchLen HT_Size 4 (lzp_ctx_back mem 4) (\<lambda>_. None) (map mem [0..<4]) out"
    using lzp_loop_sim [OF enc assms(2)] assms(3,4) by (simp add: lzp_table_ok_def)
  then obtain ws where "out = map mem [0..<4] @ ws"
    "lzp_dec_loop MinMatchLen HT_Size ws (lzp_ctx_back mem 4) (\<lambda>_. None) (map mem [0..<4]) = Some (map mem [0..<Size])"
    unfolding lzp_sim_def by blast
  moreover have "lzp_ctx_back ((!) (map mem [0..<4] @ ws)) 4 = lzp_ctx_back mem 4"
    by (simp add: lzp_ctx_back_def nth_append numeral_2_eq_2)
  ultimately show ?thesis by (simp add: GRZip_LZP_Decode_def)
qed

text \<open>
  C33: whatever block the LZP encoder accepts, the decoder with the same parameters restores
  exactly that block, for every minimal match length and hash mask and whatever lies in memory
  behind the block.
\<close>

theorem lzp_roundtrip:
  assumes "GRZip_LZP_Encode True mem Size MinMatchLen HT_Size = (r, out)" and "r \<ge> 0"
    and "Size < 2 ^ 31" and "MinMatchLen < 2 ^ 31"
  shows "GRZip_LZP_Decode True out MinMatchLen HT_Size = Some (int Size, map mem [0..<Size])"
  using assms by (rule lzp_decodes)

theorem lzp_roundtrip_witness:
  "GRZip_LZP_Encode True (\<lambda>_. 7) 300 4 0xFF = (8, [7, 7, 7, 7, 7, 0xF2, 0xF3, 0x29]) \<and>
   GRZip_LZP_Decode True [7, 7, 7, 7, 7, 0xF2, 0xF3, 0x29] 4 0xFF = Some (300, map (\<lambda>_. 7) [0..<300])"
proof -
  have e: "GRZip_LZP_Encode True (\<lambda>_. 7) 300 4 0xFF = (8, [7, 7, 7, 7, 7, 0xF2, 0xF3, 0x29])"
    by code_simp
  show ?thesis using e lzp_roundtrip [OF e] by simp
qed

lemma lzp_bounds:
  assumes "GRZip_LZP_Encode True mem Size MinMatchLen HT_Size = (r, out)" and "4 \<le> Size"
  shows "length out \<le> Size \<and>
     (r = GRZ_NOT_COMPRESSIBLE \<or> r = int (length out) \<and> length out < Size - 1)"
  using assms lzp_loop_bound [of mem Size MinMatchLen HT_Size 4 "lzp_ctx_back mem 4" "\<lambda>_. None" "map mem [0..<4]" r out]
  by (simp add: GRZip_LZP_Encode_def)

text \<open>
  C34: the encoder never writes past \<^verbatim>\<open>Output[Size-1]\<close>, whether it succeeds or gives up; its
  result is \<^verbatim>\<open>GRZ_NOT_COMPRESSIBLE\<close> or the number of bytes written, which is then less than
  \<^verbatim>\<open>Size-1\<close>.
\<close>

theorem lzp_encode_bounds:
  assumes "GRZip_LZP_Encode True mem Size MinMatchLen HT_Size = (r, out)" and "4 \<le> Size"
  shows "length out \<le> Size \<and>
     (r = GRZ_NOT_COMPRESSIBLE \<or> r = int (length out) \<and> length out < Size - 1)"
  using assms by (rule lzp_bounds)

theorem lzp_encode_bounds_witness:
  "GRZip_LZP_Encode True (\<lambda>_. 7) 32 4 0xFF = (7, [7, 7, 7, 7, 7, 0xF2, 0x14]) \<and>
   length [7, 7, 7, 7, 7, 0xF2, 0x14 :: byte] \<le> 32"
proof -
  have e: "GRZip_LZP_Encode True (\<lambda>_. 7) 32 4 0xFF = (7, [7, 7, 7, 7, 7, 0xF2, 0x14])"
    by code_simp
  show ?thesis using e lzp_encode_bounds [OF e] by simp
qed

end
