(* ===== verification/Grz_RecFlt.thy ===== *)
theory Grz_RecFlt
  imports Prelude
begin

text \<open>
  \<^verbatim>\<open>Compression/GRZip/Rec_Flt.c\<close>: the record filter.  Modes 1 and 2 split the block into its
  even and odd bytes, or into four interleaved streams; modes 3 and 4 also take differences of
  the 16- or 32-bit records, fold their sign into the lowest bit and store the bytes of the
  results in separate planes.

  Where the code writes with \<^verbatim>\<open>*(Output++)\<close> only, the output is the list of bytes written;
  where it writes two or more planes at once, the output buffer is a list updated by index.
\<close>

section \<open>Definitions\<close>

definition load16 :: "byte list \<Rightarrow> nat \<Rightarrow> u16" where
  "load16 y p = push_bit 8 (ucast (y ! (p + 1))) OR ucast (y ! p)"

text \<open>The sign folding of the differences and its inverse.\<close>

definition rec_fold16 :: "u16 \<Rightarrow> u16" where
  "rec_fold16 Delta = (if Delta AND 0x8000 \<noteq> 0 then push_bit 1 (NOT Delta) OR 1 else push_bit 1 Delta)"

definition rec_unfold16 :: "u16 \<Rightarrow> u16" where
  "rec_unfold16 Delta = (if Delta AND 1 \<noteq> 0 then NOT (drop_bit 1 Delta) else drop_bit 1 Delta)"

definition rec_fold32 :: "u32 \<Rightarrow> u32" where
  "rec_fold32 Delta = (if Delta AND 0x80000000 \<noteq> 0 then push_bit 1 (NOT Delta) OR 1 else push_bit 1 Delta)"

definition rec_unfold32 :: "u32 \<Rightarrow> u32" where
  "rec_unfold32 Delta = (if Delta AND 1 \<noteq> 0 then NOT (drop_bit 1 Delta) else drop_bit 1 Delta)"

text \<open>Modes 1 and 2: \<^verbatim>\<open>for(i=c;i<Size;i+=s) *(Output++)=Input[i]\<close> and its inverse.\<close>

function rec_gather :: "byte list \<Rightarrow> nat \<Rightarrow> nat \<Rightarrow> nat \<Rightarrow> byte list" where
  "rec_gather Input Size s i =
     (if i < Size \<and> 0 < s then Input ! i # rec_gather Input Size s (i + s) else [])"
  by pat_completeness auto
termination by (relation "measure (\<lambda>(inp, n, s, i). n - i)") auto

declare rec_gather.simps [simp del]

function rec_scatter :: "nat \<Rightarrow> nat \<Rightarrow> nat \<Rightarrow> byte list \<Rightarrow> byte list \<Rightarrow> byte list \<times> byte list" where
  "rec_scatter Size s i Input Output =
     (if i < Size \<and> 0 < s then rec_scatter Size s (i + s) (tl Input) (Output[i := hd Input])
      else (Input, Output))"
  by pat_completeness auto
termination by (relation "measure (\<lambda>(n, s, i, inp, out). n - i)") auto

declare rec_scatter.simps [simp del]

text \<open>Mode 3: the loop over the 16-bit records.\<close>

function rec_enc16 :: "byte list \<Rightarrow> nat \<Rightarrow> nat \<Rightarrow> u16 \<Rightarrow> byte list \<Rightarrow> byte list" where
  "rec_enc16 Input NumRecords j PredCode Output =
     (if j < NumRecords then
        let Code = load16 Input (2 * j);
            Delta = rec_fold16 (Code - PredCode)
        in rec_enc16 Input NumRecords (Suc j) Code
             (Output[j + NumRecords := ucast (Delta AND 0xFF), j := ucast (drop_bit 8 Delta)])
      else Output)"
  by pat_completeness auto
termination by (relation "measure (\<lambda>(inp, n, j, p, out). n - j)") auto

function rec_dec16 :: "byte list \<Rightarrow> nat \<Rightarrow> nat \<Rightarrow> u16 \<Rightarrow> byte list \<Rightarrow> byte list" where
  "rec_dec16 Input NumRecords j PredCode Output =
     (if j < NumRecords then
        let Delta = push_bit 8 (ucast (Input ! j)) OR ucast (Input ! (j + NumRecords));
            Code = rec_unfold16 Delta + PredCode
        in rec_dec16 Input NumRecords (Suc j) Code
             (Output[2 * j := ucast Code, 2 * j + 1 := ucast (drop_bit 8 Code)])
      else Output)"
  by pat_completeness auto
termination by (relation "measure (\<lambda>(inp, n, j, p, out). n - j)") auto

text \<open>Mode 4: the loop over the 32-bit records, with four planes.\<close>

function rec_enc32 :: "byte list \<Rightarrow> nat \<Rightarrow> nat \<Rightarrow> u32 \<Rightarrow> byte list \<Rightarrow> byte list" where
  "rec_enc32 Input NumRecords j PredCode Output =
     (if j < NumRecords then
        let Code = LOAD32L Input (4 * j);
            Delta = rec_fold32 (Code - PredCode)
        in rec_enc32 Input NumRecords (Suc j) Code
             (Output[j + NumRecords := ucast (Delta AND 0xFF),
                     j + 2 * NumRecords := ucast (drop_bit 8 Delta AND 0xFF),
                     j + 3 * NumRecords := ucast (drop_bit 16 Delta AND 0xFF),
                     j := ucast (drop_bit 24 Delta)])
      else Output)"
  by pat_completeness auto
termination by (relation "measure (\<lambda>(inp, n, j, p, out). n - j)") auto

function rec_dec32 :: "byte list \<Rightarrow> nat \<Rightarrow> nat \<Rightarrow> u32 \<Rightarrow> byte list \<Rightarrow> byte list" where
  "rec_dec32 Input NumRecords j PredCode Output =
     (if j < NumRecords then
        let Delta = ucast (Input ! j);
            Delta = push_bit 8 Delta OR ucast (Input ! (j + 3 * NumRecords));
            Delta = push_bit 8 Delta OR ucast (Input ! (j + 2 * NumRecords));
            Delta = push_bit 8 Delta OR ucast (Input ! (j + NumRecords));
            Code = rec_unfold32 Delta + PredCode
        in rec_dec32 Input NumRecords (Suc j) Code
             (Output[4 * j := ucast Code, 4 * j + 1 := ucast (drop_bit 8 Code),
                     4 * j + 2 := ucast (drop_bit 16 Code), 4 * j + 3 := ucast (drop_bit 24 Code)])
      else Output)"
  by pat_completeness auto
termination by (relation "measure (\<lambda>(inp, n, j, p, out). n - j)") auto

declare rec_enc16.simps [simp del] rec_dec16.simps [simp del]
  rec_enc32.simps [simp del] rec_dec32.simps [simp del]

text \<open>
  The bytes left over behind the last full record: the encoder writes \<^verbatim>\<open>*(Output+Plane)\<close> with
  \<open>Output\<close> at \<open>o\<close>, the decoder reads \<^verbatim>\<open>*(Input+Plane)\<close> with \<open>Input\<close> at \<open>o\<close>.
\<close>

function rec_tail_enc :: "byte list \<Rightarrow> nat \<Rightarrow> nat \<Rightarrow> nat \<Rightarrow> nat \<Rightarrow> byte list \<Rightarrow> byte list" where
  "rec_tail_enc Input Size Plane i p Output =
     (if i < Size then rec_tail_enc Input Size Plane (Suc i) (Suc p) (Output[p + Plane := Input ! i])
      else Output)"
  by pat_completeness auto
termination by (relation "measure (\<lambda>(inp, n, pl, i, p, out). n - i)") auto

function rec_tail_dec :: "byte list \<Rightarrow> nat \<Rightarrow> nat \<Rightarrow> nat \<Rightarrow> nat \<Rightarrow> byte list \<Rightarrow> byte list" where
  "rec_tail_dec Input Size Plane i p Output =
     (if i < Size then rec_tail_dec Input Size Plane (Suc i) (Suc p) (Output[i := Input ! (p + Plane)])
      else Output)"
  by pat_completeness auto
termination by (relation "measure (\<lambda>(inp, n, pl, i, p, out). n - i)") auto

declare rec_tail_enc.simps [simp del] rec_tail_dec.simps [simp del]

definition GRZip_Rec_Encode :: "byte list \<Rightarrow> nat \<Rightarrow> byte list \<Rightarrow> nat \<Rightarrow> byte list" where
  "GRZip_Rec_Encode Input Size Output Mode =
     (if Mode = 3 then
        let N = Size div 2
        in rec_tail_enc Input Size N (2 * N) N (rec_enc16 Input N 0 0 Output)
      else if Mode = 4 then
        let N = Size div 4
        in rec_tail_enc Input Size (3 * N) (4 * N) N (rec_enc32 Input N 0 0 Output)
      else if Mode = 1 then
        let w = rec_gather Input Size 2 0 @ rec_gather Input Size 2 1
        in w @ drop (length w) Output
      else if Mode = 2 then
        let w = rec_gather Input Size 4 0 @ rec_gather Input Size 4 1 @
                rec_gather Input Size 4 2 @ rec_gather Input Size 4 3
        in w @ drop (length w) Output
      else Output)"

definition GRZip_Rec_Decode :: "byte list \<Rightarrow> nat \<Rightarrow> byte list \<Rightarrow> nat \<Rightarrow> byte list" where
  "GRZip_Rec_Decode Input Size Output Mode =
     (if Mode = 3 then
        let N = Size div 2
        in rec_tail_dec Input Size N (2 * N) N (rec_dec16 Input N 0 0 Output)
      else if Mode = 4 then
        let N = Size div 4
        in rec_tail_dec Input Size (3 * N) (4 * N) N (rec_dec32 Input N 0 0 Output)
      else if Mode = 1 then
        let (Input, Output) = rec_scatter Size 2 0 Input Output;
            (Input, Output) = rec_scatter Size 2 1 Input Output
        in Output
      else if Mode = 2 then
        let (Input, Output) = rec_scatter Size 4 0 Input Output;
            (Input, Output) = rec_scatter Size 4 1 Input Output;
            (Input, Output) = rec_scatter Size 4 2 Input Output;
            (Input, Output) = rec_scatter Size 4 3 Input Output
        in Output
      else Output)"

section \<open>Choosing the mode\<close>

text \<open>
  \<^verbatim>\<open>GRZip_Rec_Test\<close> counts the bytes of the block, of its two and of its four interleaved streams, and
  compares their entropies in floating point; that comparison is the argument \<^verbatim>\<open>pick\<close>, which gets the
  three tables and the size and yields 0, 1 or 2 for the whole block, two or four streams.  Whether
  differences are smaller than the values is then decided with integers: the sums are 64 bits wide, but
  the product for 32-bit records is one of \<^verbatim>\<open>uint32\<close> and wraps, and that for 16-bit records is one of \<^verbatim>\<open>int\<close>; where it overflows,
  which C leaves undefined, it wraps as on two's complement machines.
\<close>

definition count_byte :: "byte \<Rightarrow> nat list \<Rightarrow> nat list" where
  "count_byte c F = F[unat c := F ! unat c + 1]"

fun rec_count :: "byte list \<Rightarrow> nat \<Rightarrow> nat \<Rightarrow> nat list \<times> nat list list \<times> nat list list \<Rightarrow> nat list \<times> nat list list \<times> nat list list" where
  "rec_count [] Pos2 Pos4 F = F"
| "rec_count (c # Input) Pos2 Pos4 (Freq0, Freq2, Freq4) =
     rec_count Input ((Pos2 + 1) AND 1) ((Pos4 + 1) AND 3)
       (count_byte c Freq0, Freq2[Pos2 := count_byte c (Freq2 ! Pos2)], Freq4[Pos4 := count_byte c (Freq4 ! Pos4)])"

fun rec_sums16 :: "byte list \<Rightarrow> nat list \<Rightarrow> u16 \<Rightarrow> u16 \<Rightarrow> int \<Rightarrow> int \<Rightarrow> u16 \<times> int \<times> int" where
  "rec_sums16 Input [] PredCode MinCode Acc AccDelta = (MinCode, Acc, AccDelta)"
| "rec_sums16 Input (j # js) PredCode MinCode Acc AccDelta =
     (let Code = load16 Input (2 * j)
      in rec_sums16 Input js Code (min Code MinCode) (Acc + uint Code) (AccDelta + uint (rec_fold16 (Code - PredCode))))"

fun rec_sums32 :: "byte list \<Rightarrow> nat list \<Rightarrow> u32 \<Rightarrow> u32 \<Rightarrow> int \<Rightarrow> int \<Rightarrow> u32 \<times> int \<times> int" where
  "rec_sums32 Input [] PredCode MinCode Acc AccDelta = (MinCode, Acc, AccDelta)"
| "rec_sums32 Input (j # js) PredCode MinCode Acc AccDelta =
     (let Code = LOAD32L Input (4 * j)
      in rec_sums32 Input js Code (min Code MinCode) (Acc + uint Code) (AccDelta + uint (rec_fold32 (Code - PredCode))))"

definition GRZip_Rec_Test :: "(nat list \<Rightarrow> nat list list \<Rightarrow> nat list list \<Rightarrow> nat \<Rightarrow> nat) \<Rightarrow> byte list \<Rightarrow> nat" where
  "GRZip_Rec_Test pick Input =
     (let Size = length Input;
          (Freq0, Freq2, Freq4) = rec_count Input 0 0 (replicate 256 0, replicate 2 (replicate 256 0), replicate 4 (replicate 256 0));
          Best = pick Freq0 Freq2 Freq4 Size
      in if Best = 1 then
           let (MinCode, Acc, AccDelta) = rec_sums16 Input [0..<Size div 2] 0 0xFFFF 0 0
           in if Acc - sint (ucast MinCode * of_nat (Size div 2) :: u32) > AccDelta + AccDelta div 16 then 3 else Best
         else if Best = 2 then
           let (MinCode, Acc, AccDelta) = rec_sums32 Input [0..<Size div 4] 0 0xFFFFFFFF 0 0
           in if Acc - uint (MinCode * of_nat (Size div 4)) > AccDelta + AccDelta div 16 then 4 else Best
         else Best)"

lemma rec_test_range:
  assumes "\<And>a b c n. pick a b c n \<le> 2"
  shows "GRZip_Rec_Test pick Input \<le> 4"
  using assms le_trans [OF assms, of 4] by (auto simp: GRZip_Rec_Test_def Let_def split: prod.splits)

section \<open>Sign folding\<close>

lemma fold_cancel:
  fixes d :: "'a::len word"
  shows "bit d (LENGTH('a) - 1) \<Longrightarrow> NOT (drop_bit 1 (push_bit 1 (NOT d) OR 1)) = d"
    and "\<not> bit d (LENGTH('a) - 1) \<Longrightarrow> drop_bit 1 (push_bit 1 d) = d"
proof -
  show "NOT (drop_bit 1 (push_bit 1 (NOT d) OR 1)) = d" if "bit d (LENGTH('a) - 1)"
  proof (rule bit_word_eqI)
    fix n assume "n < LENGTH('a)"
    with that show "bit (NOT (drop_bit 1 (push_bit 1 (NOT d) OR 1))) n = bit d n"
      by (cases "n = LENGTH('a) - 1") (auto simp: bit_simps simp del: push_bit_Suc drop_bit_Suc)
  qed
  show "drop_bit 1 (push_bit 1 d) = d" if "\<not> bit d (LENGTH('a) - 1)"
  proof (rule bit_word_eqI)
    fix n assume "n < LENGTH('a)"
    with that show "bit (drop_bit 1 (push_bit 1 d)) n = bit d n"
      by (cases "n = LENGTH('a) - 1") (auto simp: bit_simps simp del: push_bit_Suc drop_bit_Suc)
  qed
qed

lemma fold_parity:
  fixes d :: "'a::len word"
  shows "(push_bit 1 d OR 1) AND 1 \<noteq> 0" and "push_bit 1 d AND 1 = 0"
proof -
  have "bit ((push_bit 1 d OR 1) AND 1) 0" by (simp add: bit_simps)
  then show "(push_bit 1 d OR 1) AND 1 \<noteq> 0" by auto
  show "push_bit 1 d AND 1 = 0"
    by (rule bit_word_eqI) (auto simp: bit_simps simp del: push_bit_Suc)
qed

lemma rec_unfold_fold [inverses]:
  "rec_unfold16 (rec_fold16 d) = d" "rec_unfold32 (rec_fold32 e) = e"
proof -
  have "(d AND 0x8000 \<noteq> 0) = bit d 15"
    using and_exp_eq_0_iff_not_bit [of d 15] by simp
  then show "rec_unfold16 (rec_fold16 d) = d"
    using fold_cancel [of d] fold_parity [of d] fold_parity [of "NOT d"]
    by (simp add: rec_fold16_def rec_unfold16_def)
  have "(e AND 0x80000000 \<noteq> 0) = bit e 31"
    using and_exp_eq_0_iff_not_bit [of e 31] by simp
  then show "rec_unfold32 (rec_fold32 e) = e"
    using fold_cancel [of e] fold_parity [of e] fold_parity [of "NOT e"]
    by (simp add: rec_fold32_def rec_unfold32_def)
qed

section \<open>Interleaving: modes 1 and 2\<close>

text \<open>Reading back what was gathered writes the block's bytes at the gathered offsets only.\<close>

lemma rec_scatter_gather:
  assumes "0 < s" and "length inp = n" and "length out = n"
  shows "\<exists>out'. rec_scatter n s i (rec_gather inp n s i @ rest) out = (rest, out') \<and> length out' = n \<and>
     (\<forall>k < n. out' ! k = (if i \<le> k \<and> (k - i) mod s = 0 then inp ! k else out ! k))"
  using assms
proof (induction n s i "rec_gather inp n s i @ rest" out rule: rec_scatter.induct)
  case (1 n s i out)
  show ?case
  proof (cases "i < n")
    case False
    then show ?thesis using "1.prems"
      by (auto simp: rec_scatter.simps [of n s i] rec_gather.simps [of inp n s i])
  next
    case True
    let ?out = "out[i := inp ! i]"
    have g: "rec_gather inp n s i = inp ! i # rec_gather inp n s (i + s)"
      using True "1.prems" by (simp add: rec_gather.simps [of inp n s i])
    obtain out' where IH: "rec_scatter n s (i + s) (rec_gather inp n s (i + s) @ rest) ?out = (rest, out')"
      "length out' = n"
      "\<forall>k < n. out' ! k = (if i + s \<le> k \<and> (k - (i + s)) mod s = 0 then inp ! k else ?out ! k)"
      using "1.hyps" True "1.prems" g by auto
    have "(i + s \<le> k \<and> (k - (i + s)) mod s = 0) \<longleftrightarrow> (i < k \<and> (k - i) mod s = 0)" for k
    proof (cases "i + s \<le> k")
      case True
      then have "(k - i) mod s = (k - (i + s)) mod s"
        by (metis add.commute le_add_diff_inverse2 diff_diff_add mod_add_self2 le_diff_conv2 add_leD1 add_leE)
      with True "1.prems" show ?thesis by simp
    next
      case False
      then have "i < k \<Longrightarrow> (k - i) mod s = k - i" by simp
      with False "1.prems" show ?thesis by auto
    qed
    then have "\<forall>k < n. out' ! k = (if i \<le> k \<and> (k - i) mod s = 0 then inp ! k else out ! k)"
      using IH(3) True "1.prems" by (auto simp: nth_list_update)
    then show ?thesis
      using IH g True "1.prems" by (simp add: rec_scatter.simps [of n s i])
  qed
qed

section \<open>Differences: modes 3 and 4\<close>

text \<open>The folded difference of record \<open>j\<close>, as the encoder computes it.\<close>

definition rec_delta16 :: "byte list \<Rightarrow> nat \<Rightarrow> u16" where
  "rec_delta16 inp j = rec_fold16 (load16 inp (2 * j) - (if j = 0 then 0 else load16 inp (2 * (j - 1))))"

definition rec_delta32 :: "byte list \<Rightarrow> nat \<Rightarrow> u32" where
  "rec_delta32 inp j = rec_fold32 (LOAD32L inp (4 * j) - (if j = 0 then 0 else LOAD32L inp (4 * (j - 1))))"

lemma rec_unfold_delta:
  "rec_unfold16 (rec_delta16 inp j) + (if j = 0 then 0 else load16 inp (2 * (j - 1))) = load16 inp (2 * j)"
  "rec_unfold32 (rec_delta32 inp j) + (if j = 0 then 0 else LOAD32L inp (4 * (j - 1))) = LOAD32L inp (4 * j)"
  by (simp_all add: rec_delta16_def rec_delta32_def inverses)

lemma load16_bytes: "ucast (load16 y p) = y ! p" "ucast (drop_bit 8 (load16 y p)) = y ! (p + 1)"
  unfolding load16_def by (rule bit_word_eqI; auto simp: bit_simps dest: bit_imp_le_length)+

lemma ucast_low_byte: "(ucast (d AND 0xFF) :: byte) = ucast (d :: 'a::len word)"
proof -
  have m: "(0xFF :: 'a word) = mask 8" by (simp add: mask_eq_exp_minus_1)
  show ?thesis unfolding m by (rule bit_word_eqI) (auto simp: bit_simps dest: bit_imp_le_length)
qed

lemma join16: "push_bit 8 (ucast (ucast (drop_bit 8 d) :: byte)) OR ucast (ucast d :: byte) = (d :: u16)"
  (is "?w = d")
proof (rule bit_word_eqI)
  fix n assume "n < LENGTH(16)"
  then have "n < 8 \<or> 8 \<le> n \<and> n < 16" by auto
  then show "bit ?w n = bit d n" by (auto simp: bit_simps)
qed

lemma rec_enc16_spec:
  assumes "2 * N \<le> length out" and "j \<le> N" and "pred = (if j = 0 then 0 else load16 inp (2 * (j - 1)))"
  shows "length (rec_enc16 inp N j pred out) = length out \<and>
    (\<forall>k. rec_enc16 inp N j pred out ! k =
       (if j \<le> k \<and> k < N then ucast (drop_bit 8 (rec_delta16 inp k))
        else if N + j \<le> k \<and> k < 2 * N then ucast (rec_delta16 inp (k - N))
        else out ! k))"
  using assms
proof (induction inp N j pred out rule: rec_enc16.induct)
  case (1 inp N j pred out)
  show ?case
  proof (cases "j < N")
    case False
    then have eq: "rec_enc16 inp N j pred out = out" by (simp add: rec_enc16.simps [of inp N j])
    show ?thesis unfolding eq using False "1.prems"(2) by auto
  next
    case True
    let ?d = "rec_delta16 inp j"
    let ?out = "out[j + N := ucast ?d, j := ucast (drop_bit 8 ?d)]"
    have d: "rec_fold16 (load16 inp (2 * j) - pred) = ?d"
      using "1.prems"(3) by (simp add: rec_delta16_def)
    have "rec_enc16 inp N j pred out = rec_enc16 inp N (Suc j) (load16 inp (2 * j)) ?out"
      using True by (subst rec_enc16.simps) (simp add: d Let_def ucast_low_byte)
    moreover have "length ?out = length out" by simp
    moreover note "1.IH" [OF True refl refl, unfolded d ucast_low_byte]
    ultimately have IH: "length (rec_enc16 inp N j pred out) = length out"
      "\<And>k. rec_enc16 inp N j pred out ! k =
         (if Suc j \<le> k \<and> k < N then ucast (drop_bit 8 (rec_delta16 inp k))
          else if N + Suc j \<le> k \<and> k < 2 * N then ucast (rec_delta16 inp (k - N))
          else ?out ! k)"
      using "1.prems"(1) True by simp_all
    have "rec_enc16 inp N j pred out ! k =
       (if j \<le> k \<and> k < N then ucast (drop_bit 8 (rec_delta16 inp k))
        else if N + j \<le> k \<and> k < 2 * N then ucast (rec_delta16 inp (k - N))
        else out ! k)" for k
    proof -
      consider "k = j" | "k = j + N" | "k \<noteq> j" "k \<noteq> j + N" by blast
      then show ?thesis
      proof cases
        case 3
        then have "(Suc j \<le> k) = (j \<le> k)" "(N + Suc j \<le> k) = (N + j \<le> k)" by auto
        with 3 show ?thesis by (simp only: IH(2) nth_list_update_neq not_sym)
      qed (use True "1.prems"(1) in \<open>simp_all add: IH(2)\<close>)
    qed
    with IH(1) show ?thesis by simp
  qed
qed

lemma rec_dec16_spec:
  assumes "2 * N \<le> length out" and "j \<le> N" and "pred = (if j = 0 then 0 else load16 src (2 * (j - 1)))"
    and "\<And>k. k < N \<Longrightarrow> inp ! k = ucast (drop_bit 8 (rec_delta16 src k))"
    and "\<And>k. k < N \<Longrightarrow> inp ! (k + N) = ucast (rec_delta16 src k)"
  shows "length (rec_dec16 inp N j pred out) = length out \<and>
    (\<forall>k. rec_dec16 inp N j pred out ! k = (if 2 * j \<le> k \<and> k < 2 * N then src ! k else out ! k))"
  using assms
proof (induction inp N j pred out rule: rec_dec16.induct)
  case (1 inp N j pred out)
  show ?case
  proof (cases "j < N")
    case False
    then have eq: "rec_dec16 inp N j pred out = out" by (simp add: rec_dec16.simps [of inp N j])
    show ?thesis unfolding eq using False "1.prems"(2) by auto
  next
    case True
    let ?out = "out[2 * j := src ! (2 * j), 2 * j + 1 := src ! (2 * j + 1)]"
    have d: "push_bit 8 (ucast (inp ! j)) OR ucast (inp ! (j + N)) = rec_delta16 src j"
      using "1.prems"(4,5) True by (simp add: ucast_low_byte join16)
    have c: "rec_unfold16 (rec_delta16 src j) + pred = load16 src (2 * j)"
      using "1.prems"(3) rec_unfold_delta(1) [of src j] by simp
    have "rec_dec16 inp N j pred out = rec_dec16 inp N (Suc j) (load16 src (2 * j)) ?out"
      using True by (subst rec_dec16.simps) (simp add: d c load16_bytes Let_def)
    moreover note "1.IH" [OF True refl refl, unfolded d c load16_bytes]
    ultimately show ?thesis
      using "1.prems" True by (auto simp: nth_list_update less_Suc_eq_le)
  qed
qed

lemma join32:
  "push_bit 8 (push_bit 8 (push_bit 8 (ucast (ucast (drop_bit 24 d) :: byte)) OR
     ucast (ucast (drop_bit 16 d) :: byte)) OR ucast (ucast (drop_bit 8 d) :: byte)) OR
   ucast (ucast d :: byte) = (d :: u32)"
  (is "?w = d")
proof (rule bit_word_eqI)
  fix n assume "n < LENGTH(32)"
  then consider "n < 8" | "8 \<le> n" "n < 16" | "16 \<le> n" "n < 24" | "24 \<le> n" "n < 32"
    by fastforce
  then show "bit ?w n = bit d n" by cases (auto simp: bit_simps)
qed

lemma LOAD32L_bytes:
  "ucast (LOAD32L y p) = y ! p" "ucast (drop_bit 8 (LOAD32L y p)) = y ! (p + 1)"
  "ucast (drop_bit 16 (LOAD32L y p)) = y ! (p + 2)" "ucast (drop_bit 24 (LOAD32L y p)) = y ! (p + 3)"
  unfolding LOAD32L_def by (rule bytes_join32)+

lemma rec_enc32_spec:
  assumes "4 * N \<le> length out" and "j \<le> N" and "pred = (if j = 0 then 0 else LOAD32L inp (4 * (j - 1)))"
  shows "length (rec_enc32 inp N j pred out) = length out \<and>
    (\<forall>k. rec_enc32 inp N j pred out ! k =
       (if j \<le> k \<and> k < N then ucast (drop_bit 24 (rec_delta32 inp k))
        else if N + j \<le> k \<and> k < 2 * N then ucast (rec_delta32 inp (k - N))
        else if 2 * N + j \<le> k \<and> k < 3 * N then ucast (drop_bit 8 (rec_delta32 inp (k - 2 * N)))
        else if 3 * N + j \<le> k \<and> k < 4 * N then ucast (drop_bit 16 (rec_delta32 inp (k - 3 * N)))
        else out ! k))"
  using assms
proof (induction inp N j pred out rule: rec_enc32.induct)
  case (1 inp N j pred out)
  show ?case
  proof (cases "j < N")
    case False
    then have eq: "rec_enc32 inp N j pred out = out" by (simp add: rec_enc32.simps [of inp N j])
    show ?thesis unfolding eq using False "1.prems"(2) by auto
  next
    case True
    let ?d = "rec_delta32 inp j"
    let ?out = "out[j + N := ucast ?d, j + 2 * N := ucast (drop_bit 8 ?d),
      j + 3 * N := ucast (drop_bit 16 ?d), j := ucast (drop_bit 24 ?d)]"
    have d: "rec_fold32 (LOAD32L inp (4 * j) - pred) = ?d"
      using "1.prems"(3) by (simp add: rec_delta32_def)
    have "rec_enc32 inp N j pred out = rec_enc32 inp N (Suc j) (LOAD32L inp (4 * j)) ?out"
      using True by (subst rec_enc32.simps) (simp add: d Let_def ucast_low_byte)
    moreover have "length ?out = length out" by simp
    moreover note "1.IH" [OF True refl refl, unfolded d ucast_low_byte]
    ultimately have IH: "length (rec_enc32 inp N j pred out) = length out"
      "\<And>k. rec_enc32 inp N j pred out ! k =
       (if Suc j \<le> k \<and> k < N then ucast (drop_bit 24 (rec_delta32 inp k))
        else if N + Suc j \<le> k \<and> k < 2 * N then ucast (rec_delta32 inp (k - N))
        else if 2 * N + Suc j \<le> k \<and> k < 3 * N then ucast (drop_bit 8 (rec_delta32 inp (k - 2 * N)))
        else if 3 * N + Suc j \<le> k \<and> k < 4 * N then ucast (drop_bit 16 (rec_delta32 inp (k - 3 * N)))
        else ?out ! k)"
      using "1.prems"(1) True by simp_all
    have "rec_enc32 inp N j pred out ! k =
       (if j \<le> k \<and> k < N then ucast (drop_bit 24 (rec_delta32 inp k))
        else if N + j \<le> k \<and> k < 2 * N then ucast (rec_delta32 inp (k - N))
        else if 2 * N + j \<le> k \<and> k < 3 * N then ucast (drop_bit 8 (rec_delta32 inp (k - 2 * N)))
        else if 3 * N + j \<le> k \<and> k < 4 * N then ucast (drop_bit 16 (rec_delta32 inp (k - 3 * N)))
        else out ! k)" for k
    proof -
      consider "k = j" | "k = j + N" | "k = j + 2 * N" | "k = j + 3 * N"
        | "k \<noteq> j" "k \<noteq> j + N" "k \<noteq> j + 2 * N" "k \<noteq> j + 3 * N" by blast
      then show ?thesis
      proof cases
        case 5
        then have "(Suc j \<le> k) = (j \<le> k)" "(N + Suc j \<le> k) = (N + j \<le> k)"
          "(2 * N + Suc j \<le> k) = (2 * N + j \<le> k)" "(3 * N + Suc j \<le> k) = (3 * N + j \<le> k)" by auto
        with 5 show ?thesis by (simp only: IH(2) nth_list_update_neq not_sym)
      qed (use True "1.prems"(1) in \<open>simp_all add: IH(2)\<close>)
    qed
    with IH(1) show ?thesis by simp
  qed
qed

lemma rec_dec32_spec:
  assumes "4 * N \<le> length out" and "j \<le> N" and "pred = (if j = 0 then 0 else LOAD32L src (4 * (j - 1)))"
    and "\<And>k. k < N \<Longrightarrow> inp ! k = ucast (drop_bit 24 (rec_delta32 src k))"
    and "\<And>k. k < N \<Longrightarrow> inp ! (k + N) = ucast (rec_delta32 src k)"
    and "\<And>k. k < N \<Longrightarrow> inp ! (k + 2 * N) = ucast (drop_bit 8 (rec_delta32 src k))"
    and "\<And>k. k < N \<Longrightarrow> inp ! (k + 3 * N) = ucast (drop_bit 16 (rec_delta32 src k))"
  shows "length (rec_dec32 inp N j pred out) = length out \<and>
    (\<forall>k. rec_dec32 inp N j pred out ! k = (if 4 * j \<le> k \<and> k < 4 * N then src ! k else out ! k))"
  using assms
proof (induction inp N j pred out rule: rec_dec32.induct)
  case (1 inp N j pred out)
  show ?case
  proof (cases "j < N")
    case False
    then have eq: "rec_dec32 inp N j pred out = out" by (simp add: rec_dec32.simps [of inp N j])
    show ?thesis unfolding eq using False "1.prems"(2) by auto
  next
    case True
    let ?out = "out[4 * j := src ! (4 * j), 4 * j + 1 := src ! (4 * j + 1),
      4 * j + 2 := src ! (4 * j + 2), 4 * j + 3 := src ! (4 * j + 3)]"
    have d: "push_bit 8 (push_bit 8 (push_bit 8 (ucast (inp ! j)) OR ucast (inp ! (j + 3 * N))) OR
      ucast (inp ! (j + 2 * N))) OR ucast (inp ! (j + N)) = rec_delta32 src j"
      using "1.prems"(4-7) [OF True] by (simp only: join32)
    have c: "rec_unfold32 (rec_delta32 src j) + pred = LOAD32L src (4 * j)"
      using "1.prems"(3) rec_unfold_delta(2) [of src j] by simp
    have "rec_dec32 inp N j pred out = rec_dec32 inp N (Suc j) (LOAD32L src (4 * j)) ?out"
      using True by (subst rec_dec32.simps) (simp only: d c LOAD32L_bytes Let_def if_True)
    moreover note "1.IH" [OF True refl refl refl refl refl, unfolded d c LOAD32L_bytes]
    ultimately show ?thesis
      using "1.prems" True by (auto simp: nth_list_update less_Suc_eq_le)
  qed
qed

section \<open>The bytes behind the last record\<close>

lemma rec_tail_enc_spec:
  assumes "p + pl = i" and "n \<le> length out"
  shows "length (rec_tail_enc inp n pl i p out) = length out \<and>
    (\<forall>k. rec_tail_enc inp n pl i p out ! k = (if i \<le> k \<and> k < n then inp ! k else out ! k))"
  using assms
proof (induction inp n pl i p out rule: rec_tail_enc.induct)
  case (1 inp n pl i p out)
  then show ?case
    by (cases "i < n") (auto simp: rec_tail_enc.simps [of inp n pl i p out] nth_list_update)
qed

lemma rec_tail_dec_spec:
  assumes "p + pl = i" and "n \<le> length out"
  shows "length (rec_tail_dec inp n pl i p out) = length out \<and>
    (\<forall>k. rec_tail_dec inp n pl i p out ! k = (if i \<le> k \<and> k < n then inp ! k else out ! k))"
  using assms
proof (induction inp n pl i p out rule: rec_tail_dec.induct)
  case (1 inp n pl i p out)
  then show ?case
    by (cases "i < n") (auto simp: rec_tail_dec.simps [of inp n pl i p out] nth_list_update)
qed

section \<open>The whole filter\<close>

lemma rec_gather_length [lengths]:
  "0 < s \<Longrightarrow> length (rec_gather inp n s i) = (n - i + (s - 1)) div s"
proof (induction inp n s i rule: rec_gather.induct)
  case (1 inp n s i)
  consider "n \<le> i" | "i < n" "n \<le> i + s" | "i + s < n" by linarith
  then show ?case
  proof cases
    case 1
    with "1.prems" show ?thesis by (simp add: rec_gather.simps [of inp n s i])
  next
    case 2
    then have "(n - i + (s - 1)) div s = 1"
      using "1.prems" by (intro div_nat_eqI) auto
    with 2 "1.IH" "1.prems" show ?thesis by (simp add: rec_gather.simps [of inp n s i])
  next
    case 3
    then have eq: "n - i + (s - 1) = (n - (i + s) + (s - 1)) + s" by simp
    have "(n - i + (s - 1)) div s = Suc ((n - (i + s) + (s - 1)) div s)"
      unfolding eq using "1.prems" by (subst div_add_self2) (simp_all only: Suc_eq_plus1 neq0_conv)
    then show ?thesis
      using 3 "1.IH" "1.prems" by (subst rec_gather.simps) (simp del: One_nat_def)
  qed
qed

lemma rec_gather_length_low: "i < s \<Longrightarrow> length (rec_gather inp n s i) = (n + (s - 1) - i) div s"
  by (cases "i \<le> n") (simp_all add: rec_gather_length)

lemma rec_gather_total:
  "length (rec_gather inp n 2 0) + length (rec_gather inp n 2 1) = n"
  "length (rec_gather inp n 4 0) + (length (rec_gather inp n 4 1) +
   (length (rec_gather inp n 4 2) + length (rec_gather inp n 4 3))) = n"
proof -
  have "(n + 1) div 2 + n div 2 = n" by presburger
  then show "length (rec_gather inp n 2 0) + length (rec_gather inp n 2 1) = n"
    by (simp add: rec_gather_length_low)
  have "n = n mod 4 + 4 * (n div 4)" "n mod 4 < 4" by simp_all
  then obtain r q where n: "n = r + 4 * q" "r < 4" by blast
  then consider "r = 0" | "r = 1" | "r = 2" | "r = 3" by linarith
  then have "(n + 3) div 4 + ((n + 2) div 4 + ((n + 1) div 4 + n div 4)) = n"
    by cases (simp_all add: n(1))
  then show "length (rec_gather inp n 4 0) + (length (rec_gather inp n 4 1) +
   (length (rec_gather inp n 4 2) + length (rec_gather inp n 4 3))) = n"
    by (simp add: rec_gather_length_low)
qed

lemma rec_roundtrip_mode12:
  assumes "length inp = n" and "n \<le> length buf" and "length out = n" and "m = 1 \<or> m = 2"
  shows "GRZip_Rec_Decode (GRZip_Rec_Encode inp n buf m) n out m = inp"
proof -
  let ?g = "rec_gather inp n"
  note sc = rec_scatter_gather [OF _ assms(1)]
  have mode1: "GRZip_Rec_Decode (GRZip_Rec_Encode inp n buf 1) n out 1 = inp"
  proof -
    let ?rest = "drop n buf"
    obtain o0 where o0: "rec_scatter n 2 0 (?g 2 0 @ ?g 2 1 @ ?rest) out = (?g 2 1 @ ?rest, o0)" "length o0 = n"
      "\<forall>k < n. o0 ! k = (if 0 \<le> k \<and> (k - 0) mod 2 = 0 then inp ! k else out ! k)"
      using sc [of 2 out 0 "?g 2 1 @ ?rest"] assms(3) by auto
    obtain o1 where o1: "rec_scatter n 2 1 (?g 2 1 @ ?rest) o0 = (?rest, o1)" "length o1 = n"
      "\<forall>k < n. o1 ! k = (if 1 \<le> k \<and> (k - 1) mod 2 = 0 then inp ! k else o0 ! k)"
      using sc [of 2 o0 1 ?rest] o0(2) by auto
    have "o1 ! k = inp ! k" if "k < n" for k
      using that o0(3) o1(3) by (cases k) (auto simp: mod_Suc)
    then have "o1 = inp" using o1(2) assms(1) by (simp add: nth_equalityI)
    then show ?thesis
      using o0(1) o1(1) rec_gather_total(1) [of inp n]
      by (simp add: GRZip_Rec_Encode_def GRZip_Rec_Decode_def Let_def)
  qed
  have mode2: "GRZip_Rec_Decode (GRZip_Rec_Encode inp n buf 2) n out 2 = inp"
  proof -
    let ?rest = "drop n buf"
    obtain o0 where o0: "rec_scatter n 4 0 (?g 4 0 @ ?g 4 1 @ ?g 4 2 @ ?g 4 3 @ ?rest) out = (?g 4 1 @ ?g 4 2 @ ?g 4 3 @ ?rest, o0)"
      "length o0 = n" "\<forall>k < n. o0 ! k = (if 0 \<le> k \<and> (k - 0) mod 4 = 0 then inp ! k else out ! k)"
      using sc [of 4 out 0 "?g 4 1 @ ?g 4 2 @ ?g 4 3 @ ?rest"] assms(3) by auto
    obtain o1 where o1: "rec_scatter n 4 1 (?g 4 1 @ ?g 4 2 @ ?g 4 3 @ ?rest) o0 = (?g 4 2 @ ?g 4 3 @ ?rest, o1)"
      "length o1 = n" "\<forall>k < n. o1 ! k = (if 1 \<le> k \<and> (k - 1) mod 4 = 0 then inp ! k else o0 ! k)"
      using sc [of 4 o0 1 "?g 4 2 @ ?g 4 3 @ ?rest"] o0(2) by auto
    obtain o2 where o2: "rec_scatter n 4 2 (?g 4 2 @ ?g 4 3 @ ?rest) o1 = (?g 4 3 @ ?rest, o2)"
      "length o2 = n" "\<forall>k < n. o2 ! k = (if 2 \<le> k \<and> (k - 2) mod 4 = 0 then inp ! k else o1 ! k)"
      using sc [of 4 o1 2 "?g 4 3 @ ?rest"] o1(2) by auto
    obtain o3 where o3: "rec_scatter n 4 3 (?g 4 3 @ ?rest) o2 = (?rest, o3)"
      "length o3 = n" "\<forall>k < n. o3 ! k = (if 3 \<le> k \<and> (k - 3) mod 4 = 0 then inp ! k else o2 ! k)"
      using sc [of 4 o2 3 ?rest] o2(2) by auto
    have "o3 ! k = inp ! k" if "k < n" for k
    proof -
      have "k mod 4 = 0 \<or> (1 \<le> k \<and> (k - 1) mod 4 = 0) \<or> (2 \<le> k \<and> (k - 2) mod 4 = 0) \<or> (3 \<le> k \<and> (k - 3) mod 4 = 0)"
        by presburger
      with that o0(3) o1(3) o2(3) o3(3) show ?thesis by auto
    qed
    then have "o3 = inp" using o3(2) assms(1) by (simp add: nth_equalityI)
    then show ?thesis
      using o0(1) o1(1) o2(1) o3(1) rec_gather_total(2) [of inp n]
      by (simp add: GRZip_Rec_Encode_def GRZip_Rec_Decode_def Let_def)
  qed
  from assms(4) mode1 mode2 show ?thesis by auto
qed

lemma rec_roundtrip_mode3:
  assumes "length inp = n" and "n \<le> length buf" and "length out = n"
  shows "GRZip_Rec_Decode (GRZip_Rec_Encode inp n buf 3) n out 3 = inp"
proof -
  let ?N = "n div 2"
  let ?planes = "rec_enc16 inp ?N 0 0 buf"
  let ?e = "rec_tail_enc inp n ?N (2 * ?N) ?N ?planes"
  let ?recs = "rec_dec16 ?e ?N 0 0 out"
  let ?d = "rec_tail_dec ?e n ?N (2 * ?N) ?N ?recs"
  have le: "2 * ?N \<le> n" by simp
  note e0 = rec_enc16_spec [of ?N buf 0 0 inp]
  note e = rec_tail_enc_spec [of ?N ?N "2 * ?N" n ?planes inp]
  have ek: "?e ! k = ucast (drop_bit 8 (rec_delta16 inp k))" "?e ! (k + ?N) = ucast (rec_delta16 inp k)" if "k < ?N" for k
    using e0 e that assms(2) le by auto
  have d0: "length ?recs = n" "\<And>k. ?recs ! k = (if k < 2 * ?N then inp ! k else out ! k)"
    using rec_dec16_spec [of ?N out 0 0 inp ?e] ek assms(3) le by auto
  have "length ?d = n" "\<And>k. k < n \<Longrightarrow> ?d ! k = inp ! k"
    using rec_tail_dec_spec [of ?N ?N "2 * ?N" n ?recs ?e] d0 e e0 assms(2) le by auto
  then have "?d = inp" using assms(1) by (simp add: nth_equalityI)
  then show ?thesis by (simp add: GRZip_Rec_Encode_def GRZip_Rec_Decode_def Let_def)
qed

lemma rec_roundtrip_mode4:
  assumes "length inp = n" and "n \<le> length buf" and "length out = n"
  shows "GRZip_Rec_Decode (GRZip_Rec_Encode inp n buf 4) n out 4 = inp"
proof -
  let ?N = "n div 4"
  let ?planes = "rec_enc32 inp ?N 0 0 buf"
  let ?e = "rec_tail_enc inp n (3 * ?N) (4 * ?N) ?N ?planes"
  let ?recs = "rec_dec32 ?e ?N 0 0 out"
  let ?d = "rec_tail_dec ?e n (3 * ?N) (4 * ?N) ?N ?recs"
  have le: "4 * ?N \<le> n" by simp
  note e0 = rec_enc32_spec [of ?N buf 0 0 inp]
  note e = rec_tail_enc_spec [of ?N "3 * ?N" "4 * ?N" n ?planes inp]
  have ek: "?e ! k = ucast (drop_bit 24 (rec_delta32 inp k))" "?e ! (k + ?N) = ucast (rec_delta32 inp k)"
    "?e ! (k + 2 * ?N) = ucast (drop_bit 8 (rec_delta32 inp k))"
    "?e ! (k + 3 * ?N) = ucast (drop_bit 16 (rec_delta32 inp k))" if "k < ?N" for k
    using e0 e that assms(2) le by simp_all
  have d0: "length ?recs = n" "\<And>k. ?recs ! k = (if k < 4 * ?N then inp ! k else out ! k)"
    using rec_dec32_spec [of ?N out 0 0 inp ?e] ek assms(3) le by auto
  have "length ?d = n" "\<And>k. k < n \<Longrightarrow> ?d ! k = inp ! k"
    using rec_tail_dec_spec [of ?N "3 * ?N" "4 * ?N" n ?recs ?e] d0 e e0 assms(2) le by auto
  then have "?d = inp" using assms(1) by (simp add: nth_equalityI)
  then show ?thesis by (simp add: GRZip_Rec_Encode_def GRZip_Rec_Decode_def Let_def)
qed

text \<open>What the filter writes does not depend on what the buffer held, and fills exactly the block.\<close>

lemma rec_encode_written:
  assumes "n \<le> length buf" and "1 \<le> m" and "m \<le> 4"
  shows "length (GRZip_Rec_Encode inp n (replicate n 0) m) = n"
    and "GRZip_Rec_Encode inp n buf m = GRZip_Rec_Encode inp n (replicate n 0) m @ drop n buf"
proof -
  have w: "\<exists>f. \<forall>b. n \<le> length b \<longrightarrow> length (GRZip_Rec_Encode inp n b m) = length b \<and>
      (\<forall>k < length b. GRZip_Rec_Encode inp n b m ! k = (if k < n then f k else b ! k))"
  proof -
    consider "m = 1" | "m = 2" | "m = 3" | "m = 4"
      using assms(2,3) by linarith
    then show ?thesis
    proof cases
      case 1
      define w where "w = rec_gather inp n 2 0 @ rec_gather inp n 2 1"
      then have len: "length w = n"
        using rec_gather_total(1) by simp
      have "GRZip_Rec_Encode inp n b m = w @ drop (length w) b" for b
        unfolding 1 w_def by (simp add: GRZip_Rec_Encode_def Let_def)
      then show ?thesis
        by (intro exI [of _ "(!) w"]) (simp add: len nth_append)
    next
      case 2
      define w where "w = rec_gather inp n 4 0 @ rec_gather inp n 4 1 @ rec_gather inp n 4 2 @ rec_gather inp n 4 3"
      then have len: "length w = n"
        using rec_gather_total(2) by simp
      have "GRZip_Rec_Encode inp n b m = w @ drop (length w) b" for b
        unfolding 2 w_def by (simp add: GRZip_Rec_Encode_def Let_def)
      then show ?thesis
        by (intro exI [of _ "(!) w"]) (simp add: len nth_append)
    next
      case 3
      define N where "N = n div 2"
      define f where "f k = (if 2 * N \<le> k then inp ! k else if k < N then ucast (drop_bit 8 (rec_delta16 inp k))
        else ucast (rec_delta16 inp (k - N)))" for k
      have N: "2 * N \<le> n"
        by (simp add: N_def)
      have "length (GRZip_Rec_Encode inp n b m) = length b \<and> (\<forall>k. GRZip_Rec_Encode inp n b m ! k = (if k < n then f k else b ! k))"
        if b: "n \<le> length b" for b
      proof -
        define e where "e = rec_enc16 inp N 0 0 b"
        have e: "length e = length b" "\<And>k. e ! k = (if k < 2 * N then f k else b ! k)"
          using rec_enc16_spec [of N b 0 0 inp] N b unfolding e_def f_def by auto
        have "GRZip_Rec_Encode inp n b m = rec_tail_enc inp n N (2 * N) N e"
          unfolding 3 N_def e_def by (simp add: GRZip_Rec_Encode_def Let_def)
        then have t: "length (GRZip_Rec_Encode inp n b m) = length b"
          "\<And>k. GRZip_Rec_Encode inp n b m ! k = (if 2 * N \<le> k \<and> k < n then inp ! k else e ! k)"
          using rec_tail_enc_spec [of N "N" "2 * N" n e inp] e(1) b by simp_all
        have "GRZip_Rec_Encode inp n b m ! k = (if k < n then f k else b ! k)" for k
          using N unfolding t(2) e(2) by (auto simp: f_def)
        then show ?thesis
          using t(1) by simp
      qed
      then show ?thesis
        by blast
    next
      case 4
      define N where "N = n div 4"
      define f where "f k = (if 4 * N \<le> k then inp ! k else if k < N then ucast (drop_bit 24 (rec_delta32 inp k))
        else if k < 2 * N then ucast (rec_delta32 inp (k - N))
        else if k < 3 * N then ucast (drop_bit 8 (rec_delta32 inp (k - 2 * N)))
        else ucast (drop_bit 16 (rec_delta32 inp (k - 3 * N))))" for k
      have N: "4 * N \<le> n"
        by (simp add: N_def)
      have "length (GRZip_Rec_Encode inp n b m) = length b \<and> (\<forall>k. GRZip_Rec_Encode inp n b m ! k = (if k < n then f k else b ! k))"
        if b: "n \<le> length b" for b
      proof -
        define e where "e = rec_enc32 inp N 0 0 b"
        have e: "length e = length b" "\<And>k. e ! k = (if k < 4 * N then f k else b ! k)"
          using rec_enc32_spec [of N b 0 0 inp] N b unfolding e_def f_def by auto
        have "GRZip_Rec_Encode inp n b m = rec_tail_enc inp n (3 * N) (4 * N) N e"
          unfolding 4 N_def e_def by (simp add: GRZip_Rec_Encode_def Let_def)
        then have t: "length (GRZip_Rec_Encode inp n b m) = length b"
          "\<And>k. GRZip_Rec_Encode inp n b m ! k = (if 4 * N \<le> k \<and> k < n then inp ! k else e ! k)"
          using rec_tail_enc_spec [of N "(3 * N)" "4 * N" n e inp] e(1) b by simp_all
        have "GRZip_Rec_Encode inp n b m ! k = (if k < n then f k else b ! k)" for k
          using N unfolding t(2) e(2) by (auto simp: f_def)
        then show ?thesis
          using t(1) by simp
      qed
      then show ?thesis
        by blast
    qed
  qed
  then obtain f where f: "\<And>b. n \<le> length b \<Longrightarrow> length (GRZip_Rec_Encode inp n b m) = length b"
    "\<And>b k. n \<le> length b \<Longrightarrow> k < length b \<Longrightarrow> GRZip_Rec_Encode inp n b m ! k = (if k < n then f k else b ! k)"
    by blast
  show "length (GRZip_Rec_Encode inp n (replicate n 0) m) = n"
    using f(1) [of "replicate n 0"] by simp
  then show "GRZip_Rec_Encode inp n buf m = GRZip_Rec_Encode inp n (replicate n 0) m @ drop n buf"
    using assms(1) f(1) [OF assms(1)] f(2) [OF assms(1)] f(2) [of "replicate n 0"] by (intro nth_equalityI) (simp_all add: nth_append)
qed

section \<open>Properties\<close>

lemma rec_filter_decodes:
  assumes "length inp = Size" and "Size \<le> length buf" and "length out = Size"
    and "1 \<le> Mode" and "Mode \<le> 4"
  shows "GRZip_Rec_Decode (GRZip_Rec_Encode inp Size buf Mode) Size out Mode = inp"
proof -
  from assms(4,5) consider "Mode = 1 \<or> Mode = 2" | "Mode = 3" | "Mode = 4" by linarith
  then show ?thesis
  proof cases
    case 1
    with assms(1-3) show ?thesis by (rule rec_roundtrip_mode12)
  qed (simp_all only: rec_roundtrip_mode3 [OF assms(1-3)] rec_roundtrip_mode4 [OF assms(1-3)])
qed

text \<open>
  C35: for each of the four modes the test can choose, decoding what the filter wrote restores
  the block, for every block size (full records or not) and whatever the buffers held before.
\<close>

theorem rec_filter_roundtrip:
  assumes "length inp = Size" and "Size \<le> length buf" and "length out = Size"
    and "1 \<le> Mode" and "Mode \<le> 4"
  shows "GRZip_Rec_Decode (GRZip_Rec_Encode inp Size buf Mode) Size out Mode = inp"
  using assms by (rule rec_filter_decodes)

theorem rec_filter_roundtrip_witness:
  "GRZip_Rec_Encode [1, 0, 3, 0, 2, 0, 9] 7 (replicate 9 0) 3 = [0, 0, 0, 2, 4, 1, 9, 0, 0] \<and>
   GRZip_Rec_Decode [0, 0, 0, 2, 4, 1, 9, 0, 0] 7 (replicate 7 0) 3 = [1, 0, 3, 0, 2, 0, 9]"
proof -
  have e: "GRZip_Rec_Encode [1, 0, 3, 0, 2, 0, 9] 7 (replicate 9 0) 3 = [0, 0, 0, 2, 4, 1, 9, 0, 0]"
    by code_simp
  have "GRZip_Rec_Decode (GRZip_Rec_Encode [1, 0, 3, 0, 2, 0, 9] 7 (replicate 9 0) 3) 7 (replicate 7 0) 3
    = [1, 0, 3, 0, 2, 0, 9]"
    by (rule rec_filter_roundtrip) simp_all
  with e show ?thesis by (simp only: simp_thms)
qed

end
