(* ===== verification/Grz_Counting.thy ===== *)
theory Grz_Counting
  imports Prelude "HOL-Library.Multiset"
begin

text \<open>
  Sorting by counting, as the passes of \<^verbatim>\<open>GRZip/ST4.c\<close> do it: the occurrences of every key are
  counted, the counts become the starts of the groups, and every element is put at the place its group
  has reached, from the front or from the back.  Both directions give the stable sort of the list.
\<close>

section \<open>The passes\<close>

text \<open>Turning the counts into starts: \<^verbatim>\<open>W+=Counter[i],Counter[i]=W-Counter[i]\<close>.\<close>

fun group_starts :: "nat \<Rightarrow> nat list \<Rightarrow> nat list" where
  "group_starts W [] = []"
| "group_starts W (c # Counter) = W # group_starts (W + c) Counter"

text \<open>Putting an element at \<^verbatim>\<open>Counter[key]++\<close> and at \<^verbatim>\<open>--Counter[key]\<close>.\<close>

definition place_up :: "('a \<Rightarrow> nat) \<Rightarrow> ('a \<Rightarrow> 'b) \<Rightarrow> 'a \<Rightarrow> nat list \<times> 'b list \<Rightarrow> nat list \<times> 'b list" where
  "place_up key val y = (\<lambda>(Counter, Out).
     (Counter[key y := Counter ! key y + 1], Out[Counter ! key y := val y]))"

definition place_down :: "('a \<Rightarrow> nat) \<Rightarrow> ('a \<Rightarrow> 'b) \<Rightarrow> 'a \<Rightarrow> nat list \<times> 'b list \<Rightarrow> nat list \<times> 'b list" where
  "place_down key val y = (\<lambda>(Counter, Out).
     let p = Counter ! key y - 1 in (Counter[key y := p], Out[p := val y]))"

lemma place_simps:
  "place_up key val y (C, out) = (C[key y := C ! key y + 1], out[C ! key y := val y])"
  "place_down key val y (C, out) = (C[key y := C ! key y - 1], out[C ! key y - 1 := val y])"
  by (simp_all add: place_up_def place_down_def Let_def)

section \<open>Where the stable sort puts an element\<close>

definition lower :: "('a \<Rightarrow> nat) \<Rightarrow> nat \<Rightarrow> 'a list \<Rightarrow> nat" where
  "lower f k xs = length (filter (\<lambda>y. f y < k) xs)"

definition same :: "('a \<Rightarrow> nat) \<Rightarrow> nat \<Rightarrow> 'a list \<Rightarrow> nat" where
  "same f k xs = length (filter (\<lambda>y. f y = k) xs)"

definition sort_pos :: "('a \<Rightarrow> nat) \<Rightarrow> 'a list \<Rightarrow> nat \<Rightarrow> nat" where
  "sort_pos f xs i = lower f (f (xs ! i)) xs + same f (f (xs ! i)) (take i xs)"

lemma lower_simps [simp]:
  "lower f k [] = 0" "lower f k (x # xs) = of_bool (f x < k) + lower f k xs" "lower f k (xs @ ys) = lower f k xs + lower f k ys"
  by (simp_all add: lower_def)

lemma same_simps [simp]:
  "same f k [] = 0" "same f k (x # xs) = of_bool (f x = k) + same f k xs" "same f k (xs @ ys) = same f k xs + same f k ys"
  by (simp_all add: same_def)

lemma lower_Suc: "lower f (Suc k) xs = lower f k xs + same f k xs"
  by (induction xs) auto

lemma lower_mono: "k \<le> l \<Longrightarrow> lower f k xs \<le> lower f l xs"
  by (induction xs) auto

lemma same_take_less: "i < j \<Longrightarrow> j \<le> length xs \<Longrightarrow> f (xs ! i) = k \<Longrightarrow> same f k (take i xs) < same f k (take j xs)"
proof -
  assume "i < j" "j \<le> length xs" "f (xs ! i) = k"
  then have "take j xs = take i xs @ xs ! i # drop (Suc i) (take j xs)"
    using id_take_nth_drop [of i "take j xs"] by (simp add: min_absorb1)
  then have "same f k (take j xs) = same f k (take i xs @ xs ! i # drop (Suc i) (take j xs))"
    by (rule arg_cong)
  then show ?thesis
    using \<open>f (xs ! i) = k\<close> by simp
qed

lemma sort_pos_less:
  assumes "f (xs ! i) < f (xs ! j) \<or> f (xs ! i) = f (xs ! j) \<and> i < j" "i < length xs" "j < length xs"
  shows "sort_pos f xs i < sort_pos f xs j"
proof (cases "f (xs ! i) = f (xs ! j)")
  case True
  then show ?thesis
    using assms same_take_less [of i j xs f] by (simp add: sort_pos_def)
next
  case False
  have "sort_pos f xs i < lower f (f (xs ! i)) xs + same f (f (xs ! i)) xs"
    using same_take_less [of i "length xs" xs f] assms(2) by (simp add: sort_pos_def)
  also have "\<dots> \<le> lower f (f (xs ! j)) xs"
    using False assms(1) lower_mono [of "Suc (f (xs ! i))" "f (xs ! j)" f xs] by (simp add: lower_Suc)
  finally show ?thesis
    by (simp add: sort_pos_def)
qed

lemma sort_pos_eq_iff: "i < length xs \<Longrightarrow> j < length xs \<Longrightarrow> sort_pos f xs i = sort_pos f xs j \<longleftrightarrow> i = j"
  using sort_pos_less [of f xs i j] sort_pos_less [of f xs j i] by (metis less_irrefl linorder_neqE_nat)

lemma insort_key_while: "insort_key f x ys = takeWhile (\<lambda>y. f y < f x) ys @ x # dropWhile (\<lambda>y. f y < f x) ys"
  by (induction ys) auto

lemma sorted_filter_below: "sorted (map f ys) \<Longrightarrow> filter (\<lambda>y. f y < k) ys = takeWhile (\<lambda>y. f y < k) ys"
  for f :: "'a \<Rightarrow> nat"
proof (induction ys)
  case (Cons y ys)
  show ?case
  proof (cases "f y < k")
    case False
    then have "filter (\<lambda>y. f y < k) ys = []"
      using Cons.prems by (auto simp: filter_empty_conv)
    then show ?thesis
      using False by simp
  qed (use Cons in simp)
qed simp

lemma lower_sort [simp]: "lower f k (sort_key f xs) = lower f k xs"
  unfolding lower_def by (metis length_sort filter_sort)

lemma sorted_nth_below:
  assumes "sorted (map f ys)" "r < length ys"
  shows "f (ys ! r) < k \<longleftrightarrow> r < lower f k ys"
proof -
  have t: "lower f k ys = length (takeWhile (\<lambda>y. f y < k) ys)"
    by (simp add: lower_def sorted_filter_below [OF assms(1)])
  show ?thesis
  proof
    assume "r < lower f k ys"
    then show "f (ys ! r) < k"
      unfolding t by (metis nth_mem set_takeWhileD takeWhile_nth)
  next
    assume *: "f (ys ! r) < k"
    show "r < lower f k ys"
    proof (rule ccontr)
      assume "\<not> r < lower f k ys"
      then have "lower f k ys \<le> r" "lower f k ys < length ys"
        using assms(2) by simp_all
      then have "f (ys ! lower f k ys) \<le> f (ys ! r)"
        using sorted_nth_mono [OF assms(1), of "lower f k ys" r] assms(2) by simp
      then show False
        using * nth_length_takeWhile [of "\<lambda>y. f y < k" ys] \<open>lower f k ys < length ys\<close> t by simp
    qed
  qed
qed

lemma sort_key_pos:
  "i < length xs \<Longrightarrow> sort_pos f xs i < length xs \<and> sort_key f xs ! sort_pos f xs i = xs ! i"
proof (induction xs arbitrary: i)
  case (Cons x xs)
  let ?ys = "sort_key f xs"
  let ?m = "lower f (f x) xs"
  have t: "length (takeWhile (\<lambda>y. f y < f x) ?ys) = ?m"
    using sorted_filter_below [of f ?ys "f x"] lower_sort [of f "f x" xs] by (simp add: lower_def)
  have ins: "sort_key f (x # xs) = takeWhile (\<lambda>y. f y < f x) ?ys @ x # dropWhile (\<lambda>y. f y < f x) ?ys"
    by (simp add: insort_key_while)
  show ?case
  proof (cases i)
    case 0
    have "?m \<le> length xs"
      by (simp add: lower_def)
    then show ?thesis
      unfolding ins using 0 t by (simp add: sort_pos_def nth_append)
  next
    case (Suc j)
    let ?p = "sort_pos f xs j"
    have IH: "?p < length xs" "?ys ! ?p = xs ! j"
      using Cons.IH [of j] Cons.prems Suc by simp_all
    have p: "sort_pos f (x # xs) i = ?p + of_bool (f x \<le> f (xs ! j))"
      by (auto simp: sort_pos_def Suc)
    have below: "f (xs ! j) < f x \<longleftrightarrow> ?p < ?m"
      using sorted_nth_below [of f ?ys ?p "f x"] IH by simp
    show ?thesis
    proof (cases "?p < ?m")
      case True
      then show ?thesis
        unfolding ins p using t IH below Suc by (simp add: nth_append takeWhile_nth)
    next
      case False
      have "dropWhile (\<lambda>y. f y < f x) ?ys ! (?p - ?m) = ?ys ! ?p"
        using False t by (metis add_diff_inverse_nat dropWhile_eq_drop nth_drop IH(1) length_sort less_imp_le t takeWhile_dropWhile_id length_append le_add1)
      then show ?thesis
        unfolding ins p using False t IH below Suc by (auto simp: nth_append Suc_diff_le not_less)
    qed
  qed
qed simp

lemma sort_pos_onto:
  assumes "r < length xs"
  obtains i where "i < length xs" "sort_pos f xs i = r"
proof -
  have "inj_on (sort_pos f xs) {..<length xs}"
    by (auto simp: inj_on_def sort_pos_eq_iff)
  moreover have "sort_pos f xs ` {..<length xs} \<subseteq> {..<length xs}"
    using sort_key_pos by auto
  ultimately have "sort_pos f xs ` {..<length xs} = {..<length xs}"
    by (intro endo_inj_surj) simp_all
  then show thesis
    using assms that by (metis imageE lessThan_iff)
qed

lemma sorted_by_pos:
  assumes "length out = length xs" "\<And>i. i < length xs \<Longrightarrow> out ! sort_pos f xs i = val (xs ! i)"
  shows "out = map val (sort_key f xs)"
proof (rule nth_equalityI)
  fix r
  assume "r < length out"
  then obtain i where "i < length xs" "sort_pos f xs i = r"
    using sort_pos_onto [of r xs f] assms(1) by auto
  then show "out ! r = map val (sort_key f xs) ! r"
    using assms(2) [of i] sort_key_pos [of i xs f] by auto
qed (use assms(1) in simp)

section \<open>The passes sort\<close>

lemma group_starts_nth: "k < length C \<Longrightarrow> group_starts W C ! k = W + sum_list (take k C)"
  by (induction W C arbitrary: k rule: group_starts.induct) (auto simp: nth_Cons' take_Cons')

lemma length_group_starts [simp]: "length (group_starts W C) = length C"
  by (induction W C rule: group_starts.induct) simp_all

lemma group_starts_lower:
  assumes "\<And>k. k < length C \<Longrightarrow> C ! k = same f k xs" "k < length C"
  shows "group_starts 0 C ! k = lower f k xs"
proof -
  have "sum_list (take k C) = lower f k xs" if "k \<le> length C"
    using that
  proof (induction k)
    case 0
    show ?case
      by (induction xs) simp_all
  next
    case (Suc k)
    then show ?case
      using assms(1) [of k] by (simp add: take_Suc_conv_app_nth lower_Suc)
  qed
  then show ?thesis
    using assms(2) by (simp add: group_starts_nth)
qed

text \<open>The places reached after the first \<^verbatim>\<open>m\<close> elements.\<close>

definition reached :: "('a \<Rightarrow> nat) \<Rightarrow> 'a list \<Rightarrow> nat \<Rightarrow> nat list \<Rightarrow> bool" where
  "reached f xs m C \<longleftrightarrow> (\<forall>y \<in> set xs. f y < length C) \<and>
     (\<forall>k < length C. C ! k = lower f k xs + same f k (take m xs))"

lemma reached_pos: "reached f xs m C \<Longrightarrow> m < length xs \<Longrightarrow> C ! f (xs ! m) = sort_pos f xs m"
  by (simp add: reached_def sort_pos_def)

lemma reached_Suc:
  assumes "reached f xs m C" "m < length xs"
  shows "reached f xs (Suc m) (C[f (xs ! m) := Suc (C ! f (xs ! m))])"
  using assms by (auto simp: reached_def take_Suc_conv_app_nth nth_list_update)

lemma reached_down:
  assumes "reached f xs (Suc m) C" "m < length xs"
  shows "C ! f (xs ! m) - 1 = sort_pos f xs m" "reached f xs m (C[f (xs ! m) := sort_pos f xs m])"
proof -
  have "C ! f (xs ! m) = Suc (sort_pos f xs m)"
    using assms by (auto simp: reached_def take_Suc_conv_app_nth sort_pos_def)
  then show "C ! f (xs ! m) - 1 = sort_pos f xs m"
    by simp
  have "C ! k = lower f k xs + same f k (take m xs)" if "k \<noteq> f (xs ! m)" "k < length C" for k
    using assms that by (auto simp: reached_def take_Suc_conv_app_nth)
  moreover have "sort_pos f xs m = lower f (f (xs ! m)) xs + same f (f (xs ! m)) (take m xs)"
    by (simp add: sort_pos_def)
  ultimately have "C[f (xs ! m) := sort_pos f xs m] ! k = lower f k xs + same f k (take m xs)" if "k < length C" for k
    using that by (cases "k = f (xs ! m)") simp_all
  then show "reached f xs m (C[f (xs ! m) := sort_pos f xs m])"
    using assms(1) by (auto simp: reached_def)
qed

lemma place_up_take:
  assumes "reached f xs 0 C" "length out = length xs" "m \<le> length xs"
  shows "case fold (place_up f val) (take m xs) (C, out) of (C', out') \<Rightarrow>
    reached f xs m C' \<and> length C' = length C \<and> length out' = length xs \<and> (\<forall>i < m. out' ! sort_pos f xs i = val (xs ! i))"
  using assms(3)
proof (induction m)
  case (Suc m)
  obtain C' out' where st: "fold (place_up f val) (take m xs) (C, out) = (C', out')"
    by fastforce
  then have IH: "reached f xs m C'" "length C' = length C" "length out' = length xs"
      "\<forall>i < m. out' ! sort_pos f xs i = val (xs ! i)"
    using Suc by auto
  have m: "m < length xs" "sort_pos f xs m < length xs" "C' ! f (xs ! m) = sort_pos f xs m"
    using Suc.prems sort_key_pos [of m xs f] reached_pos [OF IH(1)] by simp_all
  have "out'[sort_pos f xs m := val (xs ! m)] ! sort_pos f xs i = val (xs ! i)" if "i < Suc m" for i
    using that IH(3,4) m sort_pos_eq_iff [of i xs m f] by (cases "i = m") (auto simp: nth_list_update)
  then show ?case
    using st IH m reached_Suc [OF IH(1) m(1)] by (simp add: take_Suc_conv_app_nth place_simps)
qed (use assms in simp)

lemma place_down_drop:
  assumes "reached f xs (length xs) C" "length out = length xs" "m \<le> length xs"
  shows "case fold (place_down f val) (rev (drop m xs)) (C, out) of (C', out') \<Rightarrow>
    reached f xs m C' \<and> length C' = length C \<and> length out' = length xs \<and>
    (\<forall>i < length xs. m \<le> i \<longrightarrow> out' ! sort_pos f xs i = val (xs ! i))"
  using assms(3)
proof (induction m rule: inc_induct)
  case (step m)
  obtain C' out' where st: "fold (place_down f val) (rev (drop (Suc m) xs)) (C, out) = (C', out')"
    by fastforce
  then have IH: "reached f xs (Suc m) C'" "length C' = length C" "length out' = length xs"
      "\<forall>i < length xs. Suc m \<le> i \<longrightarrow> out' ! sort_pos f xs i = val (xs ! i)"
    using step by auto
  have m: "sort_pos f xs m < length xs"
    using step(2) sort_key_pos [of m xs f] by simp
  have "out'[sort_pos f xs m := val (xs ! m)] ! sort_pos f xs i = val (xs ! i)" if "i < length xs" "m \<le> i" for i
    using that IH(3,4) m sort_pos_eq_iff [of i xs m f] step(2) by (cases "i = m") (auto simp: nth_list_update)
  then show ?case
    using st IH reached_down [OF IH(1) step(2)] step(2)
    by (simp add: Cons_nth_drop_Suc [symmetric, of m xs] place_simps del: One_nat_def)
qed (use assms in simp)

lemma place_up_sorts:
  assumes "reached f xs 0 C" "length out = length xs" "fold (place_up f val) xs (C, out) = (C', out')"
  shows "out' = map val (sort_key f xs)" "reached f xs (length xs) C'" "length C' = length C"
  using place_up_take [OF assms(1,2), of "length xs" val] assms(3) by (auto intro: sorted_by_pos)

text \<open>Sorting twice is sorting by both keys.\<close>

lemma sorted_wrt_groups:
  assumes "\<And>h. sorted_wrt Q (filter (\<lambda>y. f y = h) ys)"
  shows "sorted_wrt (\<lambda>a b. f a = f b \<longrightarrow> Q a b) ys"
  using assms
proof (induction ys)
  case (Cons y ys)
  have "sorted_wrt Q (filter (\<lambda>y. f y = h) ys)" for h
    using Cons.prems [of h] by (auto split: if_splits)
  moreover have "Q y b" if "b \<in> set ys" "f y = f b" for b
    using Cons.prems [of "f y"] that by auto
  ultimately show ?case
    using Cons.IH by auto
qed simp

lemma sort_key_twice:
  fixes f g :: "'a \<Rightarrow> nat"
  assumes "\<And>x. x \<in> set xs \<Longrightarrow> g x < N"
  shows "sort_key f (sort_key g xs) = sort_key (\<lambda>x. N * f x + g x) xs"
proof (rule sym, rule properties_for_sort_key)
  let ?k = "\<lambda>x. N * f x + g x" and ?ys = "sort_key f (sort_key g xs)"
  have k: "?k x = ?k y \<longleftrightarrow> f x = f y \<and> g x = g y" if "x \<in> set xs" "y \<in> set xs" for x y
  proof
    assume *: "?k x = ?k y"
    have "(N * f x + g x) mod N = g x" "(N * f y + g y) mod N = g y"
      using assms that by simp_all
    then have "g x = g y"
      using * by simp
    moreover have "N > 0"
      using assms that(1) by fastforce
    ultimately show "f x = f y \<and> g x = g y"
      using * by simp
  qed simp
  show "mset ?ys = mset xs"
    by simp
  show "filter (\<lambda>x. ?k l = ?k x) ?ys = filter (\<lambda>x. ?k l = ?k x) xs" if l: "l \<in> set ?ys" for l
  proof -
    have both: "filter (\<lambda>x. ?k l = ?k x) zs = filter (\<lambda>x. f x = f l) (filter (\<lambda>x. g x = g l) zs)" if "set zs = set xs" for zs
      using l that k by (auto simp: filter_filter intro!: filter_cong)
    have "filter (\<lambda>x. ?k l = ?k x) ?ys = filter (\<lambda>x. g x = g l) (filter (\<lambda>x. f x = f l) ?ys)"
      by (subst both) (simp_all add: conj_commute)
    also have "\<dots> = filter (\<lambda>x. g x = g l) (filter (\<lambda>x. f x = f l) (sort_key g xs))"
      by (simp only: sort_key_stable)
    also have "\<dots> = filter (\<lambda>x. f x = f l) (filter (\<lambda>x. g x = g l) (sort_key g xs))"
      by (simp add: conj_commute)
    also have "\<dots> = filter (\<lambda>x. f x = f l) (filter (\<lambda>x. g x = g l) xs)"
      by (simp only: sort_key_stable)
    also have "\<dots> = filter (\<lambda>x. ?k l = ?k x) xs"
      by (rule both [symmetric]) simp
    finally show ?thesis .
  qed
  have "sorted_wrt (\<lambda>a b. g a \<le> g b) (filter (\<lambda>y. f y = h) ?ys)" for h
  proof -
    have "sorted (map g (sort_key g xs))"
      by simp
    then show ?thesis
      unfolding sort_key_stable by (simp add: sorted_wrt_filter sorted_map del: sorted_sort_key)
  qed
  then have "sorted_wrt (\<lambda>a b. f a = f b \<longrightarrow> g a \<le> g b) ?ys"
    by (rule sorted_wrt_groups)
  moreover have "sorted_wrt (\<lambda>a b. f a \<le> f b) ?ys"
    using sorted_sort_key [of f "sort_key g xs"] by (simp add: sorted_map)
  ultimately have "sorted_wrt (\<lambda>a b. f a \<le> f b \<and> (f a = f b \<longrightarrow> g a \<le> g b)) ?ys"
    by (simp add: sorted_wrt_iff_nth_less)
  moreover have "?k a \<le> ?k b" if "a \<in> set ?ys" "b \<in> set ?ys" "f a \<le> f b \<and> (f a = f b \<longrightarrow> g a \<le> g b)" for a b
  proof (cases "f a = f b")
    case False
    then have "N * (f a + 1) \<le> N * f b"
      using that(3) by (intro mult_le_mono2) simp
    then show ?thesis
      using assms [of a] that(1) by simp
  qed (use that in simp)
  ultimately have "sorted_wrt (\<lambda>a b. ?k a \<le> ?k b) ?ys"
    by (rule sorted_wrt_mono_rel [rotated])
  then show "sorted (map ?k ?ys)"
    by (simp add: sorted_map)
qed

end
