(* ===== verification/Grz_Range.thy ===== *)
theory Grz_Range
  imports Grz_Codes
begin

text \<open>
  The range coder that \<^verbatim>\<open>GRZip/MTF_Ari.c\<close> and \<^verbatim>\<open>GRZip/WFC_Ari.c\<close> share word for word: the encoder with
  its delayed carry, the decoder, and the fact that the decoder retraces every step of the encoder.
  An operation is a triple of a frequency, the sum of the frequencies below it, and the total.
\<close>

type_synonym ari_op = "nat \<times> nat \<times> nat"

definition ARI_RangeTOP :: u32 where "ARI_RangeTOP = 0x1000000"

section \<open>The encoder\<close>

text \<open>
  \<^verbatim>\<open>FFNum\<close> counts the bytes 255 that wait for a carry; \<^verbatim>\<open>out\<close> holds the bytes written.  \<^verbatim>\<open>Low\<close> is never
  negative, and stays below \<^verbatim>\<open>2 ^ 33\<close>.
\<close>

record ari_encoder =
  ae_Low :: u64
  ae_FFNum :: nat
  ae_Cache :: u32
  ae_Range :: u32
  ae_out :: "byte list"

definition ari_start :: ari_encoder where
  "ari_start = \<lparr>ae_Low = 0, ae_FFNum = 0, ae_Cache = 0, ae_Range = - 1, ae_out = []\<rparr>"

definition ARI_ShiftLow :: "ari_encoder \<Rightarrow> ari_encoder" where
  "ARI_ShiftLow e =
     (let Low = ae_Low e;
          e = (if Low XOR 0xFF000000 > 0xFFFFFF then
                 e\<lparr>ae_out := ae_out e @ ucast (ucast (ae_Cache e) + drop_bit 32 Low) #
                             replicate (ae_FFNum e) (ucast (0xFF + drop_bit 32 Low)),
                   ae_FFNum := 0, ae_Cache := drop_bit 24 (ucast Low)\<rparr>
               else e\<lparr>ae_FFNum := ae_FFNum e + 1\<rparr>)
      in e\<lparr>ae_Low := ucast (push_bit 8 (ucast Low :: u32))\<rparr>)"

text \<open>An empty range would stay empty and never end the loop of the code; the encoder never gets there.\<close>

function ari_enc_norm :: "ari_encoder \<Rightarrow> ari_encoder" where
  "ari_enc_norm e =
     (if ae_Range e < ARI_RangeTOP \<and> ae_Range e \<noteq> 0 then
        ari_enc_norm ((ARI_ShiftLow e)\<lparr>ae_Range := push_bit 8 (ae_Range e)\<rparr>)
      else e)"
  by pat_completeness auto

lemma unat_push_bit_8:
  assumes "(x :: u32) < ARI_RangeTOP"
  shows "unat (push_bit 8 x) = 256 * unat x"
proof -
  have "unat x < 2 ^ 24"
    using assms by (simp add: word_less_nat_alt ARI_RangeTOP_def)
  then show ?thesis
    by (simp add: push_bit_eq_mult unat_word_ariths)
qed

termination ari_enc_norm
proof (relation "measure (\<lambda>e. 2 ^ 32 - unat (ae_Range e))")
  fix e :: ari_encoder
  assume a: "ae_Range e < ARI_RangeTOP \<and> ae_Range e \<noteq> 0"
  then have "0 < unat (ae_Range e)" "unat (ae_Range e) < 2 ^ 24"
    by (simp_all add: word_less_nat_alt ARI_RangeTOP_def unat_gt_0)
  then show "((ARI_ShiftLow e)\<lparr>ae_Range := push_bit 8 (ae_Range e)\<rparr>, e) \<in> measure (\<lambda>e. 2 ^ 32 - unat (ae_Range e))"
    using a unat_push_bit_8 [of "ae_Range e"] by simp
qed simp

declare ari_enc_norm.simps [simp del]

fun ARI_Encode :: "ari_op \<Rightarrow> ari_encoder \<Rightarrow> ari_encoder" where
  "ARI_Encode (freq, cum, tot) e =
     (let r = ae_Range e div of_nat tot
      in ari_enc_norm (e\<lparr>ae_Low := ae_Low e + ucast (of_nat cum * r), ae_Range := r * of_nat freq\<rparr>))"

text \<open>The end of the encoders.\<close>

definition ari_flush :: "ari_encoder \<Rightarrow> byte list" where
  "ari_flush e =
     (let Range = drop_bit 1 (ae_Range e); e = e\<lparr>ae_Low := ae_Low e + ucast Range, ae_Range := Range\<rparr>
      in ae_out ((ARI_ShiftLow ^^ 5) e))"

section \<open>The decoder\<close>

text \<open>
  The code does not test for the end of its input; reading past it is the value \<^verbatim>\<open>None\<close>.  The same
  value stands for an empty range, with which the loop would go on reading.
\<close>

record ari_decoder =
  ad_ARICode :: u32
  ad_Range :: u32
  ad_in :: "byte list"

definition ari_dec_start :: "byte list \<Rightarrow> ari_decoder option" where
  "ari_dec_start inp =
     (if length inp < 5 then None
      else Some \<lparr>ad_ARICode = foldl (\<lambda>c b. push_bit 8 c OR ucast b) 0 (take 5 inp), ad_Range = - 1, ad_in = drop 5 inp\<rparr>)"

fun ari_dec_norm :: "u32 \<Rightarrow> u32 \<Rightarrow> byte list \<Rightarrow> ari_decoder option" where
  "ari_dec_norm code rng [] =
     (if rng < ARI_RangeTOP then None else Some \<lparr>ad_ARICode = code, ad_Range = rng, ad_in = []\<rparr>)"
| "ari_dec_norm code rng (b # inp) =
     (if rng < ARI_RangeTOP then ari_dec_norm (push_bit 8 code OR ucast b) (push_bit 8 rng) inp
      else Some \<lparr>ad_ARICode = code, ad_Range = rng, ad_in = b # inp\<rparr>)"

definition ARI_GetFreq :: "nat \<Rightarrow> ari_decoder \<Rightarrow> nat \<times> ari_decoder" where
  "ARI_GetFreq tot d =
     (let r = ad_Range d div of_nat tot in (unat (ad_ARICode d div r), d\<lparr>ad_Range := r\<rparr>))"

text \<open>It follows a call of \<^verbatim>\<open>ARI_GetFreq\<close>, which has divided the range by the total.\<close>

definition ARI_Decode :: "nat \<Rightarrow> nat \<Rightarrow> ari_decoder \<Rightarrow> ari_decoder option" where
  "ARI_Decode freq cum d =
     ari_dec_norm (ad_ARICode d - of_nat cum * ad_Range d) (ad_Range d * of_nat freq) (ad_in d)"

section \<open>Retracing the encoder\<close>

text \<open>
  \<^verbatim>\<open>ari_follows ops d d'\<close>: from \<^verbatim>\<open>d\<close> the decoder finds the frequency of each operation in turn inside
  the interval of the operation, and consuming them leads to \<^verbatim>\<open>d'\<close>.
\<close>

fun ari_follows :: "ari_op list \<Rightarrow> ari_decoder \<Rightarrow> ari_decoder \<Rightarrow> bool" where
  "ari_follows [] d d' \<longleftrightarrow> d = d'"
| "ari_follows ((freq, cum, tot) # ops) d d' \<longleftrightarrow>
     (case ARI_GetFreq tot d of (x, d1) \<Rightarrow>
        cum \<le> x \<and> x < cum + freq \<and>
        (case ARI_Decode freq cum d1 of None \<Rightarrow> False | Some d2 \<Rightarrow> ari_follows ops d2 d'))"

fun ari_op_ok :: "ari_op \<Rightarrow> bool" where
  "ari_op_ok (freq, cum, tot) \<longleftrightarrow> 0 < freq \<and> cum + freq \<le> tot \<and> tot \<le> 2 ^ 16"

section \<open>Intervals as numbers\<close>

text \<open>
  The bytes written, the cached byte and the waiting bytes are the digits of a number to the base
  256, \<^verbatim>\<open>ari_head\<close>; with \<^verbatim>\<open>Low\<close> below them they are the lower end \<^verbatim>\<open>ari_low\<close> of the interval.
\<close>

definition be_val :: "byte list \<Rightarrow> nat" where
  "be_val xs = foldl (\<lambda>v b. 256 * v + unat b) 0 xs"

definition ari_head :: "ari_encoder \<Rightarrow> nat" where
  "ari_head e = (be_val (ae_out e) * 256 + unat (ae_Cache e)) * 256 ^ ae_FFNum e + (256 ^ ae_FFNum e - 1)"

definition ari_low :: "ari_encoder \<Rightarrow> nat" where
  "ari_low e = ari_head e * 2 ^ 32 + unat (ae_Low e)"

definition ari_digits :: "ari_encoder \<Rightarrow> nat" where
  "ari_digits e = length (ae_out e) + 1 + ae_FFNum e"

text \<open>
  The interval of length \<^verbatim>\<open>R\<close> does not reach beyond the bytes written, so that a carry stops at the
  cached byte at the latest.
\<close>

definition ari_inv :: "ari_encoder \<Rightarrow> nat \<Rightarrow> bool" where
  "ari_inv e R \<longleftrightarrow> 0 < R \<and> unat (ae_Low e) + R \<le> 2 ^ 33 \<and> unat (ae_Cache e) < 256 \<and>
     ari_low e + R \<le> (be_val (ae_out e) + 1) * 256 * 256 ^ ae_FFNum e * 2 ^ 32"

lemma be_val_snoc: "be_val (xs @ [b]) = 256 * be_val xs + unat b"
  by (simp add: be_val_def)

lemma be_val_Nil [simp]: "be_val [] = 0"
  by (simp add: be_val_def)

lemma be_val_append: "be_val (xs @ ys) = be_val xs * 256 ^ length ys + be_val ys"
proof (induction ys rule: rev_induct)
  case (snoc y ys)
  show ?case
    unfolding append_assoc [symmetric] be_val_snoc snoc by (simp add: algebra_simps)
qed simp

lemma be_val_Cons: "be_val (x # xs) = unat x * 256 ^ length xs + be_val xs"
  using be_val_append [of "[x]" xs] by (simp add: be_val_def [of "[_]"])

lemma be_val_replicate: "be_val (replicate n b) * 255 + unat b = 256 ^ n * unat b"
proof (induction n)
  case (Suc n)
  have "be_val (replicate (Suc n) b) = be_val (replicate n b) * 256 + unat b"
    using be_val_snoc [of "replicate n b" b] by (simp add: replicate_append_same)
  then have "be_val (replicate (Suc n) b) * 255 + unat b = 256 * (be_val (replicate n b) * 255 + unat b)"
    by simp
  then show ?case
    by (simp only: Suc power_Suc mult.assoc)
qed simp

lemma be_val_replicate_ends: "be_val (replicate n 0) = 0" "be_val (replicate n 255) + 1 = 256 ^ n"
  using be_val_replicate [of n 0] be_val_replicate [of n 255] by simp_all

lemma u32_bound: "unat (x :: u32) < 2 ^ 32"
  using unsigned_less [of x] by simp

lemma byte_bound: "unat (b :: byte) < 256"
  using unsigned_less [of b] by simp

lemma be_val_bound: "be_val xs < 256 ^ length xs"
proof (induction xs rule: rev_induct)
  case (snoc x xs)
  then show ?case
    using byte_bound [of x] by (simp add: be_val_snoc)
qed simp

lemma word_xor_eq_0: "(a :: 'a::len word) XOR b = 0 \<longleftrightarrow> a = b"
  by (metis xor.assoc xor.right_neutral xor_self_eq xor.commute)

lemma unat_drop_bit: "unat (drop_bit n (x :: 'a::len word)) = unat x div 2 ^ n"
  by (simp only: unat_drop_bit_eq drop_bit_eq_div [of n "unat x"])

lemma unat_ucast_up: "unat (ucast (x :: u32) :: u64) = unat x"
proof -
  have "unat x < 2 ^ 32"
    using unsigned_less [of x] by simp
  then show ?thesis
    by (simp add: unsigned_ucast_eq take_bit_nat_eq_self)
qed

lemma unat_ucast_byte: "unat (ucast (x :: 'a::len word) :: byte) = unat x mod 256"
  by (simp add: unsigned_ucast_eq take_bit_eq_mod)

text \<open>The comparison of \<^verbatim>\<open>ARI_ShiftLow\<close> tells whether the top byte of the lower word is 255.\<close>

lemma shift_low_test: "(x :: u64) XOR 0xFF000000 > 0xFFFFFF \<longleftrightarrow> unat x div 2 ^ 24 \<noteq> 255"
proof -
  have "(y :: u64) > 0xFFFFFF \<longleftrightarrow> drop_bit 24 y \<noteq> 0" for y
  proof -
    have "y > 0xFFFFFF \<longleftrightarrow> 2 ^ 24 \<le> unat y"
      by (simp add: word_less_nat_alt Suc_le_eq [symmetric])
    also have "\<dots> \<longleftrightarrow> unat (drop_bit 24 y) \<noteq> 0"
      by (simp add: unat_drop_bit div_eq_0_iff not_less del: neq0_conv)
    finally show ?thesis
      by (simp add: unat_eq_0)
  qed
  then have "x XOR 0xFF000000 > 0xFFFFFF \<longleftrightarrow> drop_bit 24 x XOR drop_bit 24 0xFF000000 \<noteq> 0"
    by (simp add: drop_bit_xor)
  also have "\<dots> \<longleftrightarrow> drop_bit 24 x \<noteq> 255"
    using word_xor_eq_0 [of "drop_bit 24 x" "255"] by (simp add: drop_bit_eq_div [of _ "0xFF000000"])
  also have "\<dots> \<longleftrightarrow> unat (drop_bit 24 x) \<noteq> 255"
    by (simp only: word_unat_eq_iff [of "drop_bit 24 x" 255]) simp
  finally show ?thesis
    by (simp add: unat_drop_bit)
qed

text \<open>One shift moves the interval up by one digit, carry included.\<close>

lemma shift_low_unat: "unat (ae_Low (ARI_ShiftLow e)) = unat (ae_Low e) * 256 mod 2 ^ 32"
proof -
  have "unat (ae_Low (ARI_ShiftLow e)) = unat (push_bit 8 (ucast (ae_Low e) :: u32))"
    by (simp add: ARI_ShiftLow_def Let_def unat_ucast_up)
  also have "\<dots> = unat (ae_Low e) mod 2 ^ 32 * 256 mod 2 ^ 32"
    by (simp add: push_bit_eq_mult unat_word_ariths unsigned_ucast_eq take_bit_eq_mod)
  finally show ?thesis
    by (simp add: mod_mult_left_eq)
qed

lemma shift_low_digits: "ari_digits (ARI_ShiftLow e) = Suc (ari_digits e)"
  by (simp add: ari_digits_def ARI_ShiftLow_def Let_def)

lemma shift_low_Range [simp]: "ae_Range (ARI_ShiftLow e) = ae_Range e"
  by (simp add: ARI_ShiftLow_def Let_def)

lemma ari_head_Suc: "ari_head e + 1 = (be_val (ae_out e) * 256 + unat (ae_Cache e) + 1) * 256 ^ ae_FFNum e"
proof -
  have "(1 :: nat) \<le> 256 ^ ae_FFNum e"
    by simp
  then show ?thesis
    unfolding ari_head_def by (simp add: algebra_simps)
qed

text \<open>A flush: what the carry makes of the cached and the waiting bytes.\<close>

lemma shift_low_flush:
  assumes "unat (ae_Low e) div 2 ^ 24 \<noteq> 255" "unat (ae_Low e) div 2 ^ 32 = carry" "carry \<le> 1"
    "unat (ae_Cache e) + carry < 256"
  shows "be_val (ae_out (ARI_ShiftLow e)) = ari_head e + carry"
    "unat (ae_Cache (ARI_ShiftLow e)) = unat (ae_Low e) div 2 ^ 24 mod 256" "ae_FFNum (ARI_ShiftLow e) = 0"
proof -
  have d: "drop_bit 32 (ae_Low e) = of_nat carry"
    unfolding word_unat_eq_iff unat_drop_bit assms(2) using assms(3) by (auto simp: le_Suc_eq)
  define c0 :: byte where "c0 = ucast (ucast (ae_Cache e) + of_nat carry :: u64)"
  define ff :: byte where "ff = ucast (0xFF + of_nat carry :: u64)"
  have out: "ae_out (ARI_ShiftLow e) = ae_out e @ c0 # replicate (ae_FFNum e) ff"
    using assms(1) by (simp add: ARI_ShiftLow_def Let_def shift_low_test d c0_def ff_def)
  have c: "unat c0 = unat (ae_Cache e) + carry"
    using assms(3,4) by (auto simp: c0_def le_Suc_eq unat_ucast_byte unat_ucast_up unat_word_ariths)
  have "(256 :: byte) = 0"
    by code_simp
  then have wrap: "be_val (replicate n 256) = 0" for n
    by (subst \<open>256 = 0\<close>) (rule be_val_replicate_ends)
  have "be_val (replicate (ae_FFNum e) ff) + 1 + carry * 256 ^ ae_FFNum e = carry + 256 ^ ae_FFNum e"
    using assms(3) be_val_replicate_ends wrap by (auto simp: ff_def le_Suc_eq)
  moreover have "be_val (ae_out (ARI_ShiftLow e)) =
      (be_val (ae_out e) * 256 + unat (ae_Cache e) + carry) * 256 ^ ae_FFNum e + be_val (replicate (ae_FFNum e) ff)"
    by (simp add: out be_val_append be_val_Cons c algebra_simps)
  ultimately show "be_val (ae_out (ARI_ShiftLow e)) = ari_head e + carry"
    using ari_head_Suc [of e] by (simp add: algebra_simps)
  show "unat (ae_Cache (ARI_ShiftLow e)) = unat (ae_Low e) div 2 ^ 24 mod 256" "ae_FFNum (ARI_ShiftLow e) = 0"
    using assms(1) by (simp_all add: ARI_ShiftLow_def Let_def shift_low_test unat_drop_bit
      unsigned_ucast_eq take_bit_eq_mod mod_mult2_eq [of _ "2 ^ 24" 256, simplified])
qed

lemma shift_low_step:
  assumes "ari_inv e R" "R \<le> 2 ^ 24"
  shows "ari_low (ARI_ShiftLow e) = 256 * ari_low e" "ari_inv (ARI_ShiftLow e) (256 * R)"
proof -
  define L where "L = unat (ae_Low e)"
  define L' where "L' = unat (ae_Low (ARI_ShiftLow e))"
  have inv: "0 < R" "L + R \<le> 2 ^ 33" "unat (ae_Cache e) < 256"
      "ari_low e + R \<le> (be_val (ae_out e) + 1) * 256 * 256 ^ ae_FFNum e * 2 ^ 32"
    using assms(1) by (simp_all add: ari_inv_def L_def)
  have low: "ari_low e = ari_head e * 2 ^ 32 + L"
    by (simp add: ari_low_def L_def)
  have "L' = L * 256 mod 2 ^ 32"
    by (simp add: L_def L'_def shift_low_unat)
  also have "\<dots> = (L mod 2 ^ 24) * 256"
    using mod_mult_mult2 [of L 256 "2 ^ 24"] by simp
  finally have m: "L' = L mod 2 ^ 24 * 256" .
  define q where "q = L div 2 ^ 24"
  define r where "r = L mod 2 ^ 24"
  have "L = q * 2 ^ 24 + r" "r < 2 ^ 24" "L' = r * 256"
    using m by (simp_all add: q_def r_def)
  then have L': "L' + L div 2 ^ 24 * 2 ^ 32 = L * 256" "L' < 2 ^ 32"
    unfolding q_def [symmetric] by simp_all
  have "ari_head (ARI_ShiftLow e) = ari_head e * 256 + L div 2 ^ 24 \<and>
      unat (ae_Cache (ARI_ShiftLow e)) < 256 \<and>
      256 * (ari_low e + R) \<le> (be_val (ae_out (ARI_ShiftLow e)) + 1) * 256 * 256 ^ ae_FFNum (ARI_ShiftLow e) * 2 ^ 32"
  proof (cases "L div 2 ^ 24 = 255")
    case True
    have e': "ARI_ShiftLow e = e\<lparr>ae_FFNum := ae_FFNum e + 1, ae_Low := ucast (push_bit 8 (ucast (ae_Low e) :: u32))\<rparr>"
      using True by (simp add: ARI_ShiftLow_def shift_low_test L_def)
    have "ari_head (ARI_ShiftLow e) + 1 = 256 * (ari_head e + 1)"
      unfolding ari_head_Suc by (simp add: e')
    then show ?thesis
      using True inv by (simp add: e')
  next
    case False
    define carry where "carry = L div 2 ^ 32"
    have carry: "carry \<le> 1"
      using inv(1,2) by (simp add: carry_def)
    have "unat (ae_Cache e) + carry < 256"
    proof (cases "carry = 0")
      case False
      then have "(ari_head e + 1) * 2 ^ 32 \<le> ari_low e"
        by (simp add: low carry_def div_eq_0_iff)
      then have "(ari_head e + 1) * 2 ^ 32 < ((be_val (ae_out e) + 1) * 256 * 256 ^ ae_FFNum e) * 2 ^ 32"
        using inv(1,4) by linarith
      then have "ari_head e + 1 < (be_val (ae_out e) + 1) * 256 * 256 ^ ae_FFNum e"
        by (simp only: mult_less_cancel2)
      then have "be_val (ae_out e) * 256 + unat (ae_Cache e) + 1 < (be_val (ae_out e) + 1) * 256"
        unfolding ari_head_Suc by (simp only: mult_less_cancel2)
      then show ?thesis
        using carry by simp
    qed (use inv(3) in simp)
    note f = shift_low_flush [OF False [unfolded L_def] carry_def [unfolded L_def, symmetric] carry this]
    have "L + R \<le> (carry + 1) * 2 ^ 32"
    proof (cases "carry = 0")
      case True
      then have "L div 2 ^ 24 < 255"
        using False by (simp add: carry_def div_eq_0_iff)
      then show ?thesis
        using True assms(2) by simp
    qed (use carry inv(2) in simp)
    then have "ari_low e + R \<le> (ari_head e + carry + 1) * 2 ^ 32"
      by (simp add: low)
    moreover have "ari_head (ARI_ShiftLow e) = (ari_head e + carry) * 256 + L div 2 ^ 24 mod 256"
      unfolding ari_head_def [of "ARI_ShiftLow e"] f by (simp add: L_def)
    moreover have "carry * 256 + L div 2 ^ 24 mod 256 = L div 2 ^ 24"
      using div_mult_mod_eq [of "L div 2 ^ 24" 256] by (simp add: carry_def div_mult2_eq [symmetric])
    ultimately show ?thesis
      using f by simp
  qed
  then show "ari_low (ARI_ShiftLow e) = 256 * ari_low e" "ari_inv (ARI_ShiftLow e) (256 * R)"
    using L' inv(1) assms(2) by (simp_all add: ari_low_def [of "ARI_ShiftLow e"] low ari_inv_def L'_def [symmetric])
qed

section \<open>The encoder refines its intervals\<close>

definition ari_enc_ok :: "ari_encoder \<Rightarrow> bool" where
  "ari_enc_ok e \<longleftrightarrow> ari_inv e (unat (ae_Range e))"

lemma enc_ok_start: "ari_enc_ok ari_start"
  by (simp add: ari_enc_ok_def ari_inv_def ari_start_def ari_low_def ari_head_def unsigned_minus_1_eq_mask mask_eq_exp_minus_1)

text \<open>The state of a decoder that has read what the bytes \<^verbatim>\<open>B\<close> of the encoder say up to here.\<close>

definition ari_reaches :: "ari_encoder \<Rightarrow> byte list \<Rightarrow> bool" where
  "ari_reaches e B \<longleftrightarrow> ari_digits e + 4 \<le> length B \<and>
     ari_low e \<le> be_val (take (ari_digits e + 4) B) \<and>
     be_val (take (ari_digits e + 4) B) < ari_low e + unat (ae_Range e)"

definition ari_code :: "ari_encoder \<Rightarrow> byte list \<Rightarrow> nat" where
  "ari_code e B = be_val (take (ari_digits e + 4) B) - ari_low e"

definition ari_dec_at :: "ari_encoder \<Rightarrow> byte list \<Rightarrow> byte list \<Rightarrow> ari_decoder" where
  "ari_dec_at e B rest =
     \<lparr>ad_ARICode = of_nat (ari_code e B), ad_Range = ae_Range e, ad_in = drop (ari_digits e + 4) B @ rest\<rparr>"

lemma reaches_code: "ari_reaches e B \<Longrightarrow> ari_code e B < unat (ae_Range e)"
  by (auto simp: ari_reaches_def ari_code_def)

lemma reaches_code_word: "ari_reaches e B \<Longrightarrow> unat (of_nat (ari_code e B) :: u32) = ari_code e B"
  using reaches_code [of e B] u32_bound [of "ae_Range e"] by (simp add: unat_of_nat)

text \<open>One turn of the loop that moves bytes out, with the byte the decoder reads for it.\<close>

definition ari_shift :: "ari_encoder \<Rightarrow> ari_encoder" where
  "ari_shift e = (ARI_ShiftLow e)\<lparr>ae_Range := push_bit 8 (ae_Range e)\<rparr>"

lemma ari_shift_simps:
  "ae_Range (ari_shift e) = push_bit 8 (ae_Range e)" "ari_digits (ari_shift e) = Suc (ari_digits e)"
  "ari_low (ari_shift e) = ari_low (ARI_ShiftLow e)" "ari_inv (ari_shift e) R = ari_inv (ARI_ShiftLow e) R"
  using shift_low_digits [of e]
  by (simp_all add: ari_shift_def ari_digits_def ari_low_def ari_head_def ari_inv_def)

lemma shift_enc_ok:
  assumes "ari_enc_ok e" "ae_Range e < ARI_RangeTOP"
  shows "ari_enc_ok (ari_shift e)" "ari_low (ari_shift e) = 256 * ari_low e" "unat (ae_Range (ari_shift e)) = 256 * unat (ae_Range e)"
proof -
  have R: "unat (ae_Range e) \<le> 2 ^ 24"
    using assms(2) by (simp add: word_less_nat_alt ARI_RangeTOP_def)
  show 1: "unat (ae_Range (ari_shift e)) = 256 * unat (ae_Range e)"
    using unat_push_bit_8 [OF assms(2)] by (simp add: ari_shift_simps)
  show "ari_enc_ok (ari_shift e)" "ari_low (ari_shift e) = 256 * ari_low e"
    using shift_low_step [OF assms(1) [unfolded ari_enc_ok_def] R]
    unfolding ari_enc_ok_def 1 by (simp_all add: ari_shift_simps)
qed

lemma be_val_take_Suc: "n < length B \<Longrightarrow> be_val (take (Suc n) B) = 256 * be_val (take n B) + unat (B ! n)"
  by (simp add: take_Suc_conv_app_nth be_val_snoc)

lemma shift_reaches:
  assumes "ari_enc_ok e" "ae_Range e < ARI_RangeTOP" "ari_reaches (ari_shift e) B"
  shows "ari_reaches e B" "ari_digits e + 4 < length B"
    "ari_code (ari_shift e) B = 256 * ari_code e B + unat (B ! (ari_digits e + 4))"
proof -
  note s = shift_enc_ok [OF assms(1,2)]
  let ?n = "ari_digits e + 4"
  show n: "?n < length B"
    using assms(3) by (simp add: ari_reaches_def ari_shift_simps)
  have v: "be_val (take (Suc ?n) B) = 256 * be_val (take ?n B) + unat (B ! ?n)" "unat (B ! ?n) < 256"
    using be_val_take_Suc [OF n] byte_bound by simp_all
  have b: "256 * ari_low e \<le> 256 * be_val (take ?n B) + unat (B ! ?n)"
      "256 * be_val (take ?n B) + unat (B ! ?n) < 256 * ari_low e + 256 * unat (ae_Range e)"
    using assms(3) s v(1) by (simp_all add: ari_reaches_def ari_shift_simps(2))
  then show "ari_reaches e B"
    using v(2) n unfolding ari_reaches_def by linarith
  have "ari_low e \<le> be_val (take ?n B)"
    using b(1) v(2) by linarith
  then show "ari_code (ari_shift e) B = 256 * ari_code e B + unat (B ! ?n)"
    using s(2) v(1) by (simp add: ari_code_def ari_shift_simps(2))
qed

text \<open>The whole loop, for the encoder and for the decoder.\<close>

lemma norm_induct [consumes 1, case_names stop shift]:
  assumes "ari_enc_ok e"
    and "\<And>e. ari_enc_ok e \<Longrightarrow> ARI_RangeTOP \<le> ae_Range e \<Longrightarrow> ari_enc_norm e = e \<Longrightarrow> P e"
    and "\<And>e. ari_enc_ok e \<Longrightarrow> ae_Range e < ARI_RangeTOP \<Longrightarrow> ari_enc_norm e = ari_enc_norm (ari_shift e) \<Longrightarrow>
           P (ari_shift e) \<Longrightarrow> P e"
  shows "P e"
  using assms(1)
proof (induction e rule: ari_enc_norm.induct)
  case (1 e)
  show ?case
  proof (cases "ae_Range e < ARI_RangeTOP")
    case True
    then have nz: "ae_Range e < ARI_RangeTOP \<and> ae_Range e \<noteq> 0"
      using "1.prems" by (auto simp: ari_enc_ok_def ari_inv_def)
    then have "P (ari_shift e)"
      using "1.IH" shift_enc_ok(1) [OF "1.prems"] by (simp add: ari_shift_def)
    moreover have "ari_enc_norm e = ari_enc_norm (ari_shift e)"
      using nz by (simp add: ari_enc_norm.simps [of e] ari_shift_def)
    ultimately show ?thesis
      using "1.prems" True assms(3) by blast
  next
    case False
    then have "ari_enc_norm e = e"
      by (simp add: ari_enc_norm.simps [of e])
    then show ?thesis
      using "1.prems" False assms(2) by (simp add: not_less)
  qed
qed

lemma norm_enc_ok: "ari_enc_ok e \<Longrightarrow> ari_enc_ok (ari_enc_norm e) \<and> ARI_RangeTOP \<le> ae_Range (ari_enc_norm e)"
  by (induction e rule: norm_induct) simp_all

lemma push_byte_word: "push_bit 8 (of_nat c :: u32) OR ucast (b :: byte) = of_nat (256 * c + unat b)"
proof -
  have "push_bit 8 (of_nat c :: u32) AND ucast b = 0"
    by (rule bit_eqI) (auto simp: bit_simps dest: bit_imp_le_length)
  then have "push_bit 8 (of_nat c :: u32) OR ucast b = push_bit 8 (of_nat c) + ucast b"
    by (rule disjunctive_add_eq_or [symmetric])
  also have "\<dots> = of_nat (256 * c + unat b)"
    by (simp add: push_bit_eq_mult mult.commute)
  finally show ?thesis .
qed

lemma norm_reaches:
  "ari_enc_ok e \<Longrightarrow> ari_reaches (ari_enc_norm e) B \<Longrightarrow>
    ari_reaches e B \<and>
    ari_dec_norm (of_nat (ari_code e B)) (ae_Range e) (drop (ari_digits e + 4) B @ rest) =
      Some (ari_dec_at (ari_enc_norm e) B rest)"
proof (induction e rule: norm_induct)
  case (stop e)
  then show ?case
    by (cases "drop (ari_digits e + 4) B @ rest") (simp_all add: ari_dec_at_def not_less [symmetric])
next
  case (shift e)
  let ?n = "ari_digits e + 4"
  have IH: "ari_reaches (ari_shift e) B"
      "ari_dec_norm (of_nat (ari_code (ari_shift e) B)) (ae_Range (ari_shift e)) (drop (ari_digits (ari_shift e) + 4) B @ rest) =
        Some (ari_dec_at (ari_enc_norm (ari_shift e)) B rest)"
    using shift.IH shift.prems shift.hyps(3) by simp_all
  note r = shift_reaches [OF shift.hyps(1,2) IH(1)]
  have "drop ?n B = B ! ?n # drop (Suc ?n) B"
    using r(2) by (rule Cons_nth_drop_Suc [symmetric])
  then show ?case
    using shift.hyps(2,3) IH(2) r(1,3) by (simp add: ari_shift_simps(1,2) push_byte_word)
qed

text \<open>One operation: the interval of the symbol inside the interval before it.\<close>

definition ari_narrow :: "ari_op \<Rightarrow> ari_encoder \<Rightarrow> ari_encoder" where
  "ari_narrow op e =
     (case op of (freq, cum, tot) \<Rightarrow>
        let r = ae_Range e div of_nat tot
        in e\<lparr>ae_Low := ae_Low e + ucast (of_nat cum * r), ae_Range := r * of_nat freq\<rparr>)"

lemma ARI_Encode_narrow: "ARI_Encode op e = ari_enc_norm (ari_narrow op e)"
  by (cases op) (simp add: ari_narrow_def Let_def)

lemma narrow_values:
  assumes "ari_enc_ok e" "ARI_RangeTOP \<le> ae_Range e" "ari_op_ok (freq, cum, tot)"
  defines "r \<equiv> unat (ae_Range e) div tot"
  shows "0 < r" "cum * r + r * freq \<le> unat (ae_Range e)"
    "unat (ae_Range e div of_nat tot) = r"
    "unat (ae_Range (ari_narrow (freq, cum, tot) e)) = r * freq"
    "ari_low (ari_narrow (freq, cum, tot) e) = ari_low e + cum * r"
    "ari_digits (ari_narrow (freq, cum, tot) e) = ari_digits e"
    "ari_enc_ok (ari_narrow (freq, cum, tot) e)"
    "ae_Range e div of_nat tot = of_nat r"
proof -
  have ok: "0 < freq" "cum + freq \<le> tot" "tot \<le> 2 ^ 16" "0 < tot"
    using assms(3) by auto
  have R: "2 ^ 24 \<le> unat (ae_Range e)" "unat (ae_Range e) < 2 ^ 32"
    using assms(2) u32_bound [of "ae_Range e"] by (simp_all add: word_le_nat_alt ARI_RangeTOP_def)
  show 1: "0 < r"
    using R ok(3,4) by (simp add: r_def div_greater_zero_iff)
  have "(cum + freq) * r \<le> tot * r"
    using ok(2) by (rule mult_le_mono1)
  also have "\<dots> \<le> unat (ae_Range e)"
    by (simp add: r_def)
  finally show 2: "cum * r + r * freq \<le> unat (ae_Range e)"
    by (simp add: algebra_simps)
  show 3: "unat (ae_Range e div of_nat tot) = r"
    using ok(3) by (simp add: r_def unat_div unat_of_nat)
  have small: "cum < 2 ^ 32" "freq < 2 ^ 32" "cum * r < 2 ^ 32" "r * freq < 2 ^ 32"
    using ok 2 R(2) by (simp_all add: le_less_trans)
  have "r < 2 ^ 32"
    using R(2) div_le_dividend [of "unat (ae_Range e)" tot] unfolding r_def by linarith
  then show rw: "ae_Range e div of_nat tot = of_nat r"
    unfolding word_unat_eq_iff 3 by (simp add: unat_of_nat)
  define w :: u32 where "w = of_nat cum * of_nat r"
  have c: "unat w = cum * r"
    using small by (simp add: w_def unat_of_nat flip: of_nat_mult)
  have inv: "unat (ae_Low e) + unat (ae_Range e) \<le> 2 ^ 33" "0 < unat (ae_Range e)"
    using assms(1) by (simp_all add: ari_enc_ok_def ari_inv_def)
  have L: "unat (ae_Low (ari_narrow (freq, cum, tot) e)) = unat (ae_Low e) + cum * r"
    using inv 2 by (simp add: ari_narrow_def Let_def rw w_def [symmetric] unat_word_ariths unat_ucast_up c)
  show 4: "unat (ae_Range (ari_narrow (freq, cum, tot) e)) = r * freq"
    using small by (simp add: ari_narrow_def Let_def rw unat_of_nat flip: of_nat_mult)
  have same: "ae_out (ari_narrow (freq, cum, tot) e) = ae_out e" "ae_FFNum (ari_narrow (freq, cum, tot) e) = ae_FFNum e"
      "ae_Cache (ari_narrow (freq, cum, tot) e) = ae_Cache e"
    by (simp_all add: ari_narrow_def Let_def)
  show 5: "ari_low (ari_narrow (freq, cum, tot) e) = ari_low e + cum * r"
    by (simp add: ari_low_def ari_head_def same L)
  show "ari_digits (ari_narrow (freq, cum, tot) e) = ari_digits e"
    by (simp add: ari_digits_def same)
  show "ari_enc_ok (ari_narrow (freq, cum, tot) e)"
    using assms(1) 1 2 ok(1) unfolding ari_enc_ok_def ari_inv_def 4 5 same L by simp
qed

lemma encode_reaches:
  assumes "ari_enc_ok e" "ARI_RangeTOP \<le> ae_Range e" "ari_op_ok (freq, cum, tot)" "ari_reaches (ARI_Encode (freq, cum, tot) e) B"
  shows "ari_reaches e B"
    "ari_follows [(freq, cum, tot)] (ari_dec_at e B rest) (ari_dec_at (ARI_Encode (freq, cum, tot) e) B rest)"
proof -
  let ?e = "ari_narrow (freq, cum, tot) e"
  define r where "r = unat (ae_Range e) div tot"
  note n = narrow_values [OF assms(1-3), folded r_def]
  note norm = norm_reaches [OF n(7) assms(4) [unfolded ARI_Encode_narrow], where rest = rest]
  have re: "ari_low e + cum * r \<le> be_val (take (ari_digits e + 4) B)"
      "be_val (take (ari_digits e + 4) B) < ari_low e + cum * r + r * freq" "ari_digits e + 4 \<le> length B"
    using norm by (simp_all add: ari_reaches_def n)
  then show reach: "ari_reaches e B"
    using n(2) by (simp add: ari_reaches_def)
  have code: "ari_code ?e B = ari_code e B - cum * r" "cum * r \<le> ari_code e B" "ari_code e B < (cum + freq) * r"
    using re by (simp_all add: ari_code_def n algebra_simps)
  have "cum \<le> ari_code e B div r" "ari_code e B div r < cum + freq"
    using code(2,3) n(1) by (simp_all add: less_eq_div_iff_mult_less_eq div_less_iff_less_mult)
  moreover have "unat ((of_nat (ari_code e B) :: u32) div (ae_Range e div of_nat tot)) = ari_code e B div r"
    by (simp only: unat_div [of _ "ae_Range e div of_nat tot"] n(3) reaches_code_word [OF reach])
  moreover have "ARI_Decode freq cum ((ari_dec_at e B rest)\<lparr>ad_Range := ae_Range e div of_nat tot\<rparr>) =
      Some (ari_dec_at (ARI_Encode (freq, cum, tot) e) B rest)"
  proof -
    have "(of_nat (ari_code e B) :: u32) - of_nat cum * (ae_Range e div of_nat tot) = of_nat (ari_code ?e B)"
    proof -
      have "(of_nat cum :: u32) * (ae_Range e div of_nat tot) = of_nat (cum * r)"
        by (simp add: n(8))
      then show ?thesis
        using code(2) by (simp add: code(1) of_nat_diff)
    qed
    moreover have "ae_Range e div of_nat tot * of_nat freq = ae_Range ?e"
      by (simp add: ari_narrow_def Let_def)
    ultimately show ?thesis
      using norm by (simp add: ARI_Decode_def ari_dec_at_def [of e] n(6) ARI_Encode_narrow)
  qed
  ultimately show "ari_follows [(freq, cum, tot)] (ari_dec_at e B rest) (ari_dec_at (ARI_Encode (freq, cum, tot) e) B rest)"
    by (simp add: ARI_GetFreq_def ari_dec_at_def [of e] del: ARI_Encode.simps)
qed

section \<open>The end of the code\<close>

lemma shift_low_four:
  assumes "ari_inv e 1"
  shows "ari_low ((ARI_ShiftLow ^^ 4) e) = 2 ^ 32 * ari_low e" "unat (ae_Cache ((ARI_ShiftLow ^^ 4) e)) < 256"
    "ae_Low ((ARI_ShiftLow ^^ 4) e) = 0" "ari_digits ((ARI_ShiftLow ^^ 4) e) = ari_digits e + 4"
proof -
  let ?s = ARI_ShiftLow
  have unfold: "(?s ^^ 4) e = ?s (?s (?s (?s e)))"
    by (simp add: eval_nat_numeral)
  note 1 = shift_low_step [OF assms, simplified]
  note 2 = shift_low_step [OF 1(2), simplified]
  note 3 = shift_low_step [OF 2(2), simplified]
  note 4 = shift_low_step [OF 3(2), simplified]
  show "ari_low ((?s ^^ 4) e) = 2 ^ 32 * ari_low e" "unat (ae_Cache ((?s ^^ 4) e)) < 256"
    "ari_digits ((?s ^^ 4) e) = ari_digits e + 4"
    using 1 2 3 4 by (simp_all add: unfold shift_low_digits ari_inv_def)
  have "unat (ae_Low ((?s ^^ 4) e)) = 0"
    by (simp add: unfold shift_low_unat mod_mult_left_eq mult.assoc mod_mult_left_eq [of "_ mod _"])
  then show "ae_Low ((?s ^^ 4) e) = 0"
    by (simp add: unat_eq_0)
qed

text \<open>The code ends in the middle of the last interval, so that the decoder can always read four bytes ahead.\<close>

lemma flush_reaches:
  assumes "ari_enc_ok e" "ARI_RangeTOP \<le> ae_Range e"
  shows "ari_reaches e (ari_flush e)" "length (ari_flush e) = ari_digits e + 4"
proof -
  define h where "h = unat (ae_Range e) div 2"
  define e1 where "e1 = e\<lparr>ae_Low := ae_Low e + ucast (drop_bit 1 (ae_Range e)), ae_Range := drop_bit 1 (ae_Range e)\<rparr>"
  have R: "2 ^ 24 \<le> unat (ae_Range e)"
    using assms(2) by (simp add: word_le_nat_alt ARI_RangeTOP_def)
  have inv: "ari_inv e (unat (ae_Range e))"
    using assms(1) by (simp add: ari_enc_ok_def)
  then have "unat (ae_Low e) + unat (ae_Range e) \<le> 2 ^ 33"
    by (simp add: ari_inv_def)
  then have L: "unat (ae_Low e1) = unat (ae_Low e) + h"
    using unat_drop_bit [of 1 "ae_Range e"] by (simp add: e1_def h_def unat_word_ariths unat_ucast_up del: drop_bit_eq_div)
  then have low: "ari_low e1 = ari_low e + h" "ari_digits e1 = ari_digits e"
    by (simp_all add: ari_low_def ari_head_def ari_digits_def) (simp_all add: e1_def)
  have h: "h + 1 \<le> unat (ae_Range e)"
    using R by (simp add: h_def)
  have "ari_inv e1 1"
    using inv h low(1) L by (simp add: ari_inv_def) (simp add: e1_def)
  note four = shift_low_four [OF this]
  let ?e4 = "(ARI_ShiftLow ^^ 4) e1"
  have flush: "ari_flush e = ae_out (ARI_ShiftLow ?e4)"
    by (simp add: ari_flush_def Let_def e1_def eval_nat_numeral)
  have "unat (ae_Low ?e4) div 2 ^ 24 \<noteq> 255" "unat (ae_Low ?e4) div 2 ^ 32 = 0" "unat (ae_Cache ?e4) + 0 < 256"
    using four by simp_all
  note last = shift_low_flush [OF this(1,2) zero_le this(3)]
  have "be_val (ari_flush e) = ari_low e + h"
    using last(1) four(1,3) low(1) by (simp add: flush ari_low_def)
  moreover show len: "length (ari_flush e) = ari_digits e + 4"
    using shift_low_digits [of ?e4] last(3) four(4) low(2) by (simp add: flush ari_digits_def [of "ARI_ShiftLow _"])
  ultimately show "ari_reaches e (ari_flush e)"
    using h by (simp add: ari_reaches_def)
qed

section \<open>Runs of operations\<close>

lemma follows_append:
  "ari_follows xs d d1 \<Longrightarrow> ari_follows ys d1 d2 \<Longrightarrow> ari_follows (xs @ ys) d d2"
  by (induction xs d d1 rule: ari_follows.induct) (auto split: prod.splits option.splits)

lemma follows_split:
  "ari_follows (xs @ ys) d d2 \<Longrightarrow> \<exists>d1. ari_follows xs d d1 \<and> ari_follows ys d1 d2"
  by (induction xs d d2 rule: ari_follows.induct) (auto split: prod.splits option.splits)

lemma encode_ops_ok:
  "\<forall>op \<in> set ops. ari_op_ok op \<Longrightarrow> ari_enc_ok e \<Longrightarrow> ARI_RangeTOP \<le> ae_Range e \<Longrightarrow>
    ari_enc_ok (fold ARI_Encode ops e) \<and> ARI_RangeTOP \<le> ae_Range (fold ARI_Encode ops e)"
proof (induction ops arbitrary: e)
  case (Cons op ops)
  obtain f c t where op: "op = (f, c, t)"
    by (cases op)
  have "ari_enc_ok (ari_narrow op e)"
    using narrow_values(7) [OF Cons.prems(2,3)] Cons.prems(1) by (simp add: op)
  then show ?case
    using Cons norm_enc_ok by (simp add: ARI_Encode_narrow)
qed simp

lemma encode_ops_reach:
  assumes "\<forall>op \<in> set ops. ari_op_ok op" "ari_enc_ok e" "ARI_RangeTOP \<le> ae_Range e" "ari_reaches (fold ARI_Encode ops e) B"
  shows "ari_reaches e B \<and> ari_follows ops (ari_dec_at e B rest) (ari_dec_at (fold ARI_Encode ops e) B rest)"
  using assms
proof (induction ops arbitrary: e)
  case (Cons op ops)
  obtain f c t where op: "op = (f, c, t)"
    by (cases op)
  let ?e = "ARI_Encode op e"
  have ok: "ari_enc_ok ?e" "ARI_RangeTOP \<le> ae_Range ?e"
    using encode_ops_ok [of "[op]" e] Cons.prems by simp_all
  then have IH: "ari_reaches ?e B" "ari_follows ops (ari_dec_at ?e B rest) (ari_dec_at (fold ARI_Encode (op # ops) e) B rest)"
    using Cons.IH [of ?e] Cons.prems by simp_all
  have "ari_op_ok (f, c, t)"
    using Cons.prems(1) by (simp add: op)
  note s = encode_reaches(1) [OF Cons.prems(2,3) this IH(1) [unfolded op], folded op]
    encode_reaches(2) [OF Cons.prems(2,3) this IH(1) [unfolded op], where rest = rest, folded op]
  show ?case
    using s(1) follows_append [OF s(2) IH(2)] by simp
qed simp

lemma ari_dec_start_at:
  assumes "ari_reaches ari_start B"
  shows "ari_dec_start (B @ rest) = Some (ari_dec_at ari_start B rest)"
proof -
  have d: "ari_digits ari_start = 1" "ari_low ari_start = 0" "ae_Range ari_start = - 1"
    by (simp_all add: ari_start_def ari_digits_def ari_low_def ari_head_def)
  have "foldl (\<lambda>c b. push_bit 8 c OR ucast b) (of_nat n :: u32) xs = of_nat (foldl (\<lambda>v b. 256 * v + unat b) n xs)" for xs :: "byte list" and n
    by (induction xs arbitrary: n) (simp_all only: foldl.simps push_byte_word)
  from this [of 0 "take 5 B"] show ?thesis
    using assms by (simp add: ari_dec_start_def ari_dec_at_def ari_reaches_def ari_code_def d be_val_def)
qed

lemma ari_codes:
  assumes "\<forall>op \<in> set ops. ari_op_ok op"
  shows "\<exists>d d'. ari_dec_start (ari_flush (fold ARI_Encode ops ari_start) @ rest) = Some d \<and> ari_follows ops d d' \<and> ad_in d' = rest"
proof -
  let ?e = "fold ARI_Encode ops ari_start"
  have start: "ARI_RangeTOP \<le> ae_Range ari_start"
    by (simp add: ari_start_def)
  note ok = encode_ops_ok [OF assms enc_ok_start start]
  note fl = flush_reaches [OF ok [THEN conjunct1] ok [THEN conjunct2]]
  note r = encode_ops_reach [OF assms enc_ok_start start fl(1), where rest = rest]
  have "ad_in (ari_dec_at ?e (ari_flush ?e) rest) = rest"
    by (simp add: ari_dec_at_def fl(2))
  then show ?thesis
    using r ari_dec_start_at by blast
qed

text \<open>
  C28: the range coder is lossless: for every sequence of operations with nonempty intervals and totals of at
  most \<^verbatim>\<open>2 ^ 16\<close>, the decoder, started on the bytes the encoder writes and any bytes behind them,
  finds the interval of each operation in turn, and ends just behind the bytes of the encoder.
\<close>
theorem ari_lossless:
  assumes "\<forall>op \<in> set ops. ari_op_ok op"
  shows "\<exists>d d'. ari_dec_start (ari_flush (fold ARI_Encode ops ari_start) @ rest) = Some d \<and> ari_follows ops d d' \<and> ad_in d' = rest"
  using assms by (rule ari_codes)

theorem ari_lossless_witness:
  "\<exists>d d'. ari_dec_start (ari_flush (fold ARI_Encode [(1, 0, 4), (5, 3, 11), (2048 - 3, 3, 2048)] ari_start) @ [7]) = Some d \<and>
     ari_follows [(1, 0, 4), (5, 3, 11), (2048 - 3, 3, 2048)] d d' \<and> ad_in d' = [7]"
  by (rule ari_lossless) simp

end
