(* ===== verification/Grz_ST4.thy ===== *)
theory Grz_ST4
  imports Grz_Counting Grz_Range
begin

text \<open>
  The sort transform \<^verbatim>\<open>GRZip/ST4.c\<close>: the encoder puts the bytes of a block in the order of the four
  bytes before them, cyclically, and of their position where these agree; the decoder finds its way
  back from the transformed block and the place of the last byte.  The block is sorted by the
  passes of \<^verbatim>\<open>Grz_Counting\<close>; what the decoder computes is shown to be the start of every group of
  equal contexts, so that it visits the bytes in the order they had.

  Allocation succeeds.  The arrays of counters are lists; the decoder yields \<^verbatim>\<open>None\<close> where the code
  would read outside \<^verbatim>\<open>Table\<close>, which a damaged block can make it do.
\<close>

definition ST_MaxByte :: nat where "ST_MaxByte = 256"
definition ST_MaxWord :: nat where "ST_MaxWord = 65536"
definition ST_INDIRECT :: u32 where "ST_INDIRECT = 0x800000"

section \<open>The encoder\<close>

text \<open>Counting the pairs of bytes.\<close>

fun st4_count :: "byte list \<Rightarrow> u32 \<Rightarrow> nat list \<Rightarrow> nat list" where
  "st4_count [] W Counter = Counter"
| "st4_count (c # Input) W Counter =
     (let W = drop_bit 8 W OR push_bit 8 (ucast c) in st4_count Input W (Counter[unat W := Counter ! unat W + 1]))"

text \<open>The values \<^verbatim>\<open>W\<close> takes at the bytes of the block: the four bytes before, the last one on top.\<close>

fun st4_windows :: "byte list \<Rightarrow> u32 \<Rightarrow> (u32 \<times> byte) list" where
  "st4_windows [] W = []"
| "st4_windows (c # Input) W = (W, c) # st4_windows Input (drop_bit 8 W OR push_bit 24 (ucast c))"

definition st4_low :: "u32 \<times> byte \<Rightarrow> nat" where "st4_low = (\<lambda>(W, c). unat (W AND 0x0000FFFF))"
definition st4_entry :: "u32 \<times> byte \<Rightarrow> u32" where "st4_entry = (\<lambda>(W, c). (W AND 0xFFFF0000) OR ucast c)"
definition st4_high :: "u32 \<Rightarrow> nat" where "st4_high e = unat (drop_bit 16 e)"
definition st4_byte :: "u32 \<Rightarrow> byte" where "st4_byte e = ucast (e AND 0xFF)"

text \<open>
  \<^verbatim>\<open>Output\<close> may be the block itself: the block is not read any more when the output is written.  The
  block has at least five bytes.
\<close>

definition GRZip_ST4_Encode :: "byte list \<Rightarrow> byte list \<Rightarrow> nat \<times> byte list" where
  "GRZip_ST4_Encode Input Output =
     (let Size = length Input;
          Counter = st4_count Input (push_bit 8 (ucast (Input ! (Size - 1)))) (replicate ST_MaxWord 0);
          Counter = group_starts 0 Counter;
          W = push_bit 8 (ucast (Input ! (Size - 4))) OR ucast (Input ! (Size - 5)) :: u32;
          FBP = (if W = 0xFFFF then Size - 1 else Counter ! (unat W + 1) - 1);
          W = push_bit 24 (ucast (Input ! (Size - 1))) OR push_bit 16 (ucast (Input ! (Size - 2))) OR
              push_bit 8 (ucast (Input ! (Size - 3))) OR ucast (Input ! (Size - 4));
          (Counter, Context) = fold (place_up st4_low st4_entry) (st4_windows Input W) (Counter, replicate Size 0);
          (Counter, Output) = fold (place_down st4_high st4_byte) (rev (drop FBP Context)) (Counter, Output);
          FBP' = Counter ! st4_high (Context ! FBP);
          (Counter, Output) = fold (place_down st4_high st4_byte) (rev (take FBP Context)) (Counter, Output)
      in (FBP', Output))"

section \<open>Contexts\<close>

text \<open>The position before \<^verbatim>\<open>i\<close> in a cycle of \<^verbatim>\<open>n\<close>, and the \<^verbatim>\<open>k\<close> bytes before \<^verbatim>\<open>i\<close> as a number.\<close>

definition prv :: "nat \<Rightarrow> nat \<Rightarrow> nat" where "prv n i = (if i = 0 then n - 1 else i - 1)"

fun st_key :: "byte list \<Rightarrow> nat \<Rightarrow> nat \<Rightarrow> nat" where
  "st_key x 0 i = 0"
| "st_key x (Suc k) i = 256 ^ k * unat (x ! prv (length x) i) + st_key x k (prv (length x) i)"

definition st_order :: "byte list \<Rightarrow> nat list" where
  "st_order x = sort_key (st_key x 4) [0..<length x]"

lemma st_key_bound: "st_key x k i < 256 ^ k"
proof (induction k arbitrary: i)
  case (Suc k)
  have "256 ^ k * unat (x ! prv (length x) i) \<le> 256 ^ k * 255"
    using byte_bound [of "x ! prv (length x) i"] by (intro mult_le_mono2) simp
  then show ?case
    using Suc [of "prv (length x) i"] unfolding st_key.simps power_Suc by linarith
qed simp

lemma st_key_div: "st_key x (Suc k) i div 256 = st_key x k i"
proof (induction k arbitrary: i)
  case 0
  show ?case
    using byte_bound by simp
next
  case (Suc k)
  have "st_key x (Suc (Suc k)) i = 256 * (256 ^ k * unat (x ! prv (length x) i)) + st_key x (Suc k) (prv (length x) i)"
    by (simp del: st_key.simps add: st_key.simps(2) [of x "Suc k"])
  then show ?case
    using Suc [of "prv (length x) i"] by simp
qed

lemma st_key_succ: "st_key x (Suc k) (Suc i) = 256 ^ k * unat (x ! i) + st_key x (Suc k) i div 256"
  unfolding st_key_div by (simp add: prv_def)

lemma st_key_mod: "st_key x (k + j) i mod 256 ^ j = st_key x j ((prv (length x) ^^ k) i)"
proof (induction k arbitrary: i)
  case 0
  show ?case
    using st_key_bound by simp
next
  case (Suc k)
  have "st_key x (Suc (k + j)) i mod 256 ^ j = st_key x (k + j) (prv (length x) i) mod 256 ^ j"
    by (simp add: power_add mult.assoc mult.left_commute)
  then show ?case
    using Suc [of "prv (length x) i"] by (simp add: funpow_swap1)
qed

lemma prv_permutes: "0 < n \<Longrightarrow> mset (map (prv n) [0..<n]) = mset [0..<n]"
proof (induction n)
  case (Suc n)
  have "map (prv (Suc n)) [0..<Suc n] = n # [0..<n]"
    by (subst upt_conv_Cons) (auto simp: prv_def map_Suc_upt [symmetric] simp del: upt_Suc intro!: nth_equalityI)
  then show ?case
    by simp
qed simp

lemma same_mset: "mset xs = mset ys \<Longrightarrow> same f k xs = same f k ys"
  unfolding same_def by (metis mset_filter size_mset)

lemma lower_mset: "mset xs = mset ys \<Longrightarrow> lower f k xs = lower f k ys"
  unfolding lower_def by (metis mset_filter size_mset)

lemma same_map [simp]: "same f k (map g xs) = same (\<lambda>i. f (g i)) k xs"
  by (induction xs) simp_all

lemma lower_map [simp]: "lower f k (map g xs) = lower (\<lambda>i. f (g i)) k xs"
  by (induction xs) simp_all

lemma same_prv: "0 < n \<Longrightarrow> same (\<lambda>i. f (prv n i)) k [0..<n] = same f k [0..<n]"
  using same_mset [OF prv_permutes, of n f k] by simp

lemma lower_prv: "0 < n \<Longrightarrow> lower (\<lambda>i. f (prv n i)) k [0..<n] = lower f k [0..<n]"
  using lower_mset [OF prv_permutes, of n f k] by simp

lemma sort_key_map: "sort_key f (map g xs) = map g (sort_key (\<lambda>i. f (g i)) xs)"
proof -
  have "insort_key f (g x) (map g ys) = map g (insort_key (\<lambda>i. f (g i)) x ys)" for x ys
    by (induction ys) auto
  then show ?thesis
    by (induction xs) simp_all
qed

lemma sort_pos_map: "i < length xs \<Longrightarrow> sort_pos f (map g xs) i = sort_pos (\<lambda>i. f (g i)) xs i"
  by (simp add: sort_pos_def take_map)

section \<open>The windows of the encoder\<close>

lemma unat_byte_word: "unat (ucast (c :: byte) :: u32) = unat c"
proof -
  have "unat c < 2 ^ 32"
    using byte_bound [of c] by simp
  then show ?thesis
    by (simp add: unsigned_ucast_eq take_bit_nat_eq_self)
qed

lemma word_or_low: "a < 2 ^ k \<Longrightarrow> push_bit k (of_nat b :: u32) OR of_nat a = of_nat (2 ^ k * b + a)"
proof -
  assume a: "a < 2 ^ k"
  have "\<not> bit (of_nat a :: u32) i" if "k \<le> i" for i
  proof -
    have "a div 2 ^ i = 0"
      using a that by (metis div_less less_le_trans numeral_le_one_iff power_increasing_iff semiring_norm(69) le_less_trans not_less power_increasing one_le_numeral)
    then show ?thesis
      by (simp add: bit_of_nat_iff bit_nat_def)
  qed
  then have "push_bit k (of_nat b :: u32) AND of_nat a = 0"
    by (intro bit_eqI) (auto simp: bit_simps not_le)
  then have "push_bit k (of_nat b :: u32) OR of_nat a = push_bit k (of_nat b) + of_nat a"
    by (rule disjunctive_add_eq_or [symmetric])
  then show ?thesis
    by (simp add: push_bit_eq_mult mult.commute)
qed

lemma byte_as_nat: "ucast (c :: byte) = (of_nat (unat c) :: u32)"
  by (simp add: word_unat_eq_iff unat_byte_word unat_of_nat take_bit_nat_eq_self)

lemma shift_window:
  assumes "a < 2 ^ 32"
  shows "drop_bit 8 (of_nat a :: u32) OR push_bit 24 (ucast c) = of_nat (2 ^ 24 * unat c + a div 256)"
proof -
  have "drop_bit 8 (of_nat a :: u32) = of_nat (a div 256)"
    using assms by (simp add: word_unat_eq_iff unat_drop_bit unat_of_nat take_bit_nat_eq_self)
  then show ?thesis
    using word_or_low [of "a div 256" 24 "unat c"] assms by (simp add: byte_as_nat or.commute)
qed

lemma shift_pair:
  assumes "a < 2 ^ 16"
  shows "drop_bit 8 (of_nat a :: u32) OR push_bit 8 (ucast c) = of_nat (256 * unat c + a div 256)"
proof -
  have "drop_bit 8 (of_nat a :: u32) = of_nat (a div 256)"
    using assms by (simp add: word_unat_eq_iff unat_drop_bit unat_of_nat take_bit_nat_eq_self)
  then show ?thesis
    using word_or_low [of "a div 256" 8 "unat c"] assms by (simp add: byte_as_nat or.commute)
qed

lemma st4_windows_keys:
  "i \<le> length x \<Longrightarrow> st4_windows (drop i x) (of_nat (st_key x 4 i)) =
     map (\<lambda>i. (of_nat (st_key x 4 i), x ! i)) [i..<length x]"
proof (induction "drop i x" arbitrary: i)
  case Nil
  then show ?case
    by simp
next
  case (Cons c xs)
  then have i: "i < length x" "c = x ! i" "xs = drop (Suc i) x"
    by (metis drop_eq_Nil list.distinct(1) not_le, metis nth_via_drop, metis drop_Suc list.sel(3) tl_drop)
  have "st_key x 4 (Suc i) = 2 ^ 24 * unat c + st_key x 4 i div 256"
    using st_key_succ [of x 3 i] i(2) by (simp del: st_key.simps)
  moreover have "st_key x 4 i < 2 ^ 32"
    using st_key_bound [of x 4 i] by simp
  ultimately have "drop_bit 8 (of_nat (st_key x 4 i)) OR push_bit 24 (ucast c) = (of_nat (st_key x 4 (Suc i)) :: u32)"
    using shift_window [of "st_key x 4 i" c] by simp
  then show ?case
    using Cons(1) [OF i(3)] i by (simp add: Cons(2) [symmetric] upt_conv_Cons)
qed

lemma window_start:
  assumes "5 \<le> length x"
  shows "push_bit 24 (ucast (x ! (length x - 1))) OR push_bit 16 (ucast (x ! (length x - 2))) OR
    push_bit 8 (ucast (x ! (length x - 3))) OR ucast (x ! (length x - 4)) = (of_nat (st_key x 4 0) :: u32)"
proof -
  define a b c d where abcd: "a = unat (x ! (length x - 1))" "b = unat (x ! (length x - 2))"
    "c = unat (x ! (length x - 3))" "d = unat (x ! (length x - 4))"
  have lt: "b < 256" "c < 256" "d < 256"
    unfolding abcd by (rule byte_bound)+
  have four: "(4 :: nat) = Suc (Suc (Suc (Suc 0)))"
    by simp
  have "st_key x (Suc (Suc (Suc (Suc 0)))) 0 = 2 ^ 24 * a + (2 ^ 16 * b + (2 ^ 8 * c + d))"
    using assms unfolding abcd by (simp add: prv_def del: One_nat_def)
  then have "st_key x 4 0 = 2 ^ 24 * a + (2 ^ 16 * b + (2 ^ 8 * c + d))"
    unfolding four [symmetric] .
  moreover have "d < 2 ^ 8" "2 ^ 8 * c + d < 2 ^ 16" "2 ^ 16 * b + (2 ^ 8 * c + d) < 2 ^ 24"
    using lt by simp_all
  ultimately show ?thesis
    unfolding byte_as_nat abcd [symmetric] or.assoc
    using lt by (simp only: word_or_low)
qed

lemma unat_of_nat_u32: "a < 2 ^ 32 \<Longrightarrow> unat (of_nat a :: u32) = a"
  by (simp add: unat_of_nat take_bit_nat_eq_self)

lemma pair_word:
  fixes a b :: byte
  shows "unat (push_bit 8 (ucast a) OR ucast b :: u32) = 256 * unat a + unat b"
proof -
  have "unat (of_nat (2 ^ 8 * unat a + unat b) :: u32) = 2 ^ 8 * unat a + unat b"
    using byte_bound [of a] byte_bound [of b] by (intro unat_of_nat_u32) simp
  moreover have "push_bit 8 (of_nat (unat a)) OR of_nat (unat b) = (of_nat (2 ^ 8 * unat a + unat b) :: u32)"
    using byte_bound [of b] by (intro word_or_low) simp
  ultimately show ?thesis
    unfolding byte_as_nat by simp
qed

section \<open>The counters of the encoder\<close>

lemma st4_count_keys:
  assumes "i \<le> length x" "unat W div 256 = unat (x ! prv (length x) i)" "W < 2 ^ 16" "length C = ST_MaxWord" "k < ST_MaxWord"
  shows "length (st4_count (drop i x) W C) = ST_MaxWord \<and>
    st4_count (drop i x) W C ! k = C ! k + same (\<lambda>i. 256 * unat (x ! i) + unat (x ! prv (length x) i)) k [i..<length x]"
  using assms
proof (induction "drop i x" arbitrary: i W C)
  case (Cons c xs)
  then have i: "i < length x" "c = x ! i" "xs = drop (Suc i) x"
    by (metis drop_eq_Nil list.distinct(1) not_le, metis nth_via_drop, metis drop_Suc list.sel(3) tl_drop)
  define W' :: u32 where "W' = drop_bit 8 W OR push_bit 8 (ucast c)"
  have "unat W < 2 ^ 16"
    using Cons.prems(3) by (simp add: word_less_nat_alt)
  then have "W' = of_nat (256 * unat c + unat W div 256)"
    using shift_pair [of "unat W" c] by (simp add: W'_def)
  moreover have "256 * unat c + unat (x ! prv (length x) i) < 2 ^ 16"
    using byte_bound [of c] byte_bound [of "x ! prv (length x) i"] by simp
  ultimately have W': "unat W' = 256 * unat c + unat (x ! prv (length x) i)" "unat W' < 2 ^ 16"
    using Cons.prems(2) unat_of_nat_u32 [of "256 * unat c + unat (x ! prv (length x) i)"] by (simp_all del: of_nat_add)
  then have "W' < 2 ^ 16"
    by (simp add: word_less_nat_alt)
  moreover have "unat W' div 256 = unat (x ! prv (length x) (Suc i))"
    using W'(1) i(2) byte_bound [of "x ! prv (length x) i"] by (simp add: prv_def)
  moreover have "st4_count (drop i x) W C = st4_count (drop (Suc i) x) W' (C[unat W' := C ! unat W' + 1])"
    unfolding Cons(2) [symmetric] i(3) [symmetric] by (simp add: W'_def Let_def)
  ultimately show ?case
    using \<open>W' < 2 ^ 16\<close> W' Cons(1) [OF i(3), of W' "C[unat W' := C ! unat W' + 1]"] Cons.prems(4,5) i(1,2)
    by (simp add: upt_conv_Cons nth_list_update ST_MaxWord_def)
qed simp

lemma st4_low_key: "st4_low (of_nat (st_key x 4 i), c) = st_key x 4 i mod 65536"
proof -
  have "(of_nat a :: u32) AND 0xFFFF = take_bit 16 (of_nat a)" for a
    by (simp add: take_bit_eq_mask mask_eq_exp_minus_1)
  then have "st4_low (of_nat (st_key x 4 i), c) = unat (take_bit 16 (of_nat (st_key x 4 i) :: u32))"
    by (simp add: st4_low_def)
  also have "\<dots> = st_key x 4 i mod 65536"
    using st_key_bound [of x 4 i] unat_of_nat_u32 [of "st_key x 4 i"]
    unfolding unsigned_take_bit_eq by (simp add: take_bit_eq_mod)
  finally show ?thesis .
qed

lemma st4_entry_parts:
  "st4_high (st4_entry (of_nat (st_key x 4 i), c)) = st_key x 4 i div 65536"
  "st4_byte (st4_entry (W, c)) = c"
proof -
  have m: "(0xFFFF0000 :: u32) = push_bit 16 (mask 16)" "(0xFF :: u32) = mask 8"
    by (simp_all add: mask_eq_exp_minus_1 push_bit_eq_mult)
  have "drop_bit 16 ((W AND 0xFFFF0000) OR ucast (c :: byte) :: u32) = drop_bit 16 W" for W
    unfolding m by (rule bit_eqI) (auto simp: bit_simps dest: bit_imp_le_length)
  then have "st4_high (st4_entry (of_nat (st_key x 4 i), c)) = unat (drop_bit 16 (of_nat (st_key x 4 i) :: u32))"
    by (simp add: st4_high_def st4_entry_def)
  also have "\<dots> = st_key x 4 i div 65536"
    using st_key_bound [of x 4 i] by (simp add: unat_drop_bit unat_of_nat take_bit_nat_eq_self)
  finally show "st4_high (st4_entry (of_nat (st_key x 4 i), c)) = st_key x 4 i div 65536" .
  show "st4_byte (st4_entry (W, c)) = c"
    unfolding st4_byte_def st4_entry_def split_conv m by (rule bit_eqI) (auto simp: bit_simps)
qed

section \<open>What the encoder computes\<close>

text \<open>The lower and the upper half of a context are the pairs before earlier positions.\<close>

lemma same_pairs:
  assumes "0 < length x"
  shows "same (\<lambda>i. 256 * unat (x ! i) + unat (x ! prv (length x) i)) k [0..<length x] = same (st_key x 2) k [0..<length x]"
proof -
  have "st_key x 2 = (\<lambda>i. 256 * unat (x ! prv (length x) i) + unat (x ! prv (length x) (prv (length x) i)))"
    by (rule ext) (simp add: numeral_2_eq_2)
  then show ?thesis
    using same_prv [OF assms, of "\<lambda>i. 256 * unat (x ! i) + unat (x ! prv (length x) i)" k] by simp
qed

lemma same_halves:
  assumes "0 < length x"
  shows "same (\<lambda>i. st_key x 4 i mod 65536) k [0..<length x] = same (st_key x 2) k [0..<length x]"
    "same (\<lambda>i. st_key x 4 i div 65536) k [0..<length x] = same (st_key x 2) k [0..<length x]"
proof -
  have "st_key x 4 i mod 65536 = st_key x 2 (prv (length x) (prv (length x) i))" for i
  proof -
    have "st_key x (2 + 2) i mod 256 ^ 2 = st_key x 2 ((prv (length x) ^^ 2) i)"
      by (rule st_key_mod)
    moreover have "(prv (length x) ^^ 2) i = prv (length x) (prv (length x) i)"
      by (simp add: numeral_2_eq_2)
    ultimately show ?thesis
      by (simp del: st_key.simps)
  qed
  then show "same (\<lambda>i. st_key x 4 i mod 65536) k [0..<length x] = same (st_key x 2) k [0..<length x]"
    using same_prv [OF assms, of "\<lambda>i. st_key x 2 (prv (length x) i)" k] same_prv [OF assms, of "st_key x 2" k] by simp
  have "st_key x 4 i div 65536 = st_key x 2 i" for i
    using st_key_div [of x 3 i] st_key_div [of x 2 i] div_mult2_eq [of "st_key x 4 i" 256 256]
    by (simp del: st_key.simps)
  then show "same (\<lambda>i. st_key x 4 i div 65536) k [0..<length x] = same (st_key x 2) k [0..<length x]"
    by simp
qed

definition st4_pairs_before :: "byte list \<Rightarrow> nat list" where
  "st4_pairs_before x = st4_count x (push_bit 8 (ucast (x ! (length x - 1)))) (replicate ST_MaxWord 0)"

lemma st4_pairs_counted:
  assumes "0 < length x"
  shows "length (st4_pairs_before x) = ST_MaxWord"
    "k < ST_MaxWord \<Longrightarrow> st4_pairs_before x ! k = same (st_key x 2) k [0..<length x]"
proof -
  define c where "c = x ! (length x - 1)"
  have "unat (push_bit 8 (ucast c) OR ucast (0 :: byte) :: u32) = 256 * unat c + unat (0 :: byte)"
    by (rule pair_word)
  then have u: "unat (push_bit 8 (ucast c) :: u32) = 256 * unat c"
    by simp
  moreover from this have "(push_bit 8 (ucast c) :: u32) < 2 ^ 16"
    using byte_bound [of c] by (simp add: word_less_nat_alt)
  ultimately have *: "length (st4_pairs_before x) = ST_MaxWord \<and>
      st4_pairs_before x ! k = replicate ST_MaxWord 0 ! k +
        same (\<lambda>i. 256 * unat (x ! i) + unat (x ! prv (length x) i)) k [0..<length x]" if "k < ST_MaxWord" for k
    using st4_count_keys [of 0 x "push_bit 8 (ucast c)" "replicate ST_MaxWord 0" k] that
    by (simp add: st4_pairs_before_def c_def prv_def)
  show "length (st4_pairs_before x) = ST_MaxWord"
    using * [of 0] by (simp add: ST_MaxWord_def)
  show "st4_pairs_before x ! k = same (st_key x 2) k [0..<length x]" if "k < ST_MaxWord"
    using * [OF that] that same_pairs [OF assms, of k] by simp
qed

lemma lower_same_eq:
  assumes "\<And>k. same f k xs = same g k ys"
  shows "lower f k xs = lower g k ys"
proof (induction k)
  case 0
  show ?case
    by (simp add: lower_def)
qed (simp add: lower_Suc assms)

text \<open>
  The block comes out in the order of the contexts, and the encoder returns the place of its last byte.
\<close>

lemma st4_encode_spec:
  assumes "5 \<le> length x" "length buf = length x"
  obtains FBP where "GRZip_ST4_Encode x buf = (FBP, map ((!) x) (st_order x))" "FBP < length x" "st_order x ! FBP = length x - 1"
proof -
  let ?n = "length x"
  let ?low = "\<lambda>i. st_key x 4 i mod 65536" and ?high = "\<lambda>i. st_key x 4 i div 65536"
  let ?e = "\<lambda>i. (of_nat (st_key x 4 i) :: u32, x ! i)"
  define C where "C = group_starts 0 (st4_pairs_before x)"
  define s1 where "s1 = sort_key ?low [0..<?n]"
  define ctx where "ctx = map (\<lambda>i. st4_entry (?e i)) s1"
  have n: "0 < ?n"
    using assms(1) by auto
  have lenC: "length C = 65536"
    by (simp add: C_def st4_pairs_counted(1) [OF n] ST_MaxWord_def)
  have len: "length s1 = ?n" "length ctx = ?n"
    by (simp_all add: s1_def ctx_def)
  have Ck: "C ! k = lower (st_key x 2) k [0..<?n]" if "k < 65536" for k
    using that group_starts_lower [of "st4_pairs_before x" "st_key x 2" "[0..<?n]" k] st4_pairs_counted [OF n]
    by (simp add: C_def ST_MaxWord_def)
  have lows: "lower ?low k [0..<?n] = lower (st_key x 2) k [0..<?n]" "lower ?high k [0..<?n] = lower (st_key x 2) k [0..<?n]" for k
    by (intro lower_same_eq same_halves n)+
  have win: "st4_windows x (of_nat (st_key x 4 0)) = map ?e [0..<?n]"
    using st4_windows_keys [of 0 x] by simp
  have low: "(\<lambda>i. st4_low (?e i)) = ?low" and high: "(\<lambda>i. st4_high (st4_entry (?e i))) = ?high"
    by (simp_all add: st4_low_key st4_entry_parts)
  have r0: "reached st4_low (map ?e [0..<?n]) 0 C"
    unfolding reached_def lenC using Ck lows by (auto simp: low st4_low_key)
  obtain C1 out1 where p1: "fold (place_up st4_low st4_entry) (map ?e [0..<?n]) (C, replicate ?n 0) = (C1, out1)"
    by fastforce
  have ctx1: "out1 = ctx"
    using place_up_sorts(1) [OF r0 _ p1] by (simp add: sort_key_map low ctx_def s1_def)
  have r1: "reached st4_low (map ?e [0..<?n]) ?n C1" "length C1 = 65536"
    using place_up_sorts(2,3) [OF r0 _ p1] lenC by simp_all
  have C1k: "C1 ! k = lower (st_key x 2) k [0..<?n] + same (st_key x 2) k [0..<?n]" if "k < 65536" for k
    using r1 that by (simp add: reached_def low lows same_halves [OF n])
  have s1perm: "mset s1 = mset [0..<?n]"
    by (simp add: s1_def)
  have r2: "reached st4_high ctx (length ctx) C1"
    unfolding reached_def using C1k r1(2) lows same_halves [OF n] st_key_bound [of x 4]
    by (auto simp: ctx_def high lower_mset [OF s1perm] same_mset [OF s1perm] st4_entry_parts less_mult_imp_div_less)
  define W :: u32 where "W = push_bit 8 (ucast (x ! (?n - 4))) OR ucast (x ! (?n - 5))"
  have lowW: "?low (?n - 1) = unat W"
  proof -
    have "(prv ?n ^^ 2) (?n - 1) = ?n - 3"
      using assms(1) by (simp add: numeral_2_eq_2 prv_def del: One_nat_def)
    moreover have "st_key x (2 + 2) (?n - 1) mod 256 ^ 2 = st_key x 2 ((prv ?n ^^ 2) (?n - 1))"
      by (rule st_key_mod)
    moreover have "st_key x 2 (?n - 3) = 256 * unat (x ! prv ?n (?n - 3)) + unat (x ! prv ?n (prv ?n (?n - 3)))"
      by (simp add: numeral_2_eq_2)
    moreover have "prv ?n (?n - 3) = ?n - 4" "prv ?n (?n - 4) = ?n - 5"
      using assms(1) by (simp_all add: prv_def)
    ultimately show ?thesis
      unfolding W_def pair_word by (simp del: st_key.simps)
  qed
  define F where "F = (if W = 0xFFFF then ?n - 1 else C ! (unat W + 1) - 1)"
  have "[0..<?n] = [0..<?n - 1] @ [?n - 1]"
    using n by (cases ?n) simp_all
  then have upto: "lower f k [0..<?n] = lower f k [0..<?n - 1] + of_bool (f (?n - 1) < k)"
     "same f k [0..<?n] = same f k [0..<?n - 1] + of_bool (f (?n - 1) = k)" for f k
    by (metis lower_simps same_simps add.right_neutral)+
  have posn: "sort_pos ?low [0..<?n] (?n - 1) = lower ?low (unat W) [0..<?n] + same ?low (unat W) [0..<?n - 1]"
    using n lowW by (simp add: sort_pos_def take_upt)
  have F: "F = sort_pos ?low [0..<?n] (?n - 1)"
  proof (cases "W = 0xFFFF")
    case True
    have "lower ?low 65536 [0..<?n] = ?n"
      unfolding lower_def by simp
    then show ?thesis
      using True lower_Suc [of ?low 65535 "[0..<?n]"] upto(2) [of ?low 65535] lowW
      unfolding posn by (simp add: F_def)
  next
    case False
    then have "unat W \<noteq> 65535"
      by (simp add: word_unat_eq_iff)
    moreover have "unat W < 65536"
      unfolding lowW [symmetric] by simp
    ultimately show ?thesis
      using False lower_Suc [of ?low "unat W" "[0..<?n]"] upto(2) [of ?low "unat W"] lowW Ck [of "unat W + 1"] lows(1)
      unfolding posn by (simp add: F_def)
  qed
  have Fn: "F < ?n" "s1 ! F = ?n - 1"
    using sort_key_pos [of "?n - 1" "[0..<?n]" ?low] n unfolding F by (simp_all add: s1_def)
  obtain C2 out2 where p2: "fold (place_down st4_high st4_byte) (rev (drop F ctx)) (C1, buf) = (C2, out2)"
    by fastforce
  have r3: "reached st4_high ctx F C2"
    using place_down_drop [OF r2, of buf F st4_byte] p2 assms(2) len Fn(1) by simp
  obtain C3 out3 where p3: "fold (place_down st4_high st4_byte) (rev (take F ctx)) (C2, out2) = (C3, out3)"
    by fastforce
  have "fold (place_down st4_high st4_byte) (rev (drop 0 ctx)) (C1, buf) = (C3, out3)"
  proof -
    have "rev (drop 0 ctx) = rev (drop F ctx) @ rev (take F ctx)"
      by (metis append_take_drop_id drop0 rev_append)
    then show ?thesis
      by (simp add: p2 p3)
  qed
  then have out3: "out3 = map st4_byte (sort_key st4_high ctx)"
    using place_down_drop [OF r2, of buf 0 st4_byte] assms(2) len by (auto intro: sorted_by_pos)
  have order: "sort_key ?high s1 = st_order x"
    unfolding s1_def st_order_def by (subst sort_key_twice [where N = 65536]) simp_all
  have out: "out3 = map ((!) x) (st_order x)"
    unfolding out3 ctx_def sort_key_map high order by (simp add: st4_entry_parts)
  have FBP: "C2 ! st4_high (ctx ! F) = sort_pos ?high s1 F"
    using reached_pos [OF r3] Fn(1) len by (simp add: ctx_def sort_pos_map high)
  have enc: "GRZip_ST4_Encode x buf = (C2 ! st4_high (ctx ! F), out3)"
    unfolding GRZip_ST4_Encode_def Let_def window_start [OF assms(1)] win st4_pairs_before_def [symmetric] C_def [symmetric]
      W_def [symmetric] F_def [symmetric] p1 ctx1 split_conv p2 p3 by simp
  show thesis
    using sort_key_pos [of F s1 ?high] Fn len order by (intro that [OF enc [unfolded out FBP]]) simp_all
qed

end
