(* ===== verification/Grz_ST4_Decode.thy ===== *)
theory Grz_ST4_Decode
  imports Grz_ST4 Grz_Codes
begin

text \<open>
  The decoder of \<^verbatim>\<open>GRZip/ST4.c\<close>.  From the block alone it rebuilds where the groups of equal contexts of
  one, two and three bytes start; then every byte of the block gets an entry that leads to the start
  of the group of its successor, either directly or through the first entry that leads to the same
  group.  The last loop follows the entries and counts up the starts, so that it meets the bytes of a
  group in the order of their positions.
\<close>

section \<open>The decoder\<close>

definition ST_SetBit :: "nat \<Rightarrow> byte list \<Rightarrow> byte list" where
  "ST_SetBit Bit Flag = Flag[Bit div 8 := Flag ! (Bit div 8) OR push_bit (Bit mod 8) 1]"

definition ST_GetBit :: "byte list \<Rightarrow> nat \<Rightarrow> bool" where
  "ST_GetBit Flag Bit \<longleftrightarrow> Flag ! (Bit div 8) AND push_bit (Bit mod 8) 1 \<noteq> 0"

text \<open>
  The loop over the values of the last context byte: \<^verbatim>\<open>T\<close> turns from counts into starts, and every byte of
  the group is counted as a pair with that value.  \<^verbatim>\<open>rest\<close> is the block from position \<^verbatim>\<open>j\<close> on.
\<close>

definition st4_count_pair :: "nat \<Rightarrow> byte \<Rightarrow> nat list \<Rightarrow> nat list" where
  "st4_count_pair i c Context2 = (let p = 256 * unat c + i in Context2[p := Context2 ! p + 1])"

fun st4_order1 :: "nat list \<Rightarrow> nat \<Rightarrow> nat \<Rightarrow> byte list \<Rightarrow> nat list \<Rightarrow> nat list \<times> nat list" where
  "st4_order1 [] i Acc rest Context2 = ([], Context2)"
| "st4_order1 (t # T) i Acc rest Context2 =
     (let Context2 = fold (st4_count_pair i) (take t rest) Context2;
          (T, Context2) = st4_order1 T (i + 1) (Acc + t) (drop t rest) Context2
      in (Acc # T, Context2))"

text \<open>
  The loop over the groups of two bytes, which marks the first successor of every byte in a group: there
  starts a group of three bytes.
\<close>

definition st4_mark :: "nat \<Rightarrow> byte \<Rightarrow> int list \<times> nat list \<times> byte list \<Rightarrow> int list \<times> nat list \<times> byte list" where
  "st4_mark CStart c = (\<lambda>(LastSeen, T, Flag).
     if LastSeen ! unat c \<noteq> int CStart
     then (LastSeen[unat c := int CStart], T[unat c := T ! unat c + 1], ST_SetBit (T ! unat c) Flag)
     else (LastSeen, T[unat c := T ! unat c + 1], Flag))"

fun st4_groups :: "nat list \<Rightarrow> nat \<Rightarrow> byte list \<Rightarrow> int list \<times> nat list \<times> byte list \<Rightarrow> int list \<times> nat list \<times> byte list" where
  "st4_groups [] Acc rest st = st"
| "st4_groups (m # Context2) Acc rest st =
     st4_groups Context2 (Acc + m) (drop m rest) (fold (st4_mark Acc) (take m rest) st)"

text \<open>The loop that fills \<^verbatim>\<open>Table\<close>.\<close>

fun st4_table :: "byte list \<Rightarrow> nat \<Rightarrow> byte list \<Rightarrow> nat \<Rightarrow> nat list \<Rightarrow> nat list \<Rightarrow> u32 list \<Rightarrow> u32 list" where
  "st4_table Flag i [] CStart LastSeen S Table = Table"
| "st4_table Flag i (c # Input) CStart LastSeen S Table =
     (let CStart = (if ST_GetBit Flag i then i else CStart);
          (entry, LastSeen) =
            (if LastSeen ! unat c \<le> CStart then (of_nat (S ! unat c), LastSeen[unat c := i + 1])
             else (of_nat (LastSeen ! unat c - 1) OR ST_INDIRECT, LastSeen))
      in st4_table Flag (i + 1) Input CStart LastSeen (S[unat c := S ! unat c + 1])
           (Table @ [entry OR push_bit 24 (ucast c)]))"

text \<open>The last loop; \<^verbatim>\<open>Acc\<close> (\<^verbatim>\<open>Sum\<close> in the code) is the entry of the position \<^verbatim>\<open>j\<close> that was met last.\<close>

fun st4_walk :: "nat \<Rightarrow> u32 list \<Rightarrow> nat \<Rightarrow> u32 \<Rightarrow> byte list \<Rightarrow> byte list option" where
  "st4_walk 0 Table j Acc out = Some out"
| "st4_walk (Suc left) Table j Acc out =
     (let p = unat (Acc AND (ST_INDIRECT - 1))
      in if Acc AND ST_INDIRECT \<noteq> 0 then
           if p \<ge> length Table then None
           else
             let j = unat (Table ! p AND (ST_INDIRECT - 1)); Table = Table[p := Table ! p + 1]
             in if j \<ge> length Table then None
                else st4_walk left Table j (Table ! j) (out @ [ucast (drop_bit 24 (Table ! j))])
         else
           let Table = Table[j := Table ! j + 1]; j = p
           in if j \<ge> length Table then None
              else st4_walk left Table j (Table ! j) (out @ [ucast (drop_bit 24 (Table ! j))]))"

definition GRZip_ST4_Decode :: "byte list \<Rightarrow> nat \<Rightarrow> byte list option" where
  "GRZip_ST4_Decode Input FBP =
     (let Size = length Input;
          T = fold (\<lambda>c T. T[unat c := T ! unat c + 1]) Input (replicate ST_MaxByte 0);
          (S, Context2) = st4_order1 T 0 0 Input (replicate ST_MaxWord 0);
          (_, _, Flag) = st4_groups Context2 0 Input (replicate ST_MaxByte (- 1), S, replicate ((Size + 8) div 8) 0);
          Table = st4_table Flag 0 Input 0 (replicate ST_MaxByte 0) S [] @ [ST_INDIRECT]
      in if FBP \<ge> length Table then None else st4_walk Size Table FBP (Table ! FBP) [])"

section \<open>Bits and entries\<close>

lemma and_bit: "(w :: 'a::len word) AND push_bit k 1 \<noteq> 0 \<longleftrightarrow> bit w k"
proof -
  have "w AND push_bit k 1 = (if bit w k then push_bit k 1 else 0)"
    by (rule bit_eqI) (auto simp: bit_simps)
  moreover have "bit w k \<Longrightarrow> push_bit k (1 :: 'a word) \<noteq> 0"
    by (metis bit_imp_le_length bit_push_bit_iff bit_1_iff bit_0_eq bot_apply bot_bool_def diff_self_eq_0 le_refl possible_bit_word)
  ultimately show ?thesis
    by auto
qed

lemma get_set_bit:
  assumes "b div 8 < length Flag"
  shows "ST_GetBit (ST_SetBit b Flag) b' \<longleftrightarrow> b' = b \<or> ST_GetBit Flag b'"
proof (cases "b' div 8 = b div 8")
  case True
  have "bit (push_bit (b mod 8) 1 :: byte) (b' mod 8) \<longleftrightarrow> b' mod 8 = b mod 8"
    by (auto simp: bit_simps)
  moreover have "b' mod 8 = b mod 8 \<longleftrightarrow> b' = b"
    using True by (metis div_mult_mod_eq)
  ultimately show ?thesis
    using assms True unfolding ST_GetBit_def ST_SetBit_def and_bit True by (auto simp: bit_or_iff)
next
  case False
  then show ?thesis
    using assms by (auto simp: ST_GetBit_def ST_SetBit_def)
qed

lemma length_ST_SetBit [simp]: "length (ST_SetBit b Flag) = length Flag"
  by (simp add: ST_SetBit_def)

text \<open>An entry as a number: the byte, the flag of an indirect entry, and a position.\<close>

definition st_num :: "byte \<Rightarrow> bool \<Rightarrow> nat \<Rightarrow> nat" where
  "st_num c ind v = 2 ^ 24 * unat c + (2 ^ 23 * of_bool ind + v)"

lemma st_num_bound: "v < 2 ^ 23 \<Longrightarrow> st_num c ind v < 2 ^ 32"
  using byte_bound [of c] by (auto simp: st_num_def)

lemma st_num_words:
  assumes "v < 2 ^ 23"
  shows "of_nat v OR push_bit 24 (ucast c) = (of_nat (st_num c False v) :: u32)"
    "(of_nat v OR ST_INDIRECT) OR push_bit 24 (ucast c) = (of_nat (st_num c True v) :: u32)"
proof -
  have "of_nat v OR ST_INDIRECT = (of_nat (2 ^ 23 + v) :: u32)"
    using word_or_low [OF assms, of 1] by (simp add: ST_INDIRECT_def or.commute)
  moreover have "v < 2 ^ 24" "2 ^ 23 + v < 2 ^ 24"
    using assms by simp_all
  ultimately show "of_nat v OR push_bit 24 (ucast c) = (of_nat (st_num c False v) :: u32)"
    "(of_nat v OR ST_INDIRECT) OR push_bit 24 (ucast c) = (of_nat (st_num c True v) :: u32)"
    using word_or_low [of v 24 "unat c"] word_or_low [of "2 ^ 23 + v" 24 "unat c"]
    unfolding byte_as_nat by (simp_all only: or.commute st_num_def of_bool_eq mult_0_right mult_1_right add_0)
qed

lemma st_num_parts:
  fixes c :: byte and ind :: bool and v :: nat
  assumes "v < 2 ^ 23"
  defines "w \<equiv> of_nat (st_num c ind v) :: u32"
  shows "ucast (drop_bit 24 w) = c" "w AND ST_INDIRECT \<noteq> 0 \<longleftrightarrow> ind" "unat (w AND (ST_INDIRECT - 1)) = v"
    "v + 1 < 2 ^ 23 \<Longrightarrow> w + 1 = of_nat (st_num c ind (v + 1))"
proof -
  have w: "unat w = st_num c ind v"
    using st_num_bound [OF assms(1)] unfolding w_def by (rule unat_of_nat_u32)
  have "st_num c ind v div 2 ^ 24 = unat c"
    using assms(1) by (cases ind) (simp_all add: st_num_def)
  then have "unat (drop_bit 24 w) = unat c"
    by (simp add: unat_drop_bit w)
  then have "unat (ucast (drop_bit 24 w) :: byte) = unat c"
    using byte_bound [of c] by (simp add: unat_ucast_byte)
  then show "ucast (drop_bit 24 w) = c"
    by (simp add: word_unat_eq_iff)
  have ind: "ST_INDIRECT = push_bit 23 1"
    by (simp add: ST_INDIRECT_def)
  have "bit w 23 \<longleftrightarrow> ind"
  proof -
    have "bit w 23 \<longleftrightarrow> odd (st_num c ind v div 2 ^ 23)"
      unfolding w [symmetric] bit_iff_odd [symmetric] by (simp add: bit_unsigned_iff)
    also have "st_num c ind v div 2 ^ 23 = 2 * unat c + of_bool ind"
    proof -
      have "st_num c ind v = 2 ^ 23 * (2 * unat c + of_bool ind) + v"
        by (simp add: st_num_def)
      then show ?thesis
        using assms(1) by simp
    qed
    finally show ?thesis
      by simp
  qed
  then show "w AND ST_INDIRECT \<noteq> 0 \<longleftrightarrow> ind"
    unfolding ind and_bit .
  have "w AND (ST_INDIRECT - 1) = take_bit 23 w"
    by (simp add: ST_INDIRECT_def take_bit_eq_mask mask_eq_exp_minus_1)
  then have "unat (w AND (ST_INDIRECT - 1)) = unat w mod 2 ^ 23"
    unfolding take_bit_eq_mod [symmetric] by (simp only: unsigned_take_bit_eq)
  also have "\<dots> = v"
  proof -
    have "st_num c ind v = 2 ^ 23 * (2 * unat c + of_bool ind) + v"
      by (simp add: st_num_def)
    moreover have "(2 ^ 23 * q + v) mod 2 ^ 23 = v" for q :: nat
      using assms(1) by simp
    ultimately show ?thesis
      by (simp only: w)
  qed
  finally show "unat (w AND (ST_INDIRECT - 1)) = v" .
  show "w + 1 = of_nat (st_num c ind (v + 1))"
    by (simp add: w_def st_num_def)
qed

section \<open>The groups of the sorted block\<close>

text \<open>
  \<^verbatim>\<open>st_start x k u\<close> is the place where the contexts of \<^verbatim>\<open>k\<close> bytes reach \<^verbatim>\<open>u\<close>; \<^verbatim>\<open>st_block x\<close> is the sorted block.
\<close>

definition st_block :: "byte list \<Rightarrow> byte list" where "st_block x = map ((!) x) (st_order x)"

definition st_start :: "byte list \<Rightarrow> nat \<Rightarrow> nat \<Rightarrow> nat" where
  "st_start x k u = lower (st_key x k) u [0..<length x]"

definition st_count :: "byte list \<Rightarrow> nat \<Rightarrow> nat \<Rightarrow> nat" where
  "st_count x c j = same unat c (take j (st_block x))"

lemma st_order_props [simp]:
  "mset (st_order x) = mset [0..<length x]" "length (st_order x) = length x" "set (st_order x) = {..<length x}"
  by (auto simp: st_order_def)

lemma length_filter_mset: "mset xs = mset ys \<Longrightarrow> length (filter P xs) = length (filter P ys)"
  by (metis mset_filter size_mset)

lemma st_order_nth: "r < length x \<Longrightarrow> st_order x ! r < length x"
  using nth_mem [of r "st_order x"] by simp

lemma length_st_block [simp]: "length (st_block x) = length x"
  by (simp add: st_block_def)

lemma st_block_nth: "r < length x \<Longrightarrow> st_block x ! r = x ! (st_order x ! r)"
  by (simp add: st_block_def)

lemma st_key_fun:
  "st_key x (Suc k) = (\<lambda>i. 256 ^ k * unat (x ! prv (length x) i) + st_key x k (prv (length x) i))"
  "st_key x 1 = (\<lambda>i. unat (x ! prv (length x) i))"
  by (rule ext, simp)+

lemma st_key_le4: "j \<le> k \<Longrightarrow> st_key x j p = st_key x k p div 256 ^ (k - j)"
proof (induction k)
  case (Suc k)
  show ?case
  proof (cases "j = Suc k")
    case False
    then have "st_key x j p = st_key x (Suc k) p div 256 div 256 ^ (k - j)"
      using Suc by (simp only: st_key_div)
    then show ?thesis
      using False Suc.prems by (simp add: div_mult2_eq Suc_diff_le del: st_key.simps)
  qed simp
qed simp

lemma st_sorted: "k \<le> 4 \<Longrightarrow> sorted (map (st_key x k) (st_order x))"
proof -
  assume "k \<le> 4"
  then have k: "st_key x k p = st_key x 4 p div 256 ^ (4 - k)" for p
    by (rule st_key_le4)
  have "sorted (map (st_key x 4) (st_order x))"
    by (simp add: st_order_def)
  then show ?thesis
    unfolding sorted_map by (rule sorted_wrt_mono_rel [rotated]) (simp add: k div_le_mono)
qed

lemma st_start_below: "k \<le> 4 \<Longrightarrow> r < length x \<Longrightarrow> st_key x k (st_order x ! r) < u \<longleftrightarrow> r < st_start x k u"
  using sorted_nth_below [OF st_sorted, of k r x u] lower_mset [of "st_order x" "[0..<length x]" "st_key x k" u]
  by (simp add: st_start_def)

lemma st_start_le: "st_start x k u \<le> length x"
  unfolding st_start_def lower_def by (metis diff_zero length_filter_le length_upt)

lemma st_start_Suc: "st_start x k (Suc u) = st_start x k u + same (st_key x k) u [0..<length x]"
  by (simp add: st_start_def lower_Suc)

lemma st_start_mono: "u \<le> v \<Longrightarrow> st_start x k u \<le> st_start x k v"
  by (simp add: st_start_def lower_mono)

lemma st_start_0 [simp]: "st_start x k 0 = 0"
  by (simp add: st_start_def lower_def)

lemma lower_pair:
  fixes f g :: "'a \<Rightarrow> nat"
  assumes "\<And>y. y \<in> set ys \<Longrightarrow> g y < N" "u \<le> N"
  shows "lower (\<lambda>y. N * f y + g y) (N * c + u) ys = lower f c ys + length (filter (\<lambda>y. f y = c \<and> g y < u) ys)"
  using assms(1)
proof (induction ys)
  case (Cons y ys)
  have g: "g y < N"
    using Cons.prems by simp
  have "N * f y + g y < N * c + u \<longleftrightarrow> f y < c \<or> f y = c \<and> g y < u"
  proof (cases "f y" c rule: linorder_cases)
    case less
    then have "N * (f y + 1) \<le> N * c"
      by (intro mult_le_mono2) simp
    then show ?thesis
      using less g by simp
  next
    case greater
    then have "N * (c + 1) \<le> N * f y"
      by (intro mult_le_mono2) simp
    then show ?thesis
      using greater assms(2) by simp
  qed simp
  then show ?case
    using Cons by auto
qed simp

text \<open>The start of a group from the start of the group of one byte less: the step of the transform.\<close>

lemma st_start_step:
  assumes "0 < length x" "k \<le> 3" "u \<le> 256 ^ k"
  shows "st_start x (Suc k) (256 ^ k * c + u) = st_start x 1 c + st_count x c (st_start x k u)"
proof -
  let ?n = "length x"
  have "st_start x (Suc k) (256 ^ k * c + u) = lower (\<lambda>p. 256 ^ k * unat (x ! p) + st_key x k p) (256 ^ k * c + u) [0..<?n]"
    unfolding st_start_def st_key_fun
    by (rule lower_prv [OF assms(1), of "\<lambda>p. 256 ^ k * unat (x ! p) + st_key x k p"])
  also have "\<dots> = lower (\<lambda>p. unat (x ! p)) c [0..<?n] + length (filter (\<lambda>p. unat (x ! p) = c \<and> st_key x k p < u) [0..<?n])"
    using assms(3) by (intro lower_pair) (simp_all add: st_key_bound)
  also have "lower (\<lambda>p. unat (x ! p)) c [0..<?n] = st_start x 1 c"
    unfolding st_start_def st_key_fun(2) by (rule lower_prv [OF assms(1), of "\<lambda>p. unat (x ! p)", symmetric])
  also have "length (filter (\<lambda>p. unat (x ! p) = c \<and> st_key x k p < u) [0..<?n]) =
      length (filter (\<lambda>p. unat (x ! p) = c \<and> st_key x k p < u) (st_order x))"
    by (rule length_filter_mset) simp
  also have "\<dots> = length (filter (\<lambda>p. unat (x ! p) = c) (filter (\<lambda>p. st_key x k p < u) (st_order x)))"
    unfolding filter_filter by (intro arg_cong [where f = length] filter_cong) auto
  also have "filter (\<lambda>p. st_key x k p < u) (st_order x) = take (st_start x k u) (st_order x)"
  proof -
    have "sorted (map (st_key x k) (st_order x))"
      using assms(2) by (intro st_sorted) simp
    then have "filter (\<lambda>p. st_key x k p < u) (st_order x) = takeWhile (\<lambda>p. st_key x k p < u) (st_order x)"
      by (rule sorted_filter_below)
    moreover from this have "length (takeWhile (\<lambda>p. st_key x k p < u) (st_order x)) = st_start x k u"
      using lower_mset [of "st_order x" "[0..<?n]" "st_key x k" u] by (simp add: st_start_def lower_def)
    ultimately show ?thesis
      by (metis takeWhile_eq_take)
  qed
  also have "length (filter (\<lambda>p. unat (x ! p) = c) (take (st_start x k u) (st_order x))) = st_count x c (st_start x k u)"
    by (simp add: st_count_def st_block_def same_def take_map filter_map o_def)
  finally show ?thesis .
qed

lemma st_count_Suc: "j < length x \<Longrightarrow> st_count x c (Suc j) = st_count x c j + of_bool (unat (st_block x ! j) = c)"
  by (simp add: st_count_def take_Suc_conv_app_nth)

lemma st_count_same: "j \<le> j' \<Longrightarrow> j' \<le> length x \<Longrightarrow> (\<And>f. j \<le> f \<Longrightarrow> f < j' \<Longrightarrow> unat (st_block x ! f) \<noteq> c) \<Longrightarrow>
  st_count x c j' = st_count x c j"
  by (induction j' rule: dec_induct) (simp_all add: st_count_Suc)

lemma st_count_all:
  assumes "0 < length x"
  shows "st_count x c (length x) = st_start x 1 (Suc c) - st_start x 1 c"
proof -
  have "st_count x c (length x) = same (\<lambda>p. unat (x ! p)) c (st_order x)"
    by (simp add: st_count_def st_block_def)
  also have "\<dots> = same (\<lambda>p. unat (x ! p)) c [0..<length x]"
    by (intro same_mset) simp
  also have "\<dots> = same (st_key x 1) c [0..<length x]"
    unfolding st_key_fun(2) by (rule same_prv [OF assms, of "\<lambda>p. unat (x ! p)", symmetric])
  finally show ?thesis
    by (simp add: st_start_Suc)
qed

lemma st_place_less:
  assumes "r < length x"
  shows "st_start x 1 (unat (st_block x ! r)) + st_count x (unat (st_block x ! r)) r < length x"
proof -
  let ?c = "unat (st_block x ! r)"
  have "st_count x ?c r < st_count x ?c (length x)"
    using assms same_take_less [of r "length x" "st_block x" unat ?c] by (simp add: st_count_def)
  then show ?thesis
    using st_count_all [of x ?c] assms st_start_le [of x 1 "Suc ?c"] by (cases "x = []") simp_all
qed

section \<open>The starts of the groups of one and two bytes\<close>

lemma count_bytes:
  assumes "length T = 256"
  shows "length (fold (\<lambda>c T. T[unat c := T ! unat c + 1]) bs T) = 256"
    "k < 256 \<Longrightarrow> fold (\<lambda>c T. T[unat (c :: byte) := T ! unat c + 1]) bs T ! k = T ! k + same unat k bs"
  using assms by (induction bs arbitrary: T) (auto simp: nth_list_update)

lemma order1_starts: "fst (st4_order1 T i Acc rest C) = group_starts Acc T"
  by (induction T i Acc rest C rule: st4_order1.induct) (simp_all add: Let_def case_prod_unfold)

lemma count_pairs:
  assumes "length C = 65536" "i < 256"
  shows "length (fold (st4_count_pair i) bs C) = 65536"
    "k < 65536 \<Longrightarrow> fold (st4_count_pair i) bs C ! k = C ! k + same (\<lambda>c. 256 * unat c + i) k bs"
proof -
  have "256 * unat c + i < 65536" for c :: byte
    using byte_bound [of c] assms(2) by simp
  then show "length (fold (st4_count_pair i) bs C) = 65536"
    "k < 65536 \<Longrightarrow> fold (st4_count_pair i) bs C ! k = C ! k + same (\<lambda>c. 256 * unat c + i) k bs"
    using assms(1) by (induction bs arbitrary: C) (auto simp: st4_count_pair_def Let_def nth_list_update)
qed

lemma st_start_all: "k \<le> 4 \<Longrightarrow> st_start x k (256 ^ k) = length x"
proof -
  have "filter (\<lambda>y. st_key x k y < 256 ^ k) [0..<length x] = [0..<length x]"
    by (simp add: st_key_bound)
  then show ?thesis
    by (simp add: st_start_def lower_def)
qed

lemma st_group: "k \<le> 4 \<Longrightarrow> st_start x k g \<le> r \<Longrightarrow> r < st_start x k (Suc g) \<Longrightarrow> st_key x k (st_order x ! r) = g"
  using st_start_below [of k r x g] st_start_below [of k r x "Suc g"] st_start_le [of x k "Suc g"] by simp

lemma same_cong: "(\<And>y. y \<in> set ys \<Longrightarrow> f y = g y) \<Longrightarrow> same f k ys = same g k ys"
  by (induction ys) auto

lemma block_segment: "j \<le> length x \<Longrightarrow> take (j - i) (drop i (st_block x)) = map ((!) (st_block x)) [i..<j]"
  by (rule nth_equalityI) auto

definition succ_key :: "byte list \<Rightarrow> nat \<Rightarrow> nat \<Rightarrow> nat" where
  "succ_key x k r = 256 ^ k * unat (st_block x ! r) + st_key x k (st_order x ! r)"

lemma order1_pairs:
  assumes "i \<le> 256" "T = drop i T0" "length T0 = 256" "\<And>j. j < 256 \<Longrightarrow> st_start x 1 j + T0 ! j = st_start x 1 (Suc j)"
    "length C = 65536" "k < 65536"
  shows "snd (st4_order1 T i Acc (drop (st_start x 1 i) (st_block x)) C) ! k =
    C ! k + same (succ_key x 1) k [st_start x 1 i..<length x] \<and>
    length (snd (st4_order1 T i Acc (drop (st_start x 1 i) (st_block x)) C)) = 65536"
  using assms
proof (induction T arbitrary: i Acc C)
  case Nil
  then have "i = 256"
    by simp
  then show ?case
    using st_start_all [of 1 x] Nil by simp
next
  case (Cons t T)
  then have i: "i < 256" "t = T0 ! i" "T = drop (Suc i) T0"
    by (metis drop_eq_Nil list.distinct(1) not_le, metis nth_via_drop, metis drop_Suc list.sel(3) tl_drop)
  let ?s = "st_start x 1 i" and ?s' = "st_start x 1 (Suc i)"
  have s': "?s + t = ?s'" "?s' \<le> length x" "?s \<le> ?s'"
    using Cons.prems(4) [of i] i st_start_le [of x 1 "Suc i"] by auto
  have seg: "take t (drop ?s (st_block x)) = map ((!) (st_block x)) [?s..<?s']"
    using block_segment [OF s'(2), of ?s] s'(1) by (metis add_diff_cancel_left')
  define C1 where "C1 = fold (st4_count_pair i) (map ((!) (st_block x)) [?s..<?s']) C"
  have "same (\<lambda>r. 256 * unat (st_block x ! r) + i) k [?s..<?s'] = same (succ_key x 1) k [?s..<?s']"
    using st_group [of 1 x i] by (intro same_cong) (simp add: succ_key_def)
  then have cnt1: "length C1 = 65536" "C1 ! k = C ! k + same (succ_key x 1) k [?s..<?s']"
    using count_pairs [OF Cons.prems(5) i(1)] Cons.prems(6) by (simp_all add: C1_def)
  have "[?s..<length x] = [?s..<?s'] @ [?s'..<length x]"
    using s' by (metis le_iff_add upt_add_eq_append)
  moreover have "drop t (drop ?s (st_block x)) = drop ?s' (st_block x)"
    using s'(1) by (simp add: add.commute)
  then have "snd (st4_order1 (t # T) i Acc (drop ?s (st_block x)) C) = snd (st4_order1 T (Suc i) (Acc + t) (drop ?s' (st_block x)) C1)"
    unfolding st4_order1.simps seg C1_def [symmetric] Let_def case_prod_unfold by simp
  ultimately show ?case
    using Cons.IH [of "Suc i" C1 "Acc + t"] cnt1 i(1,3) Cons.prems(3,4,6) by (simp del: One_nat_def)
qed

lemma succ_key_counts:
  assumes "0 < length x"
  shows "same (succ_key x k) c [0..<length x] = same (st_key x (Suc k)) c [0..<length x]"
proof -
  let ?f = "\<lambda>p. 256 ^ k * unat (x ! p) + st_key x k p"
  have "same (succ_key x k) c [0..<length x] = same (\<lambda>r. ?f (st_order x ! r)) c [0..<length x]"
    by (intro same_cong) (simp add: succ_key_def st_block_nth)
  also have "\<dots> = same ?f c (map ((!) (st_order x)) [0..<length x])"
    by simp
  also have "map ((!) (st_order x)) [0..<length x] = st_order x"
    by (metis map_nth st_order_props(2))
  also have "same ?f c (st_order x) = same ?f c [0..<length x]"
    by (intro same_mset) simp
  also have "\<dots> = same (st_key x (Suc k)) c [0..<length x]"
    unfolding st_key_fun by (rule same_prv [OF assms, symmetric])
  finally show ?thesis .
qed

lemma succ_key_range:
  assumes "0 < length x"
  shows "succ_key x k ` {..<length x} = st_key x (Suc k) ` {..<length x}"
proof -
  let ?f = "\<lambda>p. 256 ^ k * unat (x ! p) + st_key x k p"
  have "succ_key x k ` {..<length x} = ?f ` ((!) (st_order x) ` {..<length x})"
    by (auto simp: image_image succ_key_def st_block_nth)
  also have "(!) (st_order x) ` {..<length x} = {..<length x}"
    by (metis atLeast0LessThan set_map set_upt map_nth st_order_props(2,3))
  also have "?f ` {..<length x} = ?f ` (prv (length x) ` {..<length x})"
    using arg_cong [OF prv_permutes [OF assms], of set_mset] by (simp add: atLeast0LessThan)
  also have "\<dots> = st_key x (Suc k) ` {..<length x}"
    unfolding st_key_fun by (rule image_image)
  finally show ?thesis .
qed

text \<open>The first two loops of the decoder.\<close>

lemma decode_starts:
  assumes "0 < length x"
  defines "T \<equiv> fold (\<lambda>c T. T[unat c := T ! unat c + 1]) (st_block x) (replicate ST_MaxByte 0)"
  obtains S C where "st4_order1 T 0 0 (st_block x) (replicate ST_MaxWord 0) = (S, C)"
    "length S = 256" "\<And>c. c < 256 \<Longrightarrow> S ! c = st_start x 1 c"
    "length C = 65536" "\<And>g. g < 65536 \<Longrightarrow> st_start x 2 g + C ! g = st_start x 2 (Suc g)"
proof -
  obtain S C where SC: "st4_order1 T 0 0 (st_block x) (replicate ST_MaxWord 0) = (S, C)"
    by fastforce
  have T: "length T = 256" "\<And>c. c < 256 \<Longrightarrow> T ! c = same unat c (st_block x)"
    using count_bytes [where T = "replicate 256 0" and bs = "st_block x"] by (simp_all add: T_def ST_MaxByte_def)
  have count: "same unat c (st_block x) = st_start x 1 (Suc c) - st_start x 1 c" for c
    using st_count_all [OF assms(1), of c] by (simp add: st_count_def)
  have T1: "st_start x 1 c + T ! c = st_start x 1 (Suc c)" if "c < 256" for c
    using T(2) [OF that] count [of c] st_start_mono [of c "Suc c" x 1] by simp
  have "S ! c = lower unat c (st_block x)" if "c < 256" for c
    using group_starts_lower [of T unat "st_block x" c] T that order1_starts [of T 0 0 "st_block x" "replicate ST_MaxWord 0"] SC
    by simp
  moreover have "lower unat c (st_block x) = st_start x 1 c" for c
  proof (induction c)
    case 0
    show ?case
      by (simp add: lower_def)
  next
    case (Suc c)
    then show ?case
      using count [of c] st_start_mono [of c "Suc c" x 1] by (simp add: lower_Suc)
  qed
  ultimately have S: "S ! c = st_start x 1 c" if "c < 256" for c
    using that by simp
  have "length S = 256"
    using order1_starts [of T 0 0 "st_block x" "replicate ST_MaxWord 0"] SC T(1) by (metis fst_conv length_group_starts)
  moreover have "length C = 65536" "st_start x 2 g + C ! g = st_start x 2 (Suc g)" if "g < 65536" for g
    using order1_pairs [of 0 T T x "replicate ST_MaxWord 0" g 0] T(1) T1 that SC succ_key_counts [OF assms(1), of 1 g]
      st_start_Suc [of x 2 g] by (simp_all add: ST_MaxWord_def numeral_2_eq_2)
  ultimately show thesis
    using that [OF SC _ S] by (metis zero_less_numeral)
qed

section \<open>The marks\<close>

text \<open>
  Inside a group that starts at \<^verbatim>\<open>s\<close>, after the bytes up to \<^verbatim>\<open>j\<close>: \<^verbatim>\<open>M\<close> holds the marks of the groups before.
\<close>

definition st_marks :: "byte list \<Rightarrow> nat \<Rightarrow> nat \<Rightarrow> nat set" where
  "st_marks x s j = (\<lambda>f. st_start x 1 (unat (st_block x ! f)) + st_count x (unat (st_block x ! f)) s) ` {s..<j}"

definition mark_inv :: "byte list \<Rightarrow> nat \<Rightarrow> nat \<Rightarrow> nat set \<Rightarrow> int list \<times> nat list \<times> byte list \<Rightarrow> bool" where
  "mark_inv x s j M = (\<lambda>(LastSeen, T, Flag). length LastSeen = 256 \<and> length T = 256 \<and> length x div 8 < length Flag \<and>
     (\<forall>c < 256. T ! c = st_start x 1 c + st_count x c j) \<and>
     (\<forall>c < 256. if \<exists>f \<in> {s..<j}. unat (st_block x ! f) = c then LastSeen ! c = int s else LastSeen ! c < int s) \<and>
     (\<forall>b < length x. ST_GetBit Flag b \<longleftrightarrow> b \<in> M \<or> b \<in> st_marks x s j))"

lemma st_marks_Suc: "s \<le> j \<Longrightarrow> st_marks x s (Suc j) =
  insert (st_start x 1 (unat (st_block x ! j)) + st_count x (unat (st_block x ! j)) s) (st_marks x s j)"
  by (simp add: st_marks_def atLeastLessThanSuc)

lemma mark_step:
  assumes "mark_inv x s j M st" "s \<le> j" "j < length x"
  shows "mark_inv x s (Suc j) M (st4_mark s (st_block x ! j) st)"
proof -
  obtain LS T Flag where st: "st = (LS, T, Flag)"
    by (metis prod_cases3)
  let ?c = "unat (st_block x ! j)"
  have c: "?c < 256"
    by (rule byte_bound)
  have inv: "length LS = 256" "length T = 256" "length x div 8 < length Flag"
    "\<And>c. c < 256 \<Longrightarrow> T ! c = st_start x 1 c + st_count x c j"
    "\<And>c. c < 256 \<Longrightarrow> if \<exists>f \<in> {s..<j}. unat (st_block x ! f) = c then LS ! c = int s else LS ! c < int s"
    "\<And>b. b < length x \<Longrightarrow> ST_GetBit Flag b \<longleftrightarrow> b \<in> M \<or> b \<in> st_marks x s j"
    using assms(1) unfolding mark_inv_def st by auto
  have T': "T[?c := T ! ?c + 1] ! c = st_start x 1 c + st_count x c (Suc j)" if "c < 256" for c
    using inv(2,4) that assms(3) by (simp add: st_count_Suc nth_list_update)
  have LS': "if \<exists>f \<in> {s..<Suc j}. unat (st_block x ! f) = c then LS[?c := int s] ! c = int s else LS[?c := int s] ! c < int s"
    if "c < 256" for c
    using inv(1) inv(5) [OF that] c assms(2) by (auto simp: nth_list_update less_Suc_eq split: if_splits)
  show ?thesis
  proof (cases "LS ! ?c = int s")
    case True
    then obtain f where f: "s \<le> f" "f < j" "unat (st_block x ! f) = ?c"
      using inv(5) [OF c] by (auto split: if_splits)
    then have "st_start x 1 ?c + st_count x ?c s \<in> st_marks x s j"
      unfolding st_marks_def by (intro image_eqI [of _ _ f]) auto
    then have "st_marks x s (Suc j) = st_marks x s j"
      using assms(2) by (simp add: st_marks_Suc insert_absorb)
    moreover have upd: "LS[?c := int s] = LS"
      using True by (metis list_update_id)
    ultimately show ?thesis
      using True inv(1-3,6) T' LS' [unfolded upd] by (simp add: mark_inv_def st4_mark_def st)
  next
    case False
    then have no: "\<And>f. s \<le> f \<Longrightarrow> f < j \<Longrightarrow> unat (st_block x ! f) \<noteq> ?c"
      using inv(5) [OF c] by (auto split: if_splits)
    then have "st_count x ?c j = st_count x ?c s"
      using assms(2,3) by (intro st_count_same) auto
    moreover have "st_start x 1 ?c + st_count x ?c j < length x"
      using st_place_less [OF assms(3)] .
    ultimately have b: "T ! ?c = st_start x 1 ?c + st_count x ?c s" "T ! ?c div 8 < length Flag"
      using inv(3) inv(4) [OF c] div_le_mono [of "T ! ?c" "length x" 8] by auto
    have "ST_GetBit (ST_SetBit (T ! ?c) Flag) b \<longleftrightarrow> b \<in> M \<or> b \<in> st_marks x s (Suc j)" if "b < length x" for b
      using get_set_bit [OF b(2), of b] inv(6) [OF that] b(1) assms(2) by (auto simp: st_marks_Suc)
    then show ?thesis
      using False inv(1-3) T' LS' by (simp add: mark_inv_def st4_mark_def st)
  qed
qed

lemma mark_group:
  assumes "mark_inv x s s M st" "s + m \<le> length x"
  shows "mark_inv x s (s + m) M (fold (st4_mark s) (take m (drop s (st_block x))) st)"
  using assms(2)
proof (induction m)
  case (Suc m)
  have "take (Suc m) (drop s (st_block x)) = take m (drop s (st_block x)) @ [st_block x ! (s + m)]"
    using Suc.prems by (simp add: take_Suc_conv_app_nth)
  then show ?case
    using Suc mark_step [of x s "s + m" M "fold (st4_mark s) (take m (drop s (st_block x))) st"] by simp
qed (use assms in simp)

lemma mark_next: "mark_inv x s j M st \<Longrightarrow> s \<le> j \<Longrightarrow> mark_inv x j j (M \<union> st_marks x s j) st"
proof -
  assume inv: "mark_inv x s j M st" and sj: "s \<le> j"
  obtain LS T Flag where st: "st = (LS, T, Flag)"
    by (metis prod_cases3)
  have "LS ! c < int j" if "c < 256" for c
  proof (cases "\<exists>f \<in> {s..<j}. unat (st_block x ! f) = c")
    case True
    then have "s < j" "LS ! c = int s"
      using inv that unfolding mark_inv_def st by auto
    then show ?thesis
      by simp
  next
    case False
    then have "LS ! c < int s"
      using inv that unfolding mark_inv_def st by auto
    then show ?thesis
      using sj by simp
  qed
  then show ?thesis
    using inv unfolding mark_inv_def st by (auto simp: st_marks_def)
qed

lemma mark_groups:
  assumes "g \<le> 65536" "C = drop g C0" "length C0 = 65536" "\<And>g. g < 65536 \<Longrightarrow> st_start x 2 g + C0 ! g = st_start x 2 (Suc g)"
    "mark_inv x (st_start x 2 g) (st_start x 2 g) M st"
  shows "mark_inv x (length x) (length x) (M \<union> (\<Union>h \<in> {g..<65536}. st_marks x (st_start x 2 h) (st_start x 2 (Suc h))))
    (st4_groups C (st_start x 2 g) (drop (st_start x 2 g) (st_block x)) st)"
  using assms
proof (induction C arbitrary: g M st)
  case Nil
  then have "g = 65536"
    by simp
  then show ?case
    using st_start_all [of 2 x] Nil by simp
next
  case (Cons m C)
  then have g: "g < 65536" "m = C0 ! g" "C = drop (Suc g) C0"
    by (metis drop_eq_Nil list.distinct(1) not_le, metis nth_via_drop, metis drop_Suc list.sel(3) tl_drop)
  let ?s = "st_start x 2 g" and ?s' = "st_start x 2 (Suc g)"
  let ?st = "fold (st4_mark ?s) (take m (drop ?s (st_block x))) st"
  have s': "?s + m = ?s'" "?s \<le> ?s'" "?s' \<le> length x"
    using Cons.prems(4) [OF g(1)] g(2) st_start_mono [of g "Suc g" x 2] st_start_le [of x 2 "Suc g"] by simp_all
  have "mark_inv x ?s ?s' M ?st"
    using mark_group [OF Cons.prems(5), of m] s' by simp
  then have "mark_inv x ?s' ?s' (M \<union> st_marks x ?s ?s') ?st"
    using s'(2) by (rule mark_next)
  then have "mark_inv x (length x) (length x)
      (M \<union> st_marks x ?s ?s' \<union> (\<Union>h \<in> {Suc g..<65536}. st_marks x (st_start x 2 h) (st_start x 2 (Suc h))))
      (st4_groups C ?s' (drop ?s' (st_block x)) ?st)"
    using Cons.IH [of "Suc g" "M \<union> st_marks x ?s ?s'" ?st] g(1,3) Cons.prems(3,4) by simp
  moreover have "{g..<65536} = insert g {Suc g..<65536}"
    using g(1) by auto
  moreover have "drop m (drop ?s (st_block x)) = drop ?s' (st_block x)"
    using s'(1) by (simp add: add.commute)
  ultimately show ?case
    using s'(1) by (simp add: Un_assoc)
qed

text \<open>All marks: the starts of the groups of three bytes.\<close>

lemma all_marks:
  assumes "0 < length x"
  shows "(\<Union>h \<in> {0..<65536}. st_marks x (st_start x 2 h) (st_start x 2 (Suc h))) = st_start x 3 ` st_key x 3 ` {..<length x}"
proof -
  have "st_marks x (st_start x 2 h) (st_start x 2 (Suc h)) =
      (\<lambda>f. st_start x 3 (succ_key x 2 f)) ` {st_start x 2 h..<st_start x 2 (Suc h)}" if "h < 65536" for h
  proof -
    have "st_start x 1 c + st_count x c (st_start x 2 h) = st_start x 3 (256 ^ 2 * c + h)" for c
      using st_start_step [OF assms, of 2 h c] that by simp
    moreover have "succ_key x 2 f = 256 ^ 2 * unat (st_block x ! f) + h" if "f \<in> {st_start x 2 h..<st_start x 2 (Suc h)}" for f
      using st_group [of 2 x h f] that by (simp add: succ_key_def)
    ultimately show ?thesis
      unfolding st_marks_def by (intro image_cong) simp_all
  qed
  then have "(\<Union>h \<in> {0..<65536}. st_marks x (st_start x 2 h) (st_start x 2 (Suc h))) =
      (\<lambda>f. st_start x 3 (succ_key x 2 f)) ` (\<Union>h \<in> {0..<65536}. {st_start x 2 h..<st_start x 2 (Suc h)})"
    by (simp add: image_UN)
  also have "(\<Union>h \<in> {0..<65536}. {st_start x 2 h..<st_start x 2 (Suc h)}) = {..<length x}"
  proof (intro equalityI subsetI)
    fix f
    assume "f \<in> (\<Union>h \<in> {0..<65536}. {st_start x 2 h..<st_start x 2 (Suc h)})"
    then show "f \<in> {..<length x}"
      using st_start_le [of x 2] by (auto intro: less_le_trans)
  next
    fix f
    assume f: "f \<in> {..<length x}"
    let ?h = "st_key x 2 (st_order x ! f)"
    have "?h < 65536" "st_start x 2 ?h \<le> f" "f < st_start x 2 (Suc ?h)"
      using st_key_bound [of x 2 "st_order x ! f"] f st_start_below [of 2 f x ?h] st_start_below [of 2 f x "Suc ?h"] by simp_all
    then show "f \<in> (\<Union>h \<in> {0..<65536}. {st_start x 2 h..<st_start x 2 (Suc h)})"
      by (auto intro!: bexI [of _ ?h])
  qed
  also have "(\<lambda>f. st_start x 3 (succ_key x 2 f)) ` {..<length x} = st_start x 3 ` succ_key x 2 ` {..<length x}"
    by (simp add: image_image)
  also have "succ_key x 2 ` {..<length x} = st_key x 3 ` {..<length x}"
    using succ_key_range [OF assms, of 2] by simp
  finally show ?thesis .
qed

section \<open>The entries\<close>

text \<open>
  The first position whose successor has the same context as that of \<^verbatim>\<open>r\<close>, and the entry of \<^verbatim>\<open>r\<close> when the
  bytes before position \<^verbatim>\<open>m\<close> have been met.
\<close>

definition st_first :: "byte list \<Rightarrow> nat \<Rightarrow> nat" where
  "st_first x r = (LEAST f. succ_key x 3 f = succ_key x 3 r)"

definition st_ent :: "byte list \<Rightarrow> nat \<Rightarrow> nat \<Rightarrow> nat" where
  "st_ent x m r = st_num (st_block x ! r) (st_first x r \<noteq> r)
     (if st_first x r = r then st_start x 4 (succ_key x 3 r) + same (st_key x 4) (succ_key x 3 r) [0..<m] else st_first x r)"

lemma st_first_props:
  "st_first x r \<le> r" "succ_key x 3 (st_first x r) = succ_key x 3 r"
  "succ_key x 3 r = succ_key x 3 r' \<Longrightarrow> st_first x r = st_first x r'"
  unfolding st_first_def by (auto intro: Least_le LeastI)

lemma succ_key_eqD:
  assumes "succ_key x 3 r = succ_key x 3 r'"
  shows "st_block x ! r = st_block x ! r'" "st_key x 3 (st_order x ! r) = st_key x 3 (st_order x ! r')"
proof -
  have "succ_key x 3 r div 256 ^ 3 = unat (st_block x ! r)" "succ_key x 3 r mod 256 ^ 3 = st_key x 3 (st_order x ! r)" for r
    using st_key_bound [of x 3 "st_order x ! r"] by (simp_all add: succ_key_def)
  then have "unat (st_block x ! r) = unat (st_block x ! r')" "st_key x 3 (st_order x ! r) = st_key x 3 (st_order x ! r')"
    using assms by metis+
  then show "st_block x ! r = st_block x ! r'" "st_key x 3 (st_order x ! r) = st_key x 3 (st_order x ! r')"
    by (simp_all add: word_unat_eq_iff)
qed

definition group3 :: "byte list \<Rightarrow> nat \<Rightarrow> nat" where
  "group3 x r = st_start x 3 (st_key x 3 (st_order x ! r))"

lemma group3_le: "r < length x \<Longrightarrow> group3 x r \<le> r"
  using st_start_below [of 3 r x "st_key x 3 (st_order x ! r)"] by (simp add: group3_def)

lemma group3_key:
  assumes "f \<le> i" "i < length x" "group3 x i \<le> f"
  shows "st_key x 3 (st_order x ! f) = st_key x 3 (st_order x ! i)"
proof -
  have "st_key x 3 (st_order x ! i) \<le> st_key x 3 (st_order x ! f)"
    using assms st_start_below [of 3 f x "st_key x 3 (st_order x ! i)"] by (simp add: group3_def)
  moreover have "st_key x 3 (st_order x ! f) \<le> st_key x 3 (st_order x ! i)"
    using sorted_nth_mono [OF st_sorted [of 3 x], of f i] assms by simp
  ultimately show ?thesis
    by simp
qed

lemma new_group:
  assumes "i < length x" "CS \<le> i" "i \<noteq> 0 \<Longrightarrow> CS = group3 x (i - 1)"
    "flag \<longleftrightarrow> i \<in> st_start x 3 ` st_key x 3 ` {..<length x}"
  shows "(if flag then i else CS) = group3 x i"
proof (cases flag)
  case True
  then obtain q where q: "q < length x" "i = st_start x 3 (st_key x 3 q)"
    using assms(4) by auto
  then obtain r where r: "r < length x" "st_order x ! r = q"
    by (metis in_set_conv_nth lessThan_iff st_order_props(2,3))
  have "st_key x 3 q \<le> st_key x 3 (st_order x ! i)" "i \<le> r"
    using st_start_below [of 3 i x "st_key x 3 q"] st_start_below [of 3 r x "st_key x 3 q"] assms(1) q r by auto
  moreover from this have "st_key x 3 (st_order x ! i) \<le> st_key x 3 q"
    using sorted_nth_mono [OF st_sorted [of 3 x], of i r] r by simp
  ultimately show ?thesis
    using True q by (simp add: group3_def)
next
  case False
  have "group3 x i \<noteq> i"
  proof
    assume "group3 x i = i"
    then have "i \<in> st_start x 3 ` st_key x 3 ` {..<length x}"
      using st_order_nth [OF assms(1)] unfolding group3_def by (metis imageI lessThan_iff)
    then show False
      using False assms(4) by simp
  qed
  then have "group3 x i \<le> i - 1" "i \<noteq> 0"
    using group3_le [OF assms(1)] by auto
  then have "st_key x 3 (st_order x ! (i - 1)) = st_key x 3 (st_order x ! i)"
    using assms(1) by (intro group3_key) auto
  then show ?thesis
    using False assms(3) \<open>i \<noteq> 0\<close> by (simp add: group3_def)
qed

text \<open>After the entries up to \<^verbatim>\<open>i\<close>, in the group that starts at \<^verbatim>\<open>CS\<close>.\<close>

definition seen :: "byte list \<Rightarrow> nat \<Rightarrow> nat \<Rightarrow> nat list \<Rightarrow> bool" where
  "seen x CS i LastSeen \<longleftrightarrow> length LastSeen = 256 \<and>
     (\<forall>c < 256. (\<forall>f. CS \<le> f \<longrightarrow> f < i \<longrightarrow> unat (st_block x ! f) = c \<longrightarrow> LastSeen ! c = Suc (st_first x f)) \<and>
       ((\<forall>f. CS \<le> f \<longrightarrow> f < i \<longrightarrow> unat (st_block x ! f) \<noteq> c) \<longrightarrow> LastSeen ! c \<le> CS))"

lemma seen_new_group: "seen x CS i LS \<Longrightarrow> CS \<le> i \<Longrightarrow> seen x i i LS"
proof -
  assume *: "seen x CS i LS" "CS \<le> i"
  have "LS ! c \<le> i" if "c < 256" for c
  proof (cases "\<exists>f. CS \<le> f \<and> f < i \<and> unat (st_block x ! f) = c")
    case True
    then obtain f where f: "CS \<le> f" "f < i" "unat (st_block x ! f) = c"
      by auto
    then have "LS ! c = Suc (st_first x f)"
      using *(1) that by (simp add: seen_def)
    then show ?thesis
      using st_first_props(1) [of x f] f(2) by simp
  next
    case False
    then have "LS ! c \<le> CS"
      using * that by (auto simp: seen_def)
    then show ?thesis
      using *(2) by simp
  qed
  then show ?thesis
    using *(1) by (simp add: seen_def)
qed

lemma st_num_entry:
  assumes "length x < 2 ^ 23" "i < length x" "seen x (group3 x i) i LS" "length S = 256"
    "\<And>c. c < 256 \<Longrightarrow> S ! c = st_start x 1 c + st_count x c i"
  defines "c \<equiv> unat (st_block x ! i)"
  shows "LS ! c \<le> group3 x i \<Longrightarrow> of_nat (S ! c) OR push_bit 24 (ucast (st_block x ! i)) = (of_nat (st_ent x 0 i) :: u32)
      \<and> seen x (group3 x i) (Suc i) (LS[c := i + 1])" (is "?new \<Longrightarrow> _")
    "\<not> LS ! c \<le> group3 x i \<Longrightarrow>
      (of_nat (LS ! c - 1) OR ST_INDIRECT) OR push_bit 24 (ucast (st_block x ! i)) = (of_nat (st_ent x 0 i) :: u32)
      \<and> seen x (group3 x i) (Suc i) LS"
proof -
  let ?g = "group3 x i"
  have c: "c < 256"
    unfolding c_def by (rule byte_bound)
  have first_in: "?g \<le> st_first x f \<and> st_first x f = st_first x i"
    if "?g \<le> f" "f < i" "unat (st_block x ! f) = c" for f
  proof -
    have "st_key x 3 (st_order x ! f) = st_key x 3 (st_order x ! i)"
      using that assms(2) by (intro group3_key) auto
    then have eq: "succ_key x 3 f = succ_key x 3 i"
      using that(3) by (simp add: succ_key_def c_def)
    have "st_first x f \<le> f" "f < length x"
      using st_first_props(1) that(2) assms(2) by auto
    then have "st_first x f < length x"
      by simp
    moreover have "st_key x 3 (st_order x ! st_first x f) = st_key x 3 (st_order x ! i)"
      using succ_key_eqD(2) [OF st_first_props(2) [of x f]] eq succ_key_eqD(2) [OF eq] by simp
    ultimately have "?g \<le> st_first x f"
      using st_start_below [of 3 "st_first x f" x "st_key x 3 (st_order x ! i)"] by (simp add: group3_def)
    then show ?thesis
      using st_first_props(3) [OF eq] by simp
  qed
  show "of_nat (S ! c) OR push_bit 24 (ucast (st_block x ! i)) = (of_nat (st_ent x 0 i) :: u32)
      \<and> seen x (group3 x i) (Suc i) (LS[c := i + 1])" if new: "LS ! c \<le> ?g"
  proof -
    have none: "unat (st_block x ! f) \<noteq> c" if "?g \<le> f" "f < i" for f
      using assms(3) c new first_in [of f] that by (auto simp: seen_def)
    have self: "st_first x i = i"
    proof (rule ccontr)
      assume "st_first x i \<noteq> i"
      then have f: "st_first x i < i"
        using st_first_props(1) [of x i] by simp
      have "st_key x 3 (st_order x ! st_first x i) = st_key x 3 (st_order x ! i)"
        by (rule succ_key_eqD(2) [OF st_first_props(2)])
      then have "?g \<le> st_first x i"
        using st_start_below [of 3 "st_first x i" x "st_key x 3 (st_order x ! i)"] f assms(2) by (simp add: group3_def)
      then show False
        using none [of "st_first x i"] f succ_key_eqD(1) [OF st_first_props(2) [of x i]] by (simp add: c_def)
    qed
    have "st_count x c i = st_count x c ?g"
      using none group3_le [OF assms(2)] assms(2) by (intro st_count_same) auto
    moreover have "0 < length x"
      using assms(2) by (rule le_less_trans [OF le0])
    then have "st_start x 4 (succ_key x 3 i) = st_start x 1 c + st_count x c ?g"
      using st_start_step [of x 3 "st_key x 3 (st_order x ! i)" c] assms(2) st_key_bound [of x 3 "st_order x ! i"]
      by (simp add: succ_key_def c_def group3_def)
    ultimately have v: "S ! c = st_start x 4 (succ_key x 3 i)"
      using assms(5) [OF c] by simp
    have "S ! c < 2 ^ 23"
      using st_place_less [OF assms(2)] assms(1) assms(5) [OF c] by (simp add: c_def)
    then have "of_nat (S ! c) OR push_bit 24 (ucast (st_block x ! i)) = (of_nat (st_ent x 0 i) :: u32)"
      using st_num_words(1) [of "S ! c" "st_block x ! i"] self by (simp add: st_ent_def v)
    moreover have "seen x ?g (Suc i) (LS[c := i + 1])"
      using assms(3) self none c group3_le [OF assms(2)] unfolding seen_def
      by (auto simp: nth_list_update less_Suc_eq c_def)
    ultimately show ?thesis
      by simp
  qed
  show "(of_nat (LS ! c - 1) OR ST_INDIRECT) OR push_bit 24 (ucast (st_block x ! i)) = (of_nat (st_ent x 0 i) :: u32)
      \<and> seen x (group3 x i) (Suc i) LS" if old: "\<not> LS ! c \<le> ?g"
  proof -
    obtain f where f: "?g \<le> f" "f < i" "unat (st_block x ! f) = c"
      using assms(3) c old by (auto simp: seen_def)
    then have LS: "LS ! c = Suc (st_first x i)"
      using assms(3) c first_in [OF f] by (auto simp: seen_def)
    have "st_first x i \<noteq> i" "st_first x i < 2 ^ 23"
      using first_in [OF f] st_first_props(1) [of x f] f(2) assms(1,2) by auto
    then have "(of_nat (LS ! c - 1) OR ST_INDIRECT) OR push_bit 24 (ucast (st_block x ! i)) = (of_nat (st_ent x 0 i) :: u32)"
      using st_num_words(2) [of "st_first x i" "st_block x ! i"] by (simp add: st_ent_def LS)
    moreover have "seen x ?g (Suc i) LS"
      using assms(3) LS c f unfolding seen_def by (auto simp: less_Suc_eq c_def)
    ultimately show ?thesis
      by simp
  qed
qed

lemma st4_table_step:
  "CS' = (if ST_GetBit Flag i then i else CS) \<Longrightarrow> LS ! unat c \<le> CS' \<Longrightarrow> of_nat (S ! unat c) OR push_bit 24 (ucast c) = e \<Longrightarrow>
    st4_table Flag i (c # Input) CS LS S Table =
      st4_table Flag (Suc i) Input CS' (LS[unat c := i + 1]) (S[unat c := S ! unat c + 1]) (Table @ [e])"
  "CS' = (if ST_GetBit Flag i then i else CS) \<Longrightarrow> \<not> LS ! unat c \<le> CS' \<Longrightarrow>
    (of_nat (LS ! unat c - 1) OR ST_INDIRECT) OR push_bit 24 (ucast c) = e \<Longrightarrow>
    st4_table Flag i (c # Input) CS LS S Table =
      st4_table Flag (Suc i) Input CS' LS (S[unat c := S ! unat c + 1]) (Table @ [e])"
  by (simp_all add: Let_def)

lemma st4_table_entries:
  assumes "length x < 2 ^ 23" "\<And>i. i < length x \<Longrightarrow> ST_GetBit Flag i \<longleftrightarrow> i \<in> st_start x 3 ` st_key x 3 ` {..<length x}"
    "i \<le> length x" "CS \<le> i" "i \<noteq> 0 \<Longrightarrow> CS = group3 x (i - 1)" "seen x CS i LS" "length S = 256"
    "\<And>c. c < 256 \<Longrightarrow> S ! c = st_start x 1 c + st_count x c i" "Table = map (\<lambda>r. of_nat (st_ent x 0 r)) [0..<i]"
  shows "st4_table Flag i (drop i (st_block x)) CS LS S Table = map (\<lambda>r. of_nat (st_ent x 0 r)) [0..<length x]"
  using assms(3-)
proof (induction "drop i (st_block x)" arbitrary: i CS LS S Table)
  case Nil
  then show ?case
    by simp
next
  case (Cons b bs)
  have i: "i < length x" "b = st_block x ! i" "bs = drop (Suc i) (st_block x)"
  proof -
    show "i < length x"
      using Cons(2) length_st_block [of x] by (metis drop_eq_Nil list.distinct(1) not_le)
    show "b = st_block x ! i" "bs = drop (Suc i) (st_block x)"
      using Cons(2) by (metis nth_via_drop, metis drop_Suc list.sel(3) tl_drop)
  qed
  let ?g = "group3 x i" and ?c = "unat b"
  have new: "(if ST_GetBit Flag i then i else CS) = ?g"
    using i(1) Cons.prems(2,3) assms(2) [OF i(1)] by (rule new_group)
  have seen_g: "seen x ?g i LS"
    using seen_new_group [OF Cons.prems(4,2)] Cons.prems(4) new by (auto split: if_splits)
  have S': "(S[?c := S ! ?c + 1]) ! c = st_start x 1 c + st_count x c (Suc i)" if "c < 256" for c
    using Cons.prems(5,6) that i(1,2) byte_bound [of b] by (simp add: st_count_Suc nth_list_update)
  have step: "st4_table Flag (Suc i) (drop (Suc i) (st_block x)) ?g LS' (S[?c := S ! ?c + 1]) (Table @ [of_nat (st_ent x 0 i)]) =
      map (\<lambda>r. of_nat (st_ent x 0 r)) [0..<length x]" if "seen x ?g (Suc i) LS'" for LS'
  proof (rule Cons(1) [OF i(3)])
    show "?g \<le> Suc i"
      using group3_le [OF i(1)] by simp
    show "S[?c := S ! ?c + 1] ! c = st_start x 1 c + st_count x c (Suc i)" if "c < 256" for c
      using that by (rule S')
  qed (use i(1) that Cons.prems(5,7) in simp_all)
  note entry = st_num_entry [OF assms(1) i(1) seen_g Cons.prems(5), folded i(2)]
  show ?case
  proof (cases "LS ! ?c \<le> ?g")
    case True
    have e: "of_nat (S ! ?c) OR push_bit 24 (ucast b) = (of_nat (st_ent x 0 i) :: u32) \<and> seen x ?g (Suc i) (LS[?c := i + 1])"
      by (intro entry(1) Cons.prems(6) True)
    show ?thesis
      unfolding Cons(2) [symmetric] st4_table_step(1) [OF new [symmetric] True conjunct1 [OF e]] i(3)
      by (rule step [OF conjunct2 [OF e]])
  next
    case False
    have e: "(of_nat (LS ! ?c - 1) OR ST_INDIRECT) OR push_bit 24 (ucast b) = (of_nat (st_ent x 0 i) :: u32) \<and> seen x ?g (Suc i) LS"
      by (intro entry(2) Cons.prems(6) False)
    show ?thesis
      unfolding Cons(2) [symmetric] st4_table_step(2) [OF new [symmetric] False conjunct1 [OF e]] i(3)
      by (rule step [OF conjunct2 [OF e]])
  qed
qed

section \<open>Following the entries\<close>

lemma st_ent_value:
  assumes "length x < 2 ^ 23" "r < length x" "m \<le> length x"
  shows "(if st_first x r = r then st_start x 4 (succ_key x 3 r) + same (st_key x 4) (succ_key x 3 r) [0..<m] else st_first x r)
    \<le> length x"
proof (cases "st_first x r = r")
  case True
  let ?g = "succ_key x 3 r"
  have "[0..<length x] = [0..<m] @ [m..<length x]"
    using assms(3) by (metis le_add_diff_inverse upt_add_eq_append zero_le)
  then have "same (st_key x 4) ?g [0..<m] \<le> same (st_key x 4) ?g [0..<length x]"
    by simp
  then show ?thesis
    using True st_start_Suc [of x 4 ?g] st_start_le [of x 4 "Suc ?g"] by simp
qed (use assms(2) st_first_props(1) [of x r] in simp)

lemma st_ent_parts:
  assumes "length x < 2 ^ 23" "r < length x" "m \<le> length x"
  defines "w \<equiv> of_nat (st_ent x m r) :: u32"
  shows "ucast (drop_bit 24 w) = st_block x ! r" "w AND ST_INDIRECT \<noteq> 0 \<longleftrightarrow> st_first x r \<noteq> r"
    "st_first x r = r \<Longrightarrow> unat (w AND (ST_INDIRECT - 1)) = st_start x 4 (succ_key x 3 r) + same (st_key x 4) (succ_key x 3 r) [0..<m]"
    "st_first x r \<noteq> r \<Longrightarrow> unat (w AND (ST_INDIRECT - 1)) = st_first x r"
proof -
  let ?v = "if st_first x r = r then st_start x 4 (succ_key x 3 r) + same (st_key x 4) (succ_key x 3 r) [0..<m] else st_first x r"
  have v: "?v < 2 ^ 23"
    using st_ent_value [OF assms(1-3)] assms(1) by simp
  note parts = st_num_parts [OF v, of "st_block x ! r" "st_first x r \<noteq> r", folded st_ent_def, folded w_def]
  show "ucast (drop_bit 24 w) = st_block x ! r"
    by (rule parts(1))
  show "w AND ST_INDIRECT \<noteq> 0 \<longleftrightarrow> st_first x r \<noteq> r"
    by (rule parts(2))
  show "st_first x r = r \<Longrightarrow> unat (w AND (ST_INDIRECT - 1)) = st_start x 4 (succ_key x 3 r) + same (st_key x 4) (succ_key x 3 r) [0..<m]"
    "st_first x r \<noteq> r \<Longrightarrow> unat (w AND (ST_INDIRECT - 1)) = st_first x r"
    using parts(3) by (simp_all split: if_splits)
qed

lemma st_ent_next:
  assumes "length x < 2 ^ 23" "m < length x" "f < length x" "st_first x f = f" "succ_key x 3 f = st_key x 4 m"
  shows "(map (\<lambda>r. of_nat (st_ent x m r)) [0..<length x] @ [w]) [f := of_nat (st_ent x m f) + 1] =
    map (\<lambda>r. of_nat (st_ent x (Suc m) r)) [0..<length x] @ [w :: u32]"
proof -
  have "st_ent x (Suc m) r = st_ent x m r" if "r \<noteq> f" for r
  proof (cases "st_first x r = r")
    case True
    then have "succ_key x 3 r \<noteq> succ_key x 3 f"
      using that assms(4) st_first_props(3) by metis
    then show ?thesis
      using assms(5) by (simp add: st_ent_def)
  qed (simp add: st_ent_def)
  moreover have "st_ent x (Suc m) f = st_ent x m f + 1"
    using assms(4,5) by (simp add: st_ent_def st_num_def)
  ultimately show ?thesis
    using assms(3) by (intro nth_equalityI) (auto simp: nth_append nth_list_update less_Suc_eq)
qed

lemma st4_walk_back:
  assumes "length x < 2 ^ 23" "m + left = length x" "0 < length x" "j < length x" "st_order x ! j = prv (length x) m"
  defines "Table \<equiv> \<lambda>m. map (\<lambda>r. of_nat (st_ent x m r)) [0..<length x] @ [ST_INDIRECT]"
  shows "st4_walk left (Table m) j (Table m ! j) (take m x) = Some x"
  using assms(2,4,5)
proof (induction left arbitrary: m j)
  case (Suc left)
  let ?n = "length x" and ?k = "st_key x 4 m" and ?f = "st_first x j"
  have m: "m < ?n"
    using Suc.prems(1) by simp
  have f: "?f < ?n" "st_first x ?f = ?f"
    using st_first_props(1) [of x j] st_first_props(3) [OF st_first_props(2), of x j] Suc.prems(2) by auto
  have key: "succ_key x 3 j = ?k"
    using Suc.prems(2,3) st_key_fun(1) [of x 3] by (simp add: succ_key_def st_block_nth del: st_key.simps)
  then have keyf: "succ_key x 3 ?f = ?k"
    using st_first_props(2) [of x j] by simp
  define j' where "j' = st_start x 4 ?k + same (st_key x 4) ?k [0..<m]"
  have "j' = sort_pos (st_key x 4) [0..<?n] m"
    using m by (simp add: sort_pos_def j'_def st_start_def take_upt)
  then have j': "j' < ?n" "st_order x ! j' = m"
    using sort_key_pos [of m "[0..<?n]" "st_key x 4"] m by (simp_all add: st_order_def)
  have nth: "Table m ! r = of_nat (st_ent x m r)" if "r < ?n" for m r
    using that by (simp add: Table_def nth_append)
  have upd: "(Table m)[?f := Table m ! ?f + 1] = Table (Suc m)"
    using st_ent_next [OF assms(1) m f keyf, of ST_INDIRECT] nth [OF f(1), of m] by (simp add: Table_def)
  have "ucast (drop_bit 24 (Table (Suc m) ! j')) = x ! m"
    using st_ent_parts(1) [OF assms(1) j'(1), of "Suc m"] m nth [OF j'(1)] j' by (simp add: st_block_nth)
  then have out: "take m x @ [ucast (drop_bit 24 (Table (Suc m) ! j'))] = take (Suc m) x"
    using m by (simp add: take_Suc_conv_app_nth)
  have "st_order x ! j' = prv ?n (Suc m)"
    using j'(2) by (simp add: prv_def)
  then have IH: "st4_walk left (Table (Suc m)) j' (Table (Suc m) ! j') (take (Suc m) x) = Some x"
    using Suc.IH [of "Suc m" j'] Suc.prems(1) j'(1) by simp
  have len: "length (Table m) = Suc ?n" "length (Table (Suc m)) = Suc ?n"
    by (simp_all add: Table_def)
  show ?case
  proof (cases "?f = j")
    case True
    have "\<not> (Table m ! j AND ST_INDIRECT \<noteq> 0)" "unat (Table m ! j AND (ST_INDIRECT - 1)) = j'"
      using st_ent_parts [OF assms(1) Suc.prems(2), of m] m True key nth [OF Suc.prems(2)] by (simp_all add: j'_def)
    moreover have "(Table m)[j := Table m ! j + 1] = Table (Suc m)"
      using upd True by simp
    ultimately show ?thesis
      using IH j'(1) len out by simp
  next
    case False
    have "Table m ! j AND ST_INDIRECT \<noteq> 0" "unat (Table m ! j AND (ST_INDIRECT - 1)) = ?f"
      using st_ent_parts [OF assms(1) Suc.prems(2), of m] m False nth [OF Suc.prems(2)] by simp_all
    moreover have "unat (Table m ! ?f AND (ST_INDIRECT - 1)) = j'"
      using st_ent_parts(3) [OF assms(1) f(1), of m] m f(2) keyf nth [OF f(1)] by (simp add: j'_def)
    ultimately show ?thesis
      using IH j'(1) len out f(1) upd by simp
  qed
qed simp

section \<open>The transform is undone\<close>

lemma st4_decode_spec:
  assumes "length x < 2 ^ 23" "FBP < length x" "st_order x ! FBP = length x - 1"
  shows "GRZip_ST4_Decode (st_block x) FBP = Some x"
proof -
  have n: "0 < length x"
    using assms(2) by (rule le_less_trans [OF le0])
  obtain S C where SC: "st4_order1 (fold (\<lambda>c T. T[unat c := T ! unat c + 1]) (st_block x) (replicate ST_MaxByte 0)) 0 0
      (st_block x) (replicate ST_MaxWord 0) = (S, C)"
    and S: "length S = 256" "\<And>c. c < 256 \<Longrightarrow> S ! c = st_start x 1 c"
    and C: "length C = 65536" "\<And>g. g < 65536 \<Longrightarrow> st_start x 2 g + C ! g = st_start x 2 (Suc g)"
    by (rule decode_starts [OF n]) (rule that)
  obtain LS T Flag where F: "st4_groups C 0 (st_block x) (replicate ST_MaxByte (- 1), S, replicate ((length x + 8) div 8) 0) = (LS, T, Flag)"
    by (metis prod_cases3)
  have "mark_inv x 0 0 {} (replicate ST_MaxByte (- 1), S, replicate ((length x + 8) div 8) 0)"
  proof -
    have "length x div 8 < (length x + 8) div 8"
      by simp
    moreover have "\<not> ST_GetBit (replicate ((length x + 8) div 8) 0) b" if "b < length x" for b
    proof -
      have "b div 8 < (length x + 8) div 8"
        using that div_le_mono [of b "length x" 8] by simp
      then show ?thesis
        by (simp add: ST_GetBit_def nth_replicate)
    qed
    ultimately show ?thesis
      using S by (simp add: mark_inv_def st_marks_def st_count_def ST_MaxByte_def)
  qed
  then have "mark_inv x (length x) (length x) (\<Union>h \<in> {0..<65536}. st_marks x (st_start x 2 h) (st_start x 2 (Suc h))) (LS, T, Flag)"
    using mark_groups [of 0 C C x "{}" "(replicate ST_MaxByte (- 1), S, replicate ((length x + 8) div 8) 0)"] C F by simp
  then have flag: "ST_GetBit Flag b \<longleftrightarrow> b \<in> st_start x 3 ` st_key x 3 ` {..<length x}" if "b < length x" for b
    using that unfolding all_marks [OF n] by (simp add: mark_inv_def st_marks_def)
  have "st4_table Flag 0 (drop 0 (st_block x)) 0 (replicate ST_MaxByte 0) S [] = map (\<lambda>r. of_nat (st_ent x 0 r)) [0..<length x]"
    using assms(1) flag S by (intro st4_table_entries) (auto simp: seen_def ST_MaxByte_def st_count_def)
  then have table: "st4_table Flag 0 (st_block x) 0 (replicate ST_MaxByte 0) S [] = map (\<lambda>r. of_nat (st_ent x 0 r)) [0..<length x]"
    by simp
  have "st4_walk (length x) (map (\<lambda>r. of_nat (st_ent x 0 r)) [0..<length x] @ [ST_INDIRECT]) FBP
      ((map (\<lambda>r. of_nat (st_ent x 0 r)) [0..<length x] @ [ST_INDIRECT]) ! FBP) (take 0 x) = Some x"
    using assms n by (intro st4_walk_back) (simp_all add: prv_def)
  then show ?thesis
    unfolding GRZip_ST4_Decode_def Let_def length_st_block SC split_conv F table using assms(2) by simp
qed

text \<open>The context as the code's documentation has it: the bytes before, cyclically, as one number.\<close>

lemma prv_iterate: "i < n \<Longrightarrow> j \<le> n \<Longrightarrow> (prv n ^^ j) i = (i + n - j) mod n"
proof (induction j)
  case (Suc j)
  then have IH: "(prv n ^^ j) i = (i + n - j) mod n"
    by simp
  consider "i < j" | "i = j" | "j < i"
    by linarith
  then show ?case
  proof cases
    case 1
    then have "i + n - j < n" "0 < i + n - j"
      using Suc.prems by simp_all
    then show ?thesis
      unfolding funpow.simps comp_apply IH by (simp add: prv_def)
  next
    case 2
    then show ?thesis
      using Suc.prems unfolding funpow.simps comp_apply IH by (simp add: prv_def)
  next
    case 3
    then have "i + n - j = (i - j) + n" "i + n - Suc j = (i - Suc j) + n"
      by simp_all
    moreover have "((i - j) + n) mod n = i - j" "((i - Suc j) + n) mod n = i - Suc j"
      unfolding mod_add_self2 using Suc.prems by (intro mod_less; linarith)+
    ultimately show ?thesis
      using 3 unfolding funpow.simps comp_apply IH by (simp add: prv_def)
  qed
qed simp

lemma st_key_sum: "st_key x k i = (\<Sum>j < k. 256 ^ (k - Suc j) * unat (x ! (prv (length x) ^^ Suc j) i))"
proof (induction k arbitrary: i)
  case (Suc k)
  have "(prv (length x) ^^ Suc j) (prv (length x) i) = (prv (length x) ^^ Suc (Suc j)) i" for j
    by (simp only: funpow_Suc_right comp_apply)
  then show ?case
    using Suc [of "prv (length x) i"] by (simp only: st_key.simps sum.lessThan_Suc_shift diff_Suc_Suc) simp
qed simp

lemma insort_key_agree: "f a = g a \<Longrightarrow> (\<And>y. y \<in> set xs \<Longrightarrow> f y = g y) \<Longrightarrow> insort_key f a xs = insort_key g a xs"
  by (induction xs) auto

lemma sort_key_agree: "(\<And>y. y \<in> set xs \<Longrightarrow> f y = g y) \<Longrightarrow> sort_key f xs = sort_key g xs"
  by (induction xs) (auto intro!: insort_key_agree)

definition before :: "byte list \<Rightarrow> nat \<Rightarrow> nat" where
  "before x p = (\<Sum>j < 4. 256 ^ (3 - j) * unat (x ! ((p + length x - Suc j) mod length x)))"

lemma st_order_before:
  assumes "4 \<le> length x"
  shows "st_order x = sort_key (before x) [0..<length x]"
proof -
  have "st_key x 4 p = before x p" if "p < length x" for p
  proof -
    have "(prv (length x) ^^ Suc j) p = (p + length x - Suc j) mod length x \<and> 4 - Suc j = 3 - j" if "j < 4" for j
      using prv_iterate [OF \<open>p < length x\<close>, of "Suc j"] assms that by simp
    then show ?thesis
      unfolding st_key_sum before_def by (intro sum.cong) (simp_all only: lessThan_iff)
  qed
  then show ?thesis
    unfolding st_order_def by (intro sort_key_agree) simp
qed

text \<open>
  C39: the block that \<^verbatim>\<open>GRZip_ST4_Encode\<close> writes holds the bytes of the input in the stable order of the four
  bytes before each of them, cyclically, the last one first, and the value it returns is the place of
  the last byte of the input; this does not depend on what the output buffer held, so that the
  buffer may be the input itself.
\<close>
theorem st4_encode_sorts:
  assumes "5 \<le> length Input" "length Output = length Input"
  shows "\<exists>FBP < length Input. sort_key (before Input) [0..<length Input] ! FBP = length Input - 1 \<and>
    GRZip_ST4_Encode Input Output = (FBP, map ((!) Input) (sort_key (before Input) [0..<length Input]))"
proof -
  have "4 \<le> length Input"
    using assms(1) by simp
  then have "st_order Input = sort_key (before Input) [0..<length Input]"
    by (rule st_order_before)
  moreover obtain FBP where "GRZip_ST4_Encode Input Output = (FBP, map ((!) Input) (st_order Input))"
    "FBP < length Input" "st_order Input ! FBP = length Input - 1"
    using st4_encode_spec [OF assms] .
  ultimately show ?thesis
    by auto
qed

theorem st4_encode_sorts_witness:
  "\<exists>FBP < 6. GRZip_ST4_Encode [1, 2, 1, 2, 3, 1] (replicate 6 0) =
    (FBP, map ((!) [1, 2, 1, 2, 3, 1]) (sort_key (before [1, 2, 1, 2, 3, 1]) [0..<6]))"
proof -
  define x :: "byte list" where "x = [1, 2, 1, 2, 3, 1]"
  have "length x = 6"
    by (simp add: x_def)
  then show ?thesis
    using st4_encode_sorts [of x "replicate 6 0"] unfolding x_def [symmetric] by auto
qed

lemma st4_decodes:
  assumes "5 \<le> length Input" "length Input \<le> GRZ_MaxBlockSize" "length Output = length Input"
    "GRZip_ST4_Encode Input Output = (FBP, out)"
  shows "length out = length Input \<and> GRZip_ST4_Decode out FBP = Some Input"
proof -
  have "length Input < 2 ^ 23"
    using assms(2) by (simp add: GRZ_MaxBlockSize_def)
  then show ?thesis
    using st4_encode_spec [OF assms(1,3)] st4_decode_spec [of Input] assms(4)
    by (metis prod.inject st_block_def length_st_block)
qed

text \<open>
  C38: whatever block of 5 to \<^verbatim>\<open>GRZ_MaxBlockSize\<close> bytes, \<^verbatim>\<open>GRZip_ST4_Decode\<close> restores it from the block that
  \<^verbatim>\<open>GRZip_ST4_Encode\<close> wrote and the value it returned, and never leaves its tables.
\<close>
theorem st4_roundtrip:
  assumes "5 \<le> length Input" "length Input \<le> GRZ_MaxBlockSize" "length Output = length Input"
    "GRZip_ST4_Encode Input Output = (FBP, out)"
  shows "length out = length Input \<and> GRZip_ST4_Decode out FBP = Some Input"
  using assms by (rule st4_decodes)

theorem st4_roundtrip_witness:
  "GRZip_ST4_Decode (snd (GRZip_ST4_Encode [1, 2, 1, 2, 3, 1] (replicate 6 0))) (fst (GRZip_ST4_Encode [1, 2, 1, 2, 3, 1] (replicate 6 0))) =
    Some [1, 2, 1, 2, 3, 1]"
  using st4_roundtrip [of "[1, 2, 1, 2, 3, 1]" "replicate 6 0"] by (simp add: GRZ_MaxBlockSize_def)

end
