(* ===== verification/Grz_Rotations.thy ===== *)
theory Grz_Rotations
  imports Grz_Counting "HOL-Library.List_Lexorder" "HOL-Library.Option_ord"
begin

text \<open>
  The Burrows-Wheeler transform as a specification, for \<^verbatim>\<open>GRZip/BWT.c\<close>: the rotations of a word in
  lexicographic order, the last symbols of which are the transformed word, and the step from the row
  of a rotation to the row of the one before, which the ranks of the last symbols give.  Equal
  rotations, which a periodic block has, need no care: their rows are equal.
\<close>

section \<open>Rows\<close>

definition rows :: "'a::linorder list \<Rightarrow> 'a list list" where
  "rows y = sort (map (\<lambda>i. rotate i y) [0..<length y])"

definition turn_back :: "'a list \<Rightarrow> 'a list" where
  "turn_back w = last w # butlast w"

lemma length_rows [simp]: "length (rows y) = length y"
  by (simp add: rows_def)

lemma sorted_rows: "sorted (rows y)"
  by (simp add: rows_def)

lemma row_is_rotation: "w \<in> set (rows y) \<Longrightarrow> \<exists>i < length y. w = rotate i y"
  by (auto simp: rows_def)

lemma row_length: "w \<in> set (rows y) \<Longrightarrow> length w = length y"
  using row_is_rotation by fastforce

lemma turn_back_rotate1: "w \<noteq> [] \<Longrightarrow> turn_back (rotate1 w) = w"
  by (cases w) (simp_all add: turn_back_def)

lemma turn_back_all: "mset (map turn_back (rows y)) = mset (rows y)"
proof (cases "y = []")
  case False
  define n where "n = length y - 1"
  then have n: "length y = Suc n"
    using False by (cases y) simp_all
  have "turn_back (rotate (Suc i) y) = rotate i y" for i
    using False turn_back_rotate1 [of "rotate i y"] by simp
  moreover have "turn_back y = rotate n y"
    using False turn_back_rotate1 [of "rotate n y"] rotate_length01 rotate_id [of "Suc n" y] n
    by (simp add: rotate_Suc [symmetric] del: rotate_Suc)
  moreover have "[0..<Suc n] = 0 # map Suc [0..<n]"
    by (simp only: map_Suc_upt upt_conv_Cons [OF zero_less_Suc])
  ultimately have "map turn_back (map (\<lambda>i. rotate i y) [0..<Suc n]) = rotate n y # map (\<lambda>i. rotate i y) [0..<n]"
    by (simp add: comp_def del: upt_Suc)
  then have "mset (map turn_back (map (\<lambda>i. rotate i y) [0..<Suc n])) = mset (map (\<lambda>i. rotate i y) [0..<Suc n])"
    by simp
  then show ?thesis
    by (simp only: rows_def mset_map mset_sort n)
qed (simp add: rows_def)

lemma mset_last_rows: "mset (map last (rows y)) = mset y"
proof (cases "y = []")
  case False
  have "map hd (map (\<lambda>i. rotate i y) [0..<length y]) = y"
    using False by (intro nth_equalityI) (simp_all add: hd_rotate_conv_nth)
  moreover have "mset (map hd (map turn_back (rows y))) = mset (map hd (rows y))"
    by (simp only: mset_map [of hd] turn_back_all)
  moreover have "map hd (map turn_back (rows y)) = map last (rows y)"
    by (simp add: turn_back_def)
  ultimately show ?thesis
    by (metis mset_map mset_sort rows_def)
qed (simp add: rows_def)

section \<open>Sorting by the first symbol\<close>

text \<open>\<^verbatim>\<open>key\<close> numbers the symbols in their order; the counting passes work on numbers.\<close>

lemma butlast_mono: "u \<le> v \<Longrightarrow> length u = length v \<Longrightarrow> butlast u \<le> butlast v"
  for u v :: "'a::linorder list"
proof (induction u arbitrary: v)
  case (Cons a u)
  then obtain b v' where v: "v = b # v'"
    by (cases v) simp_all
  then show ?case
    using Cons by (cases "u = []"; cases "v' = []") auto
qed simp

lemma rows_by_first:
  fixes y :: "'a::linorder list"
  assumes key: "\<And>a b. a < b \<longleftrightarrow> key a < (key b :: nat)" and y: "y \<noteq> []"
  shows "sort_key (\<lambda>w. key (hd w)) (map turn_back (rows y)) = rows y"
proof -
  let ?k = "\<lambda>w. key (hd w)" and ?xs = "map turn_back (rows y)"
  have len: "length w = length y" if "w \<in> set (rows y)" for w
    using that by (rule row_length)
  have "sorted_wrt (\<lambda>u v. tl u \<le> tl v) ?xs"
    unfolding sorted_wrt_map turn_back_def list.sel
    using sorted_rows [of y] by (rule sorted_wrt_mono_rel [rotated]) (simp add: butlast_mono len)
  then have "sorted_wrt (\<lambda>u v. tl u \<le> tl v) (filter (\<lambda>w. ?k w = h) (sort_key ?k ?xs))" for h
    unfolding sort_key_stable by (rule sorted_wrt_filter)
  then have "sorted_wrt (\<lambda>u v. ?k u = ?k v \<longrightarrow> tl u \<le> tl v) (sort_key ?k ?xs)"
    by (rule sorted_wrt_groups)
  moreover have "sorted_wrt (\<lambda>u v. ?k u \<le> ?k v) (sort_key ?k ?xs)"
    using sorted_sort_key [of ?k ?xs] by (simp add: sorted_wrt_map)
  ultimately have "sorted_wrt (\<lambda>u v. ?k u \<le> ?k v \<and> (?k u = ?k v \<longrightarrow> tl u \<le> tl v)) (sort_key ?k ?xs)"
    by (simp add: sorted_wrt_iff_nth_less)
  then have "sorted (sort_key ?k ?xs)"
  proof (rule sorted_wrt_mono_rel [rotated])
    fix u v
    assume uv: "u \<in> set (sort_key ?k ?xs)" "v \<in> set (sort_key ?k ?xs)"
      and le: "?k u \<le> ?k v \<and> (?k u = ?k v \<longrightarrow> tl u \<le> tl v)"
    obtain a b u' v' where [simp]: "u = a # u'" "v = b # v'"
      using uv by (auto simp: turn_back_def)
    have "a < b \<or> a = b \<and> u' \<le> v'"
      using le key [of a b] key [of b a] by (cases a b rule: linorder_cases) auto
    then show "u \<le> v"
      by (auto simp: list_le_def)
  qed
  moreover have "mset (sort_key ?k ?xs) = mset (rows y)"
    using turn_back_all [of y] by simp
  ultimately show ?thesis
    using sorted_rows [of y] by (metis properties_for_sort sorted_sort_id)
qed

section \<open>Walking back\<close>

definition row_before :: "('a \<Rightarrow> nat) \<Rightarrow> 'a list \<Rightarrow> nat \<Rightarrow> nat" where
  "row_before key L r = lower key (key (L ! r)) L + same key (key (L ! r)) (take r L)"

lemma row_before_row:
  fixes y :: "'a::linorder list"
  assumes key: "\<And>a b. a < b \<longleftrightarrow> key a < (key b :: nat)" and r: "r < length y"
  shows "row_before key (map last (rows y)) r < length y" "rows y ! row_before key (map last (rows y)) r = turn_back (rows y ! r)"
proof -
  let ?k = "\<lambda>w. key (hd w)" and ?xs = "map turn_back (rows y)"
  have k: "lower ?k h (map turn_back ws) = lower key h (map last ws)" "same ?k h (map turn_back ws) = same key h (map last ws)" for h ws
    by (induction ws) (simp_all add: turn_back_def)
  have "sort_pos ?k ?xs r = row_before key (map last (rows y)) r"
    using r unfolding sort_pos_def row_before_def by (simp add: k take_map) (simp add: turn_back_def)
  moreover have "y \<noteq> []"
    using r by auto
  ultimately show "row_before key (map last (rows y)) r < length y" "rows y ! row_before key (map last (rows y)) r = turn_back (rows y ! r)"
    using sort_key_pos [of r ?xs ?k] rows_by_first [OF key] r by simp_all
qed

fun walk_back :: "('a \<Rightarrow> nat) \<Rightarrow> 'a list \<Rightarrow> nat \<Rightarrow> nat \<Rightarrow> 'a list" where
  "walk_back key L 0 r = []"
| "walk_back key L (Suc k) r = walk_back key L k (row_before key L r) @ [L ! r]"

lemma walk_back_row:
  fixes y :: "'a::linorder list"
  assumes key: "\<And>a b. a < b \<longleftrightarrow> key a < (key b :: nat)" and "r < length y" "k \<le> length y"
  shows "walk_back key (map last (rows y)) k r = drop (length y - k) (rows y ! r)"
  using assms(2,3)
proof (induction k arbitrary: r)
  case 0
  then have "length (rows y ! r) = length y"
    by (intro row_length nth_mem) simp
  then show ?case
    by simp
next
  case (Suc k)
  define w where "w = rows y ! r"
  have len: "length w = length y"
    unfolding w_def using Suc.prems by (intro row_length nth_mem) simp
  then have ne: "w \<noteq> []"
    using Suc.prems by auto
  have m: "length y - k = Suc (length y - Suc k)"
    using Suc.prems by simp
  have "walk_back key (map last (rows y)) (Suc k) r = drop (length y - k) (turn_back w) @ [last w]"
    using Suc.IH [OF row_before_row(1) [OF key Suc.prems(1)]] row_before_row(2) [OF key Suc.prems(1)] Suc.prems
    by (simp add: w_def)
  also have "\<dots> = drop (length y - Suc k) (butlast w) @ [last w]"
    unfolding m turn_back_def by simp
  also have "\<dots> = drop (length y - Suc k) (butlast w @ [last w])"
    using len Suc.prems by simp
  also have "\<dots> = drop (length y - Suc k) w"
    by (simp only: append_butlast_last_id [OF ne])
  finally show ?case
    by (simp only: w_def)
qed

text \<open>From the row of the word itself the walk brings back the whole word.\<close>

lemma walk_back_word:
  fixes y :: "'a::linorder list"
  assumes "\<And>a b. a < b \<longleftrightarrow> key a < (key b :: nat)" "r < length y" "rows y ! r = y"
  shows "walk_back key (map last (rows y)) (length y) r = y"
  using walk_back_row [OF assms(1,2), of "length y"] assms(3) by simp

section \<open>A word with an end marker\<close>

definition marked :: "'a list \<Rightarrow> 'a option list" where
  "marked x = map Some x @ [None]"

lemma length_marked [simp]: "length (marked x) = Suc (length x)"
  by (simp add: marked_def)

text \<open>The first row starts with the marker, so that it is the marker and the word.\<close>

lemma marked_rotate:
  assumes "i \<le> length x"
  shows "rotate i (marked x) = map Some (drop i x) @ None # map Some (take i x)"
proof -
  have "rotate i (marked x) = drop i (marked x) @ take i (marked x)"
    using assms by (simp add: rotate_drop_take)
  then show ?thesis
    using assms by (simp add: marked_def drop_map take_map)
qed

lemma marked_first: "rows (marked x) ! 0 = None # map Some x"
  for x :: "'a::linorder list"
proof -
  define w where "w = rows (marked x) ! 0"
  have "None # map Some x = rotate (length x) (marked x)"
    by (simp add: marked_rotate)
  then have "None # map Some x \<in> set (rows (marked x))"
    by (auto simp: rows_def)
  then obtain j where j: "j < length (rows (marked x))" "rows (marked x) ! j = None # map Some x"
    by (metis in_set_conv_nth)
  then have "w \<le> None # map Some x"
    unfolding w_def by (metis sorted_nth_mono [OF sorted_rows] zero_le)
  moreover have "w \<in> set (rows (marked x))"
    unfolding w_def by (rule nth_mem) simp
  then obtain i where i: "i \<le> length x" "w = map Some (drop i x) @ None # map Some (take i x)"
    using row_is_rotation [of w "marked x"] marked_rotate [of _ x] by (metis length_marked less_Suc_eq_le)
  moreover have "i = length x" if "drop i x = []"
    using that i(1) by simp
  ultimately have "i = length x"
    by (cases "drop i x") (auto simp: list_le_def)
  then show ?thesis
    using i(2) by (simp add: w_def)
qed

lemma marked_last_row:
  assumes "r < Suc (length x)" "last (rows (marked x) ! r) = None"
  shows "rows (marked x) ! r = marked x"
proof -
  have "rows (marked x) ! r \<in> set (rows (marked x))"
    using assms(1) by (intro nth_mem) simp
  then obtain i where i: "i \<le> length x" "rows (marked x) ! r = map Some (drop i x) @ None # map Some (take i x)"
    using row_is_rotation [of _ "marked x"] marked_rotate [of _ x] by (metis length_marked less_Suc_eq_le)
  then have "take i x = []"
    using assms(2) by (cases "take i x" rule: rev_cases) simp_all
  then have "i = 0 \<or> x = []"
    by simp
  then show ?thesis
    using i by (auto simp: marked_def)
qed

end
