(* ===== verification/Grz_BWT.thy ===== *)
theory Grz_BWT
  imports Grz_Rotations Grz_ST4 Grz_Codes
begin

text \<open>
  \<^verbatim>\<open>GRZip/BWT.c\<close>: the two decoders of the Burrows-Wheeler transform, and the function that chooses the
  encoder.  The strong encoder sorts the suffixes of the block, the fast one the rotations; each
  decoder is shown to restore the block from the transform of \<^verbatim>\<open>Grz_Rotations\<close> that belongs to it.

  The two sorting functions themselves are arguments of \<^verbatim>\<open>GRZip_BWT_Encode\<close>: a pair of a result code and the bytes
  written.  Allocation succeeds.  A decoder yields \<^verbatim>\<open>None\<close> where the code would leave its table.
\<close>

definition BWT_MaxByte :: nat where "BWT_MaxByte = 256"
definition FastBWT_NumOverShoot :: nat where "FastBWT_NumOverShoot = 80"
definition StrongBWT_Flag :: int where "StrongBWT_Flag = 0x40000000"

section \<open>The decoders\<close>

text \<open>Every byte with the number of times it was met before.\<close>

fun bwt_ranks :: "byte list \<Rightarrow> u32 list \<Rightarrow> u32 list \<Rightarrow> u32 list \<times> u32 list" where
  "bwt_ranks [] Count T = (Count, T)"
| "bwt_ranks (c # Input) Count T =
     bwt_ranks Input (Count[unat c := Count ! unat c + 1]) (T @ [push_bit 8 (Count ! unat c) OR ucast c])"

fun bwt_starts :: "u32 \<Rightarrow> u32 list \<Rightarrow> u32 list" where
  "bwt_starts Acc [] = []"
| "bwt_starts Acc (c # Count) = Acc # bwt_starts (Acc + c) Count"

text \<open>The block is filled from its last byte to its first.\<close>

fun bwt_walk :: "nat \<Rightarrow> u32 list \<Rightarrow> u32 list \<Rightarrow> nat \<Rightarrow> byte list \<Rightarrow> byte list option" where
  "bwt_walk 0 T Count FBP out = Some out"
| "bwt_walk (Suc i) T Count FBP out =
     (if FBP \<ge> length T then None
      else let u = T ! FBP; c = ucast (u AND 0xFF)
           in bwt_walk i T Count (unat (drop_bit 8 u + Count ! unat c)) (c # out))"

definition GRZip_FastBWT_Decode :: "byte list \<Rightarrow> int \<Rightarrow> byte list option" where
  "GRZip_FastBWT_Decode Input FBP =
     (let (Count, T) = bwt_ranks Input (replicate BWT_MaxByte 0) [];
          Count = bwt_starts 0 Count
      in if FBP < 0 then None else bwt_walk (length Input) T Count (nat FBP) [])"

text \<open>The strong decoder leaves the entry of the end of the block as the memory was; \<^verbatim>\<open>hole\<close> is what it held.\<close>

definition GRZip_StrongBWT_Decode :: "u32 \<Rightarrow> byte list \<Rightarrow> int \<Rightarrow> byte list option" where
  "GRZip_StrongBWT_Decode hole Input FBP =
     (if FBP < 0 \<or> nat FBP > length Input then None
      else
        let (Count, T) = bwt_ranks (take (nat FBP) Input) (replicate BWT_MaxByte 0) [];
            (Count, T) = bwt_ranks (drop (nat FBP) Input) Count (T @ [hole]);
            Count = bwt_starts 1 Count
        in bwt_walk (length Input) T Count 0 [])"

definition GRZip_BWT_Decode :: "u32 \<Rightarrow> byte list \<Rightarrow> int \<Rightarrow> byte list option" where
  "GRZip_BWT_Decode hole Input FBP =
     (if FBP AND StrongBWT_Flag = 0 then GRZip_FastBWT_Decode Input FBP
      else GRZip_StrongBWT_Decode hole Input (FBP AND NOT StrongBWT_Flag))"

section \<open>Choosing the encoder\<close>

text \<open>
  The fast encoder works on the block turned around, with its first bytes repeated behind its end:
  the memory at \<^verbatim>\<open>Input\<close> has at least \<^verbatim>\<open>FastBWT_NumOverShoot + 4\<close> bytes more than the block.
\<close>

definition swap_at :: "nat \<Rightarrow> nat \<Rightarrow> 'a list \<Rightarrow> 'a list" where
  "swap_at i j xs = xs[i := xs ! j, j := xs ! i]"

definition turn_around :: "nat \<Rightarrow> byte list \<Rightarrow> byte list" where
  "turn_around Size Input =
     fold (\<lambda>i Input. swap_at i (Size + FastBWT_NumOverShoot - i - 1) Input) [0..<(Size + FastBWT_NumOverShoot) div 2] Input"

definition GRZip_BWT_FastBWT_Init :: "byte list \<Rightarrow> nat \<Rightarrow> byte list" where
  "GRZip_BWT_FastBWT_Init Input Size =
     (let Input = fold (\<lambda>i Input. Input[Size + i := Input ! i]) [0..<FastBWT_NumOverShoot] Input;
          Input = turn_around Size Input
      in fold (\<lambda>k Input. Input[Size + FastBWT_NumOverShoot + k := Input ! (FastBWT_NumOverShoot + k)]) [0..<4] Input)"

definition GRZip_BWT_FastBWT_Done :: "byte list \<Rightarrow> nat \<Rightarrow> byte list" where
  "GRZip_BWT_FastBWT_Done Input Size = turn_around Size Input"

text \<open>
  \<^verbatim>\<open>Output\<close> is \<^verbatim>\<open>Input\<close> or another buffer, which does not matter for what is written.  \<^verbatim>\<open>strong\<close> and \<^verbatim>\<open>fast\<close> are
  \<^verbatim>\<open>GRZip_StrongBWT_Encode\<close> and \<^verbatim>\<open>GRZip_FastBWT_Encode\<close>; the latter reads before and behind the bytes it is
  pointed to, and gets the whole memory and the place.
\<close>

definition GRZip_BWT_Encode ::
    "(byte list \<Rightarrow> int \<times> byte list) \<Rightarrow> (byte list \<Rightarrow> nat \<Rightarrow> nat \<Rightarrow> int \<times> byte list) \<Rightarrow>
     byte list \<Rightarrow> nat \<Rightarrow> bool \<Rightarrow> int \<times> byte list" where
  "GRZip_BWT_Encode strong fast Input Size FastMode =
     (let use_strong = (\<lambda>Input. let (Result, out) = strong (take Size Input)
            in if Result \<noteq> GRZ_NOT_ENOUGH_MEMORY then (Result OR StrongBWT_Flag, out) else (GRZ_NOT_ENOUGH_MEMORY, out))
      in if \<not> FastMode then use_strong Input
         else
           let Input = GRZip_BWT_FastBWT_Init Input Size;
               (Result, out) = fast Input FastBWT_NumOverShoot Size
           in if Result \<noteq> GRZ_FAST_BWT_FAILS then (Result, out)
              else use_strong (GRZip_BWT_FastBWT_Done Input Size))"

section \<open>The table of the decoders\<close>

definition bwt_entry :: "nat \<Rightarrow> byte \<Rightarrow> u32" where
  "bwt_entry m c = push_bit 8 (of_nat m) OR ucast c"

lemma bwt_entry_nat: "bwt_entry m c = of_nat (2 ^ 8 * m + unat c)"
  unfolding bwt_entry_def byte_as_nat by (rule word_or_low) (use byte_bound [of c] in simp)

lemma bwt_entry_parts:
  assumes "m < 2 ^ 24"
  shows "drop_bit 8 (bwt_entry m c) = of_nat m" "ucast (bwt_entry m c AND 0xFF) = c"
proof -
  have c: "unat c < 2 ^ 8"
    using byte_bound [of c] by simp
  then have "2 ^ 8 * m + unat c < 2 ^ 32"
    using assms by simp
  then have u: "unat (bwt_entry m c) = 2 ^ 8 * m + unat c"
    unfolding bwt_entry_nat by (rule unat_of_nat_u32)
  have "(2 ^ 8 * m + unat c) div 2 ^ 8 = m"
    using c by (simp only: div_mult_self4 div_less)
  then have "unat (drop_bit 8 (bwt_entry m c)) = unat (of_nat m :: u32)"
    unfolding unat_drop_bit u using assms by (subst unat_of_nat_u32) simp_all
  then show "drop_bit 8 (bwt_entry m c) = of_nat m"
    by (simp only: word_unat_eq_iff)
  have "bit (ucast (bwt_entry m c AND 0xFF) :: byte) i = bit c i" if "i < 8" for i
  proof -
    have "(0xFF :: u32) = mask 8"
      by (simp add: mask_eq_exp_minus_1)
    then show ?thesis
      unfolding bwt_entry_def \<open>0xFF = mask 8\<close> using that by (auto simp: bit_simps)
  qed
  then show "ucast (bwt_entry m c AND 0xFF) = c"
    by (intro bit_word_eqI) simp
qed

lemma bwt_ranks_spec:
  assumes "length Count = 256" "\<forall>k < 256. Count ! k = of_nat (same unat k pre)"
  shows "\<exists>Count'. bwt_ranks xs Count T =
      (Count', T @ map (\<lambda>i. bwt_entry (same unat (unat (xs ! i)) (pre @ take i xs)) (xs ! i)) [0..<length xs]) \<and>
    length Count' = 256 \<and> (\<forall>k < 256. Count' ! k = of_nat (same unat k (pre @ xs)))"
  using assms
proof (induction xs arbitrary: Count T pre)
  case (Cons c xs)
  let ?C = "Count[unat c := Count ! unat c + 1]"
  have "?C ! k = of_nat (same unat k (pre @ [c]))" if "k < 256" for k
    using Cons.prems that by (simp add: nth_list_update byte_bound)
  moreover have "length ?C = 256"
    using Cons.prems by simp
  moreover have "push_bit 8 (Count ! unat c) OR ucast c = bwt_entry (same unat (unat c) pre) c"
    using Cons.prems(2) byte_bound [of c] by (simp add: bwt_entry_def)
  moreover have "[0..<length (c # xs)] = 0 # map Suc [0..<length xs]"
    by (simp add: map_Suc_upt upt_conv_Cons del: upt_Suc)
  ultimately show ?case
    using Cons.IH [of ?C "pre @ [c]" "T @ [bwt_entry (same unat (unat c) pre) c]"] by (simp add: comp_def)
qed simp

lemma bwt_starts_spec: "bwt_starts (of_nat a) (map of_nat cs) = map of_nat (group_starts a cs)"
  by (induction cs arbitrary: a) (simp_all flip: of_nat_add)

lemma bwt_starts_lower:
  assumes "length Count = 256" "\<forall>k < 256. Count ! k = of_nat (same unat k xs)" "k < 256"
  shows "bwt_starts (of_nat a) Count ! k = of_nat (a + lower unat k xs)"
proof -
  define cs where "cs = map (\<lambda>k. same unat k xs) [0..<256]"
  have "Count = map of_nat cs"
    using assms(1,2) by (intro nth_equalityI) (simp_all add: cs_def)
  moreover have "length cs = 256"
    by (simp add: cs_def)
  ultimately have "bwt_starts (of_nat a) Count ! k = of_nat (group_starts a cs ! k)"
    using assms(3) by (simp add: bwt_starts_spec)
  also have "group_starts a cs ! k = a + group_starts 0 cs ! k"
    using assms(3) by (simp add: group_starts_nth cs_def)
  also have "group_starts 0 cs ! k = lower unat k xs"
    using assms(3) by (intro group_starts_lower) (simp_all add: cs_def)
  finally show ?thesis .
qed

section \<open>The walk\<close>

lemma row_before_less:
  assumes "r < length L"
  shows "row_before key L r < length L"
  using sort_key_pos [OF assms, of key] by (simp add: sort_pos_def row_before_def)

lemma bwt_walk_spec:
  assumes T: "length T = length L" "\<And>r. r < length L \<Longrightarrow> good (L ! r) \<Longrightarrow> T ! r = bwt_entry (same key (key (L ! r)) (take r L)) (dec (L ! r))"
    and Count: "\<And>r. r < length L \<Longrightarrow> good (L ! r) \<Longrightarrow> Count ! unat (dec (L ! r)) = of_nat (lower key (key (L ! r)) L)"
    and "length L \<le> 2 ^ 24"
  shows "r < length L \<Longrightarrow> (\<And>v. v \<in> set (walk_back key L k r) \<Longrightarrow> good v) \<Longrightarrow>
    bwt_walk k T Count r out = Some (map dec (walk_back key L k r) @ out)"
proof (induction k arbitrary: r out)
  case (Suc k)
  let ?m = "same key (key (L ! r)) (take r L)" and ?l = "lower key (key (L ! r)) L"
  have good: "good (L ! r)"
    using Suc.prems(2) by simp
  have m: "?m < 2 ^ 24"
    using Suc.prems(1) assms(4) unfolding same_def by (intro le_less_trans [OF length_filter_le]) simp
  have b: "row_before key L r < length L"
    by (rule row_before_less [OF Suc.prems(1)])
  then have "unat (of_nat ?m + of_nat ?l :: u32) = row_before key L r"
    unfolding of_nat_add [symmetric] row_before_def using assms(4) by (subst unat_of_nat_u32) simp_all
  then have "bwt_walk (Suc k) T Count r out = bwt_walk k T Count (row_before key L r) (dec (L ! r) # out)"
    using T(1) T(2) [OF Suc.prems(1) good] Count [OF Suc.prems(1) good] Suc.prems(1) bwt_entry_parts [OF m, of "dec (L ! r)"]
    by (simp add: Let_def)
  then show ?case
    using Suc.IH [OF b] Suc.prems(2) by simp
qed simp

section \<open>The decoders restore the block\<close>

definition fast_bwt :: "byte list \<Rightarrow> byte list \<Rightarrow> int \<Rightarrow> bool" where
  "fast_bwt x out FBP \<longleftrightarrow> 0 \<le> FBP \<and> nat FBP < length x \<and> out = map last (rows x) \<and> rows x ! nat FBP = x"

definition strong_bwt :: "byte list \<Rightarrow> byte list \<Rightarrow> int \<Rightarrow> bool" where
  "strong_bwt x out FBP \<longleftrightarrow> 0 \<le> FBP \<and> nat FBP \<le> length x \<and> rows (marked x) ! nat FBP = marked x \<and>
     map last (rows (marked x)) = map Some (take (nat FBP) out) @ None # map Some (drop (nat FBP) out)"

lemma word_order: "a < b \<longleftrightarrow> unat a < unat (b :: byte)"
  by (simp add: word_less_nat_alt)

lemma fast_bwt_decodes:
  assumes "fast_bwt x out FBP" "length x \<le> GRZ_MaxBlockSize"
  shows "GRZip_FastBWT_Decode out FBP = Some x"
proof -
  let ?L = "map last (rows x)" and ?n = "length x"
  have x: "nat FBP < ?n" "rows x ! nat FBP = x" "out = ?L" "0 \<le> FBP"
    using assms(1) by (simp_all add: fast_bwt_def)
  obtain Count where ranks: "bwt_ranks ?L (replicate BWT_MaxByte 0) [] =
      (Count, map (\<lambda>i. bwt_entry (same unat (unat (?L ! i)) (take i ?L)) (?L ! i)) [0..<?n])"
    and len: "length Count = 256" and C: "\<forall>k < 256. Count ! k = of_nat (same unat k ?L)"
    using bwt_ranks_spec [of "replicate BWT_MaxByte 0" "[]" ?L "[]"] by (auto simp: BWT_MaxByte_def)
  have starts: "bwt_starts 0 Count ! unat c = of_nat (lower unat (unat c) ?L)" for c :: byte
    using bwt_starts_lower [OF len C byte_bound, of 0 c] by simp
  have "bwt_walk ?n (map (\<lambda>i. bwt_entry (same unat (unat (?L ! i)) (take i ?L)) (?L ! i)) [0..<?n]) (bwt_starts 0 Count) (nat FBP) [] =
      Some (map (\<lambda>c. c) (walk_back unat ?L ?n (nat FBP)) @ [])"
    by (rule bwt_walk_spec [where good = "\<lambda>_. True"])
      (use assms(2) x(1) in \<open>simp_all add: starts GRZ_MaxBlockSize_def\<close>)
  then show ?thesis
    using x by (simp add: GRZip_FastBWT_Decode_def ranks walk_back_word [OF word_order])
qed

lemma strong_bwt_decodes:
  assumes "strong_bwt x out FBP" "length x \<le> GRZ_MaxBlockSize"
  shows "GRZip_StrongBWT_Decode hole out FBP = Some x"
proof -
  let ?L = "map last (rows (marked x))" and ?n = "length x" and ?F = "nat FBP"
  define key where "key v = (case v of None \<Rightarrow> 0 | Some c \<Rightarrow> Suc (unat c))" for v :: "byte option"
  have key: "a < b \<longleftrightarrow> key a < key b" for a b
    by (cases a; cases b) (simp_all add: key_def word_order)
  have F: "0 \<le> FBP" "?F \<le> ?n" and L: "?L = map Some (take ?F out) @ None # map Some (drop ?F out)"
    using assms(1) by (simp_all add: strong_bwt_def)
  have "length ?L = Suc ?n"
    by simp
  then have n: "length out = ?n"
    unfolding L by simp
  have k: "lower key (Suc h) (map Some xs) = lower unat h xs" "same key (Suc h) (map Some xs) = same unat h xs" for h xs
    by (induction xs) (simp_all add: key_def)
  have low: "lower key (Suc h) ?L = Suc (lower unat h out)" for h
  proof -
    have "lower unat h out = lower unat h (take ?F out) + lower unat h (drop ?F out)"
      by (metis append_take_drop_id lower_simps(3))
    then show ?thesis
      unfolding L lower_simps k(1) by (simp add: key_def)
  qed
  obtain Count1 where r1: "bwt_ranks (take ?F out) (replicate BWT_MaxByte 0) [] =
      (Count1, map (\<lambda>i. bwt_entry (same unat (unat (out ! i)) (take i out)) (out ! i)) [0..<?F])"
    and len1: "length Count1 = 256" and C1': "\<forall>k < 256. Count1 ! k = of_nat (same unat k (take ?F out))"
    using bwt_ranks_spec [of "replicate BWT_MaxByte 0" "[]" "take ?F out" "[]"] F(2) n by (auto simp: BWT_MaxByte_def min_absorb2)
  define T where "T = map (\<lambda>i. bwt_entry (same unat (unat (out ! i)) (take i out)) (out ! i)) [0..<?F] @ [hole] @
    map (\<lambda>i. bwt_entry (same unat (unat (drop ?F out ! i)) (take ?F out @ take i (drop ?F out))) (drop ?F out ! i)) [0..<?n - ?F]"
  obtain Count where r2: "bwt_ranks (drop ?F out) Count1 (map (\<lambda>i. bwt_entry (same unat (unat (out ! i)) (take i out)) (out ! i)) [0..<?F] @ [hole]) = (Count, T)"
    and len: "length Count = 256" and C: "\<forall>k < 256. Count ! k = of_nat (same unat k out)"
    using bwt_ranks_spec [OF len1 C1', of "drop ?F out" "map (\<lambda>i. bwt_entry (same unat (unat (out ! i)) (take i out)) (out ! i)) [0..<?F] @ [hole]"]
    unfolding T_def append_take_drop_id length_drop n append_assoc by blast
  have starts: "bwt_starts 1 Count ! unat c = of_nat (Suc (lower unat (unat c) out))" for c :: byte
    using bwt_starts_lower [OF len C byte_bound, of 1 c] by simp
  have good: "T ! r = bwt_entry (same key (key (?L ! r)) (take r ?L)) (the (?L ! r))" if r: "r < Suc ?n" "?L ! r \<noteq> None" for r
  proof -
    consider "r < ?F" | "r = ?F" | j where "r = Suc (?F + j)" "j < ?n - ?F"
      using r(1) by (cases r ?F rule: linorder_cases) (auto dest: less_imp_Suc_add)
    then show ?thesis
    proof cases
      case 1
      then have "?L ! r = Some (out ! r)" "take r ?L = map Some (take r out)"
        unfolding L using n F(2) by (simp_all add: nth_append take_map min_absorb2 min_absorb1)
      then show ?thesis
        using 1 k(2) unfolding T_def by (simp add: nth_append) (simp add: key_def)
    next
      case 2
      then show ?thesis
        using r(2) unfolding L using n F(2) by (simp add: nth_append)
    next
      case 3
      then have "?L ! r = Some (drop ?F out ! j)" "take r ?L = map Some (take ?F out) @ None # map Some (take j (drop ?F out))"
        unfolding L using n F(2) by (simp_all add: nth_append take_map)
      then show ?thesis
        using 3 k(2) unfolding T_def by (simp add: nth_append) (simp add: key_def)
    qed
  qed
  have walk: "walk_back key ?L ?n 0 = map Some x"
    using walk_back_row [OF key, of 0 "marked x" ?n] by (simp add: marked_first)
  have "bwt_walk ?n T (bwt_starts 1 Count) 0 [] = Some (map the (walk_back key ?L ?n 0) @ [])"
  proof (rule bwt_walk_spec [where good = "\<lambda>v. v \<noteq> None"])
    show "length T = length ?L"
      using F(2) n by (simp add: T_def)
    show "length ?L \<le> 2 ^ 24"
      using assms(2) by (simp add: GRZ_MaxBlockSize_def)
    show "T ! r = bwt_entry (same key (key (?L ! r)) (take r ?L)) (the (?L ! r))" if "r < length ?L" "?L ! r \<noteq> None" for r
      using good [of r] that by simp
    show "bwt_starts 1 Count ! unat (the (?L ! r)) = of_nat (lower key (key (?L ! r)) ?L)" if v: "r < length ?L" "?L ! r \<noteq> None" for r
    proof -
      obtain c where "?L ! r = Some c"
        using v(2) by auto
      then show ?thesis
        using starts [of c] low [of "unat c"] by (simp add: key_def)
    qed
  qed (auto simp: walk)
  then show ?thesis
    using F r1 r2 n unfolding GRZip_StrongBWT_Decode_def walk by (simp add: comp_def)
qed

section \<open>The fast encoder gets the block turned around\<close>

lemma length_swap_at [simp]: "length (swap_at i j xs) = length xs"
  by (simp add: swap_at_def)

lemma length_fold_swap: "length (fold (\<lambda>i. swap_at i (f i)) ks xs) = length xs"
  by (induction ks arbitrary: xs) simp_all

lemma length_turn_around [simp]: "length (turn_around Size xs) = length xs"
  unfolding turn_around_def by (rule length_fold_swap)

lemma turn_around_nth:
  assumes "Size + FastBWT_NumOverShoot \<le> length xs" "k \<le> (Size + FastBWT_NumOverShoot) div 2" "j < length xs"
  shows "fold (\<lambda>i Input. swap_at i (Size + FastBWT_NumOverShoot - i - 1) Input) [0..<k] xs ! j =
    (if j < k \<or> Size + FastBWT_NumOverShoot - k \<le> j \<and> j < Size + FastBWT_NumOverShoot then xs ! (Size + FastBWT_NumOverShoot - 1 - j) else xs ! j) \<and>
    length (fold (\<lambda>i Input. swap_at i (Size + FastBWT_NumOverShoot - i - 1) Input) [0..<k] xs) = length xs"
  using assms(2,3)
proof (induction k arbitrary: j)
  case (Suc k)
  let ?M = "Size + FastBWT_NumOverShoot"
  let ?ys = "fold (\<lambda>i Input. swap_at i (?M - i - 1) Input) [0..<k] xs"
  have IH: "?ys ! j = (if j < k \<or> ?M - k \<le> j \<and> j < ?M then xs ! (?M - 1 - j) else xs ! j)" "length ?ys = length xs"
    if "j < length xs" for j
    using Suc.IH [of j] Suc.prems(1) that by simp_all
  have "2 * Suc k \<le> ?M"
    using mult_le_mono2 [OF Suc.prems(1), of 2] times_div_less_eq_dividend [of 2 ?M] by (rule le_trans)
  then have k: "k < ?M - k - 1 \<or> k = ?M - k - 1" "k < length xs" "?M - k - 1 < length xs"
    using assms(1) by auto
  have "swap_at k (?M - k - 1) ?ys ! j =
    (if j = ?M - k - 1 then ?ys ! k else if j = k then ?ys ! (?M - k - 1) else ?ys ! j)"
    using k Suc.prems(2) IH(2) [OF k(2)] unfolding swap_at_def by (simp add: nth_list_update)
  moreover have "?ys ! k = xs ! k" "?ys ! (?M - k - 1) = xs ! (?M - k - 1)"
    using IH(1) [OF k(2)] IH(1) [OF k(3)] Suc.prems(1) by (auto simp: FastBWT_NumOverShoot_def)
  ultimately show ?case
    using IH [OF Suc.prems(2)] Suc.prems(1) by (auto simp: FastBWT_NumOverShoot_def)
qed auto

lemma turn_around_spec:
  assumes "Size + FastBWT_NumOverShoot \<le> length xs"
  shows "turn_around Size xs = rev (take (Size + FastBWT_NumOverShoot) xs) @ drop (Size + FastBWT_NumOverShoot) xs"
proof (rule nth_equalityI)
  define M where "M = Size + FastBWT_NumOverShoot"
  define h where "h = M div 2"
  have h: "M - 2 * h \<le> 1" "2 * h \<le> M"
    unfolding h_def by linarith+
  show "length (turn_around Size xs) = length (rev (take (Size + FastBWT_NumOverShoot) xs) @ drop (Size + FastBWT_NumOverShoot) xs)"
    using assms by simp
  fix j
  assume "j < length (turn_around Size xs)"
  then have j: "j < length xs"
    by simp
  have "turn_around Size xs ! j = (if j < h \<or> M - h \<le> j \<and> j < M then xs ! (M - 1 - j) else xs ! j)"
    using turn_around_nth [OF assms _ j, of h] by (simp only: turn_around_def M_def h_def order.refl simp_thms)
  also have "\<dots> = (if j < M then xs ! (M - Suc j) else xs ! j)"
  proof (cases "j < h \<or> M - h \<le> j \<or> M \<le> j")
    case True
    then show ?thesis
      using h by (auto simp: not_less)
  next
    case False
    then have "M - Suc j = j"
      using h by linarith
    then show ?thesis
      using False by simp
  qed
  also have "\<dots> = (rev (take M xs) @ drop M xs) ! j"
    using assms j unfolding M_def [symmetric] by (simp add: nth_append rev_nth min_absorb2)
  finally show "turn_around Size xs ! j = (rev (take (Size + FastBWT_NumOverShoot) xs) @ drop (Size + FastBWT_NumOverShoot) xs) ! j"
    by (simp only: M_def)
qed

text \<open>What the fast encoder sees, and that a failed attempt leaves the block as it was.\<close>

lemma repeat_ahead:
  assumes "Size + k \<le> length xs" "0 < Size"
  shows "fold (\<lambda>i Input. Input[Size + i := Input ! i]) [0..<k] xs = take Size xs @ map (\<lambda>i. xs ! (i mod Size)) [0..<k] @ drop (Size + k) xs"
  using assms(1)
proof (induction k)
  case (Suc k)
  let ?ys = "take Size xs @ map (\<lambda>i. xs ! (i mod Size)) [0..<k] @ drop (Size + k) xs"
  have "?ys ! k = xs ! (k mod Size)"
  proof (cases "k < Size")
    case False
    then have "?ys ! k = xs ! ((k - Size) mod Size)"
      using Suc.prems assms(2) by (simp add: nth_append)
    then show ?thesis
      using False by (simp add: le_mod_geq)
  qed (use Suc.prems in \<open>simp add: nth_append\<close>)
  moreover have "drop (Size + k) xs = xs ! (Size + k) # drop (Suc (Size + k)) xs"
    using Suc.prems by (simp add: Cons_nth_drop_Suc)
  ultimately show ?case
    using Suc by (simp add: list_update_append)
qed simp

definition faces :: "byte list \<Rightarrow> nat \<Rightarrow> byte list \<Rightarrow> bool" where
  "faces Input Size x \<longleftrightarrow> length x = Size \<and> 0 < Size \<and> Size + FastBWT_NumOverShoot + 4 \<le> length Input \<and>
     take Size (drop FastBWT_NumOverShoot Input) = rev x \<and>
     (\<forall>i < FastBWT_NumOverShoot. Input ! (FastBWT_NumOverShoot - Suc i) = x ! (i mod Size)) \<and>
     (\<forall>k < 4. Input ! (Size + FastBWT_NumOverShoot + k) = Input ! (FastBWT_NumOverShoot + k))"

lemma copy_four:
  assumes "p + 4 \<le> length xs" "q + 4 \<le> p"
  shows "fold (\<lambda>k Input. Input[p + k := Input ! (q + k)]) [0..<4] xs = take p xs @ take 4 (drop q xs) @ drop (p + 4) xs"
proof -
  have "fold (\<lambda>k Input. Input[p + k := Input ! (q + k)]) [0..<m] xs = take p xs @ take m (drop q xs) @ drop (p + m) xs" if "m \<le> 4" for m
    using that
  proof (induction m)
    case (Suc m)
    have "take (Suc m) (drop q xs) = take m (drop q xs) @ [xs ! (q + m)]"
      using Suc.prems assms by (simp add: take_Suc_conv_app_nth)
    moreover have "drop (p + m) xs = xs ! (p + m) # drop (Suc (p + m)) xs"
      using Suc.prems assms by (simp add: Cons_nth_drop_Suc)
    ultimately show ?case
      using Suc assms by (simp add: list_update_append nth_append min_absorb2)
  qed simp
  then show ?thesis
    by simp
qed

lemma fast_init_faces:
  assumes "Size + FastBWT_NumOverShoot + 4 \<le> length Input" "4 \<le> Size"
  shows "faces (GRZip_BWT_FastBWT_Init Input Size) Size (take Size Input)"
    "take Size (GRZip_BWT_FastBWT_Done (GRZip_BWT_FastBWT_Init Input Size) Size) = take Size Input"
proof -
  let ?O = "FastBWT_NumOverShoot" and ?x = "take Size Input"
  define ahead where "ahead = map (\<lambda>i. Input ! (i mod Size)) [0..<?O]"
  define A where "A = ?x @ ahead @ drop (Size + ?O) Input"
  have O: "4 \<le> ?O" "length ahead = ?O"
    by (simp_all add: FastBWT_NumOverShoot_def ahead_def)
  have "turn_around Size A = rev (take (Size + ?O) A) @ drop (Size + ?O) A"
    using assms O by (intro turn_around_spec) (simp add: A_def)
  then have T: "turn_around Size A = (rev ahead @ rev ?x) @ drop (Size + ?O) Input"
    using assms O by (simp add: A_def)
  define tail where "tail = take 4 (rev ?x) @ drop (Size + ?O + 4) Input"
  have len: "length (turn_around Size A) = length Input"
    using assms O by (simp add: A_def)
  have "0 < Size" "Size + ?O \<le> length Input"
    using assms by simp_all
  then have "fold (\<lambda>i Input. Input[Size + i := Input ! i]) [0..<?O] Input = A"
    unfolding A_def ahead_def by (intro repeat_ahead) simp_all
  then have "GRZip_BWT_FastBWT_Init Input Size = fold (\<lambda>k Input. Input[Size + ?O + k := Input ! (?O + k)]) [0..<4] (turn_around Size A)"
    by (simp add: GRZip_BWT_FastBWT_Init_def Let_def)
  also have "\<dots> = take (Size + ?O) (turn_around Size A) @ take 4 (drop ?O (turn_around Size A)) @ drop (Size + ?O + 4) (turn_around Size A)"
    using assms O len by (intro copy_four) simp_all
  also have "\<dots> = (rev ahead @ rev ?x) @ tail"
    unfolding T tail_def using assms O by (simp add: add.commute [of 4])
  finally have I: "GRZip_BWT_FastBWT_Init Input Size = (rev ahead @ rev ?x) @ tail" .
  have "Input ! (i mod Size) = ?x ! (i mod Size)" for i
    using assms by simp
  then have "(rev ahead @ rev ?x @ tail) ! (?O - Suc i) = ?x ! (i mod Size)" if "i < ?O" for i
    using that O by (simp add: nth_append rev_nth ahead_def)
  moreover have "tail ! k = rev ?x ! k" "(rev ?x @ tail) ! k = rev ?x ! k" if "k < 4" for k
    using that assms by (simp_all add: tail_def nth_append)
  ultimately show "faces (GRZip_BWT_FastBWT_Init Input Size) Size ?x"
    using assms O unfolding I faces_def by (simp add: nth_append tail_def)
  have "length ((rev ahead @ rev ?x) @ tail) \<ge> Size + ?O"
    using assms O by simp
  then have "turn_around Size ((rev ahead @ rev ?x) @ tail) = rev (rev ahead @ rev ?x) @ tail"
    using turn_around_spec [of Size "(rev ahead @ rev ?x) @ tail"] assms O by simp
  then show "take Size (GRZip_BWT_FastBWT_Done (GRZip_BWT_FastBWT_Init Input Size) Size) = ?x"
    using assms unfolding GRZip_BWT_FastBWT_Done_def I by simp
qed

section \<open>What the encoder chooses is decoded\<close>

text \<open>
  What the two sorting functions are to yield: the transform of the block, or a refusal; the fast one for blocks
  whose size is a multiple of eight, as all blocks are that it gets.
\<close>

definition strong_sorts :: "(byte list \<Rightarrow> int \<times> byte list) \<Rightarrow> bool" where
  "strong_sorts strong \<longleftrightarrow> (\<forall>x r out. strong x = (r, out) \<longrightarrow> r = GRZ_NOT_ENOUGH_MEMORY \<or> strong_bwt x out r)"

definition fast_sorts :: "(byte list \<Rightarrow> nat \<Rightarrow> nat \<Rightarrow> int \<times> byte list) \<Rightarrow> bool" where
  "fast_sorts fast \<longleftrightarrow> (\<forall>Input Size x r out. 8 dvd Size \<longrightarrow> faces Input Size x \<longrightarrow> fast Input FastBWT_NumOverShoot Size = (r, out) \<longrightarrow>
     r = GRZ_NOT_ENOUGH_MEMORY \<or> r = GRZ_FAST_BWT_FAILS \<or> fast_bwt x out r)"

lemma flag_bits:
  assumes "0 \<le> r" "r < 2 ^ 30"
  shows "r AND StrongBWT_Flag = 0" "(r OR StrongBWT_Flag) AND StrongBWT_Flag \<noteq> 0" "(r OR StrongBWT_Flag) AND NOT StrongBWT_Flag = r"
proof -
  have flag: "StrongBWT_Flag = 2 ^ 30"
    by (simp add: StrongBWT_Flag_def)
  have "take_bit 30 r = r"
    using assms by (simp add: take_bit_int_eq_self)
  then have b: "\<not> bit r 30"
    by (metis bit_take_bit_iff less_irrefl)
  have f: "bit StrongBWT_Flag n \<longleftrightarrow> n = 30" for n
    unfolding flag by (simp only: bit_exp_iff) auto
  show "r AND StrongBWT_Flag = 0" "(r OR StrongBWT_Flag) AND NOT StrongBWT_Flag = r"
    using b by (auto intro!: bit_eqI simp: bit_and_iff bit_or_iff bit_not_iff f)
  have "bit ((r OR StrongBWT_Flag) AND StrongBWT_Flag) 30"
    by (simp add: bit_and_iff bit_or_iff f)
  then show "(r OR StrongBWT_Flag) AND StrongBWT_Flag \<noteq> 0"
    by auto
qed

lemma use_strong_decodes:
  assumes "strong_sorts strong" "length x \<le> GRZ_MaxBlockSize"
    "(let (Result, out) = strong x in if Result \<noteq> GRZ_NOT_ENOUGH_MEMORY then (Result OR StrongBWT_Flag, out) else (GRZ_NOT_ENOUGH_MEMORY, out)) = (r, out)"
  shows "r = GRZ_NOT_ENOUGH_MEMORY \<or> length out = length x \<and> GRZip_BWT_Decode hole out r = Some x \<and> 0 \<le> r \<and> r < 2 ^ 31"
proof (cases "r = GRZ_NOT_ENOUGH_MEMORY")
  case False
  then obtain r' where r': "strong x = (r', out)" "r = r' OR StrongBWT_Flag" "r' \<noteq> GRZ_NOT_ENOUGH_MEMORY"
    using assms(3) by (auto split: prod.splits if_splits)
  then have s: "strong_bwt x out r'"
    using assms(1) by (auto simp: strong_sorts_def)
  then have "0 \<le> r'" "r' < 2 ^ 30"
    using assms(2) by (auto simp: strong_bwt_def GRZ_MaxBlockSize_def)
  moreover have "length (map last (rows (marked x))) = Suc (length out)"
    using s unfolding strong_bwt_def by simp
  moreover have "0 \<le> r"
    unfolding r'(2) using \<open>0 \<le> r'\<close> by (simp add: StrongBWT_Flag_def)
  moreover have "r < 2 ^ 31"
    unfolding r'(2) using \<open>0 \<le> r'\<close> \<open>r' < 2 ^ 30\<close> by (intro OR_upper) (simp_all add: StrongBWT_Flag_def)
  ultimately show ?thesis
    using flag_bits [of r'] strong_bwt_decodes [OF s assms(2)] unfolding GRZip_BWT_Decode_def r'(2) by simp
qed simp

lemma bwt_decodes:
  assumes "strong_sorts strong" "fast_sorts fast" "4 \<le> Size" "Size \<le> GRZ_MaxBlockSize \<and> 8 dvd Size"
    "Size + FastBWT_NumOverShoot + 4 \<le> length Input" "GRZip_BWT_Encode strong fast Input Size FastMode = (r, out)"
  shows "r = GRZ_NOT_ENOUGH_MEMORY \<or> length out = Size \<and> 0 \<le> r \<and> r < 2 ^ 31 \<and> GRZip_BWT_Decode hole out r = Some (take Size Input)"
proof -
  let ?x = "take Size Input"
  have x: "length ?x = Size" "length ?x \<le> GRZ_MaxBlockSize"
    using assms(4,5) by simp_all
  note strong = use_strong_decodes [OF assms(1) x(2), of r out hole]
  obtain r' out' where f: "fast (GRZip_BWT_FastBWT_Init Input Size) FastBWT_NumOverShoot Size = (r', out')"
    by fastforce
  note init = fast_init_faces [OF assms(5,3)]
  consider "\<not> FastMode" | "FastMode" "r' = GRZ_FAST_BWT_FAILS" | "FastMode" "r' \<noteq> GRZ_FAST_BWT_FAILS"
    by blast
  then show ?thesis
  proof cases
    case 3
    then have r: "r' = r" "out' = out"
      using assms(6) f by (simp_all add: GRZip_BWT_Encode_def)
    show ?thesis
    proof (cases "r = GRZ_NOT_ENOUGH_MEMORY")
      case False
      then have s: "fast_bwt ?x out r"
        using assms(2,4) init(1) f 3(2) unfolding fast_sorts_def r by blast
      then have "0 \<le> r" "r < 2 ^ 30"
        using assms(4) by (auto simp: fast_bwt_def GRZ_MaxBlockSize_def)
      moreover have "length out = Size"
        using s x(1) unfolding fast_bwt_def by simp
      ultimately show ?thesis
        using flag_bits(1) [of r] fast_bwt_decodes [OF s x(2)] by (simp add: GRZip_BWT_Decode_def)
    qed simp
  qed (use assms(6) f init(2) strong x(1) in \<open>auto simp: GRZip_BWT_Encode_def Let_def\<close>)
qed

text \<open>
  Whichever encoder \<^verbatim>\<open>GRZip_BWT_Encode\<close> takes, also after the fast one gave up on the block it had turned
  around, \<^verbatim>\<open>GRZip_BWT_Decode\<close> sees from the flag in the result which decoder to take and restores the block,
  and the result fits a field of the header, provided the sorting functions yield the transforms they are meant to yield.
\<close>
theorem bwt_roundtrip:
  assumes "strong_sorts strong" "fast_sorts fast" "4 \<le> Size" "Size \<le> GRZ_MaxBlockSize \<and> 8 dvd Size"
    "Size + FastBWT_NumOverShoot + 4 \<le> length Input" "GRZip_BWT_Encode strong fast Input Size FastMode = (r, out)"
  shows "r = GRZ_NOT_ENOUGH_MEMORY \<or> length out = Size \<and> 0 \<le> r \<and> r < 2 ^ 31 \<and> GRZip_BWT_Decode hole out r = Some (take Size Input)"
  using assms by (rule bwt_decodes)

text \<open>Sorting the rotations as the specification has it keeps these promises.\<close>

definition row_of :: "'a::linorder list \<Rightarrow> nat" where
  "row_of y = length (takeWhile (\<lambda>w. w \<noteq> y) (rows y))"

definition strong_reference :: "byte list \<Rightarrow> int \<times> byte list" where
  "strong_reference x = (let L = map last (rows (marked x)); r = row_of (marked x) in (int r, map the (take r L @ drop (Suc r) L)))"

definition fast_reference :: "byte list \<Rightarrow> nat \<Rightarrow> nat \<Rightarrow> int \<times> byte list" where
  "fast_reference Input p Size = (let x = rev (take Size (drop p Input)) in (int (row_of x), map last (rows x)))"

lemma length_takeWhile_full: "length (takeWhile P xs) = length xs \<Longrightarrow> takeWhile P xs = xs"
  by (metis append_Nil2 append_eq_append_conv takeWhile_dropWhile_id)

lemma row_of:
  assumes "y \<noteq> []"
  shows "row_of y < length y" "rows y ! row_of y = y"
proof -
  have "rotate 0 y \<in> set (rows y)"
    unfolding rows_def set_sort set_map using assms by (intro imageI) simp
  then have "\<exists>w \<in> set (rows y). \<not> w \<noteq> y"
    by (intro bexI [of _ y]) simp_all
  then show "row_of y < length y" "rows y ! row_of y = y"
    unfolding row_of_def using nth_length_takeWhile [of "\<lambda>w. w \<noteq> y" "rows y"] takeWhile_eq_all_conv [of "\<lambda>w. w \<noteq> y" "rows y"]
      length_takeWhile_le [of "\<lambda>w. w \<noteq> y" "rows y"]
    by (metis le_neq_implies_less length_rows length_takeWhile_full)+
qed

lemma strong_reference_sorts: "strong_sorts strong_reference"
  unfolding strong_sorts_def
proof (intro allI impI disjI2)
  fix x :: "byte list" and r out
  assume ref: "strong_reference x = (r, out)"
  define L where "L = map last (rows (marked x))"
  define F where "F = row_of (marked x)"
  have F: "F \<le> length x" "rows (marked x) ! F = marked x"
    using row_of [of "marked x"] by (simp_all add: F_def marked_def)
  have len: "length L = Suc (length x)"
    by (simp add: L_def)
  then have split: "L = take F L @ L ! F # drop (Suc F) L"
    using F(1) by (simp add: id_take_nth_drop)
  have N: "L ! F = None"
    using F by (simp add: L_def marked_def)
  have "mset L = mset (marked x)"
    unfolding L_def by (rule mset_last_rows)
  then have "mset (take F L @ drop (Suc F) L) = mset (map Some x)"
    using arg_cong [OF split, of mset] by (simp add: N marked_def)
  then have "None \<notin> set (take F L @ drop (Suc F) L)"
    by (metis list.set_map imageE option.distinct(1) mset_eq_setD)
  then have S: "map Some (map the (take F L)) = take F L" "map Some (map the (drop (Suc F) L)) = drop (Suc F) L"
    by (auto intro!: map_idI) (metis option.collapse)+
  have r: "r = int F" "out = map the (take F L @ drop (Suc F) L)"
    using ref by (simp_all add: strong_reference_def Let_def L_def F_def)
  then have "map Some (take F out) = take F L" "map Some (drop F out) = drop (Suc F) L"
    using S len F(1) by (simp_all add: min_absorb2)
  then show "strong_bwt x out r"
    using F split unfolding strong_bwt_def L_def [symmetric] r(1) N by simp
qed

lemma fast_reference_sorts: "fast_sorts fast_reference"
  unfolding fast_sorts_def
proof (intro allI impI disjI2)
  fix Input Size x r out
  assume "8 dvd Size" and f: "faces Input Size x" and ref: "fast_reference Input FastBWT_NumOverShoot Size = (r, out)"
  have "rev (take Size (drop FastBWT_NumOverShoot Input)) = x"
    using f by (simp add: faces_def)
  moreover have "x \<noteq> []"
    using f by (auto simp: faces_def)
  ultimately show "fast_bwt x out r"
    using ref row_of [of x] by (auto simp: fast_reference_def fast_bwt_def Let_def)
qed

text \<open>
  C36: every block has the two Burrows-Wheeler transforms that the decoders are specified for, and the decoders undo them.  From the
  last bytes of the sorted rotations of a block, and the row of the block among them, \<^verbatim>\<open>GRZip_FastBWT_Decode\<close> restores the
  block, also when rotations are equal; from the last bytes of the sorted suffixes, with the row of the block itself left out,
  \<^verbatim>\<open>GRZip_StrongBWT_Decode\<close> does, whatever the memory of that row held.
\<close>
theorem bwt_inverted:
  assumes "x \<noteq> []" "length x \<le> GRZ_MaxBlockSize"
  shows "(\<exists>out FBP. fast_bwt x out FBP) \<and> (\<exists>out FBP. strong_bwt x out FBP) \<and>
    (\<forall>out FBP. fast_bwt x out FBP \<longrightarrow> GRZip_FastBWT_Decode out FBP = Some x) \<and>
    (\<forall>out FBP hole. strong_bwt x out FBP \<longrightarrow> GRZip_StrongBWT_Decode hole out FBP = Some x)"
proof (intro conjI allI impI)
  show "\<exists>out FBP. fast_bwt x out FBP"
    using row_of [OF assms(1)] unfolding fast_bwt_def
    by (intro exI [of _ "map last (rows x)"] exI [of _ "int (row_of x)"]) simp
  show "\<exists>out FBP. strong_bwt x out FBP"
    using strong_reference_sorts unfolding strong_sorts_def strong_reference_def Let_def by (fastforce simp: grz_codes)
qed (use assms(2) in \<open>simp_all add: fast_bwt_decodes strong_bwt_decodes\<close>)

theorem bwt_inverted_witness:
  "GRZip_FastBWT_Decode [2, 2, 1, 1] 2 = Some [2, 1, 2, 1] \<and> GRZip_StrongBWT_Decode 5 [1, 2, 2, 1] 4 = Some [2, 1, 2, 1]"
proof -
  have "fast_bwt [2, 1, 2, 1] [2, 2, 1, 1] 2" "strong_bwt [2, 1, 2, 1] [1, 2, 2, 1] 4"
    by code_simp+
  then show ?thesis
    using bwt_inverted [of "[2, 1, 2, 1]"] by (simp add: GRZ_MaxBlockSize_def)
qed

theorem bwt_roundtrip_witness:
  "\<exists>r out. GRZip_BWT_Encode strong_reference fast_reference ([1, 2, 3, 1, 2, 3, 1, 2] @ replicate 84 0) 8 True = (r, out) \<and>
    GRZip_BWT_Decode 7 out r = Some [1, 2, 3, 1, 2, 3, 1, 2]"
proof -
  let ?x = "[1, 2, 3, 1, 2, 3, 1, 2] @ replicate 84 0 :: byte list"
  obtain r out where e: "GRZip_BWT_Encode strong_reference fast_reference ?x 8 True = (r, out)"
    by fastforce
  have "r \<noteq> GRZ_NOT_ENOUGH_MEMORY"
    using e by (auto simp: GRZip_BWT_Encode_def fast_reference_def Let_def grz_codes)
  then show ?thesis
    using e bwt_roundtrip [OF strong_reference_sorts fast_reference_sorts _ _ _ e, of 7]
    by (simp add: GRZ_MaxBlockSize_def FastBWT_NumOverShoot_def)
qed

end
