(* ===== verification/Grz_Entropy.thy ===== *)
theory Grz_Entropy
  imports Grz_Range
begin

text \<open>
  What \<^verbatim>\<open>GRZip/MTF_Ari.c\<close> and \<^verbatim>\<open>GRZip/WFC_Ari.c\<close> share besides the range coder: the tables of
  \<^verbatim>\<open>WFC_MTF.h\<close>, the adaptive models, and the coding of runs of bytes as ranks and run sizes.  The two
  files differ in how they rank the bytes; a locale states what they need of a ranking, and proves
  that the decoder restores what the encoder was given.
\<close>

section \<open>Tables\<close>

definition WFCMTF_Rank2GrNum :: "nat list" where
  "WFCMTF_Rank2GrNum = [
     0, 0, 0, 0, 0, 1, 1, 1, 1, 2, 2, 2, 2, 2, 2, 2, 2, 3, 3, 3, 3, 3, 3, 3, 3, 3, 3, 3, 3, 3,
     3, 3, 3, 4, 4, 4, 4, 4, 4, 4, 4, 4, 4, 4, 4, 4, 4, 4, 4, 4, 4, 4, 4, 4, 4, 4, 4, 4, 4, 4,
     4, 4, 4, 4, 4, 5, 5, 5, 5, 5, 5, 5, 5, 5, 5, 5, 5, 5, 5, 5, 5, 5, 5, 5, 5, 5, 5, 5, 5, 5,
     5, 5, 5, 5, 5, 5, 5, 5, 5, 5, 5, 5, 5, 5, 5, 5, 5, 5, 5, 5, 5, 5, 5, 5, 5, 5, 5, 5, 5, 5,
     5, 5, 5, 5, 5, 5, 5, 5, 5, 6, 6, 6, 6, 6, 6, 6, 6, 6, 6, 6, 6, 6, 6, 6, 6, 6, 6, 6, 6, 6,
     6, 6, 6, 6, 6, 6, 6, 6, 6, 6, 6, 6, 6, 6, 6, 6, 6, 6, 6, 6, 6, 6, 6, 6, 6, 6, 6, 6, 6, 6,
     6, 6, 6, 6, 6, 6, 6, 6, 6, 6, 6, 6, 6, 6, 6, 6, 6, 6, 6, 6, 6, 6, 6, 6, 6, 6, 6, 6, 6, 6,
     6, 6, 6, 6, 6, 6, 6, 6, 6, 6, 6, 6, 6, 6, 6, 6, 6, 6, 6, 6, 6, 6, 6, 6, 6, 6, 6, 6, 6, 6,
     6, 6, 6, 6, 6, 6, 6, 6, 6, 6, 6, 6, 6, 6, 6, 6]"

definition WFCMTF_Rank2GrPos :: "nat list" where
  "WFCMTF_Rank2GrPos = [
     0, 0, 0, 0, 1, 0, 1, 2, 3, 0, 1, 2, 3, 4, 5, 6, 7, 0, 1, 2, 3, 4, 5, 6, 7, 8, 9, 10, 11,
     12, 13, 14, 15, 0, 1, 2, 3, 4, 5, 6, 7, 8, 9, 10, 11, 12, 13, 14, 15, 16, 17, 18, 19, 20,
     21, 22, 23, 24, 25, 26, 27, 28, 29, 30, 31, 0, 1, 2, 3, 4, 5, 6, 7, 8, 9, 10, 11, 12, 13,
     14, 15, 16, 17, 18, 19, 20, 21, 22, 23, 24, 25, 26, 27, 28, 29, 30, 31, 32, 33, 34, 35,
     36, 37, 38, 39, 40, 41, 42, 43, 44, 45, 46, 47, 48, 49, 50, 51, 52, 53, 54, 55, 56, 57,
     58, 59, 60, 61, 62, 63, 0, 1, 2, 3, 4, 5, 6, 7, 8, 9, 10, 11, 12, 13, 14, 15, 16, 17, 18,
     19, 20, 21, 22, 23, 24, 25, 26, 27, 28, 29, 30, 31, 32, 33, 34, 35, 36, 37, 38, 39, 40,
     41, 42, 43, 44, 45, 46, 47, 48, 49, 50, 51, 52, 53, 54, 55, 56, 57, 58, 59, 60, 61, 62,
     63, 64, 65, 66, 67, 68, 69, 70, 71, 72, 73, 74, 75, 76, 77, 78, 79, 80, 81, 82, 83, 84,
     85, 86, 87, 88, 89, 90, 91, 92, 93, 94, 95, 96, 97, 98, 99, 100, 101, 102, 103, 104, 105,
     106, 107, 108, 109, 110, 111, 112, 113, 114, 115, 116, 117, 118, 119, 120, 121, 122, 123,
     124, 125, 126]"

definition WFCMTF_Rank2Mask :: "nat list" where
  "WFCMTF_Rank2Mask = [
     0, 0, 0, 1, 1, 2, 2, 2, 2, 4, 4, 4, 4, 4, 4, 4, 4, 8, 8, 8, 8, 8, 8, 8, 8, 8, 8, 8, 8, 8,
     8, 8, 8, 16, 16, 16, 16, 16, 16, 16, 16, 16, 16, 16, 16, 16, 16, 16, 16, 16, 16, 16, 16,
     16, 16, 16, 16, 16, 16, 16, 16, 16, 16, 16, 16, 32, 32, 32, 32, 32, 32, 32, 32, 32, 32,
     32, 32, 32, 32, 32, 32, 32, 32, 32, 32, 32, 32, 32, 32, 32, 32, 32, 32, 32, 32, 32, 32,
     32, 32, 32, 32, 32, 32, 32, 32, 32, 32, 32, 32, 32, 32, 32, 32, 32, 32, 32, 32, 32, 32,
     32, 32, 32, 32, 32, 32, 32, 32, 32, 32, 64, 64, 64, 64, 64, 64, 64, 64, 64, 64, 64, 64,
     64, 64, 64, 64, 64, 64, 64, 64, 64, 64, 64, 64, 64, 64, 64, 64, 64, 64, 64, 64, 64, 64,
     64, 64, 64, 64, 64, 64, 64, 64, 64, 64, 64, 64, 64, 64, 64, 64, 64, 64, 64, 64, 64, 64,
     64, 64, 64, 64, 64, 64, 64, 64, 64, 64, 64, 64, 64, 64, 64, 64, 64, 64, 64, 64, 64, 64,
     64, 64, 64, 64, 64, 64, 64, 64, 64, 64, 64, 64, 64, 64, 64, 64, 64, 64, 64, 64, 64, 64,
     64, 64, 64, 64, 64, 64, 64, 64, 64, 64, 64, 64, 64, 64, 64, 64, 64, 64, 64, 64, 64, 64,
     64, 64, 64, 64, 64]"

definition WFCMTF_GrNum2GrBegin :: "nat list" where
  "WFCMTF_GrNum2GrBegin = [
     3, 5, 9, 17, 33, 65, 129]"

text \<open>The array has one more element than its initialiser, which is zero.\<close>

definition WFCMTF_Log2RLESize :: "nat list" where
  "WFCMTF_Log2RLESize = [
     1, 2, 4, 8, 16, 32, 64, 128, 256, 512, 1024, 2048, 4096, 8192, 16384, 32768, 65536,
     131072, 262144, 524288, 1048576, 2097152, 4194304, 0]"

section \<open>The adaptive models\<close>

text \<open>
  The entries of all models stay below \<^verbatim>\<open>2 ^ 12\<close>, as shown below, so that they are natural numbers
  here.  \<^verbatim>\<open>Model_Log2RLE_1\<close> is one block of memory in the code, addressed as 256 rows.
\<close>

definition Model_MaxFreq :: nat where "Model_MaxFreq = 2048"

record ari_models =
  Model_L0_0 :: "nat list"
  Model_L0_1 :: "nat list list"
  Model_L0_2 :: "nat list list"
  Model_L1_0 :: "nat list"
  Model_L1_1 :: "nat list list"
  Model_L2_0 :: "nat list list"
  Model_Log2RLE_0 :: "nat list list"
  Model_Log2RLE_1 :: "nat list list"
  Model_Log2RLE_2 :: "nat list list"
  CtxRLE :: nat
  CtxL0 :: nat
  CtxL1 :: nat

definition Init_Models :: ari_models where
  "Init_Models =
     (let half = Model_MaxFreq div 2; runs = replicate (GRZ_Log2MaxBlockSize + 1) half
      in \<lparr>Model_L0_0 = [1, 1, 1, 1, 4],
          Model_L0_1 = replicate 256 (replicate 5 0),
          Model_L0_2 = replicate (4 * 256) (replicate 5 0),
          Model_L1_0 = replicate 8 half,
          Model_L1_1 = replicate 7 (replicate 8 half),
          Model_L2_0 = replicate 8 (replicate 128 half),
          Model_Log2RLE_0 = replicate 64 runs,
          Model_Log2RLE_1 = replicate 256 runs,
          Model_Log2RLE_2 = replicate (GRZ_Log2MaxBlockSize + 1) runs,
          CtxRLE = 0, CtxL0 = 0, CtxL1 = 0\<rparr>)"

definition Update_1 :: "nat \<Rightarrow> nat \<Rightarrow> nat" where "Update_1 NumShiftBits x = x - x div 2 ^ NumShiftBits"
definition Update_0 :: "nat \<Rightarrow> nat \<Rightarrow> nat" where "Update_0 NumShiftBits x = x + (Model_MaxFreq - x) div 2 ^ NumShiftBits"

definition Update_Ctx :: "bool \<Rightarrow> nat \<Rightarrow> nat \<Rightarrow> nat list \<Rightarrow> nat list" where
  "Update_Ctx b NumShiftBits P row = row[P := (if b then Update_1 else Update_0) NumShiftBits (row ! P)]"

definition ARI_Bit :: "bool \<Rightarrow> nat \<Rightarrow> ari_op" where
  "ARI_Bit b FFreq0 = (if b then (Model_MaxFreq - FFreq0, FFreq0, Model_MaxFreq) else (FFreq0, 0, Model_MaxFreq))"

section \<open>Binary codes\<close>

text \<open>
  A number in unary, one bit for each step; the frequency of a bit is the mean of two models.  At the
  position \<^verbatim>\<open>stop\<close> the final zero is left out: the number of a group is at most 6.  The decoder yields
  \<^verbatim>\<open>None\<close> where the code would leave the row.
\<close>

fun enc_unary :: "nat \<Rightarrow> nat \<Rightarrow> nat option \<Rightarrow> nat \<Rightarrow> nat \<Rightarrow> nat list \<Rightarrow> nat list \<Rightarrow> ari_op list \<times> nat list \<times> nat list" where
  "enc_unary Shift_0 Shift_1 stop i 0 VCtx UCtx =
     (if stop = Some i then ([], VCtx, UCtx)
      else ([ARI_Bit False ((VCtx ! i + UCtx ! i) div 2)], Update_Ctx False Shift_0 i VCtx, Update_Ctx False Shift_1 i UCtx))"
| "enc_unary Shift_0 Shift_1 stop i (Suc n) VCtx UCtx =
     (let (ops, V, U) = enc_unary Shift_0 Shift_1 stop (i + 1) n (Update_Ctx True Shift_0 i VCtx) (Update_Ctx True Shift_1 i UCtx)
      in (ARI_Bit True ((VCtx ! i + UCtx ! i) div 2) # ops, V, U))"

definition dec_bit :: "nat \<Rightarrow> ari_decoder \<Rightarrow> (bool \<times> ari_decoder) option" where
  "dec_bit FFreq0 d =
     (case ARI_GetFreq Model_MaxFreq d of (x, d) \<Rightarrow>
        let b = (\<not> x < FFreq0)
        in case (if b then ARI_Decode (Model_MaxFreq - FFreq0) FFreq0 d else ARI_Decode FFreq0 0 d) of
             None \<Rightarrow> None
           | Some d \<Rightarrow> Some (b, d))"

function dec_unary :: "nat \<Rightarrow> nat \<Rightarrow> nat option \<Rightarrow> nat \<Rightarrow> nat list \<Rightarrow> nat list \<Rightarrow> ari_decoder \<Rightarrow>
    (nat \<times> nat list \<times> nat list \<times> ari_decoder) option" where
  "dec_unary Shift_0 Shift_1 stop i VCtx UCtx d =
     (if stop = Some i then Some (i, VCtx, UCtx, d)
      else if i \<ge> length VCtx \<or> i \<ge> length UCtx then None
      else
        case dec_bit ((VCtx ! i + UCtx ! i) div 2) d of
          None \<Rightarrow> None
        | Some (b, d) \<Rightarrow>
          let V = Update_Ctx b Shift_0 i VCtx; U = Update_Ctx b Shift_1 i UCtx
          in if b then dec_unary Shift_0 Shift_1 stop (i + 1) V U d else Some (i, V, U, d))"
  by pat_completeness auto
termination
  by (relation "measure (\<lambda>(s0, s1, stop, i, V, U, d). length V - i)") (auto simp: Update_Ctx_def)

declare dec_unary.simps [simp del]

text \<open>
  Bits with one model each.  The position of the next model is the next one in the row for run sizes,
  and the next node of a binary tree for the positions in a group.
\<close>

definition next_bit :: "nat \<Rightarrow> bool \<Rightarrow> nat" where "next_bit i b = i + 1"
definition next_node :: "nat \<Rightarrow> bool \<Rightarrow> nat" where "next_node i b = 2 * i + of_bool b"

fun enc_bits :: "(nat \<Rightarrow> bool \<Rightarrow> nat) \<Rightarrow> nat \<Rightarrow> nat \<Rightarrow> bool list \<Rightarrow> nat list \<Rightarrow> ari_op list \<times> nat list" where
  "enc_bits next Shift i [] VCtx = ([], VCtx)"
| "enc_bits next Shift i (b # bs) VCtx =
     (let (ops, V) = enc_bits next Shift (next i b) bs (Update_Ctx b Shift i VCtx) in (ARI_Bit b (VCtx ! i) # ops, V))"

fun dec_bits :: "(nat \<Rightarrow> bool \<Rightarrow> nat) \<Rightarrow> nat \<Rightarrow> nat \<Rightarrow> nat \<Rightarrow> nat \<Rightarrow> nat list \<Rightarrow> ari_decoder \<Rightarrow>
    (nat \<times> nat list \<times> ari_decoder) option" where
  "dec_bits next Shift i 0 x VCtx d = Some (x, VCtx, d)"
| "dec_bits next Shift i (Suc n) x VCtx d =
     (if i \<ge> length VCtx then None
      else
        case dec_bit (VCtx ! i) d of
          None \<Rightarrow> None
        | Some (b, d) \<Rightarrow> dec_bits next Shift (next i b) n (2 * x + of_bool b) (Update_Ctx b Shift i VCtx) d)"

text \<open>The loops that test the bits of a number against a mask which moves down.\<close>

fun mask_bits :: "nat \<Rightarrow> nat \<Rightarrow> nat \<Rightarrow> bool list" where
  "mask_bits 0 Mask x = []"
| "mask_bits (Suc n) Mask x = (x AND Mask \<noteq> 0) # mask_bits n (Mask div 2) x"

section \<open>Ranks\<close>

definition L0_freq :: "nat list \<Rightarrow> nat list \<Rightarrow> nat list \<Rightarrow> nat \<Rightarrow> nat" where
  "L0_freq L0 VCtx UCtx i = L0 ! i + UCtx ! i + VCtx ! i"

definition L0_bump :: "nat \<Rightarrow> nat list \<Rightarrow> nat list" where
  "L0_bump r xs = (let xs = xs[r := xs ! r + 2] in xs[4 := xs ! 4 + 2])"

definition L0_halve :: "nat \<Rightarrow> nat \<Rightarrow> nat list \<Rightarrow> nat list" where
  "L0_halve MaxFreq up xs =
     (if xs ! 4 > MaxFreq then
        let ys = map (\<lambda>i. (xs ! i + up) div 2) [0, 1, 2, 3] in ys @ [sum_list ys]
      else xs)"

text \<open>The increments and \<^verbatim>\<open>Update_Model_L0\<close>.\<close>

definition Update_Model_L0 :: "nat \<Rightarrow> nat list \<Rightarrow> nat list \<Rightarrow> nat list \<Rightarrow> nat list \<times> nat list \<times> nat list" where
  "Update_Model_L0 r L0 VCtx UCtx =
     (L0_halve 58 1 (L0_bump r L0), L0_halve 62 0 (L0_bump r VCtx), L0_halve 204 0 (L0_bump r UCtx))"

definition L0_ctx :: "ari_models \<Rightarrow> nat" where
  "L0_ctx m = 4 * CtxL0 m + CtxRLE m mod 4"

definition L0_update :: "nat \<Rightarrow> byte \<Rightarrow> ari_models \<Rightarrow> ari_models" where
  "L0_update r PredChar m =
     (let (L0, V, U) = Update_Model_L0 r (Model_L0_0 m) (Model_L0_1 m ! unat PredChar) (Model_L0_2 m ! L0_ctx m)
      in m\<lparr>Model_L0_0 := L0, Model_L0_1 := (Model_L0_1 m)[unat PredChar := V], Model_L0_2 := (Model_L0_2 m)[L0_ctx m := U]\<rparr>)"

text \<open>The ranks 0 to 2 have a symbol of their own; the symbol 3 stands for all others.\<close>

definition enc_L0 :: "nat \<Rightarrow> byte \<Rightarrow> ari_models \<Rightarrow> ari_op \<times> ari_models" where
  "enc_L0 r PredChar m =
     (let f = L0_freq (Model_L0_0 m) (Model_L0_1 m ! unat PredChar) (Model_L0_2 m ! L0_ctx m)
      in ((f r, (if r < 3 then sum_list (map f [0..<r]) else f 4 - f 3), f 4), L0_update r PredChar m))"

function L0_search :: "(nat \<Rightarrow> nat) \<Rightarrow> nat \<Rightarrow> nat \<Rightarrow> nat \<Rightarrow> (nat \<times> nat) option" where
  "L0_search f Frq Cum r =
     (if Frq \<ge> Cum then (if r > 4 then None else L0_search f Frq (Cum + f r) (r + 1))
      else Some (r - 1, Cum - f (r - 1)))"
  by pat_completeness auto
termination by (relation "measure (\<lambda>(f, Frq, Cum, r). 5 - r)") auto

declare L0_search.simps [simp del]

definition dec_L0 :: "byte \<Rightarrow> ari_models \<Rightarrow> ari_decoder \<Rightarrow> (nat \<times> ari_models \<times> ari_decoder) option" where
  "dec_L0 PredChar m d =
     (let f = L0_freq (Model_L0_0 m) (Model_L0_1 m ! unat PredChar) (Model_L0_2 m ! L0_ctx m)
      in case ARI_GetFreq (f 4) d of (Frq, d) \<Rightarrow>
         case L0_search f Frq 0 0 of
           None \<Rightarrow> None
         | Some (r, Cum) \<Rightarrow>
           (case ARI_Decode (f r) Cum d of None \<Rightarrow> None | Some d \<Rightarrow> Some (r, L0_update r PredChar m, d)))"

text \<open>The group of a rank in unary, then its position in the group.\<close>

definition enc_group :: "nat \<Rightarrow> nat \<Rightarrow> nat \<Rightarrow> ari_models \<Rightarrow> ari_op list \<times> ari_models" where
  "enc_group GrNum GrPos Mask m =
     (let (ops1, V, U) = enc_unary 4 6 (Some 6) 0 GrNum (Model_L1_0 m) (Model_L1_1 m ! CtxL1 m);
          (ops2, W) = enc_bits next_node 7 1 (mask_bits (GrNum + 1) Mask GrPos) (Model_L2_0 m ! GrNum)
      in (ops1 @ ops2, m\<lparr>Model_L1_0 := V, Model_L1_1 := (Model_L1_1 m)[CtxL1 m := U], CtxL1 := GrNum,
            Model_L2_0 := (Model_L2_0 m)[GrNum := W]\<rparr>))"

definition dec_group :: "ari_models \<Rightarrow> ari_decoder \<Rightarrow> (nat \<times> nat \<times> ari_models \<times> ari_decoder) option" where
  "dec_group m d =
     (case dec_unary 4 6 (Some 6) 0 (Model_L1_0 m) (Model_L1_1 m ! CtxL1 m) d of
        None \<Rightarrow> None
      | Some (GrNum, V, U, d) \<Rightarrow>
        (case dec_bits next_node 7 1 (GrNum + 1) 0 (Model_L2_0 m ! GrNum) d of
           None \<Rightarrow> None
         | Some (GrPos, W, d) \<Rightarrow>
           Some (GrNum, GrPos, m\<lparr>Model_L1_0 := V, Model_L1_1 := (Model_L1_1 m)[CtxL1 m := U], CtxL1 := GrNum,
             Model_L2_0 := (Model_L2_0 m)[GrNum := W]\<rparr>, d)))"

text \<open>A rank, already lowered by one modulo 256.\<close>

definition enc_rank :: "nat \<Rightarrow> byte \<Rightarrow> ari_models \<Rightarrow> ari_op list \<times> ari_models" where
  "enc_rank WFCMTF_Rank PredChar m =
     (if WFCMTF_Rank < 3 then
        let (op, m) = enc_L0 WFCMTF_Rank PredChar m in ([op], m)
      else
        let (op, m) = enc_L0 3 PredChar m;
            (ops, m) = enc_group (WFCMTF_Rank2GrNum ! WFCMTF_Rank) (WFCMTF_Rank2GrPos ! WFCMTF_Rank)
                         (WFCMTF_Rank2Mask ! WFCMTF_Rank) m
        in (op # ops, m))"

text \<open>The end of the data is the last position of the last group, which no rank takes.\<close>

definition enc_end :: "byte \<Rightarrow> ari_models \<Rightarrow> ari_op list" where
  "enc_end PredChar m = (let (op, m) = enc_L0 3 PredChar m in op # fst (enc_group 6 127 64 m))"

datatype rank_or_end = Rank nat | End

definition dec_rank :: "byte \<Rightarrow> ari_models \<Rightarrow> ari_decoder \<Rightarrow> (rank_or_end \<times> ari_models \<times> ari_decoder) option" where
  "dec_rank PredChar m d =
     (case dec_L0 PredChar m d of
        None \<Rightarrow> None
      | Some (r, m, d) \<Rightarrow>
        if r = 3 then
          case dec_group m d of
            None \<Rightarrow> None
          | Some (GrNum, GrPos, m, d) \<Rightarrow>
            Some (if GrNum = 6 \<and> GrPos = 127 then End else Rank (WFCMTF_GrNum2GrBegin ! GrNum + GrPos), m, d)
        else Some (Rank r, m, d))"

section \<open>Run sizes\<close>

text \<open>The logarithm of a run size of at least 2 and the mask of the bit below its leading one.\<close>

function run_log :: "nat \<Rightarrow> nat \<Rightarrow> nat \<Rightarrow> nat \<times> nat" where
  "run_log Tmp Log2RunSize Mask =
     (let Tmp = Tmp div 2 in if Tmp \<le> 1 then (Log2RunSize, Mask) else run_log Tmp (Log2RunSize + 1) (2 * Mask))"
  by pat_completeness auto
termination by (relation "measure (\<lambda>(t, l, k). t)") auto

declare run_log.simps [simp del]

definition run_ctx :: "nat \<Rightarrow> ari_models \<Rightarrow> ari_models" where
  "run_ctx Log2RunSize m =
     m\<lparr>CtxRLE := (if Log2RunSize < 2 then (2 * CtxRLE m) mod 16 else (2 * CtxRLE m + 1) mod 16)\<rparr>"

definition enc_run :: "nat \<Rightarrow> byte \<Rightarrow> nat \<Rightarrow> ari_models \<Rightarrow> ari_op list \<times> ari_models" where
  "enc_run r3 Ch RunSize m =
     (let (Log2RunSize, Mask) = (if RunSize = 1 then (0, 0) else run_log RunSize 1 1);
          row = CtxRLE m + 16 * r3;
          (ops1, V, U) = enc_unary 6 3 None 0 Log2RunSize (Model_Log2RLE_0 m ! row) (Model_Log2RLE_1 m ! unat Ch);
          (ops2, W) = enc_bits next_bit 6 0 (mask_bits Log2RunSize Mask RunSize) (Model_Log2RLE_2 m ! Log2RunSize)
      in (ops1 @ ops2, (run_ctx Log2RunSize m)\<lparr>Model_Log2RLE_0 := (Model_Log2RLE_0 m)[row := V],
            Model_Log2RLE_1 := (Model_Log2RLE_1 m)[unat Ch := U],
            Model_Log2RLE_2 := (Model_Log2RLE_2 m)[Log2RunSize := W]\<rparr>))"

definition dec_run :: "nat \<Rightarrow> byte \<Rightarrow> ari_models \<Rightarrow> ari_decoder \<Rightarrow> (nat \<times> ari_models \<times> ari_decoder) option" where
  "dec_run r3 Ch m d =
     (let row = CtxRLE m + 16 * r3
      in case dec_unary 6 3 None 0 (Model_Log2RLE_0 m ! row) (Model_Log2RLE_1 m ! unat Ch) d of
           None \<Rightarrow> None
         | Some (Log2RunSize, V, U, d) \<Rightarrow>
           (case dec_bits next_bit 6 0 Log2RunSize 0 (Model_Log2RLE_2 m ! Log2RunSize) d of
              None \<Rightarrow> None
            | Some (x, W, d) \<Rightarrow>
              Some (x + WFCMTF_Log2RLESize ! Log2RunSize,
                (run_ctx Log2RunSize m)\<lparr>Model_Log2RLE_0 := (Model_Log2RLE_0 m)[row := V],
                  Model_Log2RLE_1 := (Model_Log2RLE_1 m)[unat Ch := U],
                  Model_Log2RLE_2 := (Model_Log2RLE_2 m)[Log2RunSize := W]\<rparr>, d)))"

definition rank_ctx :: "nat \<Rightarrow> ari_models \<Rightarrow> ari_models" where
  "rank_ctx r3 m = m\<lparr>CtxL0 := (4 * CtxL0 m + r3) mod 256\<rparr>"

section \<open>The coder over a ranking\<close>

text \<open>
  \<^verbatim>\<open>rank_of\<close> gives the position of a byte in the list of the ranking, \<^verbatim>\<open>char_at\<close> the byte at a position, and
  \<^verbatim>\<open>note\<close> the state after the byte at a position has come up.
\<close>

type_synonym 's ranking = "('s \<Rightarrow> byte \<Rightarrow> nat) \<times> ('s \<Rightarrow> nat \<Rightarrow> byte) \<times> (nat \<Rightarrow> byte \<Rightarrow> 's \<Rightarrow> 's)"

text \<open>One turn of the main loop of the encoder, for a run of \<^verbatim>\<open>RunSize\<close> bytes \<^verbatim>\<open>Ch\<close>.\<close>

definition enc_step :: "'s ranking \<Rightarrow> byte \<Rightarrow> byte \<Rightarrow> nat \<Rightarrow> ari_models \<times> 's \<Rightarrow> ari_op list \<times> ari_models \<times> 's" where
  "enc_step rk PredChar Ch RunSize st =
     (case rk of (rank_of, char_at, note) \<Rightarrow>
      case st of (m, s) \<Rightarrow>
        let pos = rank_of s Ch; s = note pos Ch s; r = (pos + 255) mod 256;
            (ops1, m) = enc_rank r PredChar m;
            m = rank_ctx (min r 3) m;
            (ops2, m) = enc_run (min r 3) Ch RunSize m
        in (ops1 @ ops2, m, s))"

function enc_loop :: "'s ranking \<Rightarrow> int \<Rightarrow> byte list \<Rightarrow> byte \<Rightarrow> ari_models \<times> 's \<Rightarrow> ari_encoder \<Rightarrow> int \<times> byte list" where
  "enc_loop rk OutputEnd [] PredChar st e =
     (let out = ari_flush (fold ARI_Encode (enc_end PredChar (fst st)) e) in (int (length out), out))"
| "enc_loop rk OutputEnd (Ch # inp) PredChar st e =
     (if int (length (ae_out e)) \<ge> OutputEnd then (GRZ_NOT_COMPRESSIBLE, ae_out e)
      else
        let RunSize = 1 + length (takeWhile (\<lambda>c. c = Ch) inp);
            (ops, st) = enc_step rk PredChar Ch RunSize st
        in enc_loop rk OutputEnd (dropWhile (\<lambda>c. c = Ch) inp) Ch st (fold ARI_Encode ops e))"
  by pat_completeness auto
termination
  by (relation "measure (\<lambda>(rk, oe, inp, p, st, e). length inp)") (auto simp: le_imp_less_Suc length_dropWhile_le)

definition ari_encode :: "'s ranking \<Rightarrow> 's \<Rightarrow> byte list \<Rightarrow> int \<times> byte list" where
  "ari_encode rk s inp = enc_loop rk (int (length inp) - 24) inp 0 (Init_Models, s) ari_start"

text \<open>
  The loop of the decoder ends with the end mark only.  Its output is unbounded in the code, which
  trusts its input.  A ranking may record every run in a buffer: \<^verbatim>\<open>room\<close> is the number of runs for
  which there still is room, \<^verbatim>\<open>None\<close> when nothing is recorded, and the decoder yields \<^verbatim>\<open>None\<close> where it
  would leave that buffer.
\<close>

definition dec_step :: "'s ranking \<Rightarrow> byte \<Rightarrow> ari_models \<times> 's \<Rightarrow> ari_decoder \<Rightarrow>
    ((byte \<times> nat) option \<times> (ari_models \<times> 's) \<times> ari_decoder) option" where
  "dec_step rk PredChar st d =
     (case rk of (rank_of, char_at, note) \<Rightarrow>
      case st of (m, s) \<Rightarrow>
      case dec_rank PredChar m d of
        None \<Rightarrow> None
      | Some (End, m, d) \<Rightarrow> Some (None, (m, s), d)
      | Some (Rank r, m, d) \<Rightarrow>
        let pos = (r + 1) mod 256; Ch = char_at s pos; s = note pos Ch s; r3 = min ((pos + 255) mod 256) 3;
            m = rank_ctx r3 m
        in case dec_run r3 Ch m d of
             None \<Rightarrow> None
           | Some (RunSize, m, d) \<Rightarrow> Some (Some (Ch, RunSize), (m, s), d))"

definition use_room :: "nat option \<Rightarrow> nat option" where "use_room = map_option (\<lambda>n. n - 1)"

partial_function (option) dec_loop ::
    "'s ranking \<Rightarrow> nat option \<Rightarrow> byte \<Rightarrow> ari_models \<times> 's \<Rightarrow> ari_decoder \<Rightarrow> byte list \<Rightarrow> byte list option" where
  "dec_loop rk room PredChar st d out =
     (case dec_step rk PredChar st d of
        None \<Rightarrow> None
      | Some (symbol, st, d) \<Rightarrow>
        (case symbol of
           None \<Rightarrow> Some out
         | Some (Ch, RunSize) \<Rightarrow>
             if room = Some 0 then None
             else dec_loop rk (use_room room) Ch st d (out @ replicate RunSize Ch)))"

declare dec_loop.simps [code]

definition ari_decode :: "'s ranking \<Rightarrow> 's \<Rightarrow> nat option \<Rightarrow> byte list \<Rightarrow> byte list option" where
  "ari_decode rk s room inp =
     (case ari_dec_start inp of None \<Rightarrow> None | Some d \<Rightarrow> dec_loop rk room 0 (Init_Models, s) d [])"

section \<open>The decoder follows a code\<close>

lemma follows_Cons: "ari_follows (op # ops) d d' \<longleftrightarrow> (\<exists>d1. ari_follows [op] d d1 \<and> ari_follows ops d1 d')"
  by (cases op) (auto split: prod.splits option.splits)

lemma follows_append_iff: "ari_follows (xs @ ys) d d' \<longleftrightarrow> (\<exists>d1. ari_follows xs d d1 \<and> ari_follows ys d1 d')"
  using follows_append follows_split by blast

lemma dec_bit_follows: "ari_follows [ARI_Bit b p] d d' \<Longrightarrow> dec_bit p d = Some (b, d')"
  by (cases b) (auto simp: ARI_Bit_def dec_bit_def split: prod.splits option.splits)

text \<open>A row of bit models: its length, and frequencies that are neither 0 nor the total.\<close>

definition row_ok :: "nat \<Rightarrow> nat list \<Rightarrow> bool" where
  "row_ok n row \<longleftrightarrow> length row = n \<and> (\<forall>x \<in> set row. 0 < x \<and> x < Model_MaxFreq)"

lemma row_ok_nth: "row_ok n row \<Longrightarrow> i < n \<Longrightarrow> 0 < row ! i \<and> row ! i < Model_MaxFreq"
  by (simp add: row_ok_def)

lemma row_ok_replicate: "0 < x \<Longrightarrow> x < Model_MaxFreq \<Longrightarrow> row_ok n (replicate n x)"
  by (simp add: row_ok_def)

lemma update_bounds:
  assumes "0 < x" "x < Model_MaxFreq" "0 < s"
  shows "0 < Update_1 s x" "Update_1 s x < Model_MaxFreq" "0 < Update_0 s x" "Update_0 s x < Model_MaxFreq"
proof -
  have half: "y div 2 ^ s < y" if "0 < y" for y :: nat
    using that assms(3) one_less_power [of "2 :: nat" s] by (intro div_less_dividend) simp_all
  show "0 < Update_1 s x" "Update_1 s x < Model_MaxFreq" "0 < Update_0 s x" "Update_0 s x < Model_MaxFreq"
    using half [of x] half [of "Model_MaxFreq - x"] assms by (simp_all add: Update_1_def Update_0_def)
qed

lemma length_Update_Ctx [simp]: "length (Update_Ctx b s P row) = length row"
  by (simp add: Update_Ctx_def)

lemma row_ok_update:
  assumes "row_ok n row" "i < n" "0 < s"
  shows "row_ok n (Update_Ctx b s i row)"
proof -
  have "set (Update_Ctx b s i row) \<subseteq> insert ((if b then Update_1 else Update_0) s (row ! i)) (set row)"
    unfolding Update_Ctx_def by (rule set_update_subset_insert)
  then show ?thesis
    using update_bounds [of "row ! i" s] row_ok_nth [OF assms(1,2)] assms(1,3) by (auto simp: row_ok_def split: if_splits)
qed

lemma ARI_Bit_ok: "0 < p \<Longrightarrow> p < Model_MaxFreq \<Longrightarrow> ari_op_ok (ARI_Bit b p)"
  by (simp add: ARI_Bit_def Model_MaxFreq_def)

lemma mean_bounds: "0 < x \<and> x < Model_MaxFreq \<Longrightarrow> 0 < y \<and> y < Model_MaxFreq \<Longrightarrow> 0 < (x + y) div 2 \<and> (x + y) div 2 < Model_MaxFreq"
  by (simp add: div_greater_zero_iff div_less_iff_less_mult)

section \<open>Unary numbers and bits are decoded\<close>

lemma enc_unary_ok:
  "enc_unary s0 s1 stop i n V U = (ops, V', U') \<Longrightarrow> row_ok k V \<Longrightarrow> row_ok k U \<Longrightarrow> i + n < k \<Longrightarrow> 0 < s0 \<Longrightarrow> 0 < s1 \<Longrightarrow>
    row_ok k V' \<and> row_ok k U' \<and> (\<forall>op \<in> set ops. ari_op_ok op)"
proof (induction s0 s1 stop i n V U arbitrary: ops V' U' rule: enc_unary.induct)
  case (1 s0 s1 stop i V U)
  then show ?case
    using mean_bounds [OF row_ok_nth [of k V i] row_ok_nth [of k U i]]
    by (auto simp: ARI_Bit_ok row_ok_update split: if_splits)
next
  case (2 s0 s1 stop i n V U)
  then show ?case
    using mean_bounds [OF row_ok_nth [of k V i] row_ok_nth [of k U i]]
    by (auto simp: ARI_Bit_ok row_ok_update Let_def split: prod.splits)
qed

lemma dec_unary_follows:
  "enc_unary s0 s1 stop i n V U = (ops, V', U') \<Longrightarrow> i + n < length V \<Longrightarrow> i + n < length U \<Longrightarrow>
    (\<forall>j. stop = Some j \<longrightarrow> i + n \<le> j) \<Longrightarrow> ari_follows ops d d' \<Longrightarrow>
    dec_unary s0 s1 stop i V U d = Some (i + n, V', U', d')"
proof (induction s0 s1 stop i n V U arbitrary: ops V' U' d rule: enc_unary.induct)
  case (1 s0 s1 stop i V U)
  then show ?case
    by (auto simp: dec_unary.simps [of _ _ _ i] dest!: dec_bit_follows split: if_splits)
next
  case (2 s0 s1 stop i n V U)
  obtain ops1 where e: "enc_unary s0 s1 stop (i + 1) n (Update_Ctx True s0 i V) (Update_Ctx True s1 i U) = (ops1, V', U')"
      "ops = ARI_Bit True ((V ! i + U ! i) div 2) # ops1"
    using "2.prems"(1) by (auto split: prod.splits)
  obtain d1 where d1: "ari_follows [ARI_Bit True ((V ! i + U ! i) div 2)] d d1" "ari_follows ops1 d1 d'"
    using "2.prems"(5) e(2) follows_Cons by blast
  have "stop \<noteq> Some i"
    using "2.prems"(4) by auto
  moreover have "dec_unary s0 s1 stop (i + 1) (Update_Ctx True s0 i V) (Update_Ctx True s1 i U) d1 = Some (i + 1 + n, V', U', d')"
    using "2.prems" e(1) d1(2) by (intro "2.IH") simp_all
  ultimately show ?case
    using "2.prems"(2,3) dec_bit_follows [OF d1(1)] by (simp add: dec_unary.simps [of _ _ _ i])
qed

text \<open>Along the bits, the models stay in the row.\<close>

fun path_ok :: "(nat \<Rightarrow> bool \<Rightarrow> nat) \<Rightarrow> nat \<Rightarrow> nat \<Rightarrow> bool list \<Rightarrow> bool" where
  "path_ok next k i [] \<longleftrightarrow> True"
| "path_ok next k i (b # bs) \<longleftrightarrow> i < k \<and> path_ok next k (next i b) bs"

lemma path_next_bit: "i + length bs \<le> k \<Longrightarrow> path_ok next_bit k i bs"
  by (induction bs arbitrary: i) (simp_all add: next_bit_def)

lemma path_next_node: "i < 2 ^ j \<Longrightarrow> 2 ^ (j + length bs) \<le> 2 * k \<Longrightarrow> path_ok next_node k i bs"
proof (induction bs arbitrary: i j)
  case (Cons b bs)
  have "(2 :: nat) ^ j \<le> 2 ^ (j + length bs)"
    by (intro power_increasing) simp_all
  moreover have "2 ^ (j + length bs) \<le> k"
    using Cons.prems(2) by simp
  ultimately have "i < k"
    using Cons.prems(1) by (meson less_le_trans)
  moreover have "next_node i b < 2 ^ Suc j"
    using Cons.prems(1) by (cases b) (simp_all add: next_node_def)
  ultimately show ?case
    using Cons.IH [of "next_node i b" "Suc j"] Cons.prems(2) by simp
qed simp

lemma enc_bits_ok:
  "enc_bits next s i bs V = (ops, V') \<Longrightarrow> row_ok k V \<Longrightarrow> path_ok next k i bs \<Longrightarrow> 0 < s \<Longrightarrow>
    row_ok k V' \<and> (\<forall>op \<in> set ops. ari_op_ok op)"
proof (induction "next" s i bs V arbitrary: ops V' rule: enc_bits.induct)
  case (2 "next" s i b bs V)
  then show ?case
    using row_ok_nth [of k V i] by (auto simp: ARI_Bit_ok row_ok_update split: prod.splits)
qed simp

lemma dec_bits_follows:
  "enc_bits next s i bs V = (ops, V') \<Longrightarrow> path_ok next (length V) i bs \<Longrightarrow> ari_follows ops d d' \<Longrightarrow>
    dec_bits next s i (length bs) x V d = Some (foldl (\<lambda>x b. 2 * x + of_bool b) x bs, V', d')"
proof (induction "next" s i bs V arbitrary: ops V' d x rule: enc_bits.induct)
  case (2 "next" s i b bs V)
  obtain ops1 where e: "enc_bits next s (next i b) bs (Update_Ctx b s i V) = (ops1, V')" "ops = ARI_Bit b (V ! i) # ops1"
    using "2.prems"(1) by (auto split: prod.splits)
  obtain d1 where d1: "ari_follows [ARI_Bit b (V ! i)] d d1" "ari_follows ops1 d1 d'"
    using "2.prems"(3) e(2) follows_Cons by blast
  show ?case
    using "2.prems"(2) "2.IH" [OF e(1) _ d1(2)] dec_bit_follows [OF d1(1)] by simp
qed simp

lemma length_mask_bits [simp]: "length (mask_bits n Mask x) = n"
  by (induction n arbitrary: Mask) simp_all

lemma mask_bits_value: "foldl (\<lambda>y b. 2 * y + of_bool b) y (mask_bits n (2 ^ (n - 1)) x) = y * 2 ^ n + x mod 2 ^ n"
proof (induction n arbitrary: y)
  case (Suc n)
  have "mask_bits (Suc n) (2 ^ (Suc n - 1)) x = (x AND 2 ^ n \<noteq> 0) # mask_bits n (2 ^ (n - 1)) x"
    by (cases n) simp_all
  moreover have "(x AND 2 ^ n \<noteq> 0) = bit x n"
    by (simp add: and_exp_eq_0_iff_not_bit)
  moreover have "x mod 2 ^ Suc n = of_bool (bit x n) * 2 ^ n + x mod 2 ^ n"
    using take_bit_Suc_from_most [of n x] by (simp add: take_bit_eq_mod mult.commute)
  ultimately show ?case
    using Suc.IH by (simp add: algebra_simps)
qed simp

section \<open>The invariant of the models\<close>

text \<open>The first four entries of a row of symbol counts add up to the fifth.\<close>

definition L0_ok :: "nat \<Rightarrow> nat list \<Rightarrow> bool" where
  "L0_ok limit xs \<longleftrightarrow> length xs = 5 \<and> xs ! 4 = xs ! 0 + xs ! 1 + xs ! 2 + xs ! 3 \<and> xs ! 4 \<le> limit"

definition rows_ok :: "nat \<Rightarrow> nat \<Rightarrow> nat list list \<Rightarrow> bool" where
  "rows_ok k n rows \<longleftrightarrow> length rows = k \<and> (\<forall>row \<in> set rows. row_ok n row)"

definition L0_rows_ok :: "nat \<Rightarrow> nat \<Rightarrow> nat list list \<Rightarrow> bool" where
  "L0_rows_ok k limit rows \<longleftrightarrow> length rows = k \<and> (\<forall>row \<in> set rows. L0_ok limit row)"

definition models_ok :: "ari_models \<Rightarrow> bool" where
  "models_ok m \<longleftrightarrow>
     L0_ok 58 (Model_L0_0 m) \<and> (\<forall>i < 4. 0 < Model_L0_0 m ! i) \<and> L0_rows_ok 256 62 (Model_L0_1 m) \<and>
     L0_rows_ok 1024 204 (Model_L0_2 m) \<and> row_ok 8 (Model_L1_0 m) \<and> rows_ok 7 8 (Model_L1_1 m) \<and>
     rows_ok 8 128 (Model_L2_0 m) \<and> rows_ok 64 24 (Model_Log2RLE_0 m) \<and> rows_ok 256 24 (Model_Log2RLE_1 m) \<and>
     rows_ok 24 24 (Model_Log2RLE_2 m) \<and> CtxRLE m < 16 \<and> CtxL0 m < 256 \<and> CtxL1 m < 7"

lemma rows_ok_nth: "rows_ok k n rows \<Longrightarrow> i < k \<Longrightarrow> row_ok n (rows ! i)"
  by (simp add: rows_ok_def)

lemma L0_rows_ok_nth: "L0_rows_ok k l rows \<Longrightarrow> i < k \<Longrightarrow> L0_ok l (rows ! i)"
  by (simp add: L0_rows_ok_def)

lemma rows_ok_upd: "rows_ok k n rows \<Longrightarrow> row_ok n row \<Longrightarrow> rows_ok k n (rows[i := row])"
  using set_update_subset_insert [of rows i row] by (auto simp: rows_ok_def)

lemma L0_rows_ok_upd: "L0_rows_ok k l rows \<Longrightarrow> L0_ok l row \<Longrightarrow> L0_rows_ok k l (rows[i := row])"
  using set_update_subset_insert [of rows i row] by (auto simp: L0_rows_ok_def)

lemma models_okD:
  assumes "models_ok m"
  shows "L0_ok 58 (Model_L0_0 m)" "i < 4 \<Longrightarrow> 0 < Model_L0_0 m ! i" "L0_rows_ok 256 62 (Model_L0_1 m)"
    "L0_rows_ok 1024 204 (Model_L0_2 m)" "row_ok 8 (Model_L1_0 m)" "rows_ok 7 8 (Model_L1_1 m)"
    "rows_ok 8 128 (Model_L2_0 m)" "rows_ok 64 24 (Model_Log2RLE_0 m)" "rows_ok 256 24 (Model_Log2RLE_1 m)"
    "rows_ok 24 24 (Model_Log2RLE_2 m)" "CtxRLE m < 16" "CtxL0 m < 256" "CtxL1 m < 7"
  using assms by (simp_all add: models_ok_def)

lemma less_4: "r < 4 \<longleftrightarrow> r = 0 \<or> r = 1 \<or> r = 2 \<or> r = (3 :: nat)"
  by auto

lemma models_ok_init: "models_ok Init_Models"
proof -
  have "row_ok n (replicate n 1024)" for n
    by (simp add: row_ok_def Model_MaxFreq_def)
  moreover have "L0_ok l (replicate 5 0)" for l
    by (simp add: L0_ok_def)
  moreover have "L0_ok 58 [1, 1, 1, 1, 4]" "\<forall>i < 4. 0 < [1, 1, 1, 1, 4 :: nat] ! i"
    by (simp_all add: L0_ok_def less_4)
  ultimately show ?thesis
    unfolding models_ok_def Init_Models_def Let_def
    by (simp add: L0_rows_ok_def rows_ok_def Model_MaxFreq_def GRZ_Log2MaxBlockSize_def)
qed

lemma byte_index: "unat (b :: byte) < 256"
  by (rule byte_bound)

lemma L0_ctx_bound: "models_ok m \<Longrightarrow> L0_ctx m < 1024"
  using models_okD(12) [of m] mod_less_divisor [of 4 "CtxRLE m"] unfolding L0_ctx_def by linarith

lemma length_5_cases:
  assumes "length xs = 5"
  obtains a b c d e where "xs = [a, b, c, d, e]"
  using assms by (auto simp: numeral_eq_Suc length_Suc_conv)

lemma L0_ok_five:
  assumes "L0_ok l xs"
  obtains a b c d where "xs = [a, b, c, d, a + b + c + d]" "a + b + c + d \<le> l"
proof -
  have "length xs = 5"
    using assms by (simp add: L0_ok_def)
  then obtain a b c d e where "xs = [a, b, c, d, e]"
    by (rule length_5_cases)
  then show thesis
    using assms that by (simp add: L0_ok_def)
qed

lemma L0_bump_ok: "L0_ok l xs \<Longrightarrow> r < 4 \<Longrightarrow> L0_ok (l + 2) (L0_bump r xs)"
  by (auto simp: L0_ok_def L0_bump_def Let_def less_4 nth_list_update)

lemma L0_halve_ok:
  assumes "L0_ok (l + 2) xs" "up \<le> 1" "6 \<le> l"
  shows "L0_ok l (L0_halve l up xs)"
proof -
  obtain a b c d where xs: "xs = [a, b, c, d, a + b + c + d]" "a + b + c + d \<le> l + 2"
    by (rule L0_ok_five [OF assms(1)])
  have "(a + up) div 2 + (b + up) div 2 + (c + up) div 2 + (d + up) div 2 \<le> l"
    using xs(2) assms(2,3) by linarith
  then show ?thesis
    by (simp add: xs(1) L0_ok_def L0_halve_def Let_def add.assoc)
qed

lemma L0_halve_pos:
  assumes "L0_ok l xs" "\<forall>i < 4. 0 < xs ! i"
  shows "\<forall>i < 4. 0 < L0_halve k 1 xs ! i"
proof -
  obtain a b c d where xs: "xs = [a, b, c, d, a + b + c + d]"
    by (rule L0_ok_five [OF assms(1)])
  have "0 < a" "0 < b" "0 < c" "0 < d"
    using assms(2) [rule_format, of 0] assms(2) [rule_format, of 1] assms(2) [rule_format, of 2]
      assms(2) [rule_format, of 3] by (simp_all add: xs)
  then have "\<forall>i < 4. 0 < [(a + 1) div 2, (b + 1) div 2, (c + 1) div 2, (d + 1) div 2, e] ! i" for e
    by (simp add: less_4 div_greater_zero_iff)
  moreover have "L0_halve k 1 xs = (if a + b + c + d > k then [(a + 1) div 2, (b + 1) div 2, (c + 1) div 2, (d + 1) div 2,
      (a + 1) div 2 + ((b + 1) div 2 + ((c + 1) div 2 + (d + 1) div 2))] else xs)"
    by (simp add: xs L0_halve_def Let_def)
  ultimately show ?thesis
    using assms(2) by simp
qed

lemma L0_bump_pos: "\<forall>i < 4. 0 < xs ! i \<Longrightarrow> length xs = 5 \<Longrightarrow> r < 4 \<Longrightarrow> \<forall>i < 4. 0 < L0_bump r xs ! i"
  by (auto simp: L0_bump_def Let_def nth_list_update)

lemma L0_update_ok:
  assumes "models_ok m" "r < 4"
  shows "models_ok (L0_update r p m)"
proof -
  note ok = models_okD [OF assms(1)]
  let ?V = "Model_L0_1 m ! unat p" and ?U = "Model_L0_2 m ! L0_ctx m"
  have V: "L0_ok 62 ?V" and U: "L0_ok 204 ?U"
    using L0_rows_ok_nth [OF ok(3) byte_index] L0_rows_ok_nth [OF ok(4) L0_ctx_bound [OF assms(1)]] by simp_all
  have "L0_ok 58 (L0_halve 58 1 (L0_bump r (Model_L0_0 m)))" "L0_ok 62 (L0_halve 62 0 (L0_bump r ?V))"
      "L0_ok 204 (L0_halve 204 0 (L0_bump r ?U))"
    using ok(1) V U assms(2) by (auto intro!: L0_halve_ok L0_bump_ok)
  moreover have "\<forall>i < 4. 0 < L0_halve 58 1 (L0_bump r (Model_L0_0 m)) ! i"
    using ok(1,2) L0_bump_ok [OF ok(1) assms(2)] assms(2) by (intro L0_halve_pos L0_bump_pos) (auto simp: L0_ok_def)
  ultimately show ?thesis
    using ok by (simp add: models_ok_def L0_update_def Update_Model_L0_def L0_rows_ok_upd)
qed

section \<open>Ranks are decoded\<close>

text \<open>The frequencies of the four symbols.\<close>

definition L0_freqs :: "byte \<Rightarrow> ari_models \<Rightarrow> nat \<Rightarrow> nat" where
  "L0_freqs p m = L0_freq (Model_L0_0 m) (Model_L0_1 m ! unat p) (Model_L0_2 m ! L0_ctx m)"

lemma L0_freqs_sum:
  assumes "models_ok m"
  shows "L0_freqs p m 4 = L0_freqs p m 0 + L0_freqs p m 1 + L0_freqs p m 2 + L0_freqs p m 3"
    "L0_freqs p m 4 \<le> 2 ^ 16" "r < 4 \<Longrightarrow> 0 < L0_freqs p m r"
proof -
  note ok = models_okD [OF assms]
  have V: "L0_ok 62 (Model_L0_1 m ! unat p)" and U: "L0_ok 204 (Model_L0_2 m ! L0_ctx m)"
    using L0_rows_ok_nth [OF ok(3) byte_index] L0_rows_ok_nth [OF ok(4) L0_ctx_bound [OF assms]] by simp_all
  show "L0_freqs p m 4 = L0_freqs p m 0 + L0_freqs p m 1 + L0_freqs p m 2 + L0_freqs p m 3"
    "L0_freqs p m 4 \<le> 2 ^ 16"
    using ok(1) V U by (simp_all add: L0_freqs_def L0_freq_def L0_ok_def)
  show "r < 4 \<Longrightarrow> 0 < L0_freqs p m r"
    using ok(2) by (simp add: L0_freqs_def L0_freq_def)
qed

lemma sum_upto:
  "sum_list (map f [0..<0]) = (0 :: nat)" "sum_list (map f [0..<1]) = f 0" "sum_list (map f [0..<2]) = f 0 + f 1"
  "sum_list (map f [0..<3]) = f 0 + f 1 + f 2"
  by (simp_all add: eval_nat_numeral)

lemma enc_L0_op:
  assumes "models_ok m" "r < 4"
  shows "enc_L0 r p m = ((L0_freqs p m r, sum_list (map (L0_freqs p m) [0..<r]), L0_freqs p m 4), L0_update r p m)"
proof -
  have "r = 3 \<Longrightarrow> sum_list (map (L0_freqs p m) [0..<r]) = L0_freqs p m 4 - L0_freqs p m 3"
    using L0_freqs_sum(1) [OF assms(1), of p] by (simp add: sum_upto del: One_nat_def upt_Suc)
  moreover have "r < 3 \<or> r = 3"
    using assms(2) by linarith
  ultimately show ?thesis
    by (auto simp: enc_L0_def L0_freqs_def [symmetric] Let_def)
qed

lemma L0_search_from:
  assumes "k \<le> Suc r" "r < 4" "sum_list (map f [0..<r]) \<le> x" "x < sum_list (map f [0..<r]) + f r"
  shows "L0_search f x (sum_list (map f [0..<k])) k = Some (r, sum_list (map f [0..<r]))"
  using assms(1)
proof (induction "Suc r - k" arbitrary: k)
  case 0
  then have "k = Suc r"
    by simp
  then show ?case
    using assms(4) by (simp add: L0_search.simps [of f x _ "Suc r"])
next
  case (Suc n)
  then have k: "k \<le> r"
    by simp
  then have "[0..<r] = [0..<k] @ [k..<r]"
    using upt_add_eq_append [of 0 k "r - k"] by simp
  then have "sum_list (map f [0..<k]) \<le> x"
    using assms(3) by simp
  moreover have "L0_search f x (sum_list (map f [0..<Suc k])) (Suc k) = Some (r, sum_list (map f [0..<r]))"
    using Suc k by (intro Suc.hyps(1)) simp_all
  ultimately show ?case
    using k assms(2) by (simp add: L0_search.simps [of f x _ k])
qed

lemma L0_search_finds:
  assumes "r < 4" "sum_list (map f [0..<r]) \<le> x" "x < sum_list (map f [0..<r]) + f r"
  shows "L0_search f x 0 0 = Some (r, sum_list (map f [0..<r]))"
  using L0_search_from [OF _ assms, of 0] by simp

lemma enc_L0_ok:
  assumes "models_ok m" "r < 4" "enc_L0 r p m = (op, m')"
  shows "models_ok m'" "ari_op_ok op"
proof -
  show "models_ok m'"
    using assms L0_update_ok [OF assms(1,2)] by (auto simp: enc_L0_op)
  have "sum_list (map (L0_freqs p m) [0..<r]) + L0_freqs p m r \<le> L0_freqs p m 4"
    using assms(2) L0_freqs_sum(1) [OF assms(1), of p] by (auto simp: less_4 sum_upto simp del: One_nat_def upt_Suc)
  then show "ari_op_ok op"
    using assms L0_freqs_sum(2,3) [OF assms(1)] by (auto simp: enc_L0_op)
qed

lemma dec_L0_follows:
  assumes "models_ok m" "r < 4" "enc_L0 r p m = (op, m')" "ari_follows [op] d d'"
  shows "dec_L0 p m d = Some (r, m', d')"
  using assms L0_search_finds [OF assms(2)]
  by (auto simp: enc_L0_op dec_L0_def L0_freqs_def [symmetric] Let_def split: prod.splits option.splits)

text \<open>The tables agree: a rank of at least 3 is a group and a position in it.\<close>

definition rank_entry :: "nat \<Rightarrow> nat \<Rightarrow> nat \<Rightarrow> nat \<Rightarrow> bool" where
  "rank_entry r g p k \<longleftrightarrow>
     g \<le> 6 \<and> p < 2 ^ (g + 1) \<and> k = 2 ^ g \<and> WFCMTF_GrNum2GrBegin ! g + p = r \<and> \<not> (g = 6 \<and> p = 127)"

fun rank_entries :: "nat \<Rightarrow> nat list \<Rightarrow> nat list \<Rightarrow> nat list \<Rightarrow> bool" where
  "rank_entries r (g # gs) (p # ps) (k # ks) \<longleftrightarrow> rank_entry r g p k \<and> rank_entries (r + 1) gs ps ks"
| "rank_entries r gs ps ks \<longleftrightarrow> True"

lemma rank_entries_nth:
  "rank_entries r gs ps ks \<Longrightarrow> i < length gs \<Longrightarrow> i < length ps \<Longrightarrow> i < length ks \<Longrightarrow> rank_entry (r + i) (gs ! i) (ps ! i) (ks ! i)"
  by (induction r gs ps ks arbitrary: i rule: rank_entries.induct) (auto simp: nth_Cons split: nat.splits)

lemma rank_tables_scan: "rank_entries 3 (drop 3 WFCMTF_Rank2GrNum) (drop 3 WFCMTF_Rank2GrPos) (drop 3 WFCMTF_Rank2Mask)"
  by (simp add: WFCMTF_Rank2GrNum_def WFCMTF_Rank2GrPos_def WFCMTF_Rank2Mask_def rank_entry_def WFCMTF_GrNum2GrBegin_def)

lemma rank_tables:
  assumes "3 \<le> r" "r < 256"
  shows "rank_entry r (WFCMTF_Rank2GrNum ! r) (WFCMTF_Rank2GrPos ! r) (WFCMTF_Rank2Mask ! r)"
proof -
  have len: "length WFCMTF_Rank2GrNum = 256" "length WFCMTF_Rank2GrPos = 256" "length WFCMTF_Rank2Mask = 256"
    by (simp_all add: WFCMTF_Rank2GrNum_def WFCMTF_Rank2GrPos_def WFCMTF_Rank2Mask_def)
  show ?thesis
    using rank_entries_nth [OF rank_tables_scan, of "r - 3"] assms by (simp add: len)
qed

lemma group_path:
  assumes "g \<le> 6"
  shows "path_ok next_node 128 1 (mask_bits (g + 1) Mask p)"
proof -
  have "(2 :: nat) ^ (1 + length (mask_bits (g + 1) Mask p)) \<le> 2 ^ 8"
    using assms by (intro power_increasing) simp_all
  then show ?thesis
    by (intro path_next_node [of _ 1]) simp_all
qed

lemma enc_group_ok:
  assumes "enc_group g p Mask m = (ops, m')" "models_ok m" "g \<le> 6"
  shows "models_ok m'" "\<forall>op \<in> set ops. ari_op_ok op"
proof -
  note ok = models_okD [OF assms(2)]
  obtain ops1 V U where e1: "enc_unary 4 6 (Some 6) 0 g (Model_L1_0 m) (Model_L1_1 m ! CtxL1 m) = (ops1, V, U)"
    by (cases "enc_unary 4 6 (Some 6) 0 g (Model_L1_0 m) (Model_L1_1 m ! CtxL1 m)")
  obtain ops2 W where e2: "enc_bits next_node 7 1 (mask_bits (g + 1) Mask p) (Model_L2_0 m ! g) = (ops2, W)"
    by (cases "enc_bits next_node 7 1 (mask_bits (g + 1) Mask p) (Model_L2_0 m ! g)")
  have r: "ops = ops1 @ ops2" "m' = m\<lparr>Model_L1_0 := V, Model_L1_1 := (Model_L1_1 m)[CtxL1 m := U], CtxL1 := g,
      Model_L2_0 := (Model_L2_0 m)[g := W]\<rparr>"
    using assms(1) e1 e2 by (simp_all add: enc_group_def)
  have 1: "row_ok 8 V \<and> row_ok 8 U \<and> (\<forall>op \<in> set ops1. ari_op_ok op)"
    using enc_unary_ok [OF e1 ok(5) rows_ok_nth [OF ok(6,13)]] assms(3) by simp
  have "row_ok 128 (Model_L2_0 m ! g)"
    using rows_ok_nth [OF ok(7)] assms(3) by simp
  then have 2: "row_ok 128 W \<and> (\<forall>op \<in> set ops2. ari_op_ok op)"
    using enc_bits_ok [OF e2] group_path [OF assms(3)] by simp
  show "models_ok m'" "\<forall>op \<in> set ops. ari_op_ok op"
    using 1 2 ok assms(3) by (auto simp: r models_ok_def rows_ok_upd)
qed

lemma dec_group_follows:
  assumes "enc_group g p (2 ^ g) m = (ops, m')" "models_ok m" "g \<le> 6" "p < 2 ^ (g + 1)" "ari_follows ops d d'"
  shows "dec_group m d = Some (g, p, m', d')"
proof -
  note ok = models_okD [OF assms(2)]
  obtain ops1 V U where e1: "enc_unary 4 6 (Some 6) 0 g (Model_L1_0 m) (Model_L1_1 m ! CtxL1 m) = (ops1, V, U)"
    by (cases "enc_unary 4 6 (Some 6) 0 g (Model_L1_0 m) (Model_L1_1 m ! CtxL1 m)")
  obtain ops2 W where e2: "enc_bits next_node 7 1 (mask_bits (g + 1) (2 ^ g) p) (Model_L2_0 m ! g) = (ops2, W)"
    by (cases "enc_bits next_node 7 1 (mask_bits (g + 1) (2 ^ g) p) (Model_L2_0 m ! g)")
  have r: "ops = ops1 @ ops2" "m' = m\<lparr>Model_L1_0 := V, Model_L1_1 := (Model_L1_1 m)[CtxL1 m := U], CtxL1 := g,
      Model_L2_0 := (Model_L2_0 m)[g := W]\<rparr>"
    using assms(1) e1 e2 by (simp_all add: enc_group_def)
  obtain d1 where d1: "ari_follows ops1 d d1" "ari_follows ops2 d1 d'"
    using assms(5) follows_append_iff r(1) by blast
  have len: "length (Model_L1_0 m) = 8" "length (Model_L1_1 m ! CtxL1 m) = 8" "length (Model_L2_0 m ! g) = 128"
    using ok(5) rows_ok_nth [OF ok(6,13)] rows_ok_nth [OF ok(7), of g] assms(3) by (simp_all add: row_ok_def)
  have "dec_unary 4 6 (Some 6) 0 (Model_L1_0 m) (Model_L1_1 m ! CtxL1 m) d = Some (g, V, U, d1)"
    using dec_unary_follows [OF e1 _ _ _ d1(1)] assms(3) by (simp add: len)
  moreover have "foldl (\<lambda>x b. 2 * x + of_bool b) 0 (mask_bits (g + 1) (2 ^ g) p) = p"
    using mask_bits_value [of 0 "g + 1" p] assms(4) by simp
  then have "dec_bits next_node 7 1 (g + 1) 0 (Model_L2_0 m ! g) d1 = Some (p, W, d')"
    using dec_bits_follows [OF e2 _ d1(2), of 0] group_path [OF assms(3), of "2 ^ g" p] by (simp add: len)
  ultimately show ?thesis
    by (simp add: dec_group_def r(2))
qed

lemma enc_rank_ok:
  assumes "enc_rank r p m = (ops, m')" "models_ok m" "r < 256"
  shows "models_ok m'" "\<forall>op \<in> set ops. ari_op_ok op"
proof -
  obtain op m1 where e0: "enc_L0 (min r 3) p m = (op, m1)"
    by (cases "enc_L0 (min r 3) p m")
  note 0 = enc_L0_ok [OF assms(2) _ e0]
  show "models_ok m'" "\<forall>op \<in> set ops. ari_op_ok op"
  proof (atomize (full), cases "r < 3")
    case True
    then show "models_ok m' \<and> (\<forall>op \<in> set ops. ari_op_ok op)"
      using 0 e0 assms(1) by (auto simp: enc_rank_def)
  next
    case False
    let ?g = "WFCMTF_Rank2GrNum ! r" and ?p = "WFCMTF_Rank2GrPos ! r" and ?k = "WFCMTF_Rank2Mask ! r"
    obtain ops2 m2 where e2: "enc_group ?g ?p ?k m1 = (ops2, m2)"
      by (cases "enc_group ?g ?p ?k m1")
    have "?g \<le> 6"
      using rank_tables [of r] False assms(3) by (simp add: rank_entry_def)
    then show "models_ok m' \<and> (\<forall>op \<in> set ops. ari_op_ok op)"
      using False 0 e0 e2 enc_group_ok [OF e2] assms(1) by (auto simp: enc_rank_def)
  qed
qed

lemma dec_rank_follows:
  assumes "enc_rank r p m = (ops, m')" "models_ok m" "r < 256" "ari_follows ops d d'"
  shows "dec_rank p m d = Some (Rank r, m', d')"
proof -
  obtain op m1 where e0: "enc_L0 (min r 3) p m = (op, m1)"
    by (cases "enc_L0 (min r 3) p m")
  show ?thesis
  proof (cases "r < 3")
    case True
    then show ?thesis
      using e0 assms dec_L0_follows [OF assms(2) _ e0, of d d'] by (simp add: enc_rank_def dec_rank_def)
  next
    case False
    let ?g = "WFCMTF_Rank2GrNum ! r" and ?p = "WFCMTF_Rank2GrPos ! r" and ?k = "WFCMTF_Rank2Mask ! r"
    have t: "?g \<le> 6" "?p < 2 ^ (?g + 1)" "?k = 2 ^ ?g" "WFCMTF_GrNum2GrBegin ! ?g + ?p = r" "\<not> (?g = 6 \<and> ?p = 127)"
      using rank_tables [of r] False assms(3) by (simp_all add: rank_entry_def)
    obtain ops2 where e2: "enc_group ?g ?p (2 ^ ?g) m1 = (ops2, m')" "ops = op # ops2"
      using False e0 assms(1) t(3) by (auto simp: enc_rank_def split: prod.splits)
    obtain d1 where d1: "ari_follows [op] d d1" "ari_follows ops2 d1 d'"
      using assms(4) e2(2) follows_Cons by blast
    have "models_ok m1"
      using enc_L0_ok [OF assms(2) _ e0] by simp
    then show ?thesis
      using dec_group_follows [OF e2(1) _ t(1,2) d1(2)] dec_L0_follows [OF assms(2) _ e0 d1(1)] t(4,5) False
      by (simp add: dec_rank_def)
  qed
qed

lemma enc_end_follows:
  assumes "models_ok m"
  shows "\<forall>op \<in> set (enc_end p m). ari_op_ok op" "ari_follows (enc_end p m) d d' \<Longrightarrow> \<exists>m'. dec_rank p m d = Some (End, m', d')"
proof -
  obtain op m1 where e0: "enc_L0 3 p m = (op, m1)"
    by (cases "enc_L0 3 p m")
  obtain ops2 m2 where e2: "enc_group 6 127 (2 ^ 6) m1 = (ops2, m2)"
    by (cases "enc_group 6 127 (2 ^ 6) m1")
  have e: "enc_end p m = op # ops2"
    using e0 e2 by (simp add: enc_end_def)
  note 0 = enc_L0_ok [OF assms _ e0]
  show "\<forall>op \<in> set (enc_end p m). ari_op_ok op"
    using 0 enc_group_ok [OF e2] by (simp add: e)
  assume "ari_follows (enc_end p m) d d'"
  then obtain d1 where d1: "ari_follows [op] d d1" "ari_follows ops2 d1 d'"
    using follows_Cons e by metis
  then have "dec_group m1 d1 = Some (6, 127, m2, d')"
    using 0 by (intro dec_group_follows [OF e2]) simp_all
  then show "\<exists>m'. dec_rank p m d = Some (End, m', d')"
    using dec_L0_follows [OF assms _ e0 d1(1)] by (simp add: dec_rank_def)
qed

section \<open>Run sizes are decoded\<close>

lemma run_log_spec:
  "2 \<le> t \<Longrightarrow> \<exists>j. run_log t l k = (l + j, k * 2 ^ j) \<and> 2 ^ (j + 1) \<le> t \<and> t < 2 ^ (j + 2)"
proof (induction t l k rule: run_log.induct)
  case (1 t l k)
  show ?case
  proof (cases "t div 2 \<le> 1")
    case True
    then show ?thesis
      using "1.prems" by (intro exI [of _ 0]) (simp add: run_log.simps [of t])
  next
    case False
    then obtain j where j: "run_log (t div 2) (l + 1) (2 * k) = (l + 1 + j, 2 * k * 2 ^ j)" "2 ^ (j + 1) \<le> t div 2" "t div 2 < 2 ^ (j + 2)"
      using "1.IH" [of "t div 2"] by auto
    then have "2 ^ (Suc j + 1) \<le> t" "t < 2 ^ (Suc j + 2)"
      by simp_all
    then show ?thesis
      using False j(1) by (intro exI [of _ "Suc j"]) (simp add: run_log.simps [of t])
  qed
qed

definition run_code :: "nat \<Rightarrow> nat \<times> nat" where
  "run_code RunSize = (if RunSize = 1 then (0, 0) else run_log RunSize 1 1)"

lemma run_code_spec:
  assumes "0 < n" "n < 2 ^ 23" "run_code n = (L, Mask)"
  shows "L \<le> 22" "2 ^ L \<le> n" "n < 2 ^ (L + 1)" "L = 0 \<or> Mask = 2 ^ (L - 1)"
proof -
  have "2 ^ L \<le> n \<and> n < 2 ^ (L + 1) \<and> (L = 0 \<or> Mask = 2 ^ (L - 1))"
  proof (cases "n = 1")
    case False
    then show ?thesis
      using run_log_spec [of n 1 1] assms(1,3) by (auto simp: run_code_def)
  qed (use assms(3) in \<open>simp add: run_code_def\<close>)
  moreover from this have "(2 :: nat) ^ L < 2 ^ 23"
    using assms(2) by linarith
  then have "L < 23"
    by (rule power_less_imp_less_exp [rotated]) simp
  ultimately show "L \<le> 22" "2 ^ L \<le> n" "n < 2 ^ (L + 1)" "L = 0 \<or> Mask = 2 ^ (L - 1)"
    by simp_all
qed

lemma run_size_table: "L \<le> 22 \<Longrightarrow> WFCMTF_Log2RLESize ! L = 2 ^ L"
proof -
  have table: "WFCMTF_Log2RLESize = map ((^) 2) [0..<23] @ [0]"
    by (simp add: WFCMTF_Log2RLESize_def upt_rec)
  assume "L \<le> 22"
  then have "L < length [0..<23]"
    by (simp only: length_upt)
  then show "WFCMTF_Log2RLESize ! L = 2 ^ L"
    unfolding table nth_append length_map by (simp only: if_True nth_map nth_upt length_upt) simp
qed

lemma enc_run_parts:
  assumes "enc_run r3 c n m = (ops, m')"
  obtains L Mask ops1 V U ops2 W where "run_code n = (L, Mask)"
    "enc_unary 6 3 None 0 L (Model_Log2RLE_0 m ! (CtxRLE m + 16 * r3)) (Model_Log2RLE_1 m ! unat c) = (ops1, V, U)"
    "enc_bits next_bit 6 0 (mask_bits L Mask n) (Model_Log2RLE_2 m ! L) = (ops2, W)" "ops = ops1 @ ops2"
    "m' = (run_ctx L m)\<lparr>Model_Log2RLE_0 := (Model_Log2RLE_0 m)[CtxRLE m + 16 * r3 := V],
       Model_Log2RLE_1 := (Model_Log2RLE_1 m)[unat c := U], Model_Log2RLE_2 := (Model_Log2RLE_2 m)[L := W]\<rparr>"
  using assms by (auto simp: enc_run_def run_code_def Let_def split: prod.splits)

lemma run_rows:
  assumes "models_ok m" "r3 \<le> 3"
  shows "CtxRLE m + 16 * r3 < 64" "row_ok 24 (Model_Log2RLE_0 m ! (CtxRLE m + 16 * r3))" "row_ok 24 (Model_Log2RLE_1 m ! unat (c :: byte))"
    "L \<le> 22 \<Longrightarrow> row_ok 24 (Model_Log2RLE_2 m ! L)"
proof -
  note ok = models_okD [OF assms(1)]
  show i: "CtxRLE m + 16 * r3 < 64"
    using ok(11) assms(2) by simp
  show "row_ok 24 (Model_Log2RLE_0 m ! (CtxRLE m + 16 * r3))" "row_ok 24 (Model_Log2RLE_1 m ! unat c)"
    "L \<le> 22 \<Longrightarrow> row_ok 24 (Model_Log2RLE_2 m ! L)"
    using rows_ok_nth [OF ok(8) i] rows_ok_nth [OF ok(9) byte_index] rows_ok_nth [OF ok(10), of L] by simp_all
qed

lemma enc_run_ok:
  assumes "enc_run r3 c n m = (ops, m')" "models_ok m" "r3 \<le> 3" "0 < n" "n < 2 ^ 23"
  shows "models_ok m'" "\<forall>op \<in> set ops. ari_op_ok op"
proof -
  note ok = models_okD [OF assms(2)]
  obtain L Mask ops1 V U ops2 W where e: "run_code n = (L, Mask)"
    "enc_unary 6 3 None 0 L (Model_Log2RLE_0 m ! (CtxRLE m + 16 * r3)) (Model_Log2RLE_1 m ! unat c) = (ops1, V, U)"
    "enc_bits next_bit 6 0 (mask_bits L Mask n) (Model_Log2RLE_2 m ! L) = (ops2, W)" "ops = ops1 @ ops2"
    "m' = (run_ctx L m)\<lparr>Model_Log2RLE_0 := (Model_Log2RLE_0 m)[CtxRLE m + 16 * r3 := V],
       Model_Log2RLE_1 := (Model_Log2RLE_1 m)[unat c := U], Model_Log2RLE_2 := (Model_Log2RLE_2 m)[L := W]\<rparr>"
    by (rule enc_run_parts [OF assms(1)])
  have L: "L \<le> 22"
    by (rule run_code_spec(1) [OF assms(4,5) e(1)])
  note rows = run_rows [OF assms(2,3)]
  have 1: "row_ok 24 V \<and> row_ok 24 U \<and> (\<forall>op \<in> set ops1. ari_op_ok op)"
    using enc_unary_ok [OF e(2) rows(2,3)] L by simp
  have 2: "row_ok 24 W \<and> (\<forall>op \<in> set ops2. ari_op_ok op)"
    using enc_bits_ok [OF e(3) rows(4) [OF L]] L by (simp add: path_next_bit)
  show "models_ok m'" "\<forall>op \<in> set ops. ari_op_ok op"
    using 1 2 ok by (auto simp: e(4,5) models_ok_def rows_ok_upd run_ctx_def)
qed

lemma dec_run_follows:
  assumes "enc_run r3 c n m = (ops, m')" "models_ok m" "r3 \<le> 3" "0 < n" "n < 2 ^ 23" "ari_follows ops d d'"
  shows "dec_run r3 c m d = Some (n, m', d')"
proof -
  obtain L Mask ops1 V U ops2 W where e: "run_code n = (L, Mask)"
    "enc_unary 6 3 None 0 L (Model_Log2RLE_0 m ! (CtxRLE m + 16 * r3)) (Model_Log2RLE_1 m ! unat c) = (ops1, V, U)"
    "enc_bits next_bit 6 0 (mask_bits L Mask n) (Model_Log2RLE_2 m ! L) = (ops2, W)" "ops = ops1 @ ops2"
    "m' = (run_ctx L m)\<lparr>Model_Log2RLE_0 := (Model_Log2RLE_0 m)[CtxRLE m + 16 * r3 := V],
       Model_Log2RLE_1 := (Model_Log2RLE_1 m)[unat c := U], Model_Log2RLE_2 := (Model_Log2RLE_2 m)[L := W]\<rparr>"
    by (rule enc_run_parts [OF assms(1)])
  note s = run_code_spec [OF assms(4,5) e(1)]
  note rows = run_rows [OF assms(2,3)]
  obtain d1 where d1: "ari_follows ops1 d d1" "ari_follows ops2 d1 d'"
    using assms(6) follows_append_iff e(4) by blast
  have len: "length (Model_Log2RLE_0 m ! (CtxRLE m + 16 * r3)) = 24" "length (Model_Log2RLE_1 m ! unat c) = 24"
      "length (Model_Log2RLE_2 m ! L) = 24"
    using rows s(1) by (simp_all add: row_ok_def)
  have "dec_unary 6 3 None 0 (Model_Log2RLE_0 m ! (CtxRLE m + 16 * r3)) (Model_Log2RLE_1 m ! unat c) d = Some (L, V, U, d1)"
    using dec_unary_follows [OF e(2) _ _ _ d1(1)] s(1) by (simp add: len)
  moreover have "foldl (\<lambda>x b. 2 * x + of_bool b) 0 (mask_bits L Mask n) = n mod 2 ^ L"
    using s(4) mask_bits_value [of 0 L n] by (cases "L = 0") auto
  then have "dec_bits next_bit 6 0 L 0 (Model_Log2RLE_2 m ! L) d1 = Some (n mod 2 ^ L, W, d')"
    using dec_bits_follows [OF e(3) _ d1(2), of 0] s(1) by (simp add: len path_next_bit)
  moreover have "n mod 2 ^ L + 2 ^ L = n"
    using s(2,3) le_mod_geq [of "2 ^ L" n] by simp
  ultimately show ?thesis
    by (simp add: dec_run_def Let_def e(5) run_size_table [OF s(1)])
qed

section \<open>The coder restores its input\<close>

definition runs_fit :: "nat option \<Rightarrow> byte list \<Rightarrow> bool" where
  "runs_fit room inp \<longleftrightarrow> (\<forall>n. room = Some n \<longrightarrow> length (remdups_adj inp) \<le> n)"

lemma runs_fit_Cons: "runs_fit room (c # inp) \<longleftrightarrow> room \<noteq> Some 0 \<and> runs_fit (use_room room) (dropWhile (\<lambda>x. x = c) inp)"
proof -
  have "length (remdups_adj (c # inp)) = Suc (length (remdups_adj (dropWhile (\<lambda>x. x = c) inp)))"
    by (simp add: remdups_adj_Cons')
  then show ?thesis
    by (cases room) (auto simp: runs_fit_def use_room_def)
qed

text \<open>What the coder needs of a ranking: the position of a byte leads back to it.\<close>

locale byte_ranking =
  fixes rank_of :: "'s \<Rightarrow> byte \<Rightarrow> nat" and char_at :: "'s \<Rightarrow> nat \<Rightarrow> byte" and note_byte :: "nat \<Rightarrow> byte \<Rightarrow> 's \<Rightarrow> 's"
    and rank_ok :: "'s \<Rightarrow> bool"
  assumes rank_less: "rank_ok s \<Longrightarrow> rank_of s c < 256"
    and char_at_rank: "rank_ok s \<Longrightarrow> char_at s (rank_of s c) = c"
    and note_ok: "rank_ok s \<Longrightarrow> rank_ok (note_byte (rank_of s c) c s)"
begin

lemma lowered_rank: "rank_ok s \<Longrightarrow> (rank_of s c + 255) mod 256 < 256 \<and> ((rank_of s c + 255) mod 256 + 1) mod 256 = rank_of s c"
  using rank_less [of s c] mod_add_left_eq [of "rank_of s c + 255" 256 1] by simp

lemma enc_step_parts:
  assumes "enc_step (rank_of, char_at, note_byte) p c n (m, s) = (ops, st')"
  defines "r \<equiv> (rank_of s c + 255) mod 256"
  obtains ops1 m1 ops2 m2 where "enc_rank r p m = (ops1, m1)" "enc_run (min r 3) c n (rank_ctx (min r 3) m1) = (ops2, m2)"
    "ops = ops1 @ ops2" "st' = (m2, note_byte (rank_of s c) c s)"
  using assms by (auto simp: enc_step_def Let_def split: prod.splits)

lemma models_ok_rank_ctx: "models_ok m \<Longrightarrow> models_ok (rank_ctx r m)"
  by (simp add: models_ok_def rank_ctx_def)

lemma enc_step_ok:
  assumes "enc_step (rank_of, char_at, note_byte) p c n (m, s) = (ops, m', s')" "models_ok m" "rank_ok s" "0 < n" "n < 2 ^ 23"
  shows "models_ok m'" "rank_ok s'" "\<forall>op \<in> set ops. ari_op_ok op"
proof -
  obtain ops1 m1 ops2 m2 where e: "enc_rank ((rank_of s c + 255) mod 256) p m = (ops1, m1)"
      "enc_run (min ((rank_of s c + 255) mod 256) 3) c n (rank_ctx (min ((rank_of s c + 255) mod 256) 3) m1) = (ops2, m2)"
      "ops = ops1 @ ops2" "(m', s') = (m2, note_byte (rank_of s c) c s)"
    by (rule enc_step_parts [OF assms(1)])
  note r = lowered_rank [OF assms(3), of c]
  note 1 = enc_rank_ok [OF e(1) assms(2) r [THEN conjunct1]]
  note 2 = enc_run_ok [OF e(2) models_ok_rank_ctx [OF 1(1)] _ assms(4,5)]
  show "models_ok m'" "rank_ok s'" "\<forall>op \<in> set ops. ari_op_ok op"
    using 1(2) 2 e(3,4) note_ok [OF assms(3)] by auto
qed

lemma dec_step_follows:
  assumes "enc_step (rank_of, char_at, note_byte) p c n (m, s) = (ops, m', s')" "models_ok m" "rank_ok s" "0 < n" "n < 2 ^ 23"
    "ari_follows ops d d'"
  shows "dec_step (rank_of, char_at, note_byte) p (m, s) d = Some (Some (c, n), (m', s'), d')"
proof -
  define r where "r = (rank_of s c + 255) mod 256"
  obtain ops1 m1 ops2 m2 where e: "enc_rank r p m = (ops1, m1)"
      "enc_run (min r 3) c n (rank_ctx (min r 3) m1) = (ops2, m2)"
      "ops = ops1 @ ops2" "(m', s') = (m2, note_byte (rank_of s c) c s)"
    unfolding r_def by (rule enc_step_parts [OF assms(1)])
  have r: "r < 256" "(r + 1) mod 256 = rank_of s c"
    using lowered_rank [OF assms(3), of c] by (simp_all add: r_def)
  obtain d1 where d1: "ari_follows ops1 d d1" "ari_follows ops2 d1 d'"
    using assms(6) follows_append_iff e(3) by blast
  have "models_ok (rank_ctx (min r 3) m1)"
    using enc_rank_ok [OF e(1) assms(2) r(1)] models_ok_rank_ctx by blast
  then have "dec_run (min r 3) c (rank_ctx (min r 3) m1) d1 = Some (n, m2, d')"
    using dec_run_follows [OF e(2) _ _ assms(4,5) d1(2)] by simp
  moreover have "((r + 1) mod 256 + 255) mod 256 = r"
    using r(2) by (simp only: r_def)
  ultimately show ?thesis
    using dec_rank_follows [OF e(1) assms(2) r(1) d1(1)] e(4) char_at_rank [OF assms(3), of c]
    by (simp add: dec_step_def Let_def r(2) [simplified])
qed

text \<open>The operations of the whole input.\<close>

function enc_all :: "byte list \<Rightarrow> byte \<Rightarrow> ari_models \<times> 's \<Rightarrow> ari_op list" where
  "enc_all [] p st = enc_end p (fst st)"
| "enc_all (c # inp) p st =
     (let (ops, st) = enc_step (rank_of, char_at, note_byte) p c (1 + length (takeWhile (\<lambda>x. x = c) inp)) st
      in ops @ enc_all (dropWhile (\<lambda>x. x = c) inp) c st)"
  by pat_completeness auto
termination
  by (relation "measure (\<lambda>(inp, p, st). length inp)") (auto simp: le_imp_less_Suc length_dropWhile_le)

lemma enc_loop_all:
  "enc_loop (rank_of, char_at, note_byte) limit inp p st e = (n, out) \<Longrightarrow>
    n = GRZ_NOT_COMPRESSIBLE \<or> n = int (length out) \<and> out = ari_flush (fold ARI_Encode (enc_all inp p st) e)"
proof (induction "(rank_of, char_at, note_byte)" limit inp p st e rule: enc_loop.induct)
  case (2 limit c inp p st e)
  then show ?case
    by (auto simp: Let_def split: prod.splits if_splits)
qed (auto simp: Let_def)

lemma enc_all_ok: "models_ok (fst st) \<Longrightarrow> rank_ok (snd st) \<Longrightarrow> length inp < 2 ^ 23 \<Longrightarrow> \<forall>op \<in> set (enc_all inp p st). ari_op_ok op"
proof (induction inp p st rule: enc_all.induct)
  case (2 c inp p st)
  let ?n = "1 + length (takeWhile (\<lambda>x. x = c) inp)"
  obtain ops m' s' where e: "enc_step (rank_of, char_at, note_byte) p c ?n (fst st, snd st) = (ops, m', s')"
    by (cases "enc_step (rank_of, char_at, note_byte) p c ?n st") auto
  have "?n < 2 ^ 23"
    using "2.prems"(3) length_takeWhile_le [of "\<lambda>x. x = c" inp] by (simp add: le_imp_less_Suc)
  note ok = enc_step_ok [OF e "2.prems"(1,2) _ this]
  have "length (dropWhile (\<lambda>x. x = c) inp) < 2 ^ 23"
    using "2.prems"(3) length_dropWhile_le [of "\<lambda>x. x = c" inp] by simp
  then show ?case
    using "2.IH" [of "(ops, m', s')" ops "(m', s')"] e ok by auto
qed (simp add: enc_end_follows)

text \<open>The number of runs of the input decides whether they fit.\<close>

lemma dec_loop_follows:
  "models_ok (fst st) \<Longrightarrow> rank_ok (snd st) \<Longrightarrow> length inp < 2 ^ 23 \<Longrightarrow> ari_follows (enc_all inp p st) d d' \<Longrightarrow>
    dec_loop (rank_of, char_at, note_byte) room p st d out = (if runs_fit room inp then Some (out @ inp) else None)"
proof (induction inp p st arbitrary: room d out rule: enc_all.induct)
  case (1 p st)
  then obtain m' where "dec_rank p (fst st) d = Some (End, m', d')"
    using enc_end_follows(2) [of "fst st" p d d'] by auto
  then show ?case
    by (cases st) (simp add: dec_loop.simps dec_step_def runs_fit_def split: option.splits)
next
  case (2 c inp p st)
  let ?n = "1 + length (takeWhile (\<lambda>x. x = c) inp)"
  let ?rest = "dropWhile (\<lambda>x. x = c) inp"
  obtain ops m' s' where e: "enc_step (rank_of, char_at, note_byte) p c ?n (fst st, snd st) = (ops, m', s')"
    by (cases "enc_step (rank_of, char_at, note_byte) p c ?n st") auto
  have n: "?n < 2 ^ 23" "length ?rest < 2 ^ 23"
    using "2.prems"(3) length_takeWhile_le [of "\<lambda>x. x = c" inp] length_dropWhile_le [of "\<lambda>x. x = c" inp]
    by (simp_all add: le_imp_less_Suc)
  note ok = enc_step_ok [OF e "2.prems"(1,2) _ n(1)]
  obtain d1 where d1: "ari_follows ops d d1" "ari_follows (enc_all ?rest c (m', s')) d1 d'"
    using "2.prems"(4) e follows_append_iff by auto
  have step: "dec_step (rank_of, char_at, note_byte) p st d = Some (Some (c, ?n), (m', s'), d1)"
    using dec_step_follows [OF e "2.prems"(1,2) _ n(1) d1(1)] by simp
  have "takeWhile (\<lambda>x. x = c) inp = replicate (length (takeWhile (\<lambda>x. x = c) inp)) c"
    by (rule replicate_length_same [symmetric]) (auto dest: set_takeWhileD)
  then have "replicate ?n c @ ?rest = c # inp"
    using takeWhile_dropWhile_id [of "\<lambda>x. x = c" inp] by simp
  moreover have "dec_loop (rank_of, char_at, note_byte) (use_room room) c (m', s') d1 (out @ replicate ?n c) =
      (if runs_fit (use_room room) ?rest then Some ((out @ replicate ?n c) @ ?rest) else None)"
    using "2.IH" [of "(ops, m', s')" ops "(m', s')"] e ok n(2) d1(2) by auto
  ultimately show ?case
    by (simp add: dec_loop.simps [of _ _ p] step runs_fit_Cons)
qed

lemma coder_roundtrip:
  assumes "rank_ok s" "length inp < 2 ^ 23" "ari_encode (rank_of, char_at, note_byte) s inp = (n, out)"
  shows "n = GRZ_NOT_COMPRESSIBLE \<or> n = int (length out) \<and>
    ari_decode (rank_of, char_at, note_byte) s room (out @ rest) = (if runs_fit room inp then Some inp else None)"
proof (cases "n = GRZ_NOT_COMPRESSIBLE")
  case False
  let ?ops = "enc_all inp 0 (Init_Models, s)"
  have out: "n = int (length out)" "out = ari_flush (fold ARI_Encode ?ops ari_start)"
    using enc_loop_all [of _ inp 0 "(Init_Models, s)"] assms(3) False by (auto simp: ari_encode_def)
  have "\<forall>op \<in> set ?ops. ari_op_ok op"
    using enc_all_ok [of "(Init_Models, s)" inp 0] models_ok_init assms(1,2) by simp
  then obtain d d' where d: "ari_dec_start (out @ rest) = Some d" "ari_follows ?ops d d'"
    using ari_codes [of ?ops rest] out(2) by blast
  have "dec_loop (rank_of, char_at, note_byte) room 0 (Init_Models, s) d [] = (if runs_fit room inp then Some inp else None)"
    using dec_loop_follows [of "(Init_Models, s)" inp 0 d d' room "[]"] models_ok_init assms(1,2) d(2) by simp
  then show ?thesis
    using out(1) d(1) by (simp add: ari_decode_def)
qed simp

end

text \<open>A single run is always accepted, once the block has more than 24 bytes.\<close>

lemma ari_encode_run:
  assumes "24 < k"
  shows "\<exists>out. ari_encode rk s (replicate k c) = (int (length out), out)"
proof -
  obtain j where k: "k = Suc j"
    using assms by (cases k) simp_all
  have "dropWhile (\<lambda>x. x = c) (replicate j c) = []" "takeWhile (\<lambda>x. x = c) (replicate j c) = replicate j c"
    by (induction j) simp_all
  then show ?thesis
    using assms unfolding k by (simp add: ari_encode_def ari_start_def Let_def split: prod.splits)
qed

end
