(* ===== verification/Grz_MTF_Ari.thy ===== *)
theory Grz_MTF_Ari
  imports Grz_Entropy
begin

text \<open>
  The entropy coder \<^verbatim>\<open>GRZip/MTF_Ari.c\<close>: runs of bytes, ranked by moving to the front, through the
  coder of \<^verbatim>\<open>Grz_Entropy\<close>.
\<close>

section \<open>Moving to the front\<close>

text \<open>The search, which never leaves the list because the list holds every byte.\<close>

fun mtf_find :: "byte list \<Rightarrow> byte \<Rightarrow> nat" where
  "mtf_find [] Ch = 0"
| "mtf_find (x # MTF_List) Ch = (if x = Ch then 0 else mtf_find MTF_List Ch + 1)"

text \<open>The loop that moves the elements before the position up.\<close>

fun mtf_shift :: "nat \<Rightarrow> byte list \<Rightarrow> byte list" where
  "mtf_shift 0 MTF_List = MTF_List"
| "mtf_shift (Suc Tmp) MTF_List = mtf_shift Tmp (MTF_List[Suc Tmp := MTF_List ! Tmp])"

definition mtf_note :: "nat \<Rightarrow> byte \<Rightarrow> byte list \<Rightarrow> byte list" where
  "mtf_note pos Ch MTF_List = (if pos \<noteq> 0 then (mtf_shift pos MTF_List)[0 := Ch] else MTF_List)"

definition mtf_ranking :: "byte list ranking" where
  "mtf_ranking = (mtf_find, (!), mtf_note)"

definition mtf_init :: "byte list" where "mtf_init = map of_nat [0..<256]"

definition GRZip_MTF_Ari_Encode :: "byte list \<Rightarrow> int \<times> byte list" where
  "GRZip_MTF_Ari_Encode Input = ari_encode mtf_ranking mtf_init Input"

definition GRZip_MTF_Ari_Decode :: "byte list \<Rightarrow> byte list option" where
  "GRZip_MTF_Ari_Decode Input = ari_decode mtf_ranking mtf_init None Input"

section \<open>The list keeps every byte\<close>

definition mtf_ok :: "byte list \<Rightarrow> bool" where
  "mtf_ok MTF_List \<longleftrightarrow> length MTF_List = 256 \<and> set MTF_List = UNIV"

lemma mtf_find_spec: "c \<in> set xs \<Longrightarrow> mtf_find xs c < length xs \<and> xs ! mtf_find xs c = c"
  by (induction xs) auto

lemma mtf_shift_front: "t < length xs \<Longrightarrow> (mtf_shift t xs)[0 := c] = c # take t xs @ drop (Suc t) xs"
proof (induction t xs rule: mtf_shift.induct)
  case (1 xs)
  then show ?case
    by (cases xs) simp_all
next
  case (2 t xs)
  have "(mtf_shift t (xs[Suc t := xs ! t]))[0 := c] = c # take t xs @ drop (Suc t) (xs[Suc t := xs ! t])"
    using "2" by simp
  also have "drop (Suc t) (xs[Suc t := xs ! t]) = xs ! t # drop (Suc (Suc t)) xs"
    using "2.prems" by (simp add: Cons_nth_drop_Suc [symmetric])
  finally show ?case
    using "2.prems" by (simp add: take_Suc_conv_app_nth)
qed

lemma mtf_note_perm:
  assumes "pos < length xs" "xs ! pos = c"
  shows "length (mtf_note pos c xs) = length xs" "set (mtf_note pos c xs) = set xs"
proof -
  have xs: "xs = take pos xs @ c # drop (Suc pos) xs"
    using id_take_nth_drop [OF assms(1)] assms(2) by simp
  have "mtf_note pos c xs = (if pos = 0 then xs else c # take pos xs @ drop (Suc pos) xs)"
    by (simp add: mtf_note_def mtf_shift_front [OF assms(1)])
  moreover have "set xs = set (take pos xs) \<union> {c} \<union> set (drop (Suc pos) xs)"
    by (subst xs) auto
  ultimately show "length (mtf_note pos c xs) = length xs" "set (mtf_note pos c xs) = set xs"
    using assms(1) by auto
qed

lemma mtf_init_ok: "mtf_ok mtf_init"
proof -
  have "c \<in> set mtf_init" for c
  proof -
    have "of_nat (unat c) \<in> set mtf_init"
      unfolding mtf_init_def set_map using byte_bound by (intro imageI) simp
    then show ?thesis
      by simp
  qed
  then show ?thesis
    by (auto simp: mtf_ok_def mtf_init_def)
qed

interpretation mtf: byte_ranking mtf_find "(!)" mtf_note mtf_ok
proof unfold_locales
  fix s c
  assume "mtf_ok s"
  then have f: "mtf_find s c < 256" "s ! mtf_find s c = c" "length s = 256"
    using mtf_find_spec [of c s] by (simp_all add: mtf_ok_def)
  then show "mtf_find s c < 256" "s ! mtf_find s c = c" "mtf_ok (mtf_note (mtf_find s c) c s)"
    using mtf_note_perm [of "mtf_find s c" s c] \<open>mtf_ok s\<close> by (simp_all add: mtf_ok_def)
qed

lemma mtf_ari_decodes:
  assumes "length Input \<le> GRZ_MaxBlockSize" "GRZip_MTF_Ari_Encode Input = (n, out)"
  shows "n = GRZ_NOT_COMPRESSIBLE \<or> n = int (length out) \<and> GRZip_MTF_Ari_Decode (out @ rest) = Some Input"
  using mtf.coder_roundtrip [OF mtf_init_ok, where room = None] assms
  by (simp add: runs_fit_def GRZip_MTF_Ari_Encode_def GRZip_MTF_Ari_Decode_def mtf_ranking_def GRZ_MaxBlockSize_def)

text \<open>
  C29: whatever block of at most \<^verbatim>\<open>GRZ_MaxBlockSize\<close> bytes \<^verbatim>\<open>GRZip_MTF_Ari_Encode\<close> accepts, it returns the
  number of bytes it wrote, and \<^verbatim>\<open>GRZip_MTF_Ari_Decode\<close> restores the block from these bytes, whatever
  comes behind them; the decoder always ends, and reads no byte that is not there.
\<close>
theorem mtf_ari_roundtrip:
  assumes "length Input \<le> GRZ_MaxBlockSize" "GRZip_MTF_Ari_Encode Input = (n, out)"
  shows "n = GRZ_NOT_COMPRESSIBLE \<or> n = int (length out) \<and> GRZip_MTF_Ari_Decode (out @ rest) = Some Input"
  using assms by (rule mtf_ari_decodes)

theorem mtf_ari_roundtrip_witness:
  "\<exists>n out. GRZip_MTF_Ari_Encode (replicate 40 7) = (n, out) \<and> n \<noteq> GRZ_NOT_COMPRESSIBLE \<and>
     GRZip_MTF_Ari_Decode (out @ [1, 2]) = Some (replicate 40 7)"
proof -
  obtain out where out: "GRZip_MTF_Ari_Encode (replicate 40 7) = (int (length out), out)"
    using ari_encode_run [of 40 mtf_ranking mtf_init 7] by (auto simp: GRZip_MTF_Ari_Encode_def)
  have "length (replicate 40 7) \<le> GRZ_MaxBlockSize"
    by (simp add: GRZ_MaxBlockSize_def)
  then show ?thesis
    using mtf_ari_roundtrip [OF _ out, of "[1, 2]"] out by (auto simp: GRZ_NOT_COMPRESSIBLE_def)
qed

end
