(* ===== verification/Grz_WFC_Ari.thy ===== *)
theory Grz_WFC_Ari
  imports Grz_Entropy
begin

text \<open>
  The entropy coder \<^verbatim>\<open>GRZip/WFC_Ari.c\<close>: runs of bytes, ranked by weighted frequency counting, through
  the coder of \<^verbatim>\<open>Grz_Entropy\<close>.  Every byte has a weight, which grows when the byte occurs and is taken
  back in twelve steps as the occurrence recedes; the list of the bytes is kept in the order of the
  weights.  The development shows that the list and its index stay inverse to one another, that a
  weight is the sum over the occurrences that are still remembered (so it never is negative and never
  leaves the range of \<^verbatim>\<open>sint32\<close>), that the list behind its head is ordered by weight, and that the
  decoder restores what the encoder read.
\<close>

section \<open>The ranking\<close>

text \<open>
  The macros of the file work on local arrays of the coder.  \<^verbatim>\<open>WFCBuf\<close> is the part of the buffer that
  has been written; \<^verbatim>\<open>WFCBufPos\<close> is the position that the current byte has there.
\<close>

record wfc_state =
  WFC_List :: "nat list"
  Char2Index :: "nat list"
  CharWeight :: "int list"
  WFCBuf :: "byte list"
  WFCBufPos :: nat

definition WFC_MaxByte :: nat where "WFC_MaxByte = 256"
definition WFC_Val0 :: int where "WFC_Val0 = 131072"

text \<open>The pairs \<^verbatim>\<open>WFC_Val<i>\<close>, \<^verbatim>\<open>WFC_Pos<i>\<close>, in the order the coder applies them.\<close>

definition WFC_Steps :: "(int \<times> nat) list" where
  "WFC_Steps = [(114688, 1), (7272, 2), (4240, 4), (2364, 8), (1263, 16), (649, 32), (320, 64), (153, 128),
     (70, 256), (31, 512), (14, 1024), (8, 2048)]"

definition WFC_Init :: wfc_state where
  "WFC_Init = \<lparr>WFC_List = [0..<WFC_MaxByte + 1], Char2Index = [0..<WFC_MaxByte + 1],
     CharWeight = (replicate (WFC_MaxByte + 1) 0)[WFC_MaxByte := - 1], WFCBuf = [], WFCBufPos = 0\<rparr>"

text \<open>The loop of \<^verbatim>\<open>Update_Weight0\<close> that moves the bytes before position \<^verbatim>\<open>j\<close> up, on the list and its index.\<close>

fun wfc_up :: "nat \<Rightarrow> nat list \<times> nat list \<Rightarrow> nat list \<times> nat list" where
  "wfc_up 0 (L, C) = (L, C)"
| "wfc_up (Suc j) (L, C) = wfc_up j (L[Suc j := L ! j], C[L ! j := Suc j])"

definition Update_Weight0 :: "nat \<Rightarrow> wfc_state \<Rightarrow> wfc_state" where
  "Update_Weight0 c s =
     (case wfc_up (Char2Index s ! c) (WFC_List s, Char2Index s) of (L, C) \<Rightarrow>
        s\<lparr>CharWeight := (CharWeight s)[c := CharWeight s ! c + WFC_Val0], WFC_List := L[0 := c], Char2Index := C[c := 0]\<rparr>)"

text \<open>
  The loop of \<^verbatim>\<open>Update_Weight\<close> that moves the heavier bytes behind position \<^verbatim>\<open>j\<close> down.  The code relies on
  the sentinel, whose weight is \<^verbatim>\<open>-1\<close>, to stop it; the test for the end of the array is never what stops
  it (lemma \<^verbatim>\<open>wfc_down_stops\<close>).
\<close>

function wfc_down :: "int list \<Rightarrow> int \<Rightarrow> nat \<Rightarrow> nat list \<times> nat list \<Rightarrow> nat \<times> nat list \<times> nat list" where
  "wfc_down weight W j (L, C) =
     (if Suc j < length L \<and> weight ! (L ! Suc j) > W
      then wfc_down weight W (Suc j) (L[j := L ! Suc j], C[L ! Suc j := j])
      else (j, L, C))"
  by pat_completeness auto
termination
  by (relation "measure (\<lambda>(_, _, j, L, _). length L - j)") auto

declare wfc_down.simps [simp del]

lemma wfc_down_cases:
  "Suc j < length L \<and> w ! (L ! Suc j) > W \<Longrightarrow>
     wfc_down w W j (L, C) = wfc_down w W (Suc j) (L[j := L ! Suc j], C[L ! Suc j := j])"
  "\<not> (Suc j < length L \<and> w ! (L ! Suc j) > W) \<Longrightarrow> wfc_down w W j (L, C) = (j, L, C)"
  by (subst wfc_down.simps, simp)+

definition Update_Weight :: "nat \<Rightarrow> nat \<Rightarrow> int \<Rightarrow> wfc_state \<Rightarrow> wfc_state" where
  "Update_Weight Ch c Weight s =
     (let W = CharWeight s ! c - Weight;
          weight = (CharWeight s)[c := W]
      in if c \<noteq> Ch
         then (case wfc_down weight W (Char2Index s ! c) (WFC_List s, Char2Index s) of (j, L, C) \<Rightarrow>
                 s\<lparr>CharWeight := weight, WFC_List := L[j := c], Char2Index := C[c := j]\<rparr>)
         else s\<lparr>CharWeight := weight\<rparr>)"

definition Update_Weight_Full :: "nat \<Rightarrow> int \<times> nat \<Rightarrow> wfc_state \<Rightarrow> wfc_state" where
  "Update_Weight_Full Ch = (\<lambda>(Weight, Pos) s.
     if WFCBufPos s \<ge> Pos then Update_Weight Ch (unat (WFCBuf s ! (WFCBufPos s - Pos))) Weight s else s)"

definition wfc_find :: "wfc_state \<Rightarrow> byte \<Rightarrow> nat" where "wfc_find s Ch = Char2Index s ! unat Ch"

definition wfc_char :: "wfc_state \<Rightarrow> nat \<Rightarrow> byte" where "wfc_char s r = of_nat (WFC_List s ! r)"

definition wfc_note :: "nat \<Rightarrow> byte \<Rightarrow> wfc_state \<Rightarrow> wfc_state" where
  "wfc_note pos Ch s =
     (let s1 = Update_Weight0 (unat Ch) (s\<lparr>WFCBuf := WFCBuf s @ [Ch]\<rparr>);
          s2 = fold (Update_Weight_Full (unat Ch)) WFC_Steps s1
      in s2\<lparr>WFCBufPos := WFCBufPos s2 + 1\<rparr>)"

definition wfc_ranking :: "wfc_state ranking" where
  "wfc_ranking = (wfc_find, wfc_char, wfc_note)"

definition GRZip_WFC_Ari_Encode :: "byte list \<Rightarrow> int \<times> byte list" where
  "GRZip_WFC_Ari_Encode Input = ari_encode wfc_ranking WFC_Init Input"

text \<open>
  \<^verbatim>\<open>Size\<close> is the size of \<^verbatim>\<open>WFCBuf\<close>, the only use the decoder has for its parameter: it enters a byte there for
  every run and yields \<^verbatim>\<open>None\<close> where the code would leave the buffer.  The encoder asks for as many bytes as its block has,
  which no number of runs exceeds.
\<close>

definition GRZip_WFC_Ari_Decode :: "byte list \<Rightarrow> nat \<Rightarrow> byte list option" where
  "GRZip_WFC_Ari_Decode Input Size = ari_decode wfc_ranking WFC_Init (Some Size) Input"

section \<open>The list and its index\<close>

text \<open>
  While an element is being moved, one position of the list is free: \<^verbatim>\<open>hole h x (L, C)\<close> says that the list
  with \<^verbatim>\<open>x\<close> put at \<^verbatim>\<open>h\<close> holds every number once and that the index is right at every other position.
\<close>

definition hole :: "nat \<Rightarrow> nat \<Rightarrow> nat list \<times> nat list \<Rightarrow> bool" where
  "hole h x = (\<lambda>(L, C). length L = 257 \<and> length C = 257 \<and> h < 257 \<and> x < 257 \<and> distinct (L[h := x]) \<and>
     set (L[h := x]) = {..<257} \<and> (\<forall>i < 257. i \<noteq> h \<longrightarrow> C ! (L ! i) = i))"

definition index_ok :: "nat list \<times> nat list \<Rightarrow> bool" where
  "index_ok = (\<lambda>(L, C). length L = 257 \<and> length C = 257 \<and> distinct L \<and> set L = {..<257} \<and>
     (\<forall>i < 257. C ! (L ! i) = i))"

lemma index_ok_hole:
  assumes "index_ok (L, C)" "c < 257"
  shows "hole (C ! c) c (L, C)" "L ! (C ! c) = c" "C ! c < 257"
proof -
  have "c \<in> set L"
    using assms by (simp add: index_ok_def)
  then obtain i where i: "i < 257" "L ! i = c"
    using assms(1) by (auto simp: in_set_conv_nth index_ok_def)
  then have "C ! c = i"
    using assms by (auto simp: index_ok_def)
  then show "hole (C ! c) c (L, C)" "L ! (C ! c) = c" "C ! c < 257"
    using assms i list_update_id [of L i] by (auto simp: index_ok_def hole_def)
qed

lemma hole_fill:
  assumes "hole h x (L, C)"
  shows "index_ok (L[h := x], C[x := h])"
proof -
  have "C[x := h] ! (L[h := x] ! i) = i" if "i < 257" for i
  proof (cases "i = h")
    case False
    then have "L[h := x] ! i \<noteq> L[h := x] ! h"
      using assms that by (simp only: hole_def split_conv) (subst nth_eq_iff_index_eq; simp)
    then show ?thesis
      using assms that False by (simp add: hole_def)
  qed (use assms in \<open>simp add: hole_def\<close>)
  then show ?thesis
    using assms by (simp add: hole_def index_ok_def)
qed

lemma hole_move:
  assumes "hole h x (L, C)" "k < 257" "k \<noteq> h"
  shows "hole k x (L[h := L ! k], C[L ! k := h])"
proof -
  let ?M = "L[h := x]" and ?L = "L[h := L ! k]"
  have len: "length L = 257" "length C = 257" "h < 257" "x < 257"
    and M: "distinct ?M" "set ?M = {..<257}" and C: "\<And>i. i < 257 \<Longrightarrow> i \<noteq> h \<Longrightarrow> C ! (L ! i) = i"
    using assms(1) by (auto simp: hole_def)
  have swap: "?L[k := x] = ?M[h := ?M ! k, k := ?M ! h]"
    using len assms(2,3) by (simp add: list_update_swap)
  have "distinct (?L[k := x])" "set (?L[k := x]) = {..<257}"
    unfolding swap using M len assms(2) by (simp_all only: distinct_swap set_swap length_list_update)
  moreover have "C[L ! k := h] ! (?L ! i) = i" if "i < 257" "i \<noteq> k" for i
  proof (cases "i = h")
    case True
    have "?M ! k \<in> set ?M"
      using len assms(2) by (intro nth_mem) simp
    then have "L ! k < 257"
      using M(2) assms(3) by simp
    then show ?thesis
      using True len by simp
  next
    case False
    have "?M ! i \<noteq> ?M ! k"
      using M(1) len that assms(2) by (subst nth_eq_iff_index_eq) simp_all
    then have "L ! i \<noteq> L ! k"
      using False assms(3) by simp
    then show ?thesis
      using False that C by simp
  qed
  ultimately show ?thesis
    using len assms(2) by (simp add: hole_def)
qed

lemma wfc_up_hole: "hole j x (L, C) \<Longrightarrow> hole 0 x (wfc_up j (L, C))"
proof (induction j arbitrary: L C)
  case (Suc j)
  then have "j < 257"
    by (simp add: hole_def)
  then show ?case
    using Suc hole_move [of "Suc j" x L C j] by simp
qed simp

lemma wfc_down_hole: "hole j x (L, C) \<Longrightarrow> wfc_down w W j (L, C) = (j', L', C') \<Longrightarrow> hole j' x (L', C')"
proof (induction w W j "(L, C)" arbitrary: L C rule: wfc_down.induct)
  case (1 w W j L C)
  show ?case
  proof (cases "Suc j < length L \<and> w ! (L ! Suc j) > W")
    case True
    then have "hole (Suc j) x (L[j := L ! Suc j], C[L ! Suc j := j])"
      using "1.prems"(1) by (intro hole_move) (auto simp: hole_def)
    then show ?thesis
      using True "1.hyps" [OF True] "1.prems"(2) by (simp add: wfc_down_cases(1) [OF True])
  next
    case False
    then have "(j', L', C') = (j, L, C)"
      using "1.prems"(2) by (simp add: wfc_down_cases(2) [OF False])
    then show ?thesis
      using "1.prems"(1) by simp
  qed
qed

text \<open>The loop stops before the sentinel: every weight it compares is above a weight that is not negative.\<close>

lemma wfc_down_stops:
  assumes "wfc_down w W j (L, C) = (j', L', C')" "length L = 257" "L ! 256 = 256" "w ! 256 = - 1" "0 \<le> W" "j < 256"
  shows "j' < 256 \<and> L' ! 256 = 256 \<and> \<not> w ! (L' ! Suc j') > W"
  using assms
proof (induction w W j "(L, C)" arbitrary: L C rule: wfc_down.induct)
  case (1 w W j L C)
  show ?case
  proof (cases "Suc j < length L \<and> w ! (L ! Suc j) > W")
    case True
    then have "Suc j \<noteq> 256"
      using "1.prems" by auto
    then show ?thesis
      using True "1.hyps" [OF True] "1.prems" by (simp add: wfc_down_cases(1) [OF True])
  next
    case False
    then have "(j', L', C') = (j, L, C)"
      using "1.prems"(1) by (simp add: wfc_down_cases(2) [OF False])
    then show ?thesis
      using "1.prems" False by auto
  qed
qed

lemma wfc_up_keeps: "j < 256 \<Longrightarrow> length L = 257 \<Longrightarrow> fst (wfc_up j (L, C)) ! 256 = L ! 256"
  by (induction j arbitrary: L C) simp_all

section \<open>The weights\<close>

text \<open>
  What an occurrence still counts for, \<^verbatim>\<open>d\<close> runs after it: \<^verbatim>\<open>WFC_Val0\<close> less the steps taken.  In the middle of an
  update the steps \<^verbatim>\<open>T1\<close> have been applied for the newest run and the steps \<^verbatim>\<open>T2\<close> have not.  \<^verbatim>\<open>hist\<close> is
  the buffer, newest byte first.
\<close>

definition taken :: "(int \<times> nat) list \<Rightarrow> nat \<Rightarrow> int" where
  "taken T d = (\<Sum>(v, p)\<leftarrow>T. if p \<le> d then v else 0)"

definition remaining :: "(int \<times> nat) list \<Rightarrow> (int \<times> nat) list \<Rightarrow> nat \<Rightarrow> int" where
  "remaining T1 T2 d = WFC_Val0 - taken T1 d - (if d = 0 then 0 else taken T2 (d - 1))"

definition weight_of :: "(int \<times> nat) list \<Rightarrow> (int \<times> nat) list \<Rightarrow> byte list \<Rightarrow> byte \<Rightarrow> int" where
  "weight_of T1 T2 hist c = (\<Sum>d < length hist. if hist ! d = c then remaining T1 T2 d else 0)"

lemma taken_simps [simp]:
  "taken [] d = 0" "taken ((v, p) # T) d = (if p \<le> d then v else 0) + taken T d"
  "taken (T @ T') d = taken T d + taken T' d"
  by (simp_all add: taken_def)

lemma weight_of_new: "weight_of [] T (c' # hist) c = weight_of T [] hist c + (if c' = c then WFC_Val0 else 0)"
  if "\<forall>(v, p) \<in> set T. 0 < p"
  using that by (simp add: weight_of_def sum.lessThan_Suc_shift remaining_def del: sum.lessThan_Suc cong: if_cong)

lemma taken_step: "0 < (p :: nat) \<Longrightarrow> (if p \<le> d then v else 0) - (if d = 0 then 0 else if p \<le> d - 1 then v else 0) = (if d = p then v else 0 :: int)"
  by auto

lemma weight_of_step:
  assumes "0 < p"
  shows "weight_of (T1 @ [(v, p)]) T2 hist c =
    weight_of T1 ((v, p) # T2) hist c - (if p < length hist \<and> hist ! p = c then v else 0)"
proof -
  have r: "remaining (T1 @ [(v, p)]) T2 d = remaining T1 ((v, p) # T2) d - (if d = p then v else 0)" for d
    unfolding remaining_def taken_simps using taken_step [OF assms, of d v] by (cases "d = 0") (simp_all split del: if_split)
  have "weight_of (T1 @ [(v, p)]) T2 hist c =
      (\<Sum>d < length hist. (if hist ! d = c then remaining T1 ((v, p) # T2) d else 0) -
         (if d = p then (if hist ! p = c then v else 0) else 0))"
    unfolding weight_of_def by (intro sum.cong) (auto simp: r)
  also have "\<dots> = weight_of T1 ((v, p) # T2) hist c - (if p < length hist \<and> hist ! p = c then v else 0)"
    by (simp add: weight_of_def sum_subtractf)
  finally show ?thesis .
qed

text \<open>The steps add up to \<^verbatim>\<open>WFC_Val0\<close>, so an occurrence never counts for less than nothing.\<close>

lemma taken_bounds: "\<forall>(v, p) \<in> set T. 0 \<le> v \<Longrightarrow> 0 \<le> taken T d \<and> taken T d \<le> sum_list (map fst T)"
  by (induction T) auto

lemma WFC_Steps_facts:
  "\<forall>(v, p) \<in> set WFC_Steps. 0 \<le> v \<and> 0 < p" "sum_list (map fst WFC_Steps) = WFC_Val0"
  by (simp_all add: WFC_Steps_def WFC_Val0_def)

lemma remaining_bounds:
  assumes "T1 @ T2 = WFC_Steps"
  shows "0 \<le> remaining T1 T2 d" "remaining T1 T2 d \<le> WFC_Val0" "2048 < d \<Longrightarrow> remaining T1 T2 d = 0"
proof -
  have v: "\<forall>(v, p) \<in> set T1. 0 \<le> v" "\<forall>(v, p) \<in> set T2. 0 \<le> v"
    using WFC_Steps_facts(1) unfolding assms [symmetric] by auto
  have "sum_list (map fst T1) + sum_list (map fst T2) = WFC_Val0"
    using WFC_Steps_facts(2) unfolding assms [symmetric] by simp
  then show "0 \<le> remaining T1 T2 d" "remaining T1 T2 d \<le> WFC_Val0"
    using taken_bounds [OF v(1), of d] taken_bounds [OF v(2), of "d - 1"] taken_bounds [OF v(2), of 0]
    by (auto simp: remaining_def)
  show "remaining T1 T2 d = 0" if "2048 < d"
  proof -
    have all: "taken T d' = sum_list (map fst T)" if "set T \<subseteq> set WFC_Steps" "2048 \<le> d'" for T d'
      using that by (induction T) (auto simp: WFC_Steps_def)
    have "set T1 \<subseteq> set WFC_Steps" "set T2 \<subseteq> set WFC_Steps"
      unfolding assms [symmetric] by auto
    then show ?thesis
      using all [of T1 d] all [of T2 "d - 1"] that \<open>sum_list (map fst T1) + sum_list (map fst T2) = WFC_Val0\<close>
      by (simp add: remaining_def)
  qed
qed

lemma weight_of_bounds:
  assumes "T1 @ T2 = WFC_Steps"
  shows "0 \<le> weight_of T1 T2 hist c" "weight_of T1 T2 hist c \<le> 2049 * WFC_Val0"
proof -
  show "0 \<le> weight_of T1 T2 hist c"
    unfolding weight_of_def by (intro sum_nonneg) (simp add: remaining_bounds [OF assms])
  have "weight_of T1 T2 hist c \<le> (\<Sum>d < length hist. if d < 2049 then WFC_Val0 else 0)"
    unfolding weight_of_def
    using remaining_bounds [OF assms] by (intro sum_mono) (auto simp: not_less WFC_Val0_def)
  also have "\<dots> = (\<Sum>d \<in> {..<length hist} \<inter> {..<2049}. WFC_Val0)"
    by (subst sum.inter_restrict) (auto intro: sum.cong)
  also have "\<dots> = int (card ({..<length hist} \<inter> {..<2049})) * WFC_Val0"
    by simp
  also have "\<dots> \<le> 2049 * WFC_Val0"
    using card_mono [of "{..<2049}" "{..<length hist} \<inter> {..<2049}"] by (simp add: WFC_Val0_def)
  finally show "weight_of T1 T2 hist c \<le> 2049 * WFC_Val0" .
qed

section \<open>The state between and during the updates\<close>

definition wfc_inv :: "(int \<times> nat) list \<Rightarrow> (int \<times> nat) list \<Rightarrow> byte list \<Rightarrow> wfc_state \<Rightarrow> bool" where
  "wfc_inv T1 T2 hist s \<longleftrightarrow> index_ok (WFC_List s, Char2Index s) \<and> WFC_List s ! 256 = 256 \<and>
     length (CharWeight s) = 257 \<and> CharWeight s ! 256 = - 1 \<and> WFCBuf s = rev hist \<and>
     (\<forall>c. CharWeight s ! unat c = weight_of T1 T2 hist c)"

lemma byte_eq_iff: "unat (a :: byte) = unat b \<longleftrightarrow> a = b"
  by (simp add: word_unat_eq_iff)

lemma byte_slot: "unat (c :: byte) < 256" "unat (c :: byte) \<noteq> 256" "unat (c :: byte) < 257"
  using byte_bound [of c] by simp_all

lemma index_below:
  assumes "index_ok (L, C)" "L ! 256 = 256"
  shows "C ! unat (c :: byte) < 256" "L ! (C ! unat c) = unat c"
proof -
  have "L ! (C ! unat c) = unat c" "C ! unat c < 257"
    using index_ok_hole [OF assms(1), of "unat c"] byte_slot(1) [of c] by simp_all
  moreover from this have "C ! unat c \<noteq> 256"
    using assms(2) byte_slot(2) by metis
  ultimately show "C ! unat (c :: byte) < 256" "L ! (C ! unat c) = unat c"
    by simp_all
qed

lemma Update_Weight0_inv:
  assumes "wfc_inv WFC_Steps [] hist s"
  shows "wfc_inv [] WFC_Steps (c # hist) (Update_Weight0 (unat c) (s\<lparr>WFCBuf := WFCBuf s @ [c]\<rparr>))"
proof -
  let ?j = "Char2Index s ! unat c"
  obtain L C where up: "wfc_up ?j (WFC_List s, Char2Index s) = (L, C)"
    by fastforce
  have s: "index_ok (WFC_List s, Char2Index s)" "WFC_List s ! 256 = 256" "length (WFC_List s) = 257"
    using assms by (auto simp: wfc_inv_def index_ok_def)
  have j: "?j < 256"
    using index_below [OF s(1,2)] by simp
  have "hole 0 (unat c) (L, C)"
    using wfc_up_hole [OF index_ok_hole(1) [OF s(1), of "unat c"]] byte_slot(1) [of c] up by simp
  then have "index_ok (L[0 := unat c], C[unat c := 0])"
    by (rule hole_fill)
  moreover have "L ! 256 = 256"
    using wfc_up_keeps [OF j s(3), of "Char2Index s"] up s(2) by simp
  moreover have "\<forall>(v, p) \<in> set WFC_Steps. 0 < p"
    using WFC_Steps_facts(1) by auto
  ultimately show ?thesis
    using assms byte_slot [of c] up unfolding wfc_inv_def
    by (auto simp: Update_Weight0_def weight_of_new nth_list_update byte_eq_iff)
qed

lemma Update_Weight_inv:
  assumes "wfc_inv T1 ((v, p) # T2) hist s" "T1 @ (v, p) # T2 = WFC_Steps" "p < length hist"
  shows "wfc_inv (T1 @ [(v, p)]) T2 hist (Update_Weight (unat (Ch :: byte)) (unat (hist ! p)) v s)"
proof -
  let ?c = "hist ! p" and ?w = "(CharWeight s)[unat (hist ! p) := CharWeight s ! unat (hist ! p) - v]"
  have s: "index_ok (WFC_List s, Char2Index s)" "WFC_List s ! 256 = 256" "length (WFC_List s) = 257"
    "length (CharWeight s) = 257" "CharWeight s ! 256 = - 1"
    using assms(1) by (auto simp: wfc_inv_def index_ok_def)
  have p: "0 < p"
    using WFC_Steps_facts(1) unfolding assms(2) [symmetric] by simp
  have w: "?w ! unat c = weight_of (T1 @ [(v, p)]) T2 hist c" for c
    using assms(1,3) byte_slot [of c] byte_slot [of ?c]
    by (simp add: wfc_inv_def weight_of_step [OF p] nth_list_update byte_eq_iff)
  show ?thesis
  proof (cases "?c = Ch")
    case True
    then show ?thesis
      using assms(1) w byte_slot [of Ch] by (simp add: wfc_inv_def Update_Weight_def Let_def)
  next
    case False
    obtain j L C where down: "wfc_down ?w (CharWeight s ! unat ?c - v) (Char2Index s ! unat ?c)
        (WFC_List s, Char2Index s) = (j, L, C)"
      by (metis prod_cases3)
    have "hole (Char2Index s ! unat ?c) (unat ?c) (WFC_List s, Char2Index s)"
      using index_ok_hole(1) [OF s(1)] byte_slot(1) [of ?c] by simp
    then have "index_ok (L[j := unat ?c], C[unat ?c := j])"
      using wfc_down_hole [OF _ down] hole_fill by blast
    moreover have "0 \<le> CharWeight s ! unat ?c - v"
      using weight_of_bounds(1) [of "T1 @ [(v, p)]" T2 hist ?c] w [of ?c] assms(2) s(4) byte_slot(1) [of ?c] by simp
    then have "j < 256 \<and> L ! 256 = 256"
      using wfc_down_stops [OF down s(3,2)] s(5) index_below(1) [OF s(1,2), of ?c] byte_slot [of ?c] by simp
    ultimately show ?thesis
      using assms(1) False w down byte_slot [of ?c] unfolding wfc_inv_def
      by (simp add: Update_Weight_def Let_def nth_list_update byte_eq_iff)
  qed
qed

lemma Update_Weight_Full_inv:
  assumes "wfc_inv T1 ((v, p) # T2) hist s" "T1 @ (v, p) # T2 = WFC_Steps" "WFCBufPos s + 1 = length hist"
  shows "wfc_inv (T1 @ [(v, p)]) T2 hist (Update_Weight_Full (unat (Ch :: byte)) (v, p) s)"
proof (cases "p \<le> WFCBufPos s")
  case True
  moreover have "WFCBuf s ! (WFCBufPos s - p) = hist ! p"
    using assms(1,3) True by (simp add: wfc_inv_def rev_nth)
  ultimately show ?thesis
    using Update_Weight_inv [OF assms(1,2), of Ch] assms(3) by (simp add: Update_Weight_Full_def)
next
  case False
  have "0 < p"
    using WFC_Steps_facts(1) unfolding assms(2) [symmetric] by simp
  then show ?thesis
    using assms(1,3) False by (simp add: Update_Weight_Full_def wfc_inv_def weight_of_step)
qed

lemma Update_keeps_pos [simp]:
  "WFCBufPos (Update_Weight0 c s) = WFCBufPos s" "WFCBufPos (Update_Weight_Full Ch vp s) = WFCBufPos s"
  by (auto simp: Update_Weight0_def Update_Weight_Full_def Update_Weight_def Let_def split: prod.splits)

lemma wfc_updates_inv:
  assumes "wfc_inv T1 T2 hist s" "T1 @ T2 = WFC_Steps" "WFCBufPos s + 1 = length hist"
  shows "wfc_inv WFC_Steps [] hist (fold (Update_Weight_Full (unat (Ch :: byte))) T2 s) \<and>
     WFCBufPos (fold (Update_Weight_Full (unat Ch)) T2 s) = WFCBufPos s"
  using assms
proof (induction T2 arbitrary: T1 s)
  case (Cons vp T2)
  obtain v p where vp: "vp = (v, p)"
    by fastforce
  have "wfc_inv (T1 @ [(v, p)]) T2 hist (Update_Weight_Full (unat Ch) (v, p) s)"
    using Cons.prems unfolding vp by (rule Update_Weight_Full_inv)
  then show ?case
    using Cons.IH [of "T1 @ [(v, p)]" "Update_Weight_Full (unat Ch) (v, p) s"] Cons.prems by (simp add: vp)
qed simp

text \<open>Between the runs: \<^verbatim>\<open>hist\<close> holds the first bytes of the runs seen, newest first.\<close>

definition wfc_between :: "byte list \<Rightarrow> wfc_state \<Rightarrow> bool" where
  "wfc_between hist s \<longleftrightarrow> wfc_inv WFC_Steps [] hist s \<and> WFCBufPos s = length hist"

lemma wfc_init_between: "wfc_between [] WFC_Init"
proof -
  have "index_ok ([0..<257], [0..<257])"
    by (auto simp: index_ok_def simp del: upt_Suc)
  then show ?thesis
    using byte_slot
    by (auto simp: wfc_between_def wfc_inv_def WFC_Init_def WFC_MaxByte_def weight_of_def nth_list_update
        simp del: upt_Suc upt_rec_numeral)
qed

lemma wfc_note_between: "wfc_between hist s \<Longrightarrow> wfc_between (c # hist) (wfc_note pos c s)"
  using wfc_updates_inv [of "[]" WFC_Steps "c # hist" "Update_Weight0 (unat c) (s\<lparr>WFCBuf := WFCBuf s @ [c]\<rparr>)" c]
    Update_Weight0_inv [of hist s c]
  by (simp add: wfc_between_def wfc_note_def Let_def wfc_inv_def)

definition wfc_ok :: "wfc_state \<Rightarrow> bool" where "wfc_ok s \<longleftrightarrow> (\<exists>hist. wfc_between hist s)"

interpretation wfc: byte_ranking wfc_find wfc_char wfc_note wfc_ok
proof unfold_locales
  fix s and c :: byte
  assume "wfc_ok s"
  then obtain hist where h: "wfc_between hist s"
    by (auto simp: wfc_ok_def)
  then have "Char2Index s ! unat c < 256" "WFC_List s ! (Char2Index s ! unat c) = unat c"
    using index_below [of "WFC_List s" "Char2Index s" c] by (simp_all add: wfc_between_def wfc_inv_def)
  then show "wfc_find s c < 256" "wfc_char s (wfc_find s c) = c"
    by (simp_all add: wfc_find_def wfc_char_def)
  show "wfc_ok (wfc_note (wfc_find s c) c s)"
    using wfc_note_between [OF h] by (auto simp: wfc_ok_def)
qed

section \<open>The order of the list\<close>

definition descending :: "int list \<Rightarrow> nat list \<Rightarrow> bool" where
  "descending w = sorted_wrt (\<lambda>a b. w ! b \<le> w ! a)"

lemma descending_update: "c \<notin> set xs \<Longrightarrow> descending (w[c := v]) xs = descending w xs"
proof -
  assume "c \<notin> set xs"
  then have "(w[c := v]) ! x = w ! x" if "x \<in> set xs" for x
    using that by (intro nth_list_update_neq) auto
  then show ?thesis
    unfolding descending_def by (auto elim!: sorted_wrt_mono_rel [rotated])
qed

lemma wfc_up_list:
  "wfc_up (length A) (A @ c # B, C) = (L, C') \<Longrightarrow> L[0 := x] = x # A @ B"
proof (induction A arbitrary: c B C rule: rev_induct)
  case (snoc a A)
  then show ?case
    using snoc.IH [of a "a # B"] by (simp add: list_update_append)
qed auto

lemma wfc_down_list:
  "wfc_down w W (length A) (A @ c # B, C) = (j, L, C') \<Longrightarrow>
   L[j := x] = A @ takeWhile (\<lambda>b. w ! b > W) B @ x # dropWhile (\<lambda>b. w ! b > W) B"
proof (induction B arbitrary: A c C)
  case Nil
  then show ?case
    by (subst (asm) wfc_down_cases(2)) auto
next
  case (Cons b B)
  show ?case
  proof (cases "w ! b > W")
    case True
    then have "wfc_down w W (length (A @ [b])) ((A @ [b]) @ b # B, C[b := length A]) = (j, L, C')"
      using Cons.prems by (subst (asm) wfc_down_cases(1)) (simp_all add: nth_append)
    from Cons.IH [OF this] True show ?thesis
      by simp
  next
    case False
    then show ?thesis
      using Cons.prems by (subst (asm) wfc_down_cases(2)) (auto simp: nth_append)
  qed
qed

lemma descending_insert:
  assumes "descending w (A @ B)" "\<forall>a \<in> set A. W \<le> w ! a" "c \<notin> set (A @ B)" "c < length w"
  shows "descending (w[c := W]) (A @ takeWhile (\<lambda>b. w ! b > W) B @ c # dropWhile (\<lambda>b. w ! b > W) B)"
proof -
  let ?t = "takeWhile (\<lambda>b. w ! b > W) B" and ?d = "dropWhile (\<lambda>b. w ! b > W) B"
  have AB: "sorted_wrt (\<lambda>a b. w ! b \<le> w ! a) (A @ ?t @ ?d)"
    using assms(1) by (simp add: descending_def)
  have "\<forall>b \<in> set ?d. w ! b \<le> W"
  proof (cases ?d)
    case (Cons b d)
    then have "\<not> w ! b > W"
      using hd_dropWhile [of "\<lambda>b. w ! b > W" B] by simp
    then show ?thesis
      using AB unfolding Cons sorted_wrt_append by force
  qed (simp del: dropWhile_eq_Nil_conv)
  moreover have "\<forall>b \<in> set ?t. W \<le> w ! b"
    by (auto dest!: set_takeWhileD)
  moreover have "c \<notin> set A" "c \<notin> set ?t" "c \<notin> set ?d"
    using assms(3) by (auto dest!: set_takeWhileD set_dropWhileD)
  moreover from this have "(w[c := W]) ! a = w ! a" if "a \<in> set A \<union> set ?t \<union> set ?d" for a
    using that by (metis Un_iff nth_list_update_neq)
  ultimately show ?thesis
    using AB assms(2,4) descending_update [of c A w W] descending_update [of c ?t w W] descending_update [of c ?d w W]
    unfolding descending_def sorted_wrt_append sorted_wrt.simps
    by (auto dest: set_takeWhileD set_dropWhileD)
qed

text \<open>
  The order while a run is noted: \<^verbatim>\<open>Ch\<close>, the byte of the run, is the head, and what is behind it is in order.
\<close>

definition headed :: "nat \<Rightarrow> wfc_state \<Rightarrow> bool" where
  "headed Ch s \<longleftrightarrow> (\<exists>R. WFC_List s = Ch # R \<and> descending (CharWeight s) R)"

text \<open>One step for a byte other than the head: it moves behind the heavier ones, the head stays.\<close>

lemma Update_Weight_order:
  assumes "WFC_List s = Ch # A @ c # B" "index_ok (WFC_List s, Char2Index s)" "length (CharWeight s) = 257"
    "descending (CharWeight s) (A @ B)" "\<forall>a \<in> set A. CharWeight s ! c - v \<le> CharWeight s ! a"
  shows "headed Ch (Update_Weight Ch c v s)"
proof -
  let ?W = "CharWeight s ! c - v"
  have dist: "distinct (Ch # A @ c # B)" and c: "c < 257" and lenL: "length (Ch # A @ c # B) = 257"
    using assms(1,2) unfolding index_ok_def by (auto simp del: distinct.simps)
  obtain j L C where down: "wfc_down ((CharWeight s)[c := ?W]) ?W (Char2Index s ! c) (WFC_List s, Char2Index s) = (j, L, C)"
    by (metis prod_cases3)
  have "WFC_List s ! Suc (length A) = c"
    using assms(1) by simp
  moreover have "Suc (length A) < 257"
    using lenL by simp
  ultimately have idx: "Char2Index s ! c = length (Ch # A)"
    using assms(2) by (auto simp: index_ok_def)
  have "L[j := c] = Ch # A @ takeWhile (\<lambda>b. CharWeight s ! b > ?W) B @ c # dropWhile (\<lambda>b. CharWeight s ! b > ?W) B"
  proof -
    have eq: "\<And>b. b \<in> set B \<Longrightarrow> ((CharWeight s)[c := ?W] ! b > ?W) = (CharWeight s ! b > ?W)"
      using dist by (metis distinct.simps(2) distinct_append nth_list_update_neq)
    have "takeWhile (\<lambda>b. (CharWeight s)[c := ?W] ! b > ?W) B = takeWhile (\<lambda>b. CharWeight s ! b > ?W) B"
      "dropWhile (\<lambda>b. (CharWeight s)[c := ?W] ! b > ?W) B = dropWhile (\<lambda>b. CharWeight s ! b > ?W) B"
      by (auto intro!: takeWhile_cong dropWhile_cong simp: eq)
    then show ?thesis
      using wfc_down_list [of "(CharWeight s)[c := ?W]" ?W "Ch # A" c B "Char2Index s" j L C c] down idx assms(1) by simp
  qed
  moreover have "descending ((CharWeight s)[c := ?W])
      (A @ takeWhile (\<lambda>b. CharWeight s ! b > ?W) B @ c # dropWhile (\<lambda>b. CharWeight s ! b > ?W) B)"
    using assms(3-5) dist c by (intro descending_insert) auto
  ultimately show ?thesis
    using dist down by (auto simp: Update_Weight_def Let_def headed_def)
qed

lemma wfc_inv_simps:
  "wfc_inv T1 T2 hist s \<Longrightarrow> index_ok (WFC_List s, Char2Index s) \<and> length (CharWeight s) = 257 \<and>
     WFCBuf s = rev hist \<and> set (WFC_List s) = {..<257}"
  by (simp add: wfc_inv_def index_ok_def)

lemma Update_Weight_Full_headed:
  assumes "headed (unat (Ch :: byte)) s" "wfc_inv T1 ((v, p) # T2) hist s" "0 \<le> v" "WFCBufPos s + 1 = length hist"
  shows "headed (unat Ch) (Update_Weight_Full (unat Ch) (v, p) s)"
proof -
  obtain R where R: "WFC_List s = unat Ch # R" "descending (CharWeight s) R"
    using assms(1) by (auto simp: headed_def)
  let ?c = "unat (WFCBuf s ! (WFCBufPos s - p))"
  consider "WFCBufPos s < p" | "p \<le> WFCBufPos s" "?c = unat Ch" | "p \<le> WFCBufPos s" "?c \<noteq> unat Ch"
    by linarith
  then show ?thesis
  proof cases
    case 2
    moreover have "unat Ch \<notin> set R"
      using wfc_inv_simps [OF assms(2)] R(1) by (auto simp: index_ok_def)
    ultimately show ?thesis
      using R by (simp add: Update_Weight_Full_def Update_Weight_def headed_def Let_def descending_update)
  next
    case 3
    have "?c \<in> set R"
      using wfc_inv_simps [OF assms(2)] R(1) byte_slot(3) [of "WFCBuf s ! (WFCBufPos s - p)"] 3(2)
      by (metis lessThan_iff set_ConsD)
    then obtain A B where AB: "R = A @ ?c # B"
      by (meson split_list)
    then have "\<forall>a \<in> set A. CharWeight s ! ?c \<le> CharWeight s ! a" "descending (CharWeight s) (A @ B)"
      using R(2) by (auto simp: descending_def sorted_wrt_append)
    then have "\<forall>a \<in> set A. CharWeight s ! ?c - v \<le> CharWeight s ! a" "descending (CharWeight s) (A @ B)"
      using assms(3) by force+
    then show ?thesis
      using Update_Weight_order [of s "unat Ch" A ?c B v] R(1) AB wfc_inv_simps [OF assms(2)] 3(1)
      by (simp add: Update_Weight_Full_def)
  qed (use assms(1) in \<open>simp add: Update_Weight_Full_def\<close>)
qed

lemma wfc_updates_headed:
  assumes "headed (unat Ch) s" "wfc_inv T1 T2 hist s" "T1 @ T2 = WFC_Steps" "WFCBufPos s + 1 = length hist"
  shows "headed (unat (Ch :: byte)) (fold (Update_Weight_Full (unat Ch)) T2 s)"
  using assms
proof (induction T2 arbitrary: T1 s)
  case (Cons vp T2)
  obtain v p where vp: "vp = (v, p)"
    by fastforce
  have "0 \<le> v"
    using WFC_Steps_facts(1) unfolding Cons.prems(3) [symmetric] vp by simp
  then have "headed (unat Ch) (Update_Weight_Full (unat Ch) (v, p) s)"
    using Cons.prems unfolding vp by (intro Update_Weight_Full_headed)
  moreover have "wfc_inv (T1 @ [(v, p)]) T2 hist (Update_Weight_Full (unat Ch) (v, p) s)"
    using Cons.prems unfolding vp by (intro Update_Weight_Full_inv)
  ultimately show ?case
    using Cons.IH [of "Update_Weight_Full (unat Ch) (v, p) s" "T1 @ [(v, p)]"] Cons.prems by (simp add: vp)
qed simp

text \<open>The state after the runs of \<^verbatim>\<open>hist\<close>, whose first bytes differ from one run to the next.\<close>

definition wfc_ordered :: "byte list \<Rightarrow> wfc_state \<Rightarrow> bool" where
  "wfc_ordered hist s \<longleftrightarrow>
     (case hist of [] \<Rightarrow> descending (CharWeight s) (WFC_List s) | c # _ \<Rightarrow> headed (unat c) s)"

lemma Update_Weight0_list:
  assumes "index_ok (WFC_List s, Char2Index s)" "WFC_List s = A @ c # B"
  shows "WFC_List (Update_Weight0 c s) = c # A @ B"
proof -
  have "WFC_List s ! length A = c" "length A < 257"
    using assms by (auto simp: index_ok_def)
  then have "Char2Index s ! c = length A"
    using assms(1) by (auto simp: index_ok_def)
  then show ?thesis
    using wfc_up_list [of A c B "Char2Index s"] assms(2) by (simp add: Update_Weight0_def split: prod.splits)
qed

lemma Update_Weight0_weight: "CharWeight (Update_Weight0 c s) = (CharWeight s)[c := CharWeight s ! c + WFC_Val0]"
  by (simp add: Update_Weight0_def split: prod.splits)

text \<open>The first step is for the run before this one, which has just lost the head of the list.\<close>

lemma WFC_Steps_first: "WFC_Steps = (114688, 1) # tl WFC_Steps"
  by (simp add: WFC_Steps_def)

lemma wfc_first_step:
  assumes "wfc_between hist s" "wfc_ordered hist s" "hist = [] \<or> hd hist \<noteq> c"
  defines "s1 \<equiv> Update_Weight0 (unat c) (s\<lparr>WFCBuf := WFCBuf s @ [c]\<rparr>)"
  shows "headed (unat c) (Update_Weight_Full (unat c) (114688, 1) s1)"
proof -
  let ?L = "WFC_List s" and ?w = "CharWeight s"
  have s: "index_ok (?L, Char2Index s)" "length ?w = 257" "set ?L = {..<257}" "WFCBuf s = rev hist"
    "WFCBufPos s = length hist" "distinct ?L"
    using assms(1) by (auto simp: wfc_between_def wfc_inv_def index_ok_def)
  have inv1: "wfc_inv [] WFC_Steps (c # hist) s1"
    using assms(1) unfolding s1_def wfc_between_def by (intro Update_Weight0_inv) simp
  have L1: "WFC_List s1 = unat c # A @ B" if "?L = A @ unat c # B" for A B
    using Update_Weight0_list [of "s\<lparr>WFCBuf := WFCBuf s @ [c]\<rparr>" A "unat c" B] s(1) that by (simp add: s1_def)
  have w1: "descending (CharWeight s1) X = descending ?w X" if "unat c \<notin> set X" for X
    using that by (simp add: s1_def Update_Weight0_weight descending_update)
  have s1: "WFCBufPos s1 = length hist" "WFCBuf s1 = rev hist @ [c]"
    using s(4,5) inv1 by (simp_all add: s1_def wfc_inv_def)
  show ?thesis
  proof (cases hist)
    case Nil
    have "unat c \<in> set ?L"
      using s(3) byte_slot(3) [of c] by simp
    then obtain A B where AB: "?L = A @ unat c # B"
      by (meson split_list)
    then have "descending ?w (A @ B)" "unat c \<notin> set (A @ B)"
      using assms(2) s(6) Nil by (auto simp: wfc_ordered_def descending_def sorted_wrt_append)
    then show ?thesis
      using L1 [OF AB] w1 [of "A @ B"] s1 Nil by (simp add: Update_Weight_Full_def headed_def)
  next
    case (Cons b h)
    then obtain R where R: "?L = unat b # R" "descending ?w R"
      using assms(2) by (auto simp: wfc_ordered_def headed_def)
    have "unat c \<in> set (unat b # R)"
      unfolding R(1) [symmetric] s(3) lessThan_iff by (rule byte_slot)
    then have "unat c \<in> set R"
      using assms(3) Cons by (simp add: byte_eq_iff)
    then obtain A B where AB: "R = A @ unat c # B"
      by (meson split_list)
    have "descending ?w (A @ B)" "unat c \<notin> set (A @ B)"
      using R AB s(6) by (auto simp: descending_def sorted_wrt_append)
    then have "headed (unat c) (Update_Weight (unat c) (unat b) 114688 s1)"
      using L1 [of "unat b # A" B] R(1) AB w1 [of "A @ B"] inv1
      by (intro Update_Weight_order [where A = "[]" and B = "A @ B"]) (auto dest: wfc_inv_simps)
    moreover have "WFCBuf s1 ! (WFCBufPos s1 - 1) = b"
      using s1 Cons by (simp add: nth_append)
    ultimately show ?thesis
      using s1(1) Cons by (simp add: Update_Weight_Full_def)
  qed
qed

lemma wfc_note_ordered:
  assumes "wfc_between hist s" "wfc_ordered hist s" "hist = [] \<or> hd hist \<noteq> c"
  shows "wfc_ordered (c # hist) (wfc_note pos c s)"
proof -
  let ?s1 = "Update_Weight0 (unat c) (s\<lparr>WFCBuf := WFCBuf s @ [c]\<rparr>)"
  have "wfc_inv [] WFC_Steps (c # hist) ?s1" "WFCBufPos ?s1 + 1 = length (c # hist)"
    using assms(1) by (auto simp: wfc_between_def intro: Update_Weight0_inv)
  then have "wfc_inv ([] @ [(114688, 1)]) (tl WFC_Steps) (c # hist) (Update_Weight_Full (unat c) (114688, 1) ?s1)"
    by (intro Update_Weight_Full_inv) (simp_all add: WFC_Steps_first [symmetric] del: One_nat_def)
  then have "headed (unat c) (fold (Update_Weight_Full (unat c)) (tl WFC_Steps) (Update_Weight_Full (unat c) (114688, 1) ?s1))"
    using assms(1) wfc_first_step [OF assms]
    by (intro wfc_updates_headed [of _ _ "[(114688, 1)]" _ "c # hist"]) (simp_all add: wfc_between_def WFC_Steps_def)
  also have "fold (Update_Weight_Full (unat c)) (tl WFC_Steps) (Update_Weight_Full (unat c) (114688, 1) ?s1) =
      fold (Update_Weight_Full (unat c)) WFC_Steps ?s1"
    by (subst (2) WFC_Steps_first) simp
  finally show ?thesis
    by (simp add: wfc_ordered_def wfc_note_def Let_def headed_def)
qed

section \<open>What the ranking does over a block\<close>

definition wfc_notes :: "byte list \<Rightarrow> wfc_state" where
  "wfc_notes runs = fold (\<lambda>c s. wfc_note (wfc_find s c) c s) runs WFC_Init"

lemma wfc_notes_snoc: "wfc_notes (runs @ [c]) = wfc_note (wfc_find (wfc_notes runs) c) c (wfc_notes runs)"
  by (simp add: wfc_notes_def)

lemma wfc_notes_between: "wfc_between (rev runs) (wfc_notes runs)"
  by (induction runs rule: rev_induct) (simp_all add: wfc_notes_snoc wfc_note_between, simp add: wfc_notes_def wfc_init_between)

text \<open>
  C31: after any runs, the list of \<^verbatim>\<open>WFC_Ari.c\<close> holds every byte once, its index leads back to every byte, and the
  weight of a byte is the sum of what its occurrences still count for; an occurrence counts for at
  most \<^verbatim>\<open>WFC_Val0\<close> and for nothing once more than 2048 runs have followed, so that the
  weights are never negative and stay far from the end of \<^verbatim>\<open>sint32\<close>.
\<close>
theorem wfc_weights:
  "WFC_List (wfc_notes runs) ! (Char2Index (wfc_notes runs) ! unat c) = unat c \<and>
   distinct (WFC_List (wfc_notes runs)) \<and> set (WFC_List (wfc_notes runs)) = {..256} \<and>
   CharWeight (wfc_notes runs) ! unat c =
     (\<Sum>d < length runs. if rev runs ! d = c then WFC_Val0 - (\<Sum>(v, p)\<leftarrow>WFC_Steps. if p \<le> d then v else 0) else 0) \<and>
   CharWeight (wfc_notes runs) ! unat c \<in> {0..<2 ^ 29}"
proof (intro conjI)
  have inv: "wfc_inv WFC_Steps [] (rev runs) (wfc_notes runs)"
    using wfc_notes_between by (simp add: wfc_between_def)
  then show "WFC_List (wfc_notes runs) ! (Char2Index (wfc_notes runs) ! unat c) = unat c"
    "distinct (WFC_List (wfc_notes runs))" "set (WFC_List (wfc_notes runs)) = {..256}"
    using index_below(2) by (auto simp: wfc_inv_def index_ok_def)
  show "CharWeight (wfc_notes runs) ! unat c =
     (\<Sum>d < length runs. if rev runs ! d = c then WFC_Val0 - (\<Sum>(v, p)\<leftarrow>WFC_Steps. if p \<le> d then v else 0) else 0)"
    using inv by (simp add: wfc_inv_def weight_of_def remaining_def taken_def cong: if_cong)
  show "CharWeight (wfc_notes runs) ! unat c \<in> {0..<2 ^ 29}"
    using inv weight_of_bounds [of WFC_Steps "[]" "rev runs" c] by (simp add: wfc_inv_def WFC_Val0_def)
qed

text \<open>
  C32: the ranking that \<^verbatim>\<open>WFC_Ari.c\<close> uses is the one it means to: after runs whose bytes differ from one run to
  the next, the byte of the last run is the head of the list, and behind it the bytes stand in the
  order of their weights, heaviest first.
\<close>
theorem wfc_list_order:
  assumes "runs \<noteq> []" "\<And>i. Suc i < length runs \<Longrightarrow> runs ! i \<noteq> runs ! Suc i"
  shows "\<exists>R. WFC_List (wfc_notes runs) = unat (last runs) # R \<and>
     sorted_wrt (\<lambda>a b. CharWeight (wfc_notes runs) ! b \<le> CharWeight (wfc_notes runs) ! a) R"
proof -
  have "descending (CharWeight WFC_Init) (WFC_List WFC_Init)"
    by (auto simp: descending_def WFC_Init_def WFC_MaxByte_def sorted_wrt_iff_nth_less nth_list_update
        simp del: upt_Suc upt_rec_numeral)
  then have init: "wfc_ordered [] (wfc_notes [])"
    by (simp add: wfc_ordered_def wfc_notes_def)
  have "wfc_ordered (rev runs) (wfc_notes runs)"
    using assms(2)
  proof (induction runs rule: rev_induct)
    case (snoc c runs)
    have "wfc_ordered (rev runs) (wfc_notes runs)"
    proof (rule snoc.IH)
      show "runs ! i \<noteq> runs ! Suc i" if "Suc i < length runs" for i
        using snoc.prems [of i] that by (simp add: nth_append)
    qed
    moreover have "rev runs = [] \<or> hd (rev runs) \<noteq> c"
      using snoc.prems [of "length runs - 1"] by (cases runs rule: rev_cases) (auto simp: nth_append)
    ultimately show ?case
      using wfc_note_ordered [OF wfc_notes_between] by (simp add: wfc_notes_snoc)
  qed (use init in simp)
  then show ?thesis
    using assms(1) by (cases runs rule: rev_cases) (auto simp: wfc_ordered_def headed_def descending_def)
qed

theorem wfc_list_order_witness:
  "\<exists>R. WFC_List (wfc_notes [3, 5, 3]) = unat (3 :: byte) # R \<and>
     sorted_wrt (\<lambda>a b. CharWeight (wfc_notes [3, 5, 3]) ! b \<le> CharWeight (wfc_notes [3, 5, 3]) ! a) R"
  using wfc_list_order [of "[3, 5, 3]"] by (force simp: less_Suc_eq)

lemma wfc_ari_decodes:
  assumes "length Input \<le> GRZ_MaxBlockSize" "GRZip_WFC_Ari_Encode Input = (n, out)"
  shows "n = GRZ_NOT_COMPRESSIBLE \<or> n = int (length out) \<and>
    GRZip_WFC_Ari_Decode (out @ rest) Size = (if length (remdups_adj Input) \<le> Size then Some Input else None)"
proof -
  have "wfc_ok WFC_Init"
    using wfc_init_between by (auto simp: wfc_ok_def)
  then show ?thesis
    using wfc.coder_roundtrip [of WFC_Init Input n out "Some Size" rest] assms
    by (simp add: runs_fit_def GRZip_WFC_Ari_Encode_def GRZip_WFC_Ari_Decode_def wfc_ranking_def GRZ_MaxBlockSize_def)
qed

text \<open>
  C30: whatever block of at most \<^verbatim>\<open>GRZ_MaxBlockSize\<close> bytes \<^verbatim>\<open>GRZip_WFC_Ari_Encode\<close> accepts, it returns the
  number of bytes it wrote.  From these bytes, whatever comes behind them, \<^verbatim>\<open>GRZip_WFC_Ari_Decode\<close> restores the block
  exactly when its parameter \<^verbatim>\<open>Size\<close>, the size of \<^verbatim>\<open>WFCBuf\<close>, is at least the number of runs of equal bytes in the block; with
  less it runs over the end of that buffer.  \<^verbatim>\<open>GRZip_DecompressBlock\<close> passes the size of the block before it was padded, which
  can be up to seven too few.
\<close>
theorem wfc_ari_roundtrip:
  assumes "length Input \<le> GRZ_MaxBlockSize" "GRZip_WFC_Ari_Encode Input = (n, out)"
  shows "n = GRZ_NOT_COMPRESSIBLE \<or> n = int (length out) \<and>
    GRZip_WFC_Ari_Decode (out @ rest) Size = (if length (remdups_adj Input) \<le> Size then Some Input else None)"
  using assms by (rule wfc_ari_decodes)

theorem wfc_ari_roundtrip_witness:
  "\<exists>n out. GRZip_WFC_Ari_Encode (replicate 40 7) = (n, out) \<and> n \<noteq> GRZ_NOT_COMPRESSIBLE \<and>
     GRZip_WFC_Ari_Decode (out @ [1, 2]) 40 = Some (replicate 40 7) \<and> GRZip_WFC_Ari_Decode (out @ [1, 2]) 0 = None"
proof -
  obtain out where out: "GRZip_WFC_Ari_Encode (replicate 40 7) = (int (length out), out)"
    using ari_encode_run [of 40 wfc_ranking WFC_Init 7] by (auto simp: GRZip_WFC_Ari_Encode_def)
  have "length (replicate 40 7) \<le> GRZ_MaxBlockSize" "remdups_adj (replicate 40 7) = [7 :: byte]"
    by (simp_all add: GRZ_MaxBlockSize_def remdups_adj_replicate)
  then show ?thesis
    using wfc_ari_roundtrip [OF _ out, of "[1, 2]"] out by (auto simp: GRZ_NOT_COMPRESSIBLE_def)
qed

end
