(* ===== verification/Grz_Block.thy ===== *)
theory Grz_Block
  imports Grz_LZP Grz_RecFlt Grz_ST4_Decode Grz_BWT Grz_MTF_Ari Grz_WFC_Ari "HOL-Library.Signed_Division"
begin

text \<open>
  \<^verbatim>\<open>GRZip/C_GRZip.cpp\<close>, the block format: a header of 28 bytes and the block, stored, or split by the
  record filter into blocks of their own, or passed through the LZP preprocessor, one of the two
  sort transforms and one of the two entropy coders.

  A pointer to the input of the compressor is the memory behind it, a map; the input of the
  decompressor is the list of the bytes that can be read there.  The compressor yields its result and the bytes written at
  \<^verbatim>\<open>Output\<close>; the decompressor yields \<^verbatim>\<open>None\<close> where the code would read or write outside its buffers, or
  would take a negative number for a size or a mode, which only a damaged block makes it do.  Allocation succeeds.
  What the model takes from outside is an environment: the content of fresh memory, the size of the memory
  that \<^verbatim>\<open>BigAlloc\<close> gives for a request, the entropy comparison of \<^verbatim>\<open>Grz_RecFlt\<close> and the two sorting functions of \<^verbatim>\<open>Grz_BWT\<close>.
\<close>

record grz_env =
  fresh :: "nat \<Rightarrow> byte"
  BigAlloc :: "nat \<Rightarrow> nat"
  pick :: "nat list \<Rightarrow> nat list list \<Rightarrow> nat list list \<Rightarrow> nat \<Rightarrow> nat"
  strong_sort :: "byte list \<Rightarrow> int \<times> byte list"
  fast_sort :: "byte list \<Rightarrow> nat \<Rightarrow> nat \<Rightarrow> int \<times> byte list"

section \<open>Modes and header fields\<close>

definition GRZ_Disable_DeltaFlt :: int where "GRZ_Disable_DeltaFlt = 1"
definition GRZ_Compression_ST4 :: int where "GRZ_Compression_ST4 = 2"
definition GRZ_Compression_MTF :: int where "GRZ_Compression_MTF = 4"
definition GRZ_BWTSorting_Fast :: int where "GRZ_BWTSorting_Fast = 8"

definition Encode_LZP_MinMatchLen :: "int \<Rightarrow> int" where "Encode_LZP_MinMatchLen Len = Len * 65536"
definition Encode_LZP_HT_Size :: "int \<Rightarrow> int" where "Encode_LZP_HT_Size Size = Size * 256"
definition Get_LZP_MinMatchLen :: "int \<Rightarrow> int" where "Get_LZP_MinMatchLen Mode = (Mode sdiv 65536) smod 32767"
text \<open>The exponent of the hash table; C leaves a shift by 32 or more undefined, and the properties have exponents below 30.\<close>

definition Get_LZP_HT_Size :: "int \<Rightarrow> u32" where "Get_LZP_HT_Size Mode = push_bit (nat ((Mode sdiv 256) smod 256)) 1 - 1"
definition LZP_Enabled :: "int \<Rightarrow> int" where "LZP_Enabled Mode = Mode sdiv 256"
definition Disable_LZP :: "int \<Rightarrow> int" where "Disable_LZP Mode = Mode smod 256"
definition DisableAllButLZP :: "int \<Rightarrow> int" where "DisableAllButLZP Mode = Mode sdiv 256 * 256"

definition RESERVED :: int where "RESERVED = 0"

definition put32 :: "int \<Rightarrow> byte list" where "put32 v = STORE32L (word_of_int v)"
definition get32 :: "byte list \<Rightarrow> nat \<Rightarrow> int" where "get32 Input p = sint (LOAD32L Input p)"

section \<open>Compressing a block\<close>

text \<open>\<^verbatim>\<open>CompressBlock\<close> has written the first field of \<^verbatim>\<open>Output\<close> before.\<close>

definition GRZip_StoreBlock :: "byte list \<Rightarrow> byte list \<Rightarrow> int \<Rightarrow> int \<times> byte list" where
  "GRZip_StoreBlock Input Output Mode =
     (int (length Input) + 28,
      take 4 Output @ put32 (-1) @ put32 (DisableAllButLZP Mode) @ put32 0 @ put32 (int (length Input)) @
      put32 RESERVED @ put32 RESERVED @ Input)"

text \<open>The LZP step: what is left of the mode, and the bytes in \<^verbatim>\<open>LZPBuffer\<close>, whose number becomes the third field.\<close>

definition lzp_step :: "(nat \<Rightarrow> byte) \<Rightarrow> nat \<Rightarrow> int \<Rightarrow> int \<times> byte list" where
  "lzp_step Input Size Mode =
     (if LZP_Enabled Mode \<noteq> 0 then
        let (Result, out) = GRZip_LZP_Encode True Input Size (nat (Get_LZP_MinMatchLen Mode)) (Get_LZP_HT_Size Mode)
        in if Result = GRZ_NOT_COMPRESSIBLE then (Disable_LZP Mode, map Input [0..<Size]) else (Mode, out)
      else (Mode, map Input [0..<Size]))"

text \<open>When sorting or coding fails, the block is stored, preprocessed once more if it can be.\<close>

definition store_instead :: "(nat \<Rightarrow> byte) \<Rightarrow> nat \<Rightarrow> byte list \<Rightarrow> int \<Rightarrow> int \<times> byte list" where
  "store_instead Input SSize Output Mode =
     (if LZP_Enabled Mode \<noteq> 0 then
        let (Result, out) = GRZip_LZP_Encode True Input SSize (nat (Get_LZP_MinMatchLen Mode)) (Get_LZP_HT_Size Mode)
        in GRZip_StoreBlock out Output Mode
      else GRZip_StoreBlock (map Input [0..<SSize]) Output 0)"

text \<open>The transform and the coder that the mode asks for.\<close>

definition sort_step :: "grz_env \<Rightarrow> byte list \<Rightarrow> nat \<Rightarrow> int \<Rightarrow> int \<times> byte list" where
  "sort_step E LZPBuffer Size Mode =
     (if Mode AND GRZ_Compression_ST4 \<noteq> 0
      then let (FBP, out) = GRZip_ST4_Encode (take Size LZPBuffer) (take Size LZPBuffer) in (int FBP, out)
      else GRZip_BWT_Encode (strong_sort E) (fast_sort E) LZPBuffer Size (Mode AND GRZ_BWTSorting_Fast \<noteq> 0))"

definition code_step :: "byte list \<Rightarrow> int \<Rightarrow> int \<times> byte list" where
  "code_step Sorted Mode = (if Mode AND GRZ_Compression_MTF \<noteq> 0 then GRZip_MTF_Ari_Encode Sorted else GRZip_WFC_Ari_Encode Sorted)"

text \<open>The second half of \<^verbatim>\<open>GRZip_CompressBlock\<close>, for a block that is not split.\<close>

definition compress_whole :: "grz_env \<Rightarrow> (nat \<Rightarrow> byte) \<Rightarrow> nat \<Rightarrow> byte list \<Rightarrow> int \<Rightarrow> int \<times> byte list" where
  "compress_whole E Input SSize Output Mode =
     (let (Mode, LZPBuffer) = lzp_step Input SSize Mode;
          used = length LZPBuffer;
          LZPBuffer = LZPBuffer @ replicate 8 0 @ map (fresh E) [used + 8..<SSize + 1024];
          Size = (used + 7) div 8 * 8;
          (FBP, Sorted) = sort_step E LZPBuffer Size Mode
      in if FBP = GRZ_NOT_ENOUGH_MEMORY then store_instead Input SSize Output Mode
         else
           let (Result, out) = code_step Sorted Mode
           in if Result = GRZ_NOT_ENOUGH_MEMORY \<or> Result = GRZ_NOT_COMPRESSIBLE then store_instead Input SSize Output Mode
              else (Result + 28,
                    take 4 Output @ put32 Mode @ put32 (int used) @ put32 FBP @ put32 Result @ put32 RESERVED @ put32 RESERVED @ out))"

text \<open>The parts of a filtered block: two, or four, the last one with what is left over.\<close>

definition part_sizes :: "nat \<Rightarrow> nat \<Rightarrow> nat list" where
  "part_sizes RecMode Size =
     (if RecMode mod 2 = 1 then [Size div 2, Size - Size div 2]
      else [Size div 4, Size div 4, Size div 4, Size - 3 * (Size div 4)])"

text \<open>
  The parts are compressed one behind the other; a negative result of one of them makes the whole
  block a stored one.  A split block leaves the fourth field of its header as the memory was.
\<close>

fun compress_parts :: "((nat \<Rightarrow> byte) \<Rightarrow> nat \<Rightarrow> byte list \<Rightarrow> int \<times> byte list) \<Rightarrow> (nat \<Rightarrow> byte) \<Rightarrow> nat list \<Rightarrow>
    byte list \<Rightarrow> int \<Rightarrow> byte list \<Rightarrow> (int \<times> byte list) option" where
  "compress_parts compress Buffer [] Output NewSize out = Some (NewSize, out)"
| "compress_parts compress Buffer (PartSize # sizes) Output NewSize out =
     (let (Result, part) = compress Buffer PartSize Output
      in if Result < 0 then None
         else compress_parts compress (\<lambda>i. Buffer (PartSize + i)) sizes (drop (nat Result) Output) (NewSize + Result) (out @ part))"

lemma compress_parts_cong [fundef_cong]:
  assumes "\<And>B n Out. n \<in> set sizes \<Longrightarrow> f B n Out = g B n Out" "Buffer = Buffer'" "sizes = sizes'" "Output = Output'" "NewSize = NewSize'" "out = out'"
  shows "compress_parts f Buffer sizes Output NewSize out = compress_parts g Buffer' sizes' Output' NewSize' out'"
  using assms
proof (induction f Buffer sizes Output NewSize out arbitrary: Buffer' sizes' Output' NewSize' out' rule: compress_parts.induct)
  case (2 f Buffer n sizes Output NewSize out)
  then show ?case
    by (auto simp: Let_def split: prod.splits)
qed simp

function GRZip_CompressBlock :: "grz_env \<Rightarrow> (nat \<Rightarrow> byte) \<Rightarrow> nat \<Rightarrow> byte list \<Rightarrow> int \<Rightarrow> int \<times> byte list" where
  "GRZip_CompressBlock E Input Size Output Mode =
     (let Output = put32 (int Size) @ drop 4 Output;
          store = GRZip_StoreBlock (map Input [0..<Size]) Output 0
      in if Size < 32 \<or> Size > GRZ_MaxBlockSize then store
         else
           let Mode = (if Size < 1024 then Mode OR GRZ_Compression_ST4 else Mode)
           in if Size > 1024 \<and> Mode AND GRZ_Disable_DeltaFlt = 0 then
                let RecMode = GRZip_Rec_Test (pick E) (map Input [0..<Size])
                in if RecMode \<noteq> 0 then
                     let Buffer = GRZip_Rec_Encode (map Input [0..<Size]) Size (map (fresh E) [0..<Size + 1024]) RecMode;
                         Mode = Mode + GRZ_Disable_DeltaFlt
                     in case compress_parts (\<lambda>B n Out. GRZip_CompressBlock E B n Out Mode) ((!) Buffer) (part_sizes RecMode Size) (drop 28 Output) 0 [] of
                          None \<Rightarrow> store
                        | Some (NewSize, out) \<Rightarrow>
                            if NewSize \<ge> int Size then store
                            else (NewSize + 28,
                                  take 4 Output @ put32 (-2) @ put32 (int RecMode) @ take 4 (drop 12 Output) @ put32 NewSize @
                                  put32 RESERVED @ put32 RESERVED @ out)
                   else compress_whole E Input Size Output Mode
              else compress_whole E Input Size Output Mode)"
  by pat_completeness auto

termination
  by (relation "measure (\<lambda>(E, Input, Size, Output, Mode). if even Mode then 1 else 0)")
    (auto simp: and_one_eq GRZ_Disable_DeltaFlt_def GRZ_Compression_ST4_def even_or_iff split: if_splits)

declare GRZip_CompressBlock.simps [simp del]

section \<open>Decompressing a block\<close>

definition GRZip_CheckBlockSign :: "byte list \<Rightarrow> int \<Rightarrow> int" where
  "GRZip_CheckBlockSign Input Size =
     (if Size < 28 then GRZ_UNEXPECTED_EOF
      else if get32 Input 24 \<noteq> RESERVED then GRZ_CRC_ERROR
      else GRZ_NO_ERROR)"

text \<open>
  The WFC decoder is told the size of the block before it was padded, and asks for a buffer of this size;
  what it can write to is what \<^verbatim>\<open>BigAlloc\<close> gives for it.
\<close>

definition decode_step :: "grz_env \<Rightarrow> byte list \<Rightarrow> nat \<Rightarrow> int \<Rightarrow> byte list option" where
  "decode_step E Data TSize Mode =
     (if Mode AND GRZ_Compression_MTF \<noteq> 0 then GRZip_MTF_Ari_Decode Data else GRZip_WFC_Ari_Decode Data (BigAlloc E TSize))"

definition unsort_step :: "u32 \<Rightarrow> byte list \<Rightarrow> int \<Rightarrow> int \<Rightarrow> byte list option" where
  "unsort_step gap LZPBuffer FBP Mode =
     (if Mode AND GRZ_Compression_ST4 \<noteq> 0
      then if FBP < 0 then None else GRZip_ST4_Decode LZPBuffer (nat FBP)
      else GRZip_BWT_Decode gap LZPBuffer FBP)"

definition decompress_whole :: "grz_env \<Rightarrow> byte list \<Rightarrow> int \<Rightarrow> (int \<times> byte list) option" where
  "decompress_whole E Input Mode =
     (let TSize = get32 Input 8; Data = drop 28 Input; FBP = get32 Input 12
      in if TSize < 0 then None
         else case decode_step E Data (nat TSize) Mode of
           None \<Rightarrow> None
         | Some LZPBuffer \<Rightarrow>
             if length LZPBuffer > nat TSize + 1024 then None
             else if get32 Input 16 = GRZ_NOT_ENOUGH_MEMORY then Some (GRZ_NOT_ENOUGH_MEMORY, [])
             else case unsort_step (LOAD32L (map (fresh E) [0..<4]) 0) LZPBuffer FBP Mode of
               None \<Rightarrow> None
             | Some LZPBuffer \<Rightarrow>
                 if nat TSize > length LZPBuffer then None
                 else if LZP_Enabled Mode \<noteq> 0
                 then map_option (\<lambda>(Result, out). (get32 Input 0, out))
                        (GRZip_LZP_Decode True (take (nat TSize) LZPBuffer) (nat (Get_LZP_MinMatchLen Mode)) (Get_LZP_HT_Size Mode))
                 else Some (get32 Input 0, take (nat TSize) LZPBuffer))"

text \<open>
  The parts of a split block are read one behind the other into \<^verbatim>\<open>Buffer\<close>; each is told the size its own
  header gives.  A negative result of a part is the result of the whole.
\<close>

fun decompress_parts :: "(byte list \<Rightarrow> int \<Rightarrow> (int \<times> byte list) option) \<Rightarrow> nat \<Rightarrow> byte list \<Rightarrow> byte list \<Rightarrow> nat \<Rightarrow> (int + byte list) option" where
  "decompress_parts decompress 0 Tmp Buffer OutputPos = Some (Inr Buffer)"
| "decompress_parts decompress (Suc k) Tmp Buffer OutputPos =
     (if length Tmp < 20 then None
      else
        let Size = get32 Tmp 16 + 28
        in case decompress Tmp Size of
          None \<Rightarrow> None
        | Some (Result, out) \<Rightarrow>
            if Result < 0 then Some (Inl Result)
            else if OutputPos + length out > length Buffer then None
            else decompress_parts decompress k (drop (nat Size) Tmp)
                   (take OutputPos Buffer @ out @ drop (OutputPos + length out) Buffer) (OutputPos + nat Result))"

lemma decompress_parts_cong [fundef_cong]:
  assumes "\<And>T n. length T \<le> length Tmp \<Longrightarrow> f T n = g T n" "k = k'" "Tmp = Tmp'" "Buffer = Buffer'" "OutputPos = OutputPos'"
  shows "decompress_parts f k Tmp Buffer OutputPos = decompress_parts g k' Tmp' Buffer' OutputPos'"
  using assms
proof (induction f k Tmp Buffer OutputPos arbitrary: k' Tmp' Buffer' OutputPos' rule: decompress_parts.induct)
  case (2 f k Tmp Buffer p)
  then show ?case
    by (auto simp: Let_def split: option.splits)
qed simp

function GRZip_DecompressBlock :: "grz_env \<Rightarrow> byte list \<Rightarrow> int \<Rightarrow> (int \<times> byte list) option" where
  "GRZip_DecompressBlock E Input Size =
     (if Size < 28 then Some (GRZ_UNEXPECTED_EOF, [])
      else if length Input < 28 then None
      else if get32 Input 24 \<noteq> RESERVED then Some (GRZ_CRC_ERROR, [])
      else if get32 Input 16 + 28 > Size then Some (GRZ_UNEXPECTED_EOF, [])
      else if get32 Input 20 \<noteq> RESERVED then Some (GRZ_CRC_ERROR, [])
      else
        let Mode = get32 Input 4; Result = get32 Input 16; Data = drop 28 Input
        in if Mode = -1 then
             let Mode = get32 Input 8
             in if Result < 0 \<or> nat Result > length Data then None
                else if Mode = 0 then Some (Result, take (nat Result) Data)
                else if Mode < 0 then None
                else GRZip_LZP_Decode True (take (nat Result) Data) (nat (Get_LZP_MinMatchLen Mode)) (Get_LZP_HT_Size Mode)
           else if Mode = -2 then
             let RecMode = get32 Input 8; Size = get32 Input 0
             in if Size < 0 then None
                else case decompress_parts (GRZip_DecompressBlock E) (if RecMode AND 1 = 1 then 2 else 4) Data (map (fresh E) [0..<nat Size + 1024]) 0 of
                  None \<Rightarrow> None
                | Some (Inl Result) \<Rightarrow> Some (Result, [])
                | Some (Inr Buffer) \<Rightarrow>
                    Some (Size, GRZip_Rec_Decode Buffer (nat Size) (map (fresh E) [0..<nat Size]) (nat RecMode))
           else if Mode < 0 then None
           else decompress_whole E Input Mode)"
  by pat_completeness auto
termination
  by (relation "measure (\<lambda>(E, Input, Size). length Input)") auto

declare GRZip_DecompressBlock.simps [simp del] decompress_parts.simps [simp del]

section \<open>Header fields and modes\<close>

lemma length_put32 [simp]: "length (put32 v) = 4"
  by (simp add: put32_def)

definition fits :: "int \<Rightarrow> bool" where "fits v \<longleftrightarrow> - (2 ^ 31) \<le> v \<and> v < 2 ^ 31"

lemma get32_put32:
  assumes "length xs = p" "fits v"
  shows "get32 (xs @ put32 v @ ys) p = v"
proof -
  have "sint (word_of_int v :: u32) = v"
    using assms(2) by (simp add: int_word_sint fits_def)
  then show ?thesis
    using assms(1) by (simp add: get32_def put32_def LOAD32L_STORE32L)
qed

definition header :: "byte list \<Rightarrow> int \<Rightarrow> int \<Rightarrow> byte list \<Rightarrow> int \<Rightarrow> byte list \<Rightarrow> byte list" where
  "header h b c d e out = h @ put32 b @ put32 c @ d @ put32 e @ put32 RESERVED @ put32 RESERVED @ out"

lemma header_append: "header h b c d e out @ rest = header h b c d e (out @ rest)"
  by (simp add: header_def)

lemma header_length: "length h = 4 \<Longrightarrow> length d = 4 \<Longrightarrow> length (header h b c d e out) = 28 + length out"
  by (simp add: header_def)

lemma header_fields:
  assumes "length h = 4" "fits b" "fits c" "fits e" "length d = 4"
  shows "get32 (header h b c d e out) 4 = b" "get32 (header h b c d e out) 8 = c" "get32 (header h b c d e out) 16 = e"
    "get32 (header h b c d e out) 20 = RESERVED" "get32 (header h b c d e out) 24 = RESERVED" "drop 28 (header h b c d e out) = out"
proof -
  have r: "fits RESERVED"
    by (simp add: RESERVED_def fits_def)
  show "get32 (header h b c d e out) 4 = b"
    using get32_put32 [of h 4 b "put32 c @ d @ put32 e @ put32 RESERVED @ put32 RESERVED @ out"] assms by (simp add: header_def)
  show "get32 (header h b c d e out) 8 = c"
    using get32_put32 [of "h @ put32 b" 8 c "d @ put32 e @ put32 RESERVED @ put32 RESERVED @ out"] assms by (simp add: header_def)
  show "get32 (header h b c d e out) 16 = e"
    using get32_put32 [of "h @ put32 b @ put32 c @ d" 16 e "put32 RESERVED @ put32 RESERVED @ out"] assms by (simp add: header_def)
  show "get32 (header h b c d e out) 20 = RESERVED"
    using get32_put32 [of "h @ put32 b @ put32 c @ d @ put32 e" 20 RESERVED "put32 RESERVED @ out"] assms r by (simp add: header_def)
  show "get32 (header h b c d e out) 24 = RESERVED"
    using get32_put32 [of "h @ put32 b @ put32 c @ d @ put32 e @ put32 RESERVED" 24 RESERVED out] assms r by (simp add: header_def)
  show "drop 28 (header h b c d e out) = out"
    using assms by (simp add: header_def)
qed

lemma header_first: "fits v \<Longrightarrow> get32 (header (put32 v) b c d e out) 0 = v"
  unfolding header_def using get32_put32 [of "[]" 0 v] by simp

lemma header_fourth: "length h = 4 \<Longrightarrow> fits v \<Longrightarrow> get32 (header h b c (put32 v) e out) 12 = v"
  unfolding header_def using get32_put32 [of "h @ put32 b @ put32 c" 12 v] by simp

lemma sdiv_nonneg: "0 \<le> (k :: int) \<Longrightarrow> 0 < m \<Longrightarrow> k sdiv m = k div m" "0 \<le> k \<Longrightarrow> 0 < m \<Longrightarrow> k smod m = k mod m"
  by (cases "k = 0"; simp add: signed_divide_int_def signed_modulo_int_def)+

text \<open>A mode the compressor is called with, and what is left when LZP is switched off or nothing else is kept.\<close>

definition mode_ok :: "int \<Rightarrow> bool" where "mode_ok Mode \<longleftrightarrow> 0 \<le> Mode \<and> Mode < 2 ^ 31"

lemma mode_parts:
  assumes "mode_ok Mode"
  shows "mode_ok (Disable_LZP Mode)" "LZP_Enabled (Disable_LZP Mode) = 0"
    "mode_ok (DisableAllButLZP Mode)" "Get_LZP_MinMatchLen (DisableAllButLZP Mode) = Get_LZP_MinMatchLen Mode"
    "Get_LZP_HT_Size (DisableAllButLZP Mode) = Get_LZP_HT_Size Mode" "DisableAllButLZP Mode = 0 \<longleftrightarrow> LZP_Enabled Mode = 0"
    "nat (Get_LZP_MinMatchLen Mode) < 2 ^ 31"
proof -
  have m: "0 \<le> Mode" "Mode < 2 ^ 31"
    using assms by (simp_all add: mode_ok_def)
  then have d: "0 \<le> Mode div 256" "0 \<le> Mode mod 256" "Mode mod 256 < 256" "Mode div 256 * 256 \<le> Mode" "0 \<le> Mode div 65536"
    by (simp_all add: pos_imp_zdiv_nonneg_iff)
  show "mode_ok (Disable_LZP Mode)" "LZP_Enabled (Disable_LZP Mode) = 0"
    using m d by (simp_all add: mode_ok_def Disable_LZP_def LZP_Enabled_def sdiv_nonneg)
  show "mode_ok (DisableAllButLZP Mode)" "DisableAllButLZP Mode = 0 \<longleftrightarrow> LZP_Enabled Mode = 0"
    using m d by (simp_all add: mode_ok_def DisableAllButLZP_def LZP_Enabled_def sdiv_nonneg)
  have "Mode div 256 * 256 div 65536 = Mode div 65536"
    using zdiv_zmult2_eq [of 256 "Mode div 256 * 256" 256] zdiv_zmult2_eq [of 256 Mode 256] by simp
  then show "Get_LZP_MinMatchLen (DisableAllButLZP Mode) = Get_LZP_MinMatchLen Mode"
    using m d by (simp add: Get_LZP_MinMatchLen_def DisableAllButLZP_def sdiv_nonneg)
  show "Get_LZP_HT_Size (DisableAllButLZP Mode) = Get_LZP_HT_Size Mode"
    using m d by (simp add: Get_LZP_HT_Size_def DisableAllButLZP_def sdiv_nonneg)
  have "Mode div 65536 mod 32767 < 32767"
    by simp
  then show "nat (Get_LZP_MinMatchLen Mode) < 2 ^ 31"
    using m d by (simp add: Get_LZP_MinMatchLen_def sdiv_nonneg)
qed

section \<open>Stored blocks\<close>

text \<open>The bits of a mode that choose the transform and the coder.\<close>

lemma mode_bits: "Mode AND GRZ_Compression_ST4 \<noteq> 0 \<longleftrightarrow> bit Mode 1" "Mode AND GRZ_Compression_MTF \<noteq> 0 \<longleftrightarrow> bit Mode 2" for Mode :: int
proof -
  have "GRZ_Compression_ST4 = 2 ^ 1" "GRZ_Compression_MTF = 2 ^ 2"
    by (simp_all add: GRZ_Compression_ST4_def GRZ_Compression_MTF_def)
  then show "Mode AND GRZ_Compression_ST4 \<noteq> 0 \<longleftrightarrow> bit Mode 1" "Mode AND GRZ_Compression_MTF \<noteq> 0 \<longleftrightarrow> bit Mode 2"
    using and_exp_eq_0_iff_not_bit [of Mode 1] and_exp_eq_0_iff_not_bit [of Mode 2] by metis+
qed

lemma mode_bits_kept:
  "bit (Mode OR GRZ_Compression_ST4) 1" "bit (Mode OR GRZ_Compression_ST4) 2 \<longleftrightarrow> bit Mode 2"
  "even Mode \<Longrightarrow> 0 < k \<Longrightarrow> bit (Mode + GRZ_Disable_DeltaFlt) k \<longleftrightarrow> bit Mode k"
  "mode_ok Mode \<Longrightarrow> k < 8 \<Longrightarrow> bit (Disable_LZP Mode) k \<longleftrightarrow> bit Mode k"
proof -
  have st4: "GRZ_Compression_ST4 = 2 ^ 1"
    by (simp add: GRZ_Compression_ST4_def)
  show "bit (Mode OR GRZ_Compression_ST4) 1" "bit (Mode OR GRZ_Compression_ST4) 2 \<longleftrightarrow> bit Mode 2"
    unfolding st4 by (simp_all add: bit_or_iff bit_exp_iff)
  show "bit (Mode + GRZ_Disable_DeltaFlt) k \<longleftrightarrow> bit Mode k" if "even Mode" "0 < k"
    using that by (cases k) (simp_all add: GRZ_Disable_DeltaFlt_def bit_Suc)
  show "bit (Disable_LZP Mode) k \<longleftrightarrow> bit Mode k" if "mode_ok Mode" "k < 8"
  proof -
    have "Disable_LZP Mode = take_bit 8 Mode"
      using that(1) by (simp add: Disable_LZP_def mode_ok_def sdiv_nonneg take_bit_eq_mod)
    then show ?thesis
      using that(2) by (simp add: bit_take_bit_iff)
  qed
qed

text \<open>
  The padded block has up to seven bytes more than the WFC decoder asks room for.  It has it all the same when
  memory comes in units of eight bytes.
\<close>

definition wfc_room :: "int \<Rightarrow> grz_env \<Rightarrow> bool" where
  "wfc_room Mode E \<longleftrightarrow> Mode AND GRZ_Compression_MTF \<noteq> 0 \<or> (\<forall>n. (n + 7) div 8 * 8 \<le> BigAlloc E n)"

lemma wfc_room_mode: "(bit M 2 \<longleftrightarrow> bit Mode 2) \<Longrightarrow> wfc_room M = wfc_room Mode"
  by (simp add: wfc_room_def fun_eq_iff mode_bits)

text \<open>What it means that a compressed block is one of \<^verbatim>\<open>x\<close>, for every environment of the decompressor with a property.\<close>

definition is_block :: "(grz_env \<Rightarrow> bool) \<Rightarrow> byte list \<Rightarrow> int \<times> byte list \<Rightarrow> bool" where
  "is_block P x b \<longleftrightarrow> fst b = int (length (snd b)) \<and> 28 \<le> fst b \<and>
     (\<forall>rest. get32 (snd b @ rest) 16 = fst b - 28 \<and>
       (\<forall>E. P E \<longrightarrow> GRZip_DecompressBlock E (snd b @ rest) (fst b) = Some (int (length x), x)))"

lemma stored_block:
  assumes "4 \<le> length Output" "length x < 2 ^ 31"
  shows "is_block P x (GRZip_StoreBlock x Output 0)"
proof -
  have Z: "DisableAllButLZP 0 = 0"
    by (simp add: DisableAllButLZP_def signed_divide_int_def)
  define h where "h = take 4 Output"
  have h: "length h = 4" "fits (-1)" "fits 0" "fits (int (length x))" "length (put32 0) = 4"
    using assms by (simp_all add: h_def fits_def)
  have S: "GRZip_StoreBlock x Output 0 = (int (length x) + 28, header h (-1) 0 (put32 0) (int (length x)) x)"
    by (simp add: GRZip_StoreBlock_def Z header_def h_def)
  show ?thesis
    unfolding S is_block_def fst_conv snd_conv header_append
    by (simp add: header_fields [OF h] header_length [OF h(1,5)] GRZip_DecompressBlock.simps)
qed

lemma stored_lzp_block:
  assumes "4 \<le> length Output" "length data < 2 ^ 31" "mode_ok Mode" "LZP_Enabled Mode \<noteq> 0"
    "GRZip_LZP_Decode True data (nat (Get_LZP_MinMatchLen Mode)) (Get_LZP_HT_Size Mode) = Some (int (length x), x)"
  shows "is_block P x (GRZip_StoreBlock data Output Mode)"
proof -
  let ?M = "DisableAllButLZP Mode"
  define h where "h = take 4 Output"
  note m = mode_parts [OF assms(3)]
  have M: "0 < ?M" "fits ?M"
    using m(3,6) assms(4) by (auto simp: mode_ok_def fits_def less_le)
  have h: "length h = 4" "fits (-1)" "fits ?M" "fits (int (length data))" "length (put32 0) = 4"
    using assms M(2) by (simp_all add: h_def fits_def)
  have S: "GRZip_StoreBlock data Output Mode = (int (length data) + 28, header h (-1) ?M (put32 0) (int (length data)) data)"
    by (simp add: GRZip_StoreBlock_def header_def h_def)
  show ?thesis
    unfolding S is_block_def fst_conv snd_conv header_append
    using M(1) assms(5) by (simp add: header_fields [OF h] header_length [OF h(1,5)] GRZip_DecompressBlock.simps m(4,5))
qed

section \<open>The stages\<close>

lemma lzp_step_spec:
  assumes "lzp_step Input Size Mode = (Mode', data)" "mode_ok Mode" "4 \<le> Size" "Size < 2 ^ 31"
  defines "x \<equiv> map Input [0..<Size]"
  shows "mode_ok Mode'" "4 \<le> length data" "length data \<le> Size" "k < 8 \<Longrightarrow> bit Mode' k \<longleftrightarrow> bit Mode k"
    and "LZP_Enabled Mode' = 0 \<Longrightarrow> data = x"
    and "LZP_Enabled Mode' \<noteq> 0 \<Longrightarrow>
      GRZip_LZP_Encode True Input Size (nat (Get_LZP_MinMatchLen Mode')) (Get_LZP_HT_Size Mode') = (int (length data), data) \<and>
      GRZip_LZP_Decode True data (nat (Get_LZP_MinMatchLen Mode')) (Get_LZP_HT_Size Mode') = Some (int Size, x)"
proof -
  note m = mode_parts [OF assms(2)]
  obtain r out where e: "GRZip_LZP_Encode True Input Size (nat (Get_LZP_MinMatchLen Mode)) (Get_LZP_HT_Size Mode) = (r, out)"
    by fastforce
  note b = lzp_bounds [OF e assms(3)]
  consider "LZP_Enabled Mode = 0 \<or> r = GRZ_NOT_COMPRESSIBLE" | "LZP_Enabled Mode \<noteq> 0" "r \<noteq> GRZ_NOT_COMPRESSIBLE"
    by blast
  then have "mode_ok Mode' \<and> 4 \<le> length data \<and> length data \<le> Size \<and> (k < 8 \<longrightarrow> bit Mode' k = bit Mode k) \<and> (LZP_Enabled Mode' = 0 \<longrightarrow> data = x) \<and>
    (LZP_Enabled Mode' \<noteq> 0 \<longrightarrow>
      GRZip_LZP_Encode True Input Size (nat (Get_LZP_MinMatchLen Mode')) (Get_LZP_HT_Size Mode') = (int (length data), data) \<and>
      GRZip_LZP_Decode True data (nat (Get_LZP_MinMatchLen Mode')) (Get_LZP_HT_Size Mode') = Some (int Size, x))"
  proof cases
    case 1
    then have "data = x" "Mode' = Mode \<and> LZP_Enabled Mode = 0 \<or> Mode' = Disable_LZP Mode"
      using assms(1) e unfolding lzp_step_def x_def by (auto split: if_splits)
    then show ?thesis
      using assms(2,3) m(1,2) mode_bits_kept(4) [OF assms(2), of k] by (auto simp: x_def)
  next
    case 2
    then have d: "data = out" "Mode' = Mode" "r = int (length out)"
      using assms(1) e b unfolding lzp_step_def by (auto split: if_splits)
    have dec: "GRZip_LZP_Decode True data (nat (Get_LZP_MinMatchLen Mode)) (Get_LZP_HT_Size Mode) = Some (int Size, x)"
      unfolding x_def d(1) using d(3) by (intro lzp_decodes [OF e _ assms(4) m(7)]) simp
    then have "4 \<le> length data"
      by (auto simp: GRZip_LZP_Decode_def split: if_splits)
    then show ?thesis
      using assms(2) b d e dec 2(1) by simp
  qed
  then show "mode_ok Mode'" "4 \<le> length data" "length data \<le> Size" "k < 8 \<Longrightarrow> bit Mode' k \<longleftrightarrow> bit Mode k" "LZP_Enabled Mode' = 0 \<Longrightarrow> data = x"
    "LZP_Enabled Mode' \<noteq> 0 \<Longrightarrow>
      GRZip_LZP_Encode True Input Size (nat (Get_LZP_MinMatchLen Mode')) (Get_LZP_HT_Size Mode') = (int (length data), data) \<and>
      GRZip_LZP_Decode True data (nat (Get_LZP_MinMatchLen Mode')) (Get_LZP_HT_Size Mode') = Some (int Size, x)"
    by blast+
qed

lemma stored_instead:
  assumes "lzp_step Input Size Mode = (Mode', data)" "mode_ok Mode" "4 \<le> Size" "Size < 2 ^ 31" "4 \<le> length Output"
  shows "is_block P (map Input [0..<Size]) (store_instead Input Size Output Mode')"
proof (cases "LZP_Enabled Mode' = 0")
  case True
  then show ?thesis
    using assms by (simp add: store_instead_def stored_block)
next
  case False
  note l = lzp_step_spec [OF assms(1-4)]
  have "is_block P (map Input [0..<Size]) (GRZip_StoreBlock data Output Mode')"
    using l False assms(4,5) by (intro stored_lzp_block) simp_all
  then show ?thesis
    using False l(6) by (simp add: store_instead_def)
qed

text \<open>Sorting: whichever transform the mode asks for, with the length of the block and a number that fits its field.\<close>

definition sorters_ok :: "grz_env \<Rightarrow> int \<Rightarrow> bool" where
  "sorters_ok E Mode \<longleftrightarrow> bit Mode 1 \<or> strong_sorts (strong_sort E) \<and> fast_sorts (fast_sort E)"

definition pick_ok :: "grz_env \<Rightarrow> bool" where
  "pick_ok E \<longleftrightarrow> (\<forall>a b c n. pick E a b c n \<le> 2)"

lemma sort_step_spec:
  assumes "sorters_ok E Mode" "sort_step E L Size Mode = (FBP, Sorted)" "5 \<le> Size" "Size \<le> GRZ_MaxBlockSize"
    "Size + FastBWT_NumOverShoot + 4 \<le> length L" "FBP \<noteq> GRZ_NOT_ENOUGH_MEMORY" "8 dvd Size"
  shows "length Sorted = Size" "fits FBP" "unsort_step gap Sorted FBP Mode = Some (take Size L)"
proof -
  have "length Sorted = Size \<and> fits FBP \<and> unsort_step gap Sorted FBP Mode = Some (take Size L)"
  proof (cases "Mode AND GRZ_Compression_ST4 = 0")
    case True
    then show ?thesis
      using bwt_decodes [of "strong_sort E" "fast_sort E" Size L "Mode AND GRZ_BWTSorting_Fast \<noteq> 0" FBP Sorted gap] assms mode_bits(1) [of Mode]
      by (auto simp: sort_step_def unsort_step_def sorters_ok_def fits_def)
  next
    case False
    obtain F where F: "GRZip_ST4_Encode (take Size L) (take Size L) = (F, Sorted)" "FBP = int F"
      using assms(2) False by (auto simp: sort_step_def split: prod.splits)
    have n: "length (take Size L) = Size"
      using assms(5) by simp
    obtain F' where "GRZip_ST4_Encode (take Size L) (take Size L) = (F', map ((!) (take Size L)) (st_order (take Size L)))" "F' < Size"
      using st4_encode_spec [of "take Size L" "take Size L", unfolded n] assms(3) by blast
    then have "F < Size"
      using F(1) by simp
    moreover have "length Sorted = length (take Size L) \<and> GRZip_ST4_Decode Sorted F = Some (take Size L)"
      using assms(3,4) n by (intro st4_decodes [OF _ _ _ F(1)]) simp_all
    ultimately show ?thesis
      using False F(2) n assms(4) by (simp add: unsort_step_def fits_def GRZ_MaxBlockSize_def)
  qed
  then show "length Sorted = Size" "fits FBP" "unsort_step gap Sorted FBP Mode = Some (take Size L)"
    by simp_all
qed

lemma code_step_spec:
  assumes "length Sorted \<le> GRZ_MaxBlockSize" "code_step Sorted Mode = (Result, out)" "Result \<noteq> GRZ_NOT_COMPRESSIBLE"
  shows "Result = int (length out)"
    "wfc_room Mode E \<Longrightarrow> length Sorted = (used + 7) div 8 * 8 \<Longrightarrow> decode_step E (out @ rest) used Mode = Some Sorted"
proof -
  have "length (remdups_adj Sorted) \<le> BigAlloc E used"
    if "\<forall>n. (n + 7) div 8 * 8 \<le> BigAlloc E n" "length Sorted = (used + 7) div 8 * 8"
    using that remdups_adj_length [of Sorted] by (metis order_trans)
  then show "Result = int (length out)"
    "wfc_room Mode E \<Longrightarrow> length Sorted = (used + 7) div 8 * 8 \<Longrightarrow> decode_step E (out @ rest) used Mode = Some Sorted"
    using assms mtf_ari_decodes [OF assms(1), of Result out rest] wfc_ari_decodes [OF assms(1), of Result out rest "BigAlloc E used"]
    by (auto simp: code_step_def decode_step_def wfc_room_def split: if_splits)
qed

section \<open>Blocks are restored\<close>

lemma whole_block:
  assumes "sorters_ok E Mode" "mode_ok Mode" "32 \<le> SSize" "SSize \<le> GRZ_MaxBlockSize"
    "compress_whole E Input SSize (put32 (int SSize) @ old) Mode = (n, out)" "n < 2 ^ 31"
  shows "is_block (wfc_room Mode) (map Input [0..<SSize]) (n, out)"
proof -
  let ?x = "map Input [0..<SSize]" and ?Output = "put32 (int SSize) @ old"
  obtain M data where l: "lzp_step Input SSize Mode = (M, data)"
    by fastforce
  have s: "4 \<le> SSize" "SSize < 2 ^ 31"
    using assms(3,4) by (simp_all add: GRZ_MaxBlockSize_def)
  note L = lzp_step_spec [OF l assms(2) s]
  define used where "used = length data"
  define Size where "Size = (used + 7) div 8 * 8"
  define B where "B = data @ replicate 8 0 @ map (fresh E) [used + 8..<SSize + 1024]"
  obtain FBP Sorted where so: "sort_step E B Size M = (FBP, Sorted)"
    by fastforce
  obtain Result out' where co: "code_step Sorted M = (Result, out')"
    by fastforce
  have M: "sorters_ok E M" "wfc_room M = wfc_room Mode"
    using assms(1) L(4) [of 1] L(4) [of 2] wfc_room_mode [of M Mode] by (simp_all add: sorters_ok_def)
  have store: "is_block (wfc_room Mode) ?x (store_instead Input SSize ?Output M)"
    using l assms(2) s by (intro stored_instead) simp_all
  have "(used + 7) div 8 \<le> 1048512"
    using L(3) assms(4) by (simp add: used_def GRZ_MaxBlockSize_def)
  moreover have "1 \<le> (used + 7) div 8"
    using L(2) div_le_mono [of 8 "used + 7" 8] by (simp add: used_def)
  ultimately have sz: "used \<le> Size" "Size \<le> used + 7" "Size \<le> GRZ_MaxBlockSize" "5 \<le> Size"
    using L(2) unfolding Size_def GRZ_MaxBlockSize_def used_def by linarith+
  have lenB: "Size + FastBWT_NumOverShoot + 4 \<le> length B"
    using sz L(3) by (simp add: B_def used_def FastBWT_NumOverShoot_def)
  have data: "take used B = data"
    by (simp add: B_def used_def)
  have eq: "compress_whole E Input SSize ?Output Mode =
    (if FBP = GRZ_NOT_ENOUGH_MEMORY then store_instead Input SSize ?Output M
     else if Result = GRZ_NOT_ENOUGH_MEMORY \<or> Result = GRZ_NOT_COMPRESSIBLE then store_instead Input SSize ?Output M
     else (Result + 28, header (put32 (int SSize)) M (int used) (put32 FBP) Result out'))"
    unfolding compress_whole_def l Let_def split_conv used_def [symmetric] B_def [symmetric] Size_def [symmetric] so co
    by (simp add: header_def)
  show ?thesis
  proof (cases "FBP = GRZ_NOT_ENOUGH_MEMORY \<or> Result = GRZ_NOT_ENOUGH_MEMORY \<or> Result = GRZ_NOT_COMPRESSIBLE")
    case True
    then show ?thesis
      using store eq assms(5) by (auto split: if_splits)
  next
    case False
    then have n: "n = Result + 28" "out = header (put32 (int SSize)) M (int used) (put32 FBP) Result out'"
      using eq assms(5) by simp_all
    have F: "FBP \<noteq> GRZ_NOT_ENOUGH_MEMORY"
      using False by simp
    have "8 dvd Size"
      by (simp add: Size_def)
    note S = sort_step_spec [OF M(1) so sz(4,3) lenB F this]
    have "length Sorted \<le> GRZ_MaxBlockSize"
      using S(1) sz(3) by simp
    note C = code_step_spec [OF this co]
    have R: "Result = int (length out')" "wfc_room M D \<Longrightarrow> decode_step D (out' @ rest) used M = Some Sorted" for rest D
      using C(1) C(2) [of D used rest] False S(1) by (simp_all add: Size_def)
    have f: "length (put32 (int SSize)) = 4" "fits M" "fits (int used)" "fits Result" "length (put32 FBP) = 4" "fits (int SSize)"
      using L(1,3) s n(1) R(1) assms(6) by (simp_all add: fits_def mode_ok_def used_def)
    note H = header_fields [OF f(1-5)] header_first [OF f(6)] header_fourth [OF f(1) S(2)] header_length [OF f(1,5)]
    have "0 \<le> Result"
      using R(1) by simp
    have M': "0 \<le> M" "Result \<noteq> GRZ_NOT_ENOUGH_MEMORY"
      using L(1) False by (simp_all add: mode_ok_def)
    have "decompress_whole D (header (put32 (int SSize)) M (int used) (put32 FBP) Result (out' @ rest)) M = Some (int SSize, ?x)"
      if "wfc_room M D" for D rest
      using L(5,6) sz lenB data unfolding decompress_whole_def Let_def H
      by (simp add: R(2) [OF that] S M'(2) min_absorb1)
    then have "GRZip_DecompressBlock D (header (put32 (int SSize)) M (int used) (put32 FBP) Result (out' @ rest)) (Result + 28) =
        Some (int (length ?x), ?x)" if "wfc_room M D" for D rest
      using M'(1) \<open>0 \<le> Result\<close> that by (subst GRZip_DecompressBlock.simps) (simp add: H Let_def)
    then show ?thesis
      unfolding is_block_def n fst_conv snd_conv header_append H M(2) [symmetric] by (simp add: R(1))
  qed
qed

lemma compress_parts_mono: "compress_parts f B sizes Out s out = Some (s', out') \<Longrightarrow> s \<le> s'"
proof (induction f B sizes Out s out arbitrary: s' out' rule: compress_parts.induct)
  case (2 f B n sizes Out s out)
  obtain r part where f: "f B n Out = (r, part)"
    by fastforce
  then have "0 \<le> r" "compress_parts f (\<lambda>i. B (n + i)) sizes (drop (nat r) Out) (s + r) (out @ part) = Some (s', out')"
    using "2.prems" by (auto split: if_splits)
  then show ?case
    using "2.IH" [OF f [symmetric] refl] by fastforce
qed simp

lemma parts_restored:
  assumes "compress_parts f B sizes Out s out = Some (s', out')" "s = int (length out)" "s' < 2 ^ 31"
    "\<And>B n Out r part. n \<in> set sizes \<Longrightarrow> f B n Out = (r, part) \<Longrightarrow> r < 2 ^ 31 \<Longrightarrow> is_block P (map B [0..<n]) (r, part)"
  shows "s' = int (length out') \<and> (\<exists>blocks. out' = out @ blocks \<and>
    (\<forall>E rest Buf p. P E \<longrightarrow> p + sum_list sizes \<le> length Buf \<longrightarrow>
       decompress_parts (GRZip_DecompressBlock E) (length sizes) (blocks @ rest) Buf p =
         Some (Inr (take p Buf @ map B [0..<sum_list sizes] @ drop (p + sum_list sizes) Buf))))"
  using assms
proof (induction f B sizes Out s out arbitrary: s' out' rule: compress_parts.induct)
  case (1 f B Out s out)
  then show ?case
    by (auto simp: decompress_parts.simps)
next
  case (2 f B n sizes Out s out)
  obtain r part where f: "f B n Out = (r, part)"
    by fastforce
  have r: "0 \<le> r" and c: "compress_parts f (\<lambda>i. B (n + i)) sizes (drop (nat r) Out) (s + r) (out @ part) = Some (s', out')"
    using "2.prems"(1) f by (auto split: if_splits)
  have "s + r \<le> s'"
    by (rule compress_parts_mono [OF c])
  then have "r < 2 ^ 31"
    using "2.prems"(2,3) by simp
  then have "is_block P (map B [0..<n]) (r, part)"
    using "2.prems"(4) [OF _ f] by simp
  then have b: "r = int (length part)" "28 \<le> r"
    "\<And>E rest. P E \<Longrightarrow> GRZip_DecompressBlock E (part @ rest) r = Some (int n, map B [0..<n])" "\<And>rest. get32 (part @ rest) 16 = r - 28"
    unfolding is_block_def fst_conv snd_conv length_map length_upt diff_zero by blast+
  note IH = "2.IH" [OF f [symmetric] refl, OF _ c]
  have "s' = int (length out') \<and> (\<exists>blocks. out' = (out @ part) @ blocks \<and>
    (\<forall>E rest Buf p. P E \<longrightarrow> p + sum_list sizes \<le> length Buf \<longrightarrow>
       decompress_parts (GRZip_DecompressBlock E) (length sizes) (blocks @ rest) Buf p =
         Some (Inr (take p Buf @ map (\<lambda>i. B (n + i)) [0..<sum_list sizes] @ drop (p + sum_list sizes) Buf))))"
    using IH r b(1) "2.prems"(2-4) by auto
  then obtain blocks where ih: "s' = int (length out')" "out' = (out @ part) @ blocks"
    "\<And>E rest Buf p. P E \<Longrightarrow> p + sum_list sizes \<le> length Buf \<Longrightarrow>
       decompress_parts (GRZip_DecompressBlock E) (length sizes) (blocks @ rest) Buf p =
         Some (Inr (take p Buf @ map (\<lambda>i. B (n + i)) [0..<sum_list sizes] @ drop (p + sum_list sizes) Buf))"
    by blast
  have "decompress_parts (GRZip_DecompressBlock E) (Suc (length sizes)) ((part @ blocks) @ rest) Buf p =
      Some (Inr (take p Buf @ map B [0..<n + sum_list sizes] @ drop (p + (n + sum_list sizes)) Buf))"
    if E: "P E" and p: "p + (n + sum_list sizes) \<le> length Buf" for E rest Buf p
  proof -
    let ?Buf = "take p Buf @ map B [0..<n] @ drop (p + n) Buf"
    have "decompress_parts (GRZip_DecompressBlock E) (Suc (length sizes)) ((part @ blocks) @ rest) Buf p =
        decompress_parts (GRZip_DecompressBlock E) (length sizes) (blocks @ rest) ?Buf (p + n)"
      using b(1,2,4) b(3) [OF E] p by (simp add: decompress_parts.simps)
    also have "\<dots> = Some (Inr (take (p + n) ?Buf @ map (\<lambda>i. B (n + i)) [0..<sum_list sizes] @ drop (p + n + sum_list sizes) ?Buf))"
      using p by (intro ih(3) [OF E]) simp
    also have "map B [0..<n + sum_list sizes] = map B [0..<n] @ map (\<lambda>i. B (n + i)) [0..<sum_list sizes]"
      by (rule nth_equalityI) (auto simp: nth_append)
    ultimately show ?thesis
      using p by (simp add: add_ac)
  qed
  then show ?case
    using ih(1,2) by (intro conjI exI [of _ "part @ blocks"]) simp_all
qed

text \<open>A block that is not split, then one that may be.\<close>

lemma mode_or_st4:
  assumes "mode_ok Mode"
  shows "mode_ok (Mode OR GRZ_Compression_ST4)" "even (Mode OR GRZ_Compression_ST4) \<longleftrightarrow> even Mode"
proof -
  have "Mode OR GRZ_Compression_ST4 < 2 ^ 31"
    using assms by (intro OR_upper) (simp_all add: mode_ok_def GRZ_Compression_ST4_def)
  then show "mode_ok (Mode OR GRZ_Compression_ST4)" "even (Mode OR GRZ_Compression_ST4) \<longleftrightarrow> even Mode"
    using assms by (simp_all add: mode_ok_def GRZ_Compression_ST4_def even_or_iff)
qed

lemma delta_enabled: "Mode AND GRZ_Disable_DeltaFlt = 0 \<longleftrightarrow> even Mode"
  by (simp add: GRZ_Disable_DeltaFlt_def and_one_eq even_iff_mod_2_eq_zero)

lemma unfiltered_block:
  assumes "sorters_ok E Mode" "mode_ok Mode" "odd Mode" "Size < 2 ^ 31" "GRZip_CompressBlock E Input Size Output Mode = (n, out)" "n < 2 ^ 31"
  shows "is_block (wfc_room Mode) (map Input [0..<Size]) (n, out)"
proof -
  define Output' where "Output' = put32 (int Size) @ drop 4 Output"
  define M where "M = (if Size < 1024 then Mode OR GRZ_Compression_ST4 else Mode)"
  have M: "mode_ok M" "odd M"
    using assms(2,3) mode_or_st4 by (simp_all add: M_def)
  have M': "sorters_ok E M" "wfc_room M = wfc_room Mode"
    using assms(1) mode_bits_kept(1,2) [of Mode] wfc_room_mode [of M Mode] by (simp_all add: sorters_ok_def M_def)
  have store: "is_block (wfc_room Mode) (map Input [0..<Size]) (GRZip_StoreBlock (map Input [0..<Size]) Output' 0)"
    using assms(4) by (intro stored_block) (simp_all add: Output'_def)
  have eq: "GRZip_CompressBlock E Input Size Output Mode =
    (if Size < 32 \<or> Size > GRZ_MaxBlockSize then GRZip_StoreBlock (map Input [0..<Size]) Output' 0
     else compress_whole E Input Size Output' M)"
    using M(2) by (subst GRZip_CompressBlock.simps) (simp add: Let_def Output'_def M_def [symmetric] delta_enabled)
  show ?thesis
  proof (cases "Size < 32 \<or> Size > GRZ_MaxBlockSize")
    case True
    then show ?thesis
      using store eq assms(5) by simp
  next
    case False
    then have "compress_whole E Input Size (put32 (int Size) @ drop 4 Output) M = (n, out)"
      using eq assms(5) by (simp add: Output'_def)
    then show ?thesis
      using False assms(6) M(1) M' whole_block by (metis not_le)
  qed
qed

lemma part_sizes_total: "sum_list (part_sizes RecMode Size) = Size" "length (part_sizes RecMode Size) = (if RecMode mod 2 = 1 then 2 else 4)"
  by (simp_all add: part_sizes_def)

lemma filtered_block:
  assumes parts: "compress_parts f ((!) Buffer) (part_sizes RecMode Size) Out 0 [] = Some (NewSize, out)"
    and blocks: "\<And>B n Out r part. n \<in> set (part_sizes RecMode Size) \<Longrightarrow> f B n Out = (r, part) \<Longrightarrow> r < 2 ^ 31 \<Longrightarrow> is_block P (map B [0..<n]) (r, part)"
    and Buffer: "Buffer = GRZip_Rec_Encode x Size old RecMode" "length x = Size" "Size \<le> length old"
    and RecMode: "1 \<le> RecMode" "RecMode \<le> 4" and small: "NewSize < int Size" "Size < 2 ^ 31" and d: "length d = 4"
  shows "is_block P x (NewSize + 28, header (put32 (int Size)) (-2) (int RecMode) d NewSize out)"
proof -
  define W where "W = GRZip_Rec_Encode x Size (replicate Size 0) RecMode"
  have "NewSize < 2 ^ 31"
    using small by simp
  then obtain size: "NewSize = int (length out)" and dec: "\<And>E rest Buf. P E \<Longrightarrow> Size \<le> length Buf \<Longrightarrow>
      decompress_parts (GRZip_DecompressBlock E) (if RecMode mod 2 = 1 then 2 else 4) (out @ rest) Buf 0 =
        Some (Inr (map ((!) Buffer) [0..<Size] @ drop Size Buf))"
    using parts_restored [OF parts _ _ blocks] unfolding part_sizes_total by fastforce
  have W: "Buffer = W @ drop Size old" "length W = Size"
    using rec_encode_written [OF Buffer(3) RecMode] by (simp_all add: Buffer(1) W_def)
  have first: "map ((!) Buffer) [0..<Size] = W"
    using W by (intro nth_equalityI) (simp_all add: nth_append)
  have rec: "GRZip_Rec_Decode (W @ drop Size Buf) Size o' RecMode = x" if "Size \<le> length Buf" "length o' = Size" for Buf o'
    using rec_filter_decodes [OF Buffer(2) that RecMode] rec_encode_written(2) [OF that(1) RecMode, of x] by (simp add: W_def)
  have f: "length (put32 (int Size)) = 4" "fits (-2)" "fits (int RecMode)" "fits NewSize" "length d = 4" "fits (int Size)"
    using small RecMode d size by (simp_all add: fits_def)
  note H = header_fields [OF f(1-5)] header_first [OF f(6)] header_length [OF f(1,5)]
  have flag: "int RecMode AND 1 = 1 \<longleftrightarrow> RecMode mod 2 = 1"
    unfolding and_one_eq by presburger
  have pos: "0 \<le> NewSize"
    using size by simp
  have "GRZip_DecompressBlock E (header (put32 (int Size)) (-2) (int RecMode) d NewSize (out @ rest)) (NewSize + 28) =
      Some (int (length x), x)" if E: "P E" for E rest
  proof -
    let ?Buf = "map (fresh E) [0..<Size + 1024]"
    have "decompress_parts (GRZip_DecompressBlock E) (if int RecMode AND 1 = 1 then 2 else 4) (out @ rest) ?Buf 0 = Some (Inr (W @ drop Size ?Buf))"
      unfolding flag by (subst dec [OF E]) (simp_all only: first, simp)
    then show ?thesis
      using pos Buffer(2) rec [of ?Buf] by (subst GRZip_DecompressBlock.simps) (simp only: H Let_def, simp)
  qed
  then show ?thesis
    unfolding is_block_def fst_conv snd_conv header_append H by (simp add: size)
qed

lemma block_restored:
  assumes "pick_ok E \<and> sorters_ok E Mode" "mode_ok Mode" "Size < 2 ^ 31" "16 \<le> length Output"
    "GRZip_CompressBlock E Input Size Output Mode = (n, out)" "n < 2 ^ 31"
  shows "is_block (wfc_room Mode) (map Input [0..<Size]) (n, out)"
proof (cases "even Mode")
  case False
  then show ?thesis
    using unfiltered_block assms by blast
next
  case True
  let ?x = "map Input [0..<Size]"
  define Output' where "Output' = put32 (int Size) @ drop 4 Output"
  define M where "M = (if Size < 1024 then Mode OR GRZ_Compression_ST4 else Mode)"
  define RecMode where "RecMode = GRZip_Rec_Test (pick E) ?x"
  define old where "old = map (fresh E) [0..<Size + 1024]"
  define f where "f B n Out = GRZip_CompressBlock E B n Out (M + GRZ_Disable_DeltaFlt)" for B n Out
  define parts where "parts = compress_parts f ((!) (GRZip_Rec_Encode ?x Size old RecMode)) (part_sizes RecMode Size) (drop 28 Output') 0 []"
  have M: "mode_ok M" "even M"
    using assms(2) True mode_or_st4 by (simp_all add: M_def)
  then have M1: "mode_ok (M + GRZ_Disable_DeltaFlt)" "odd (M + GRZ_Disable_DeltaFlt)"
    by (auto simp: mode_ok_def GRZ_Disable_DeltaFlt_def elim!: evenE)
  have M': "sorters_ok E M" "wfc_room M = wfc_room Mode" "sorters_ok E (M + GRZ_Disable_DeltaFlt)" "wfc_room (M + GRZ_Disable_DeltaFlt) = wfc_room Mode"
    using assms(1) mode_bits_kept(1,2) [of Mode] mode_bits_kept(3) [OF M(2), of 1] mode_bits_kept(3) [OF M(2), of 2]
      wfc_room_mode [of M Mode] wfc_room_mode [of "M + GRZ_Disable_DeltaFlt" Mode]
    by (simp_all add: sorters_ok_def M_def)
  have store: "is_block (wfc_room Mode) ?x (GRZip_StoreBlock ?x Output' 0)"
    using assms(3) by (intro stored_block) (simp_all add: Output'_def)
  have eq: "GRZip_CompressBlock E Input Size Output Mode =
    (if Size < 32 \<or> Size > GRZ_MaxBlockSize then GRZip_StoreBlock ?x Output' 0
     else if Size > 1024 \<and> RecMode \<noteq> 0
     then case parts of None \<Rightarrow> GRZip_StoreBlock ?x Output' 0
       | Some (NewSize, out) \<Rightarrow> if NewSize \<ge> int Size then GRZip_StoreBlock ?x Output' 0
           else (NewSize + 28, header (take 4 Output') (-2) (int RecMode) (take 4 (drop 12 Output')) NewSize out)
     else compress_whole E Input Size Output' M)"
    using M(2) unfolding header_def parts_def f_def old_def RecMode_def Output'_def
    by (subst GRZip_CompressBlock.simps) (simp add: Let_def M_def [symmetric] delta_enabled)
  consider "GRZip_CompressBlock E Input Size Output Mode = GRZip_StoreBlock ?x Output' 0"
    | "32 \<le> Size" "Size \<le> GRZ_MaxBlockSize" "compress_whole E Input Size Output' M = (n, out)"
    | NewSize blocks where "RecMode \<noteq> 0" "parts = Some (NewSize, blocks)" "NewSize < int Size"
        "(n, out) = (NewSize + 28, header (take 4 Output') (-2) (int RecMode) (take 4 (drop 12 Output')) NewSize blocks)"
    using eq assms(5) by (auto simp: not_less not_le split: if_splits option.splits)
  then show ?thesis
  proof cases
    case 1
    then show ?thesis
      using store assms(5) by simp
  next
    case 2
    then show ?thesis
      using whole_block [OF M'(1) M(1) 2(1,2) _ assms(6)] M'(2) by (simp add: Output'_def)
  next
    case 3
    have "RecMode \<le> 4"
      unfolding RecMode_def using assms(1) by (intro rec_test_range) (simp add: pick_ok_def)
    moreover have T: "take 4 Output' = put32 (int Size)"
      by (simp add: Output'_def)
    ultimately show ?thesis
      unfolding 3(4) T
    proof (intro filtered_block [where f = f and Out = "drop 28 Output'" and old = old])
      show "compress_parts f ((!) (GRZip_Rec_Encode ?x Size old RecMode)) (part_sizes RecMode Size) (drop 28 Output') 0 [] = Some (NewSize, blocks)"
        using 3(2) by (simp add: parts_def)
      show "is_block (wfc_room Mode) (map B [0..<m]) (r, part)" if "m \<in> set (part_sizes RecMode Size)" "f B m Out = (r, part)" "r < 2 ^ 31" for B m Out r part
        using that assms(3) unfolding M'(4) [symmetric]
        by (intro unfiltered_block [OF M'(3) M1]) (auto simp: f_def part_sizes_def split: if_splits)
    qed (use 3(1,3) assms(3,4) in \<open>simp_all add: old_def Output'_def\<close>)
  qed
qed

section \<open>What a block cannot be\<close>

lemma decompress_reserved:
  assumes "GRZip_DecompressBlock E Input n = Some (r, x)" "0 \<le> r"
  shows "get32 Input 24 = RESERVED"
  using assms by (subst (asm) GRZip_DecompressBlock.simps) (auto simp: grz_codes split: if_splits)

lemma decode_step_Nil: "decode_step E [] n Mode = None"
  by (simp add: decode_step_def GRZip_MTF_Ari_Decode_def GRZip_WFC_Ari_Decode_def ari_decode_def ari_dec_start_def)

text \<open>Only a block of nothing has no data behind its header.\<close>

lemma block_not_empty:
  assumes "is_block P x (n, out)" "x \<noteq> []" "P E"
  shows "28 < n"
proof (rule ccontr)
  assume "\<not> 28 < n"
  then have n: "n = 28" "length out = 28"
    using assms(1) by (simp_all add: is_block_def)
  have d: "GRZip_DecompressBlock E out 28 = Some (int (length x), x)" "get32 out 16 = 0"
    using assms(1,3) unfolding is_block_def n fst_conv snd_conv by (auto dest!: spec [of _ "[]"])
  have none: "decompress_whole E out M = None" for E M
    using n(2) by (simp add: decompress_whole_def decode_step_Nil Let_def)
  have parts: "decompress_parts f (if c then 2 else 4) [] Buffer 0 = None" for f c Buffer
    by (simp add: numeral_eq_Suc decompress_parts.simps)
  have "x = []"
    using d n(2)
    by (subst (asm) GRZip_DecompressBlock.simps) (auto simp: Let_def none parts GRZip_LZP_Decode_def split: if_splits)
  then show False
    using assms(2) by simp
qed

text \<open>An environment for examples, and the blocks that are too small for anything but storing.\<close>

definition plain_env :: grz_env where
  "plain_env = \<lparr>fresh = \<lambda>_. 9, BigAlloc = \<lambda>n. n + 7, pick = \<lambda>_ _ _ _. 0, strong_sort = strong_reference, fast_sort = fast_reference\<rparr>"

lemma plain_env_ok: "pick_ok plain_env" "wfc_room Mode plain_env" "sorters_ok plain_env Mode"
proof -
  have "(n + 7) div 8 * 8 \<le> n + 7" for n :: nat
    by (rule div_times_less_eq_dividend)
  then show "pick_ok plain_env" "wfc_room Mode plain_env" "sorters_ok plain_env Mode"
    by (simp_all add: plain_env_def pick_ok_def wfc_room_def sorters_ok_def strong_reference_sorts fast_reference_sorts)
qed

lemma small_block:
  "Size < 32 \<Longrightarrow> GRZip_CompressBlock E Input Size Output Mode = GRZip_StoreBlock (map Input [0..<Size]) (put32 (int Size) @ drop 4 Output) 0"
  by (subst GRZip_CompressBlock.simps) simp

section \<open>Properties\<close>

text \<open>
  C2: whatever \<^verbatim>\<open>GRZip_CompressBlock\<close> made of a block in a mode with the sort transform \<^verbatim>\<open>ST4\<close>, for every size - stored, split by
  the record filter, preprocessed, sorted and coded - it returns the number of bytes it wrote, and
  \<^verbatim>\<open>GRZip_DecompressBlock\<close> restores the block from these bytes and returns its size, whatever the bytes behind them and
  the memory it is given.  The size and the mode are those that an \<^verbatim>\<open>sint32\<close> holds, the hash table of the preprocessor has an exponent
  below 30, and the entropy comparison of the record filter yields one of its three answers.  With the WFC coder the
  memory that \<^verbatim>\<open>BigAlloc\<close> gives the decoder must be a multiple of eight bytes, as pages are: the decoder asks for the size before
  padding and writes up to seven bytes more.
\<close>
theorem block_roundtrip:
  assumes "pick_ok E" "0 \<le> Mode" "Mode < 2 ^ 31" "Mode AND GRZ_Compression_ST4 \<noteq> 0" "Mode div 256 mod 256 < 30"
    "Size < 2 ^ 31" "16 \<le> length Output" "GRZip_CompressBlock E Input Size Output Mode = (n, out)" "n < 2 ^ 31"
    "Mode AND GRZ_Compression_MTF \<noteq> 0 \<or> (\<forall>k. (k + 7) div 8 * 8 \<le> BigAlloc E' k)"
  shows "n = int (length out) \<and> GRZip_DecompressBlock E' (out @ rest) n = Some (int Size, map Input [0..<Size])"
proof -
  have "pick_ok E \<and> sorters_ok E Mode" "mode_ok Mode"
    using assms(1-4) mode_bits(1) [of Mode] by (simp_all add: sorters_ok_def mode_ok_def)
  then have "is_block (wfc_room Mode) (map Input [0..<Size]) (n, out)"
    by (rule block_restored [OF _ _ assms(6-9)])
  then show ?thesis
    using assms(10) unfolding is_block_def fst_conv snd_conv length_map length_upt diff_zero wfc_room_def [symmetric] by blast
qed

theorem block_roundtrip_witness:
  "\<exists>n out. GRZip_CompressBlock plain_env (\<lambda>_. 7) 20 (replicate 28 0) (32 * 65536 + 15 * 256 + 2) = (n, out) \<and>
    n = 48 \<and> GRZip_DecompressBlock plain_env (out @ [1, 2]) n = Some (20, replicate 20 7)"
proof -
  obtain n out where c: "GRZip_CompressBlock plain_env (\<lambda>_. 7) 20 (replicate 28 0) (32 * 65536 + 15 * 256 + 2) = (n, out)"
    by fastforce
  then have n: "n = 48"
    by (subst (asm) GRZip_CompressBlock.simps) (simp add: GRZip_StoreBlock_def)
  have "map (\<lambda>_. 7) [0..<20] = replicate 20 (7 :: byte)"
    by (simp add: map_replicate_const)
  moreover have "(32 * 65536 + 15 * 256 + 2) AND GRZ_Compression_ST4 \<noteq> (0 :: int)"
    by (simp add: GRZ_Compression_ST4_def)
  moreover have "\<forall>k. (k + 7) div 8 * 8 \<le> BigAlloc plain_env k"
    using plain_env_ok(2) [of 0] by (simp add: wfc_room_def)
  ultimately show ?thesis
    using c n block_roundtrip [OF plain_env_ok(1) _ _ _ _ _ _ c, of plain_env "[1, 2]"] by simp
qed

end
