(* ===== verification/Grzip_Method.thy ===== *)
theory Grzip_Method
  imports Encryption_Method Grz_Block
begin

text \<open>
  The class \<^verbatim>\<open>GRZIP_METHOD\<close> of \<^verbatim>\<open>C_GRZip.cpp\<close> and \<^verbatim>\<open>C_GRZip.h\<close>: the parameters of the method, how they are parsed from
  and printed to a description such as \<^verbatim>\<open>grzip:8mb:m1:l32:h15\<close>, and the sizes derived from them.
\<close>

section \<open>Parameters\<close>

record grzip_method =
  gm_BlockSize :: u32
  gm_Method :: int
  gm_EnableLZP :: int
  gm_MinMatchLen :: int
  gm_HashSizeLog :: int
  gm_AlternativeBWTSort :: int
  gm_AdaptiveBlockSize :: int
  gm_DeltaFilter :: int

definition new_GRZIP_METHOD :: grzip_method where
  "new_GRZIP_METHOD =
     \<lparr>gm_BlockSize = 8 * 1048576, gm_Method = 1, gm_EnableLZP = 1, gm_MinMatchLen = 32, gm_HashSizeLog = 15,
      gm_AlternativeBWTSort = 0, gm_AdaptiveBlockSize = 0, gm_DeltaFilter = 0\<rparr>"

text \<open>The whole part of the binary logarithm, in the portable form; the compilers' instructions compute the same.\<close>

definition lb_step :: "nat \<Rightarrow> nat \<times> u32 \<Rightarrow> nat \<times> u32" where
  "lb_step k = (\<lambda>(result, n). if unat n > 2 ^ k - 1 then (result + k, drop_bit k n) else (result, n))"

definition lb :: "u32 \<Rightarrow> nat" where
  "lb n = fst (lb_step 1 (lb_step 2 (lb_step 4 (lb_step 8 (lb_step 16 (0, n))))))"

text \<open>The comparison with the hash size is one of unsigned numbers.\<close>

definition gm_SetBlockSize :: "u32 \<Rightarrow> grzip_method \<Rightarrow> grzip_method" where
  "gm_SetBlockSize bs m =
     (if bs > 0 then
        let BlockSize = (if bs < of_nat GRZ_MaxBlockSize then bs else of_nat GRZ_MaxBlockSize);
            limit = 1 + lb (BlockSize - 1)
        in m\<lparr>gm_BlockSize := BlockSize,
             gm_HashSizeLog := (if (word_of_int (gm_HashSizeLog m) :: u32) < of_nat limit then gm_HashSizeLog m else int limit)\<rparr>
      else m)"

definition gm_GetCompressionMem :: "u32 \<Rightarrow> grzip_method \<Rightarrow> u32" where
  "gm_GetCompressionMem threads m = gm_BlockSize m * 9 * threads"

definition gm_GetDecompressionMem :: "u32 \<Rightarrow> grzip_method \<Rightarrow> u32" where
  "gm_GetDecompressionMem threads m = gm_BlockSize m * 5 * threads"

definition gm_SetCompressionMem :: "u32 \<Rightarrow> u32 \<Rightarrow> grzip_method \<Rightarrow> grzip_method" where
  "gm_SetCompressionMem threads mem = gm_SetBlockSize (mem div 9 div threads)"

definition gm_SetDecompressionMem :: "u32 \<Rightarrow> u32 \<Rightarrow> grzip_method \<Rightarrow> grzip_method" where
  "gm_SetDecompressionMem threads mem = gm_SetBlockSize (mem div 5 div threads)"

section \<open>Parsing\<close>

text \<open>One parameter; the flag is the variable \<^verbatim>\<open>error\<close>.  A parameter without a name is a number or a block size.\<close>

definition gm_parse_plain :: "string \<Rightarrow> grzip_method \<Rightarrow> grzip_method \<times> bool" where
  "gm_parse_plain param p =
     (let (n, error) = parseInt param False
      in if \<not> error then (p\<lparr>gm_MinMatchLen := sint n\<rparr>, False)
         else let (b, error) = parseMem param False in (p\<lparr>gm_BlockSize := b\<rparr>, error))"

definition gm_parse_param :: "string \<Rightarrow> grzip_method \<Rightarrow> grzip_method \<times> bool" where
  "gm_parse_param param p =
     (case param of
        [] \<Rightarrow> gm_parse_plain param p
      | [c] \<Rightarrow>
        (if c = CHR ''s'' then (p\<lparr>gm_AlternativeBWTSort := 1\<rparr>, False)
         else if c = CHR ''a'' then (p\<lparr>gm_AdaptiveBlockSize := 1\<rparr>, False)
         else if c = CHR ''l'' then (p\<lparr>gm_EnableLZP := 0\<rparr>, False)
         else if c = CHR ''d'' then (p\<lparr>gm_DeltaFilter := 1\<rparr>, False)
         else if c = CHR ''p'' then (p\<lparr>gm_AdaptiveBlockSize := 0, gm_EnableLZP := 0, gm_DeltaFilter := 1\<rparr>, False)
         else gm_parse_plain param p)
      | c # s \<Rightarrow>
        (if c = CHR ''m'' then (case parseInt s False of (n, error) \<Rightarrow> (p\<lparr>gm_Method := sint n\<rparr>, error))
         else if c = CHR ''b'' then (case parseMem s False of (n, error) \<Rightarrow> (p\<lparr>gm_BlockSize := n\<rparr>, error))
         else if c = CHR ''l'' then (case parseInt s False of (n, error) \<Rightarrow> (p\<lparr>gm_MinMatchLen := sint n\<rparr>, error))
         else if c = CHR ''h'' then (case parseInt s False of (n, error) \<Rightarrow> (p\<lparr>gm_HashSizeLog := sint n\<rparr>, error))
         else gm_parse_plain param p))"

fun gm_parse_params :: "string list \<Rightarrow> grzip_method \<Rightarrow> grzip_method option" where
  "gm_parse_params [] p = Some p"
| "gm_parse_params (param # params) p =
     (case gm_parse_param param p of (p, error) \<Rightarrow> if error then None else gm_parse_params params p)"

definition parse_GRZIP :: "string list \<Rightarrow> grzip_method option" where
  "parse_GRZIP parameters =
     (if parameters ! 0 = ''grzip'' then gm_parse_params (tl parameters) new_GRZIP_METHOD else None)"

section \<open>Printing\<close>

definition gm_ShowCompressionMethod :: "grzip_method \<Rightarrow> string" where
  "gm_ShowCompressionMethod m =
     (let LZP_Str = ''l'' @ show_int (gm_MinMatchLen m) @ '':h'' @ show_int (gm_HashSizeLog m)
      in ''grzip:'' @ showMem (gm_BlockSize m) @ '':m'' @ show_int (gm_Method m) @ '':'' @
         (if gm_EnableLZP m \<noteq> 0 then LZP_Str else ''l'') @
         (if gm_AlternativeBWTSort m \<noteq> 0 then '':s'' else '''') @
         (if gm_AdaptiveBlockSize m \<noteq> 0 then '':a'' else '''') @
         (if gm_DeltaFilter m \<noteq> 0 then '':d'' else ''''))"

section \<open>A printed method is parsed back\<close>

definition gm_params :: "grzip_method \<Rightarrow> string list" where
  "gm_params m =
     [showMem (gm_BlockSize m), CHR ''m'' # show_int (gm_Method m)] @
     (if gm_EnableLZP m \<noteq> 0 then [CHR ''l'' # show_int (gm_MinMatchLen m), CHR ''h'' # show_int (gm_HashSizeLog m)] else [''l'']) @
     (if gm_AlternativeBWTSort m \<noteq> 0 then [''s''] else []) @ (if gm_AdaptiveBlockSize m \<noteq> 0 then [''a''] else []) @
     (if gm_DeltaFilter m \<noteq> 0 then [''d''] else [])"

lemma gm_show_join: "gm_ShowCompressionMethod m = join (CHR '':'') (''grzip'' # gm_params m)"
  by (simp add: join_Cons_append gm_ShowCompressionMethod_def gm_params_def Let_def)

lemma unat_below: "unat (n :: u32) < 2 ^ 32"
  using unsigned_less [of n] by simp

lemma showMem_parts:
  obtains k suffix where "showMem n = show_digits k @ suffix" "suffix \<in> {''gb'', ''mb'', ''kb'', ''b''}" "k < 2 ^ 32"
proof -
  show ?thesis
    using that unat_below unfolding showMem_def by (metis insertI1 insertI2)
qed

lemma parse_showMem: "gm_parse_param (showMem n) p = (p\<lparr>gm_BlockSize := n\<rparr>, False)"
proof -
  obtain k suffix where s: "showMem n = show_digits k @ suffix" "suffix \<in> {''gb'', ''mb'', ''kb'', ''b''}"
    by (rule showMem_parts)
  obtain c cs where d: "show_digits k = c # cs"
    by (cases "show_digits k") auto
  have digit: "is_digit c"
    using show_digits_chars [of c k] d by simp
  have "parse_digits 0 (show_digits k @ suffix) = (of_nat k, suffix)"
    using s(2) by (auto simp: parse_digits_append parse_show_digits is_digit_def)
  then have "snd (parseInt (showMem n) False)"
    using s(2) d digit unfolding s(1) parseInt_def by (auto simp: is_digit_def)
  then have "gm_parse_plain (showMem n) p = (p\<lparr>gm_BlockSize := n\<rparr>, False)"
    using parse_printed [of n False] by (auto simp: gm_parse_plain_def split: prod.splits)
  moreover have "gm_parse_param (showMem n) p = gm_parse_plain (showMem n) p"
    using s(2) digit unfolding s(1) d gm_parse_param_def by (auto simp: is_digit_def split: list.splits)
  ultimately show ?thesis
    by simp
qed

definition gm_valid :: "grzip_method \<Rightarrow> bool" where
  "gm_valid m \<longleftrightarrow> 0 \<le> gm_Method m \<and> gm_Method m < 2 ^ 31 \<and> 0 \<le> gm_MinMatchLen m \<and> gm_MinMatchLen m < 2 ^ 31 \<and>
     0 \<le> gm_HashSizeLog m \<and> gm_HashSizeLog m < 2 ^ 31 \<and>
     {gm_EnableLZP m, gm_AlternativeBWTSort m, gm_AdaptiveBlockSize m, gm_DeltaFilter m} \<subseteq> {0, 1}"

lemma show_int_not_Nil: "show_int i \<noteq> []"
  by (simp add: show_int_def)

lemma parse_number:
  assumes "0 \<le> i" "i < 2 ^ 31"
  shows "gm_parse_param (CHR ''m'' # show_int i) p = (p\<lparr>gm_Method := i\<rparr>, False)"
    "gm_parse_param (CHR ''l'' # show_int i) p = (p\<lparr>gm_MinMatchLen := i\<rparr>, False)"
    "gm_parse_param (CHR ''h'' # show_int i) p = (p\<lparr>gm_HashSizeLog := i\<rparr>, False)"
proof -
  obtain c cs where s: "show_int i = c # cs"
    using show_int_not_Nil [of i] by (cases "show_int i") auto
  note n = parse_show_int [OF assms]
  show "gm_parse_param (CHR ''m'' # show_int i) p = (p\<lparr>gm_Method := i\<rparr>, False)"
    "gm_parse_param (CHR ''l'' # show_int i) p = (p\<lparr>gm_MinMatchLen := i\<rparr>, False)"
    "gm_parse_param (CHR ''h'' # show_int i) p = (p\<lparr>gm_HashSizeLog := i\<rparr>, False)"
    using n unfolding s gm_parse_param_def by simp_all
qed

lemma parse_letters:
  "gm_parse_param ''s'' p = (p\<lparr>gm_AlternativeBWTSort := 1\<rparr>, False)" "gm_parse_param ''a'' p = (p\<lparr>gm_AdaptiveBlockSize := 1\<rparr>, False)"
  "gm_parse_param ''l'' p = (p\<lparr>gm_EnableLZP := 0\<rparr>, False)" "gm_parse_param ''d'' p = (p\<lparr>gm_DeltaFilter := 1\<rparr>, False)"
  by (simp_all add: gm_parse_param_def)

text \<open>The lengths of the LZP step are not printed when it is off.\<close>

definition gm_printed :: "grzip_method \<Rightarrow> grzip_method" where
  "gm_printed m = (if gm_EnableLZP m \<noteq> 0 then m else m\<lparr>gm_MinMatchLen := 32, gm_HashSizeLog := 15\<rparr>)"

lemma gm_parse_append:
  "gm_parse_params (xs @ ys) p = (case gm_parse_params xs p of None \<Rightarrow> None | Some p \<Rightarrow> gm_parse_params ys p)"
  by (induction xs arbitrary: p) (auto split: prod.splits)

lemma parse_options:
  "gm_parse_params (if x then [''s''] else []) p = Some (if x then p\<lparr>gm_AlternativeBWTSort := 1\<rparr> else p)"
  "gm_parse_params (if x then [''a''] else []) p = Some (if x then p\<lparr>gm_AdaptiveBlockSize := 1\<rparr> else p)"
  "gm_parse_params (if x then [''d''] else []) p = Some (if x then p\<lparr>gm_DeltaFilter := 1\<rparr> else p)"
  by (simp_all add: parse_letters)

lemma parse_lzp_options:
  assumes "0 \<le> i" "i < 2 ^ 31" "0 \<le> j" "j < 2 ^ 31"
  shows "gm_parse_params (if x then [CHR ''l'' # show_int i, CHR ''h'' # show_int j] else [''l'']) p =
    Some (if x then p\<lparr>gm_MinMatchLen := i, gm_HashSizeLog := j\<rparr> else p\<lparr>gm_EnableLZP := 0\<rparr>)"
  using assms by (simp add: parse_letters parse_number)

lemma parse_gm_params:
  assumes "gm_valid m"
  shows "gm_parse_params (gm_params m) new_GRZIP_METHOD = Some (gm_printed m)"
proof -
  have v: "0 \<le> gm_Method m" "gm_Method m < 2 ^ 31" "0 \<le> gm_MinMatchLen m" "gm_MinMatchLen m < 2 ^ 31"
    "0 \<le> gm_HashSizeLog m" "gm_HashSizeLog m < 2 ^ 31"
    using assms by (simp_all add: gm_valid_def)
  let ?p = "new_GRZIP_METHOD\<lparr>gm_BlockSize := gm_BlockSize m, gm_Method := gm_Method m\<rparr>"
  have "gm_parse_params [showMem (gm_BlockSize m), CHR ''m'' # show_int (gm_Method m)] new_GRZIP_METHOD = Some ?p"
    using parse_number(1) [OF v(1,2)] by (simp add: parse_showMem)
  then have "gm_parse_params (gm_params m) new_GRZIP_METHOD =
    Some (let p = (if gm_EnableLZP m \<noteq> 0 then ?p\<lparr>gm_MinMatchLen := gm_MinMatchLen m, gm_HashSizeLog := gm_HashSizeLog m\<rparr>
                   else ?p\<lparr>gm_EnableLZP := 0\<rparr>);
              p = (if gm_AlternativeBWTSort m \<noteq> 0 then p\<lparr>gm_AlternativeBWTSort := 1\<rparr> else p);
              p = (if gm_AdaptiveBlockSize m \<noteq> 0 then p\<lparr>gm_AdaptiveBlockSize := 1\<rparr> else p)
          in if gm_DeltaFilter m \<noteq> 0 then p\<lparr>gm_DeltaFilter := 1\<rparr> else p)"
    unfolding gm_params_def gm_parse_append by (simp only: option.simps parse_lzp_options [OF v(3-6)] parse_options Let_def)
  also have "\<dots> = Some (gm_printed m)"
    using assms by (cases m) (auto simp: gm_valid_def gm_printed_def new_GRZIP_METHOD_def Let_def)
  finally show ?thesis .
qed

lemma gm_pieces:
  assumes "gm_valid m"
  shows "\<forall>p \<in> set (''grzip'' # gm_params m). CHR '':'' \<notin> set p" "length (''grzip'' # gm_params m) \<le> 8"
    "length (gm_ShowCompressionMethod m) < MAX_METHOD_STRLEN"
proof -
  have v: "0 \<le> gm_Method m" "gm_Method m < 2 ^ 31" "0 \<le> gm_MinMatchLen m" "gm_MinMatchLen m < 2 ^ 31"
    "0 \<le> gm_HashSizeLog m" "gm_HashSizeLog m < 2 ^ 31"
    using assms by (simp_all add: gm_valid_def)
  obtain k suffix where s: "showMem (gm_BlockSize m) = show_digits k @ suffix" "suffix \<in> {''gb'', ''mb'', ''kb'', ''b''}" "k < 2 ^ 32"
    by (rule showMem_parts)
  have "CHR '':'' \<notin> set (showMem (gm_BlockSize m))"
    using show_digits_chars [of "CHR '':''" k] s(2) unfolding s(1) by (auto simp: is_digit_def)
  moreover have "CHR '':'' \<notin> set (show_int i)" if "0 \<le> i" for i
    using show_int_no [OF that, of "CHR '':''"] by (auto simp: is_digit_def)
  ultimately show "\<forall>p \<in> set (''grzip'' # gm_params m). CHR '':'' \<notin> set p"
    using v by (auto simp: gm_params_def)
  show "length (''grzip'' # gm_params m) \<le> 8"
    by (simp add: gm_params_def)
  have "k < 10 ^ 10"
    using s(3) by simp
  then have "length (showMem (gm_BlockSize m)) \<le> 12"
    using show_digits_length [of k 10] s(2) unfolding s(1) by auto
  then show "length (gm_ShowCompressionMethod m) < MAX_METHOD_STRLEN"
    using show_int_length [OF v(1,2)] show_int_length [OF v(3,4)] show_int_length [OF v(5,6)]
    by (simp add: gm_ShowCompressionMethod_def Let_def MAX_METHOD_STRLEN_def)
qed

section \<open>The logarithm\<close>

definition lb_part :: "nat \<Rightarrow> nat \<times> u32 \<Rightarrow> bool" where
  "lb_part N = (\<lambda>(r, n). 0 < unat n \<and> 2 ^ r * unat n \<le> N \<and> N < 2 ^ r * (unat n + 1))"

lemma lb_step_part:
  assumes "lb_part N (r, n)" "unat n < 2 ^ (2 * k)"
  shows "lb_part N (lb_step k (r, n)) \<and> unat (snd (lb_step k (r, n))) < 2 ^ k"
proof (cases "unat n > 2 ^ k - 1")
  case True
  have d: "unat (drop_bit k n) = unat n div 2 ^ k"
    unfolding unsigned_drop_bit_eq using unat_below [of n] by (simp add: drop_bit_eq_div take_bit_nat_eq_self)
  have "unat n div 2 ^ k * 2 ^ k \<le> unat n" "unat n + 1 \<le> (unat n div 2 ^ k + 1) * 2 ^ k"
    using dividend_less_div_times [of "2 ^ k" "unat n"] by simp_all
  then have "2 ^ r * (unat n div 2 ^ k * 2 ^ k) \<le> 2 ^ r * unat n" "2 ^ r * (unat n + 1) \<le> 2 ^ r * ((unat n div 2 ^ k + 1) * 2 ^ k)"
    by (simp_all only: mult_le_mono2)
  moreover have "0 < unat n div 2 ^ k"
    using True by (simp add: div_greater_zero_iff)
  moreover have "unat n div 2 ^ k < 2 ^ k"
    using assms(2) by (intro less_mult_imp_div_less) (simp add: power_add [symmetric] mult_2)
  moreover have "2 ^ (r + k) * (unat n div 2 ^ k) = 2 ^ r * (unat n div 2 ^ k * 2 ^ k)"
    "2 ^ (r + k) * (unat n div 2 ^ k + 1) = 2 ^ r * ((unat n div 2 ^ k + 1) * 2 ^ k)"
    by (simp_all only: power_add mult_ac)
  ultimately show ?thesis
    using assms(1) unfolding lb_step_def lb_part_def split_conv if_P [OF True] snd_conv d by linarith
next
  case False
  then have "unat n < 2 ^ k"
    using zero_less_power [of "2 :: nat" k] by linarith
  then show ?thesis
    using assms(1) False by (simp add: lb_step_def)
qed

lemma lb_bounds:
  assumes "0 < n"
  shows "2 ^ lb n \<le> unat n \<and> unat n < 2 ^ Suc (lb n)"
proof -
  have step: "lb_part N (lb_step k x) \<and> unat (snd (lb_step k x)) < 2 ^ k" if "lb_part N x" "unat (snd x) < 2 ^ (2 * k)" for N k x
    using that lb_step_part [of N "fst x" "snd x" k] by simp
  have "lb_part (unat n) (0, n)" "unat (snd (0 :: nat, n)) < 2 ^ (2 * 16)"
    using assms unsigned_less [of n] by (auto simp: lb_part_def unat_gt_0 word_neq_0_conv)
  note s = step [OF this]
  note s = step [of "unat n" "lb_step 16 (0, n)" 8] s
  note s = step [of "unat n" "lb_step 8 (lb_step 16 (0, n))" 4] s
  note s = step [of "unat n" "lb_step 4 (lb_step 8 (lb_step 16 (0, n)))" 2] s
  note s = step [of "unat n" "lb_step 2 (lb_step 4 (lb_step 8 (lb_step 16 (0, n))))" 1] s
  obtain r k where e: "lb_step 1 (lb_step 2 (lb_step 4 (lb_step 8 (lb_step 16 (0, n))))) = (r, k)"
    by fastforce
  have "lb_part (unat n) (r, k) \<and> unat k < 2"
    using s unfolding e by simp
  then have "unat k = 1" "lb_part (unat n) (r, k)"
    by (auto simp: lb_part_def)
  then show ?thesis
    unfolding lb_def e by (simp add: lb_part_def)
qed

section \<open>Properties\<close>

text \<open>
  C12: the description that \<^verbatim>\<open>ShowCompressionMethod\<close> prints of a GRZip method is parsed back to the same
  method exactly when the method uses LZP or has the default values 32 and 15 in the two parameters of LZP: with LZP off they are not
  printed.  This is for all block sizes, numbers that are not negative and switches that are 0 or 1.  The source calls
  the two functions inverse to one another without this condition.
\<close>
theorem parse_shown_grzip:
  assumes "gm_valid m"
  shows "parse_GRZIP (method_parameters (gm_ShowCompressionMethod m)) = Some m \<longleftrightarrow>
    gm_EnableLZP m = 1 \<or> gm_MinMatchLen m = 32 \<and> gm_HashSizeLog m = 15"
proof -
  note p = gm_pieces [OF assms]
  have "split_more (join (CHR '':'') (''grzip'' # gm_params m)) (CHR '':'') 198 = ''grzip'' # gm_params m"
    using p(2) by (intro split_more_join [OF _ p(1)]) simp_all
  then have "method_parameters (gm_ShowCompressionMethod m) = ''grzip'' # gm_params m"
    unfolding method_parameters_def strncopy_id [OF p(3)] split_def MAX_PARAMETERS_def
    unfolding gm_show_join by simp
  then have "parse_GRZIP (method_parameters (gm_ShowCompressionMethod m)) = Some (gm_printed m)"
    by (simp add: parse_GRZIP_def parse_gm_params [OF assms])
  moreover have "gm_printed m = m \<longleftrightarrow> gm_EnableLZP m = 1 \<or> gm_MinMatchLen m = 32 \<and> gm_HashSizeLog m = 15"
    using assms by (cases m) (auto simp: gm_printed_def gm_valid_def)
  ultimately show ?thesis
    by simp
qed

theorem parse_shown_grzip_witness:
  "let m = new_GRZIP_METHOD\<lparr>gm_BlockSize := 5000, gm_MinMatchLen := 100, gm_DeltaFilter := 1\<rparr>
   in parse_GRZIP (method_parameters (gm_ShowCompressionMethod m)) = Some m \<and>
      parse_GRZIP (method_parameters (gm_ShowCompressionMethod (m\<lparr>gm_EnableLZP := 0\<rparr>))) \<noteq> Some (m\<lparr>gm_EnableLZP := 0\<rparr>)"
proof -
  let ?m = "new_GRZIP_METHOD\<lparr>gm_BlockSize := 5000, gm_MinMatchLen := 100, gm_DeltaFilter := 1\<rparr>"
  have "gm_valid ?m" "gm_valid (?m\<lparr>gm_EnableLZP := 0\<rparr>)"
    by (simp_all add: gm_valid_def new_GRZIP_METHOD_def)
  then show ?thesis
    using parse_shown_grzip [of ?m] parse_shown_grzip [of "?m\<lparr>gm_EnableLZP := 0\<rparr>"] by (simp add: Let_def new_GRZIP_METHOD_def)
qed

text \<open>
  \<^verbatim>\<open>SetBlockSize\<close> takes any size but 0 down to the largest block of the format and leaves a hash table of the LZP step with less
  than two entries for each byte of the block: for at least two bytes and a hash size that is not negative.
\<close>
theorem set_block_size:
  assumes "1 < bs" "0 \<le> gm_HashSizeLog m" "gm_HashSizeLog m < 2 ^ 31"
  shows "gm_BlockSize (gm_SetBlockSize bs m) = min bs (of_nat GRZ_MaxBlockSize) \<and>
    gm_HashSizeLog (gm_SetBlockSize bs m) \<le> gm_HashSizeLog m \<and>
    2 ^ nat (gm_HashSizeLog (gm_SetBlockSize bs m)) < 2 * unat (gm_BlockSize (gm_SetBlockSize bs m))"
proof -
  define B :: u32 where "B = (if bs < of_nat GRZ_MaxBlockSize then bs else of_nat GRZ_MaxBlockSize)"
  define limit where "limit = 1 + lb (B - 1)"
  have min: "min bs (of_nat GRZ_MaxBlockSize) = B"
    by (auto simp: B_def min_def)
  have "1 < B"
    using assms(1) by (auto simp: B_def GRZ_MaxBlockSize_def)
  then have B1: "0 < B - 1" "unat (B - 1) < unat B"
    by (auto simp: word_less_nat_alt unat_sub_if')
  have "2 ^ limit \<le> 2 * unat (B - 1)"
    using lb_bounds [OF B1(1)] by (simp add: limit_def)
  then have l: "2 ^ limit < 2 * unat B"
    using B1(2) by simp
  have "(2 :: nat) ^ lb (B - 1) < 2 ^ 32"
    using lb_bounds [OF B1(1)] unat_below [of "B - 1"] by simp
  then have "lb (B - 1) < 32"
    by (rule power_less_imp_less_exp [rotated]) simp
  then have small: "unat (of_nat limit :: u32) = limit"
    unfolding unat_of_nat by (simp add: limit_def)
  have H: "unat (word_of_int (gm_HashSizeLog m) :: u32) = nat (gm_HashSizeLog m)"
    using assms(2,3) by (simp add: unsigned_of_int take_bit_int_eq_self)
  have set: "gm_SetBlockSize bs m = m\<lparr>gm_BlockSize := B,
      gm_HashSizeLog := (if (word_of_int (gm_HashSizeLog m) :: u32) < of_nat limit then gm_HashSizeLog m else int limit)\<rparr>"
    using assms(1) unfolding gm_SetBlockSize_def B_def limit_def Let_def by (auto simp: word_less_nat_alt)
  show ?thesis
  proof (cases "nat (gm_HashSizeLog m) < limit")
    case True
    then have "(2 :: nat) ^ nat (gm_HashSizeLog m) \<le> 2 ^ limit"
      by (intro power_increasing) simp_all
    then have "2 ^ nat (gm_HashSizeLog m) < 2 * unat B"
      using l by linarith
    then show ?thesis
      using True unfolding set word_less_nat_alt [of "word_of_int (gm_HashSizeLog m)"] small H min by (simp add: not_less)
  next
    case False
    then have "int limit \<le> gm_HashSizeLog m"
      using assms(2) by linarith
    then show ?thesis
      using l False unfolding set word_less_nat_alt [of "word_of_int (gm_HashSizeLog m)"] small H min by (simp add: not_less)
  qed
qed

theorem set_block_size_witness:
  "gm_BlockSize (gm_SetBlockSize 1000 new_GRZIP_METHOD) = 1000 \<and>
    2 ^ nat (gm_HashSizeLog (gm_SetBlockSize 1000 new_GRZIP_METHOD)) < (2000 :: nat)"
proof -
  let ?m = "gm_SetBlockSize 1000 new_GRZIP_METHOD"
  have "0 \<le> gm_HashSizeLog new_GRZIP_METHOD" "gm_HashSizeLog new_GRZIP_METHOD < 2 ^ 31"
    by (simp_all add: new_GRZIP_METHOD_def)
  moreover have "(1 :: u32) < 1000"
    by simp
  ultimately have s: "gm_BlockSize ?m = min 1000 (of_nat GRZ_MaxBlockSize)" "2 ^ nat (gm_HashSizeLog ?m) < 2 * unat (gm_BlockSize ?m)"
    using set_block_size [of 1000 new_GRZIP_METHOD] by blast+
  have "gm_BlockSize ?m = 1000"
    unfolding s(1) by (simp add: GRZ_MaxBlockSize_def)
  then show ?thesis
    using s(2) by simp
qed

end
