(* ===== verification/Sync_Queue.thy ===== *)
theory Sync_Queue
  imports Prelude
begin

text \<open>
  \<^verbatim>\<open>SyncQueue\<close> of \<^verbatim>\<open>Compression/MultiThreading.h\<close>: a queue in a circular array, and the event that tells waiting threads
  that it is not empty.  Every operation runs under the mutex of the queue and is one step; a \<^verbatim>\<open>Get\<close>
  that finds the queue empty is \<^verbatim>\<open>None\<close>, and the thread waits for the event before it tries again.  The interface
  is a bounded queue; the array is refined to the list of its elements.
\<close>

section \<open>The interface\<close>

locale bounded_queue =
  fixes put :: "'a \<Rightarrow> 'q \<Rightarrow> 'q"
    and get :: "'q \<Rightarrow> ('a \<times> 'q) option"
    and elems :: "'q \<Rightarrow> 'a list"
    and room :: "'q \<Rightarrow> nat"
    and ready :: "'q \<Rightarrow> bool"
    and ok :: "'q \<Rightarrow> bool"
  assumes put_elems: "ok q \<Longrightarrow> 0 < room q \<Longrightarrow> elems (put x q) = elems q @ [x]"
    and put_ok: "ok q \<Longrightarrow> 0 < room q \<Longrightarrow> ok (put x q) \<and> room q = Suc (room (put x q))"
    and get_none: "ok q \<Longrightarrow> get q = None \<longleftrightarrow> elems q = []"
    and get_some: "ok q \<Longrightarrow> get q = Some (x, q') \<Longrightarrow> elems q = x # elems q' \<and> ok q' \<and> room q' = Suc (room q)"
    and ready: "ok q \<Longrightarrow> ready q \<longleftrightarrow> elems q \<noteq> []"
begin

lemma put_all:
  "ok q \<Longrightarrow> length xs \<le> room q \<Longrightarrow>
    elems (fold put xs q) = elems q @ xs \<and> ok (fold put xs q) \<and> room q = room (fold put xs q) + length xs"
proof (induction xs arbitrary: q)
  case (Cons x xs)
  then have "0 < room q"
    by simp
  note p = put_elems [OF Cons.prems(1) this] put_ok [OF Cons.prems(1) this]
  then show ?case
    using Cons.IH [of "put x q"] Cons.prems p(2) [of x] by (simp add: p(1))
qed simp

fun get_all :: "nat \<Rightarrow> 'q \<Rightarrow> ('a list \<times> 'q) option" where
  "get_all 0 q = Some ([], q)"
| "get_all (Suc n) q = (case get q of None \<Rightarrow> None
     | Some (x, q) \<Rightarrow> map_option (\<lambda>(xs, q). (x # xs, q)) (get_all n q))"

lemma get_all_elems:
  "ok q \<Longrightarrow> n \<le> length (elems q) \<Longrightarrow>
    \<exists>q'. get_all n q = Some (take n (elems q), q') \<and> elems q' = drop n (elems q) \<and> ok q' \<and> room q' = room q + n"
proof (induction n arbitrary: q)
  case (Suc n)
  then have "get q \<noteq> None"
    using get_none by fastforce
  then obtain x q1 where g: "get q = Some (x, q1)"
    by auto
  note e = get_some [OF Suc.prems(1) g]
  then obtain q' where "get_all n q1 = Some (take n (elems q1), q')" "elems q' = drop n (elems q1)" "ok q'" "room q' = room q1 + n"
    using Suc.IH [of q1] Suc.prems by auto
  then show ?case
    using g e by simp
qed simp

lemma fifo:
  assumes "ok q" "elems q = []" "length xs \<le> room q"
  shows "\<exists>q'. get_all (length xs) (fold put xs q) = Some (xs, q') \<and> elems q' = [] \<and> ok q'"
  using get_all_elems [of "fold put xs q" "length xs"] put_all [OF assms(1,3)] assms(2) by auto

end

section \<open>The array\<close>

record 'a sync_queue =
  sq_a :: "'a list"
  sq_head :: nat
  sq_tail :: nat
  ObjectAdded :: bool

definition sq_size :: "'a sync_queue \<Rightarrow> nat" where "sq_size q = length (sq_a q)"

definition ObjectsInQueue :: "'a sync_queue \<Rightarrow> nat" where
  "ObjectsInQueue q = (sq_tail q + sq_size q - sq_head q) mod sq_size q"

text \<open>\<^verbatim>\<open>SetSize\<close>, called once; \<^verbatim>\<open>fresh\<close> is the content of the memory it gets, one element more than it has to hold.\<close>

definition SetSize :: "'a list \<Rightarrow> 'a sync_queue" where
  "SetSize fresh = \<lparr>sq_a = fresh, sq_head = 0, sq_tail = 0, ObjectAdded = False\<rparr>"

definition Put :: "'a \<Rightarrow> 'a sync_queue \<Rightarrow> 'a sync_queue" where
  "Put x q =
     (let q = (if ObjectsInQueue q = 0 then q\<lparr>ObjectAdded := True\<rparr> else q)
      in q\<lparr>sq_a := (sq_a q)[sq_tail q := x], sq_tail := (sq_tail q + 1) mod sq_size q\<rparr>)"

definition Get :: "'a sync_queue \<Rightarrow> ('a \<times> 'a sync_queue) option" where
  "Get q =
     (if ObjectsInQueue q > 0 then
        let tmp = sq_head q; q = q\<lparr>sq_head := (sq_head q + 1) mod sq_size q\<rparr>;
            q = (if ObjectsInQueue q = 0 then q\<lparr>ObjectAdded := False\<rparr> else q)
        in Some (sq_a q ! tmp, q)
      else None)"

definition sq_list :: "'a sync_queue \<Rightarrow> 'a list" where
  "sq_list q = map (\<lambda>i. sq_a q ! ((sq_head q + i) mod sq_size q)) [0..<ObjectsInQueue q]"

definition sq_room :: "'a sync_queue \<Rightarrow> nat" where
  "sq_room q = sq_size q - 1 - ObjectsInQueue q"

definition sq_ok :: "'a sync_queue \<Rightarrow> bool" where
  "sq_ok q \<longleftrightarrow> sq_head q < sq_size q \<and> sq_tail q < sq_size q \<and> (ObjectAdded q \<longleftrightarrow> ObjectsInQueue q > 0)"

section \<open>The array is a queue\<close>

text \<open>The modulus is one turn at most; all indices are below the size.\<close>

definition turn :: "nat \<Rightarrow> nat \<Rightarrow> nat" where "turn n k = (if k < n then k else k - n)"

lemma turn_mod: "k < 2 * n \<Longrightarrow> k mod n = turn n k"
  by (auto simp: turn_def le_mod_geq)

lemma objects_cases:
  assumes "sq_head q < sq_size q" "sq_tail q < sq_size q"
  shows "ObjectsInQueue q = (if sq_head q \<le> sq_tail q then sq_tail q - sq_head q else sq_tail q + sq_size q - sq_head q)"
  using assms unfolding ObjectsInQueue_def by (subst turn_mod) (auto simp: turn_def)

lemma sq_list_turn:
  assumes "sq_head q < sq_size q" "sq_tail q < sq_size q"
  shows "sq_list q = map (\<lambda>i. sq_a q ! turn (sq_size q) (sq_head q + i)) [0..<ObjectsInQueue q]"
proof -
  have "ObjectsInQueue q < sq_size q"
    unfolding objects_cases [OF assms] using assms by auto
  then show ?thesis
    using assms unfolding sq_list_def by (auto simp: turn_mod)
qed

lemma put_fields:
  "sq_a (Put x q) = (sq_a q)[sq_tail q := x]" "sq_head (Put x q) = sq_head q"
  "sq_tail (Put x q) = (sq_tail q + 1) mod sq_size q" "ObjectAdded (Put x q) \<longleftrightarrow> ObjectAdded q \<or> ObjectsInQueue q = 0"
  "sq_size (Put x q) = sq_size q"
  by (auto simp: Put_def Let_def sq_size_def)

lemma put_objects:
  assumes "sq_ok q" "0 < sq_room q"
  shows "sq_tail (Put x q) = turn (sq_size q) (sq_tail q + 1)" "turn (sq_size q) (sq_tail q + 1) < sq_size q"
    "ObjectsInQueue (Put x q) = ObjectsInQueue q + 1"
proof -
  have ht: "sq_head q < sq_size q" "sq_tail q < sq_size q"
    using assms(1) by (simp_all add: sq_ok_def)
  then show t: "sq_tail (Put x q) = turn (sq_size q) (sq_tail q + 1)" "turn (sq_size q) (sq_tail q + 1) < sq_size q"
    by (auto simp: put_fields turn_mod turn_def)
  have ht': "sq_head (Put x q) < sq_size (Put x q)" "sq_tail (Put x q) < sq_size (Put x q)"
    unfolding t(1) put_fields(2,5) using ht t(2) by simp_all
  show "ObjectsInQueue (Put x q) = ObjectsInQueue q + 1"
    using ht assms(2) unfolding sq_room_def objects_cases [OF ht] objects_cases [OF ht'] t(1) put_fields(2,5)
    by (auto simp: turn_def split: if_splits)
qed

lemma put_list:
  assumes "sq_ok q" "0 < sq_room q"
  shows "sq_list (Put x q) = sq_list q @ [x]" "sq_ok (Put x q)"
proof -
  let ?n = "sq_size q"
  note o = put_objects [OF assms]
  have ht: "sq_head q < ?n" "sq_tail q < ?n"
    using assms(1) by (simp_all add: sq_ok_def)
  show "sq_ok (Put x q)"
    using assms(1) o unfolding sq_ok_def put_fields(2,4,5) by auto
  then have ht': "sq_head (Put x q) < sq_size (Put x q)" "sq_tail (Put x q) < sq_size (Put x q)"
    by (simp_all add: sq_ok_def)
  have "turn ?n (sq_head q + i) \<noteq> sq_tail q" if "i < ObjectsInQueue q" for i
    using that ht unfolding objects_cases [OF ht] turn_def by (auto split: if_splits)
  moreover have "turn ?n (sq_head q + ObjectsInQueue q) = sq_tail q"
    using ht unfolding objects_cases [OF ht] turn_def by auto
  moreover have "sq_tail q < length (sq_a q)"
    using ht by (simp add: sq_size_def)
  ultimately show "sq_list (Put x q) = sq_list q @ [x]"
    unfolding sq_list_turn [OF ht'] sq_list_turn [OF ht] o(3) put_fields(1,2,5) by (simp, fastforce)
qed

lemma get_list:
  assumes "sq_ok q" "Get q = Some (x, q')"
  shows "sq_list q = x # sq_list q'" "sq_ok q'" "ObjectsInQueue q = Suc (ObjectsInQueue q')" "sq_size q' = sq_size q"
proof -
  let ?n = "sq_size q"
  define q1 where "q1 = q\<lparr>sq_head := (sq_head q + 1) mod ?n\<rparr>"
  have pos: "ObjectsInQueue q > 0"
    using assms(2) by (auto simp: Get_def split: if_splits)
  have ht: "sq_head q < ?n" "sq_tail q < ?n"
    using assms(1) by (simp_all add: sq_ok_def)
  have x: "x = sq_a q ! sq_head q" and q': "q' = (if ObjectsInQueue q1 = 0 then q1\<lparr>ObjectAdded := False\<rparr> else q1)"
    using assms(2) pos by (auto simp: Get_def q1_def Let_def split: if_splits)
  have f: "sq_size q' = ?n" "sq_a q' = sq_a q" "sq_head q' = turn ?n (sq_head q + 1)" "sq_tail q' = sq_tail q" "ObjectsInQueue q' = ObjectsInQueue q1"
    using ht unfolding q' by (auto simp: q1_def sq_size_def ObjectsInQueue_def turn_mod)
  show "sq_size q' = sq_size q"
    by (rule f)
  have ht': "sq_head q' < sq_size q'" "sq_tail q' < sq_size q'"
    using ht unfolding f by (auto simp: turn_def)
  show o: "ObjectsInQueue q = Suc (ObjectsInQueue q')"
    using pos ht unfolding objects_cases [OF ht] objects_cases [OF ht'] f turn_def by (auto split: if_splits)
  have "ObjectAdded q' \<longleftrightarrow> ObjectsInQueue q' > 0"
    using assms(1) pos unfolding f(5) unfolding q' by (auto simp: q1_def sq_ok_def)
  then show "sq_ok q'"
    using ht' by (simp add: sq_ok_def)
  have "turn ?n (turn ?n (sq_head q + 1) + i) = turn ?n (sq_head q + Suc i)" if "i < ObjectsInQueue q'" for i
  proof -
    have "Suc i < ObjectsInQueue q"
      using that o by simp
    then show ?thesis
      using ht unfolding objects_cases [OF ht] turn_def by (auto split: if_splits)
  qed
  then have "sq_list q' = map (\<lambda>i. sq_a q ! turn ?n (sq_head q + Suc i)) [0..<ObjectsInQueue q']"
    unfolding sq_list_turn [OF ht'] f(1-4) by simp
  moreover have "turn ?n (sq_head q + 0) = sq_head q"
    using ht by (simp add: turn_def)
  ultimately show "sq_list q = x # sq_list q'"
    unfolding sq_list_turn [OF ht] o x
    by (simp add: upt_conv_Cons map_Suc_upt [symmetric] comp_def del: upt_Suc)
qed

interpretation queue: bounded_queue Put Get sq_list sq_room ObjectAdded sq_ok
proof unfold_locales
  fix q :: "'a sync_queue" and x q'
  assume ok: "sq_ok q"
  have len: "length (sq_list q) = ObjectsInQueue q"
    by (simp add: sq_list_def)
  show "sq_list (Put x q) = sq_list q @ [x]" if "0 < sq_room q"
    using put_list(1) [OF ok that] .
  show "sq_ok (Put x q) \<and> sq_room q = Suc (sq_room (Put x q))" if "0 < sq_room q"
    using put_list(2) [OF ok that] put_objects(3) [OF ok that, of x] that by (simp add: sq_room_def put_fields)
  show "Get q = None \<longleftrightarrow> sq_list q = []"
    using len by (auto simp: Get_def Let_def)
  show "sq_list q = x # sq_list q' \<and> sq_ok q' \<and> sq_room q' = Suc (sq_room q)" if "Get q = Some (x, q')"
  proof -
    have "ObjectsInQueue q < sq_size q"
      using ok objects_cases [of q] by (auto simp: sq_ok_def)
    then show ?thesis
      using get_list [OF ok that] by (simp add: sq_room_def)
  qed
  show "ObjectAdded q \<longleftrightarrow> sq_list q \<noteq> []"
    using ok len by (auto simp: sq_ok_def)
qed

lemma set_size: "fresh \<noteq> [] \<Longrightarrow> sq_ok (SetSize fresh) \<and> sq_list (SetSize fresh) = [] \<and> sq_room (SetSize fresh) = length fresh - 1"
  by (simp add: SetSize_def sq_ok_def sq_list_def sq_room_def ObjectsInQueue_def sq_size_def)

section \<open>Properties\<close>

text \<open>The states that operations lead to when \<^verbatim>\<open>Put\<close> is only called while there is room.\<close>

inductive queue_reachable :: "'a list \<Rightarrow> 'a sync_queue \<Rightarrow> 'a list \<Rightarrow> 'a list \<Rightarrow> bool" for fresh where
  "queue_reachable fresh (SetSize fresh) [] []"
| "queue_reachable fresh q ins outs \<Longrightarrow> length (ins) - length outs < length fresh - 1 \<Longrightarrow> queue_reachable fresh (Put x q) (ins @ [x]) outs"
| "queue_reachable fresh q ins outs \<Longrightarrow> Get q = Some (x, q') \<Longrightarrow> queue_reachable fresh q' ins (outs @ [x])"

lemma queue_contents:
  assumes "queue_reachable fresh q ins outs" "fresh \<noteq> []"
  shows "sq_ok q \<and> ins = outs @ sq_list q \<and> sq_room q + length (sq_list q) = length fresh - 1"
  using assms
proof (induction rule: queue_reachable.induct)
  case 1
  then show ?case
    using set_size [of fresh] by simp
next
  case (2 q ins outs x)
  then have ok: "sq_ok q" "ins = outs @ sq_list q" "sq_room q + length (sq_list q) = length fresh - 1"
    by simp_all
  then have "0 < sq_room q"
    using 2(2) by simp
  then show ?case
    using queue.put_elems [OF ok(1)] queue.put_ok [OF ok(1), of x] ok by simp
next
  case (3 q ins outs x q')
  then show ?case
    using queue.get_some [of q x q'] by auto
qed

text \<open>
  C8: a queue made for \<^verbatim>\<open>n\<close> objects hands them out in the order they were put in, whatever the order of the
  operations and however often the indices wrap around the array, as long as no object is put in a full queue; what was put in
  and not handed out is what the array holds, and the event is set exactly while there is such an object, so that no
  thread sleeps while it could go on.
\<close>
theorem sync_queue_fifo:
  assumes "queue_reachable fresh q ins outs" "fresh \<noteq> []"
  shows "ins = outs @ sq_list q \<and> length ins - length outs \<le> length fresh - 1 \<and>
    (ObjectAdded q \<longleftrightarrow> length outs < length ins) \<and> (Get q = None \<longleftrightarrow> length outs = length ins)"
  using queue_contents [OF assms] queue.ready [of q] queue.get_none [of q] by auto

theorem sync_queue_fifo_witness:
  "\<exists>q. queue_reachable [0, 0, 0 :: nat] q [7, 8] [7] \<and> ObjectAdded q \<and> sq_list q = [8]"
proof -
  let ?f = "[0, 0, 0 :: nat]"
  have "queue_reachable ?f (Put 8 (Put 7 (SetSize ?f))) (([] @ [7]) @ [8]) []"
    by (intro queue_reachable.intros) simp_all
  moreover have "Get (Put 8 (Put 7 (SetSize ?f))) = Some (7, \<lparr>sq_a = [7, 8, 0], sq_head = 1, sq_tail = 2, ObjectAdded = True\<rparr>)"
    by code_simp
  ultimately have "queue_reachable ?f \<lparr>sq_a = [7, 8, 0], sq_head = 1, sq_tail = 2, ObjectAdded = True\<rparr> [7, 8] [7]"
    using queue_reachable.intros(3) by fastforce
  then show ?thesis
    using sync_queue_fifo [of ?f _ "[7, 8]" "[7]"] by fastforce
qed

end
