(* ===== verification/Multi_Threading.thy ===== *)
theory Multi_Threading
  imports Sync_Queue
begin

text \<open>
  \<^verbatim>\<open>MTCompressor\<close> of \<^verbatim>\<open>Compression/MultiThreading.h\<close> with the \<^verbatim>\<open>main_cycle\<close> of the compressor and of the
  decompressor of \<^verbatim>\<open>Compression/GRZip/C_GRZip.cpp\<close>: the thread that reads blocks, \<^verbatim>\<open>NumThreads\<close> workers and the writer, as one step relation.  A step is
  what a thread does between two operations that other threads can see: waiting for and signalling an
  event, an operation on a queue (\<^verbatim>\<open>Sync_Queue\<close>), taking and releasing a compression slot, a callback.  An event that
  resets itself is a flag; a job is its index in the array \<^verbatim>\<open>jobs\<close>.
\<close>

section \<open>State\<close>

datatype main_pc =
    M_Look                 \<comment> \<open>in the decompressor, before the callback that reads the header of a block\<close>
  | M_Get                  \<comment> \<open>before \<^verbatim>\<open>FreeJobs.Get\<close>\<close>
  | M_Read nat             \<comment> \<open>before the callback that reads into the job\<close>
  | M_Put nat              \<comment> \<open>before \<^verbatim>\<open>WriterJobs.Put\<close>\<close>
  | M_Start nat            \<comment> \<open>before \<^verbatim>\<open>StartOperation.Signal\<close>\<close>
  | M_Last                 \<comment> \<open>\<^verbatim>\<open>main_cycle\<close> has returned, before \<^verbatim>\<open>WriterJobs.Put(NULL)\<close>\<close>
  | M_Wait                 \<comment> \<open>before \<^verbatim>\<open>Finished.Lock\<close>\<close>
  | M_Join nat             \<comment> \<open>in \<^verbatim>\<open>WaitJobsFinished\<close>, before the job is told to end\<close>
  | M_JoinWait nat         \<comment> \<open>before \<^verbatim>\<open>Finished.Lock\<close> of the job\<close>
  | M_Return

datatype writer_pc = W_None | W_Get | W_Wait nat | W_Write nat | W_Free nat | W_End | W_Gone

datatype worker_pc = P_None | P_Wait | P_Slot | P_Process | P_Release | P_Signal | P_End | P_Gone

record ('b, 'o) mt =
  errcode :: int
  todo :: "(int \<times> 'b) list"          \<comment> \<open>the blocks still to be read, with their sizes\<close>
  FreeJobs :: "nat sync_queue"
  WriterJobs :: "nat option sync_queue"
  InSize :: "nat \<Rightarrow> int"
  InBuf :: "nat \<Rightarrow> 'b"
  Out :: "nat \<Rightarrow> int \<times> 'o"           \<comment> \<open>\<^verbatim>\<open>OutSize\<close> and \<^verbatim>\<open>OutBuf\<close>\<close>
  StartOperation :: "nat \<Rightarrow> bool"
  OperationFinished :: "nat \<Rightarrow> bool"
  JobFinished :: "nat \<Rightarrow> bool"
  LimitThreads :: nat
  Finished :: bool
  main :: main_pc
  writer :: writer_pc
  worker :: "nat \<Rightarrow> worker_pc"
  written :: "(int \<times> 'o) list"       \<comment> \<open>the calls of the callback with \<^verbatim>\<open>write\<close>, in order\<close>

text \<open>
  What the code is given: the number of compression threads, which jobs' \<^verbatim>\<open>init\<close> succeeds, \<^verbatim>\<open>process\<close>, the result of the callback
  that writes, and what \<^verbatim>\<open>main_cycle\<close> returns when there is nothing more to read (0 or the error of the read).
  The decompressor's cycle reads the header of a block before it takes a job for the rest; its end shows when it reads a header,
  or with a job in its hands.
\<close>

record ('b, 'o) mt_env =
  CompressionThreads :: nat
  init_ok :: "nat \<Rightarrow> bool"
  process :: "int \<Rightarrow> 'b \<Rightarrow> int \<times> 'o"
  write_result :: "int \<times> 'o \<Rightarrow> int"
  end_code :: int
  looks_ahead :: bool
  end_in_header :: bool

definition NumThreads :: "('b, 'o) mt_env \<Rightarrow> nat" where
  "NumThreads E = CompressionThreads E + CompressionThreads E div 2 + 1"

definition FREEARC_ERRCODE_NOT_ENOUGH_MEMORY :: int where "FREEARC_ERRCODE_NOT_ENOUGH_MEMORY = -5"

definition SetErrCode :: "int \<Rightarrow> ('b, 'o) mt \<Rightarrow> ('b, 'o) mt" where
  "SetErrCode e s = (if e < 0 \<and> errcode s = 0 then s\<lparr>errcode := e\<rparr> else s)"

definition alive :: "('b, 'o) mt_env \<Rightarrow> nat list" where
  "alive E = filter (init_ok E) [0..<NumThreads E]"

text \<open>
  \<^verbatim>\<open>CreateJobs\<close> and the start of \<^verbatim>\<open>run\<close>.  A job whose \<^verbatim>\<open>init\<close> fails gets no thread; \<^verbatim>\<open>done\<close> returns 0 and sets no error.
  Without any job the main cycle and the writer are skipped.
\<close>

definition CreateJobs :: "('b, 'o) mt_env \<Rightarrow> (int \<times> 'b) list \<Rightarrow> ('b, 'o) mt" where
  "CreateJobs E blocks =
     (let n = NumThreads E; none = (alive E = [])
      in \<lparr>errcode = (if none then FREEARC_ERRCODE_NOT_ENOUGH_MEMORY else 0), todo = blocks,
          FreeJobs = fold Put (alive E) (SetSize (replicate (n + 2) 0)), WriterJobs = SetSize (replicate (n + 2) None),
          InSize = (\<lambda>_. 0), InBuf = (\<lambda>_. undefined), Out = (\<lambda>_. undefined),
          StartOperation = (\<lambda>_. False), OperationFinished = (\<lambda>_. False), JobFinished = (\<lambda>_. False),
          LimitThreads = CompressionThreads E, Finished = False,
          main = (if none then M_Join 0 else if looks_ahead E then M_Look else M_Get), writer = (if none then W_None else W_Get),
          worker = (\<lambda>j. if j \<in> set (alive E) then P_Wait else P_None), written = []\<rparr>)"

section \<open>Steps\<close>

inductive mt_step :: "('b, 'o) mt_env \<Rightarrow> ('b, 'o) mt \<Rightarrow> ('b, 'o) mt \<Rightarrow> bool" for E where
\<comment> \<open>the main cycle\<close>
  look_end: "main s = M_Look \<Longrightarrow> todo s = [] \<Longrightarrow> end_in_header E \<Longrightarrow> mt_step E s ((SetErrCode (end_code E) s)\<lparr>main := M_Last\<rparr>)"
| look_more: "main s = M_Look \<Longrightarrow> todo s \<noteq> [] \<or> \<not> end_in_header E \<Longrightarrow> mt_step E s (s\<lparr>main := M_Get\<rparr>)"
| get_job: "main s = M_Get \<Longrightarrow> Get (FreeJobs s) = Some (j, q) \<Longrightarrow> mt_step E s (s\<lparr>FreeJobs := q, main := M_Read j\<rparr>)"
| read_end: "main s = M_Read j \<Longrightarrow> todo s = [] \<Longrightarrow> mt_step E s ((SetErrCode (end_code E) s)\<lparr>main := M_Last\<rparr>)"
| read_stop: "main s = M_Read j \<Longrightarrow> todo s = (n, b) # bs \<Longrightarrow> errcode s < 0 \<Longrightarrow> \<not> looks_ahead E \<Longrightarrow> mt_step E s (s\<lparr>main := M_Last\<rparr>)"
| read_block: "main s = M_Read j \<Longrightarrow> todo s = (n, b) # bs \<Longrightarrow> \<not> errcode s < 0 \<or> looks_ahead E \<Longrightarrow>
    mt_step E s (s\<lparr>todo := bs, InSize := (InSize s)(j := n), InBuf := (InBuf s)(j := b), main := M_Put j\<rparr>)"
| put_job: "main s = M_Put j \<Longrightarrow> mt_step E s (s\<lparr>WriterJobs := Put (Some j) (WriterJobs s), main := M_Start j\<rparr>)"
| start_job: "main s = M_Start j \<Longrightarrow> mt_step E s (s\<lparr>StartOperation := (StartOperation s)(j := True), main := (if looks_ahead E then M_Look else M_Get)\<rparr>)"
\<comment> \<open>the end of \<^verbatim>\<open>run\<close>\<close>
| put_null: "main s = M_Last \<Longrightarrow> mt_step E s (s\<lparr>WriterJobs := Put None (WriterJobs s), main := M_Wait\<rparr>)"
| wait_writer: "main s = M_Wait \<Longrightarrow> Finished s \<Longrightarrow> mt_step E s (s\<lparr>Finished := False, main := M_Join 0\<rparr>)"
| stop_job: "main s = M_Join j \<Longrightarrow> j < NumThreads E \<Longrightarrow>
    mt_step E s (s\<lparr>InSize := (InSize s)(j := 0), StartOperation := (StartOperation s)(j := True), main := M_JoinWait j\<rparr>)"
| wait_job: "main s = M_JoinWait j \<Longrightarrow> JobFinished s j \<Longrightarrow>
    mt_step E s (s\<lparr>JobFinished := (JobFinished s)(j := False), main := M_Join (Suc j)\<rparr>)"
| return: "main s = M_Join j \<Longrightarrow> \<not> j < NumThreads E \<Longrightarrow> mt_step E s (s\<lparr>main := M_Return\<rparr>)"
\<comment> \<open>\<^verbatim>\<open>WriterThread\<close>\<close>
| writer_null: "writer s = W_Get \<Longrightarrow> Get (WriterJobs s) = Some (None, q) \<Longrightarrow> mt_step E s (s\<lparr>WriterJobs := q, writer := W_End\<rparr>)"
| writer_get: "writer s = W_Get \<Longrightarrow> Get (WriterJobs s) = Some (Some j, q) \<Longrightarrow>
    mt_step E s (s\<lparr>WriterJobs := q, writer := (if InSize s j \<le> 0 then W_End else W_Wait j)\<rparr>)"
| writer_wait: "writer s = W_Wait j \<Longrightarrow> OperationFinished s j \<Longrightarrow>
    mt_step E s (s\<lparr>OperationFinished := (OperationFinished s)(j := False), writer := W_Write j\<rparr>)"
| writer_write: "writer s = W_Write j \<Longrightarrow> r = write_result E (Out s j) \<Longrightarrow>
    mt_step E s ((SetErrCode r s)\<lparr>written := written s @ [Out s j], writer := (if r < 0 then W_End else W_Free j)\<rparr>)"
| writer_free: "writer s = W_Free j \<Longrightarrow> mt_step E s (s\<lparr>FreeJobs := Put j (FreeJobs s), writer := W_Get\<rparr>)"
| writer_end: "writer s = W_End \<Longrightarrow> mt_step E s (s\<lparr>Finished := True, writer := W_Gone\<rparr>)"
\<comment> \<open>\<^verbatim>\<open>WorkerThread::run\<close>\<close>
| work_start: "j < NumThreads E \<Longrightarrow> worker s j = P_Wait \<Longrightarrow> StartOperation s j \<Longrightarrow>
    mt_step E s (s\<lparr>StartOperation := (StartOperation s)(j := False), worker := (worker s)(j := (if InSize s j \<le> 0 then P_End else P_Slot))\<rparr>)"
| work_slot: "j < NumThreads E \<Longrightarrow> worker s j = P_Slot \<Longrightarrow> LimitThreads s = Suc n \<Longrightarrow>
    mt_step E s (s\<lparr>LimitThreads := n, worker := (worker s)(j := P_Process)\<rparr>)"
| work_process: "j < NumThreads E \<Longrightarrow> worker s j = P_Process \<Longrightarrow> r = process E (InSize s j) (InBuf s j) \<Longrightarrow>
    mt_step E s ((SetErrCode (fst r) s)\<lparr>Out := (Out s)(j := r), worker := (worker s)(j := P_Release)\<rparr>)"
| work_release: "j < NumThreads E \<Longrightarrow> worker s j = P_Release \<Longrightarrow>
    mt_step E s (s\<lparr>LimitThreads := Suc (LimitThreads s), worker := (worker s)(j := P_Signal)\<rparr>)"
| work_signal: "j < NumThreads E \<Longrightarrow> worker s j = P_Signal \<Longrightarrow>
    mt_step E s (s\<lparr>OperationFinished := (OperationFinished s)(j := True), worker := (worker s)(j := P_Wait)\<rparr>)"
| work_end: "j < NumThreads E \<Longrightarrow> worker s j = P_End \<Longrightarrow>
    mt_step E s (s\<lparr>JobFinished := (JobFinished s)(j := True), worker := (worker s)(j := P_Gone)\<rparr>)"

inductive mt_run :: "('b, 'o) mt_env \<Rightarrow> (int \<times> 'b) list \<Rightarrow> nat \<Rightarrow> ('b, 'o) mt \<Rightarrow> bool" for E blocks where
  mt_start: "mt_run E blocks 0 (CreateJobs E blocks)"
| mt_go: "mt_run E blocks n s \<Longrightarrow> mt_step E s s' \<Longrightarrow> mt_run E blocks (Suc n) s'"

section \<open>Where the jobs are\<close>

fun somes :: "'a option list \<Rightarrow> 'a list" where
  "somes [] = []" | "somes (None # xs) = somes xs" | "somes (Some x # xs) = x # somes xs"

lemma somes_append [simp]: "somes (xs @ ys) = somes xs @ somes ys"
  by (induction xs rule: somes.induct) simp_all

lemma somes_length: "None \<notin> set xs \<Longrightarrow> length (somes xs) = length xs"
  by (induction xs rule: somes.induct) simp_all

text \<open>The jobs between \<^verbatim>\<open>WriterJobs.Put\<close> and the end of their write, oldest first, and those that a thread holds otherwise.\<close>

definition flight :: "('b, 'o) mt \<Rightarrow> nat list" where
  "flight s = (case writer s of W_Wait j \<Rightarrow> [j] | W_Write j \<Rightarrow> [j] | _ \<Rightarrow> []) @ somes (sq_list (WriterJobs s))"

definition held :: "('b, 'o) mt \<Rightarrow> nat list" where
  "held s = (case main s of M_Read j \<Rightarrow> [j] | M_Put j \<Rightarrow> [j] | _ \<Rightarrow> []) @ (case writer s of W_Free j \<Rightarrow> [j] | _ \<Rightarrow> [])"

definition places :: "('b, 'o) mt \<Rightarrow> nat list" where
  "places s = sq_list (FreeJobs s) @ flight s @ held s"

fun joining :: "main_pc \<Rightarrow> bool" where
  "joining (M_Join j) = True" | "joining (M_JoinWait j) = True" | "joining M_Return = True" | "joining _ = False"

fun stopped :: "writer_pc \<Rightarrow> bool" where
  "stopped W_End = True" | "stopped W_Gone = True" | "stopped W_None = True" | "stopped _ = False"

definition holds :: "nat \<Rightarrow> 'a sync_queue \<Rightarrow> bool" where
  "holds n q \<longleftrightarrow> sq_ok q \<and> sq_room q + length (sq_list q) = n"

lemma holds_put: "holds n q \<Longrightarrow> length (sq_list q) < n \<Longrightarrow> sq_list (Put x q) = sq_list q @ [x] \<and> holds n (Put x q)"
  using queue.put_elems [of q x] queue.put_ok [of q x] by (auto simp: holds_def)

lemma holds_get: "holds n q \<Longrightarrow> Get q = Some (x, q') \<Longrightarrow> sq_list q = x # sq_list q' \<and> holds n q'"
  using queue.get_some [of q x q'] by (auto simp: holds_def)

text \<open>The threads' order of events: both queues are within their sizes, and every job is in one place.\<close>

definition inv_queues :: "('b, 'o) mt_env \<Rightarrow> ('b, 'o) mt \<Rightarrow> bool" where
  "inv_queues E s \<longleftrightarrow>
     holds (Suc (NumThreads E)) (FreeJobs s) \<and> holds (Suc (NumThreads E)) (WriterJobs s) \<and>
     distinct (places s) \<and> set (places s) \<subseteq> set (alive E) \<and>
     (\<not> joining (main s) \<and> main s \<noteq> M_Wait \<longrightarrow> None \<notin> set (sq_list (WriterJobs s))) \<and>
     (main s = M_Wait \<and> \<not> stopped (writer s) \<longrightarrow>
        sq_list (WriterJobs s) \<noteq> [] \<and> last (sq_list (WriterJobs s)) = None \<and> None \<notin> set (butlast (sq_list (WriterJobs s)))) \<and>
     (joining (main s) \<longrightarrow> writer s = W_Gone \<or> writer s = W_None) \<and>
     (\<not> joining (main s) \<longrightarrow> writer s \<noteq> W_None \<and> (Finished s \<longleftrightarrow> writer s = W_Gone))"

lemma alive_length: "distinct xs \<Longrightarrow> set xs \<subseteq> set (alive E) \<Longrightarrow> length xs \<le> NumThreads E"
proof -
  assume "distinct xs" "set xs \<subseteq> set (alive E)"
  then have "card (set xs) \<le> card {..<NumThreads E}"
    by (intro card_mono) (auto simp: alive_def)
  then show ?thesis
    using \<open>distinct xs\<close> by (simp add: distinct_card)
qed

lemma holds_empty: "holds (Suc n) (SetSize (replicate (n + 2) x)) \<and> sq_list (SetSize (replicate (n + 2) x)) = []"
  using set_size [of "replicate (n + 2) x"] by (simp add: holds_def)

lemma holds_put_all:
  assumes "holds n q" "length (sq_list q) + length xs \<le> n"
  shows "holds n (fold Put xs q) \<and> sq_list (fold Put xs q) = sq_list q @ xs"
  using queue.put_all [of q xs] assms unfolding holds_def by auto

lemma alive_free:
  "holds (Suc (NumThreads E)) (fold Put (alive E) (SetSize (replicate (NumThreads E + 2) 0))) \<and>
    sq_list (fold Put (alive E) (SetSize (replicate (NumThreads E + 2) 0))) = alive E"
proof -
  have "length (alive E) \<le> NumThreads E"
    by (rule alive_length) (simp_all add: alive_def)
  then show ?thesis
    using holds_put_all [of "Suc (NumThreads E)" "SetSize (replicate (NumThreads E + 2) 0)" "alive E"] holds_empty [of "NumThreads E" "0 :: nat"]
    by auto
qed

lemma start_queues: "inv_queues E (CreateJobs E blocks)"
proof -
  define f where "f = fold Put (alive E) (SetSize (replicate (NumThreads E + 2) 0))"
  define w where "w = SetSize (replicate (NumThreads E + 2) (None :: nat option))"
  have "holds (Suc (NumThreads E)) f" "sq_list f = alive E" "holds (Suc (NumThreads E)) w" "sq_list w = []" "distinct (alive E)"
    using alive_free [of E] holds_empty [of "NumThreads E" "None :: nat option"] unfolding f_def w_def by (simp_all add: alive_def)
  then show ?thesis
    unfolding inv_queues_def CreateJobs_def Let_def places_def flight_def held_def f_def [symmetric] w_def [symmetric] by simp
qed

lemmas place_defs = places_def flight_def held_def

lemma set_err_fields [simp]:
  "todo (SetErrCode e s) = todo s" "FreeJobs (SetErrCode e s) = FreeJobs s" "WriterJobs (SetErrCode e s) = WriterJobs s"
  "InSize (SetErrCode e s) = InSize s" "InBuf (SetErrCode e s) = InBuf s" "Out (SetErrCode e s) = Out s"
  "StartOperation (SetErrCode e s) = StartOperation s" "OperationFinished (SetErrCode e s) = OperationFinished s"
  "JobFinished (SetErrCode e s) = JobFinished s" "LimitThreads (SetErrCode e s) = LimitThreads s"
  "Finished (SetErrCode e s) = Finished s" "main (SetErrCode e s) = main s" "writer (SetErrCode e s) = writer s"
  "worker (SetErrCode e s) = worker s" "written (SetErrCode e s) = written s"
  by (simp_all add: SetErrCode_def)

lemma inv_queues_D:
  assumes "inv_queues E s"
  shows "holds (Suc (NumThreads E)) (FreeJobs s)" "holds (Suc (NumThreads E)) (WriterJobs s)" "length (places s) \<le> NumThreads E"
  using assms alive_length unfolding inv_queues_def by blast+

text \<open>No thread puts anything into a queue that is full.\<close>

lemma put_lists:
  assumes "inv_queues E s"
  shows "main s = M_Put j \<Longrightarrow> sq_list (Put (Some j) (WriterJobs s)) = sq_list (WriterJobs s) @ [Some j] \<and> holds (Suc (NumThreads E)) (Put (Some j) (WriterJobs s))"
    "main s = M_Last \<Longrightarrow> sq_list (Put None (WriterJobs s)) = sq_list (WriterJobs s) @ [None] \<and> holds (Suc (NumThreads E)) (Put None (WriterJobs s))"
    "writer s = W_Free j \<Longrightarrow> sq_list (Put j (FreeJobs s)) = sq_list (FreeJobs s) @ [j] \<and> holds (Suc (NumThreads E)) (Put j (FreeJobs s))"
proof -
  note i = assms(1) [unfolded inv_queues_def] inv_queues_D [OF assms(1)]
  have "length (sq_list (WriterJobs s)) < Suc (NumThreads E)" if "main s = M_Put j \<or> main s = M_Last"
    using i that by (auto simp: place_defs somes_length)
  note p = holds_put [OF i(3) this]
  show "sq_list (Put (Some j) (WriterJobs s)) = sq_list (WriterJobs s) @ [Some j] \<and> holds (Suc (NumThreads E)) (Put (Some j) (WriterJobs s))" if "main s = M_Put j"
    using that by (intro p) simp
  show "sq_list (Put None (WriterJobs s)) = sq_list (WriterJobs s) @ [None] \<and> holds (Suc (NumThreads E)) (Put None (WriterJobs s))" if "main s = M_Last"
    using that by (intro p) simp
  show "sq_list (Put j (FreeJobs s)) = sq_list (FreeJobs s) @ [j] \<and> holds (Suc (NumThreads E)) (Put j (FreeJobs s))" if "writer s = W_Free j"
    by (rule holds_put [OF i(2)]) (use that i(4) in \<open>simp add: place_defs\<close>)
qed

lemma get_lists:
  assumes "inv_queues E s"
  shows "Get (FreeJobs s) = Some (j, q) \<Longrightarrow> sq_list (FreeJobs s) = j # sq_list q \<and> holds (Suc (NumThreads E)) q"
    "Get (WriterJobs s) = Some (x, q') \<Longrightarrow> sq_list (WriterJobs s) = x # sq_list q' \<and> holds (Suc (NumThreads E)) q'"
  by (rule holds_get [OF inv_queues_D(1) [OF assms]] holds_get [OF inv_queues_D(2) [OF assms]], assumption)+

lemma queues_put_job:
  assumes "inv_queues E s" "main s = M_Put j"
  shows "inv_queues E (s\<lparr>WriterJobs := Put (Some j) (WriterJobs s), main := M_Start j\<rparr>)"
  using assms unfolding inv_queues_def by (auto simp: place_defs put_lists(1) [OF assms])

lemma queues_put_null:
  assumes "inv_queues E s" "main s = M_Last"
  shows "inv_queues E (s\<lparr>WriterJobs := Put None (WriterJobs s), main := M_Wait\<rparr>)"
  using assms unfolding inv_queues_def by (auto simp: place_defs put_lists(2) [OF assms])

lemma queues_writer_free:
  assumes "inv_queues E s" "writer s = W_Free j"
  shows "inv_queues E (s\<lparr>FreeJobs := Put j (FreeJobs s), writer := W_Get\<rparr>)"
  using assms unfolding inv_queues_def by (auto simp: place_defs put_lists(3) [OF assms])

lemma queues_get_job:
  assumes "inv_queues E s" "main s = M_Get" "Get (FreeJobs s) = Some (j, q)"
  shows "inv_queues E (s\<lparr>FreeJobs := q, main := M_Read j\<rparr>)"
  using assms(1,2) get_lists(1) [OF assms(1,3)] unfolding inv_queues_def by (auto simp: place_defs)

lemma queues_writer_get:
  assumes "inv_queues E s" "writer s = W_Get" "Get (WriterJobs s) = Some (Some j, q)"
  shows "inv_queues E (s\<lparr>WriterJobs := q, writer := (if InSize s j \<le> 0 then W_End else W_Wait j)\<rparr>)"
  using assms(1,2) get_lists(2) [OF assms(1,3)] unfolding inv_queues_def by (auto simp: place_defs split: if_splits)

lemma queues_writer_null:
  assumes "inv_queues E s" "writer s = W_Get" "Get (WriterJobs s) = Some (None, q)"
  shows "inv_queues E (s\<lparr>WriterJobs := q, writer := W_End\<rparr>)"
  using assms(1,2) get_lists(2) [OF assms(1,3)] unfolding inv_queues_def by (auto simp: place_defs split: if_splits)

lemma step_queues:
  assumes "mt_step E s s'" "inv_queues E s"
  shows "inv_queues E s'"
  using assms(1)
proof cases
  case (put_job j)
  then show ?thesis
    using queues_put_job [OF assms(2)] by simp
next
  case put_null
  then show ?thesis
    using queues_put_null [OF assms(2)] by simp
next
  case (writer_free j)
  then show ?thesis
    using queues_writer_free [OF assms(2)] by simp
next
  case (get_job j q)
  then show ?thesis
    using queues_get_job [OF assms(2)] by simp
next
  case (writer_get j q)
  then show ?thesis
    using queues_writer_get [OF assms(2)] by simp
next
  case (writer_null q)
  then show ?thesis
    using queues_writer_null [OF assms(2)] by simp
qed (use assms(2) in \<open>auto simp: inv_queues_def place_defs\<close>)

section \<open>What the workers do\<close>

text \<open>
  The states of one job: not in flight and idle; in the queue and not yet started; started; waiting for a slot or
  computing; computed; signalled; being written.
\<close>

definition job_fine :: "bool \<Rightarrow> bool \<Rightarrow> worker_pc \<Rightarrow> bool \<Rightarrow> bool \<Rightarrow> bool \<Rightarrow> bool \<Rightarrow> bool" where
  "job_fine start op w computed flying starting writing \<longleftrightarrow>
     \<not> flying \<and> \<not> starting \<and> \<not> writing \<and> w = P_Wait \<and> \<not> start \<and> \<not> op \<or>
     flying \<and> starting \<and> \<not> writing \<and> w = P_Wait \<and> \<not> start \<and> \<not> op \<or>
     flying \<and> \<not> starting \<and> writing \<and> w = P_Wait \<and> \<not> start \<and> \<not> op \<and> computed \<or>
     flying \<and> \<not> starting \<and> \<not> writing \<and>
       (w = P_Wait \<and> start \<and> \<not> op \<or> (w = P_Slot \<or> w = P_Process) \<and> \<not> start \<and> \<not> op \<or>
        (w = P_Release \<or> w = P_Signal) \<and> \<not> start \<and> \<not> op \<and> computed \<or> w = P_Wait \<and> \<not> start \<and> op \<and> computed)"

definition result_of :: "('b, 'o) mt_env \<Rightarrow> ('b, 'o) mt \<Rightarrow> nat \<Rightarrow> int \<times> 'o" where
  "result_of E s j = process E (InSize s j) (InBuf s j)"

abbreviation fine :: "('b, 'o) mt_env \<Rightarrow> ('b, 'o) mt \<Rightarrow> nat \<Rightarrow> bool" where
  "fine E s j \<equiv> job_fine (StartOperation s j) (OperationFinished s j) (worker s j) (Out s j = result_of E s j)
     (j \<in> set (flight s)) (main s = M_Start j) (writer s = W_Write j)"

definition good :: "('b, 'o) mt_env \<Rightarrow> ('b, 'o) mt \<Rightarrow> nat \<Rightarrow> bool" where
  "good E s j \<longleftrightarrow> (j \<in> set (alive E) \<longrightarrow> fine E s j) \<and> (j \<notin> set (alive E) \<longrightarrow> worker s j = P_None) \<and>
     (j \<in> set (flight s) \<or> main s = M_Put j \<longrightarrow> InSize s j > 0)"

definition inv_jobs :: "('b, 'o) mt_env \<Rightarrow> ('b, 'o) mt \<Rightarrow> bool" where
  "inv_jobs E s \<longleftrightarrow> (\<forall>x\<in>set (todo s). fst x > 0) \<and> (\<not> joining (main s) \<longrightarrow> (\<forall>j. good E s j))"

lemma inv_places:
  assumes "inv_queues E s"
  shows "distinct (flight s)" "main s = M_Read j \<Longrightarrow> j \<notin> set (flight s)" "main s = M_Put j \<Longrightarrow> j \<notin> set (flight s)"
    "set (flight s) \<subseteq> set (alive E)" "main s = M_Read j \<Longrightarrow> j \<in> set (alive E)" "main s = M_Put j \<Longrightarrow> j \<in> set (alive E)"
  using assms by (auto simp: inv_queues_def places_def held_def)

lemma good_get_job:
  assumes "inv_queues E s" "good E s j" "\<not> joining (main s)" "\<forall>x\<in>set (todo s). fst x > 0" "main s = M_Get" "Get (FreeJobs s) = Some (k, q)"
  shows "good E (s\<lparr>FreeJobs := q, main := M_Read k\<rparr>) j"
  using assms(2,5) by (simp add: good_def flight_def result_of_def)

lemma good_read_block:
  assumes "inv_queues E s" "good E s j" "\<not> joining (main s)" "\<forall>x\<in>set (todo s). fst x > 0" "main s = M_Read k" "todo s = (n, b) # bs"
  shows "good E (s\<lparr>todo := bs, InSize := (InSize s)(k := n), InBuf := (InBuf s)(k := b), main := M_Put k\<rparr>) j"
  using assms inv_places [OF assms(1)] by (auto simp: good_def flight_def result_of_def job_fine_def)

lemma good_put_job:
  assumes "inv_queues E s" "good E s j" "\<not> joining (main s)" "\<forall>x\<in>set (todo s). fst x > 0" "main s = M_Put k"
  shows "good E (s\<lparr>WriterJobs := Put (Some k) (WriterJobs s), main := M_Start k\<rparr>) j"
  using assms(2-) inv_places(3,6) [OF assms(1,5)] by (auto simp: good_def flight_def result_of_def put_lists(1) [OF assms(1,5)] job_fine_def)

lemma good_start_job:
  assumes "inv_queues E s" "good E s j" "\<not> joining (main s)" "\<forall>x\<in>set (todo s). fst x > 0" "main s = M_Start k"
  shows "good E (s\<lparr>StartOperation := (StartOperation s)(k := True), main := (if looks_ahead E then M_Look else M_Get)\<rparr>) j"
  using assms(2-) by (auto simp: good_def flight_def result_of_def job_fine_def)

lemma good_put_null:
  assumes "inv_queues E s" "good E s j" "\<not> joining (main s)" "\<forall>x\<in>set (todo s). fst x > 0" "main s = M_Last"
  shows "good E (s\<lparr>WriterJobs := Put None (WriterJobs s), main := M_Wait\<rparr>) j"
  using assms(2-) by (simp add: good_def flight_def result_of_def put_lists(2) [OF assms(1,5)])

lemma good_writer_null:
  assumes "inv_queues E s" "good E s j" "\<not> joining (main s)" "\<forall>x\<in>set (todo s). fst x > 0" "writer s = W_Get" "Get (WriterJobs s) = Some (None, q)"
  shows "good E (s\<lparr>WriterJobs := q, writer := W_End\<rparr>) j"
  using assms(2-) by (simp add: good_def flight_def result_of_def get_lists(2) [OF assms(1,6)])

lemma good_writer_get:
  assumes "inv_queues E s" "good E s j" "\<not> joining (main s)" "\<forall>x\<in>set (todo s). fst x > 0" "writer s = W_Get" "Get (WriterJobs s) = Some (Some k, q)"
  shows "good E (s\<lparr>WriterJobs := q, writer := (if InSize s k \<le> 0 then W_End else W_Wait k)\<rparr>) j"
  using assms(2-) get_lists(2) [OF assms(1,6)] by (auto simp: good_def flight_def result_of_def)

lemma good_writer_wait:
  assumes "inv_queues E s" "good E s j" "\<not> joining (main s)" "\<forall>x\<in>set (todo s). fst x > 0" "writer s = W_Wait k" "OperationFinished s k"
  shows "good E (s\<lparr>OperationFinished := (OperationFinished s)(k := False), writer := W_Write k\<rparr>) j"
  using assms(2-) by (auto simp: good_def flight_def result_of_def job_fine_def)

lemma good_writer_write:
  assumes "inv_queues E s" "good E s j" "\<not> joining (main s)" "\<forall>x\<in>set (todo s). fst x > 0" "writer s = W_Write k"
  shows "good E ((SetErrCode r s)\<lparr>written := written s @ [Out s k], writer := (if r < 0 then W_End else W_Free k)\<rparr>) j"
  using assms(2-) inv_places(1) [OF assms(1)] by (auto simp: good_def flight_def result_of_def job_fine_def)

lemma good_writer_free:
  assumes "inv_queues E s" "good E s j" "\<not> joining (main s)" "\<forall>x\<in>set (todo s). fst x > 0" "writer s = W_Free k"
  shows "good E (s\<lparr>FreeJobs := Put k (FreeJobs s), writer := W_Get\<rparr>) j"
  using assms(2-) by (simp add: good_def flight_def result_of_def)

lemma good_work_process:
  assumes "inv_queues E s" "good E s j" "\<not> joining (main s)" "\<forall>x\<in>set (todo s). fst x > 0" "worker s k = P_Process"
  shows "good E ((SetErrCode e s)\<lparr>Out := (Out s)(k := process E (InSize s k) (InBuf s k)), worker := (worker s)(k := P_Release)\<rparr>) j"
  using assms(2-) by (auto simp: good_def flight_def result_of_def job_fine_def)

lemma good_work_slot:
  assumes "inv_queues E s" "good E s j" "\<not> joining (main s)" "\<forall>x\<in>set (todo s). fst x > 0" "worker s k = P_Slot"
  shows "good E (s\<lparr>LimitThreads := n, worker := (worker s)(k := P_Process)\<rparr>) j"
  using assms(2-) by (auto simp: good_def flight_def result_of_def job_fine_def)

lemma good_work_signal:
  assumes "inv_queues E s" "good E s j" "\<not> joining (main s)" "\<forall>x\<in>set (todo s). fst x > 0" "worker s k = P_Signal"
  shows "good E (s\<lparr>OperationFinished := (OperationFinished s)(k := True), worker := (worker s)(k := P_Wait)\<rparr>) j"
  using assms(2-) by (auto simp: good_def flight_def result_of_def job_fine_def)

lemma good_work_start:
  assumes "inv_queues E s" "good E s j" "\<not> joining (main s)" "\<forall>x\<in>set (todo s). fst x > 0" "worker s k = P_Wait" "StartOperation s k"
  shows "good E (s\<lparr>StartOperation := (StartOperation s)(k := False), worker := (worker s)(k := (if InSize s k \<le> 0 then P_End else P_Slot))\<rparr>) j"
  using assms(2-) by (auto simp: good_def flight_def result_of_def job_fine_def split: if_splits)

lemma good_step:
  assumes "mt_step E s s'" "inv_queues E s" "good E s j" "\<not> joining (main s)" "\<forall>x\<in>set (todo s). fst x > 0"
  shows "joining (main s') \<or> good E s' j"
  using assms(1)
proof cases
  case (get_job k q)
  then show ?thesis
    using good_get_job [OF assms(2-5)] by simp
next
  case (read_block k n b bs)
  then show ?thesis
    using good_read_block [OF assms(2-5)] by simp
next
  case (put_job k)
  then show ?thesis
    using good_put_job [OF assms(2-5)] by simp
next
  case (start_job k)
  then show ?thesis
    using good_start_job [OF assms(2-5)] by simp
next
  case put_null
  then show ?thesis
    using good_put_null [OF assms(2-5)] by simp
next
  case (writer_null q)
  then show ?thesis
    using good_writer_null [OF assms(2-5)] by simp
next
  case (writer_get k q)
  then show ?thesis
    using good_writer_get [OF assms(2-5)] by simp
next
  case (writer_wait k)
  then show ?thesis
    using good_writer_wait [OF assms(2-5)] by simp
next
  case (writer_write k)
  then show ?thesis
    using good_writer_write [OF assms(2-5)] by simp
next
  case (writer_free k)
  then show ?thesis
    using good_writer_free [OF assms(2-5)] by simp
next
  case (work_process k r)
  then show ?thesis
    using good_work_process [OF assms(2-5)] by simp
next
  case (work_slot k n)
  then show ?thesis
    using good_work_slot [OF assms(2-5)] by simp
next
  case (work_signal k)
  then show ?thesis
    using good_work_signal [OF assms(2-5)] by simp
next
  case (work_start k)
  then show ?thesis
    using good_work_start [OF assms(2-5)] by simp
qed (use assms(3-4) in \<open>auto simp: good_def flight_def result_of_def job_fine_def\<close>)

lemma step_jobs:
  assumes "mt_step E s s'" "inv_queues E s" "inv_jobs E s"
  shows "inv_jobs E s'"
proof -
  have "\<forall>x\<in>set (todo s'). fst x > 0"
    using assms(1,3) by cases (auto simp: inv_jobs_def)
  moreover have "joining (main s')" if "joining (main s)"
    using assms(1) that by cases auto
  ultimately show ?thesis
    using good_step [OF assms(1,2)] assms(3) unfolding inv_jobs_def by blast
qed

lemma start_jobs:
  assumes "\<forall>x\<in>set blocks. fst x > 0"
  shows "inv_jobs E (CreateJobs E blocks)"
proof -
  define f where "f = fold Put (alive E) (SetSize (replicate (NumThreads E + 2) 0))"
  define w where "w = SetSize (replicate (NumThreads E + 2) (None :: nat option))"
  have "sq_list w = []"
    using holds_empty [of "NumThreads E" "None :: nat option"] unfolding w_def by simp
  then show ?thesis
    using assms unfolding inv_jobs_def good_def CreateJobs_def Let_def flight_def f_def [symmetric] w_def [symmetric]
    by (simp add: job_fine_def)
qed

section \<open>What is written\<close>

text \<open>The results that the writer has still to write.\<close>

definition pending :: "('b, 'o) mt_env \<Rightarrow> ('b, 'o) mt \<Rightarrow> (int \<times> 'o) list" where
  "pending E s = map (result_of E s) (flight s) @ map (result_of E s) (case main s of M_Put j \<Rightarrow> [j] | _ \<Rightarrow> []) @
     map (\<lambda>(n, b). process E n b) (todo s)"

lemma result_of_fun: "result_of E s = (\<lambda>j. process E (InSize s j) (InBuf s j))"
  by (simp add: result_of_def fun_eq_iff)

definition results :: "('b, 'o) mt_env \<Rightarrow> (int \<times> 'b) list \<Rightarrow> (int \<times> 'o) list" where
  "results E blocks = map (\<lambda>(n, b). process E n b) blocks"

definition inv_data :: "('b, 'o) mt_env \<Rightarrow> (int \<times> 'b) list \<Rightarrow> ('b, 'o) mt \<Rightarrow> bool" where
  "inv_data E blocks s \<longleftrightarrow> (\<exists>rest. written s @ rest = results E blocks) \<and>
     (\<not> stopped (writer s) \<longrightarrow> written s @ pending E s = results E blocks)"

lemma start_data: "inv_data E blocks (CreateJobs E blocks)"
  using holds_empty [of "NumThreads E" "None :: nat option"]
  by (auto simp: inv_data_def pending_def flight_def CreateJobs_def Let_def results_def)

lemma pending_read:
  assumes "inv_queues E s" "main s = M_Read k" "todo s = (n, b) # bs"
  shows "pending E (s\<lparr>todo := bs, InSize := (InSize s)(k := n), InBuf := (InBuf s)(k := b), main := M_Put k\<rparr>) = pending E s"
proof -
  let ?s = "s\<lparr>todo := bs, InSize := (InSize s)(k := n), InBuf := (InBuf s)(k := b), main := M_Put k\<rparr>"
  have "flight ?s = flight s" "map (result_of E ?s) (flight s) = map (result_of E s) (flight s)"
    using inv_places(2) [OF assms(1,2)] by (auto simp: flight_def result_of_def)
  then show ?thesis
    using assms(2,3) by (simp add: pending_def result_of_def)
qed

lemma data_write:
  assumes "inv_data E blocks s" "inv_queues E s" "good E s k" "writer s = W_Write k"
  shows "inv_data E blocks ((SetErrCode r s)\<lparr>written := written s @ [Out s k], writer := (if r < 0 then W_End else W_Free k)\<rparr>)"
proof -
  let ?s = "(SetErrCode r s)\<lparr>written := written s @ [Out s k], writer := (if r < 0 then W_End else W_Free k)\<rparr>"
  have k: "k \<in> set (alive E)"
    using assms(4) inv_places(4) [OF assms(2)] by (auto simp: flight_def)
  then have "Out s k = result_of E s k"
    using assms(3,4) by (auto simp: good_def job_fine_def)
  then have "written ?s @ pending E ?s = written s @ pending E s"
    using assms(4) by (simp add: pending_def flight_def result_of_fun)
  then show ?thesis
    using assms(1,4) unfolding inv_data_def by fastforce
qed

lemma step_data:
  assumes "mt_step E s s'" "inv_queues E s" "inv_jobs E s" "inv_data E blocks s"
  shows "inv_data E blocks s'"
  using assms(1)
proof cases
  case (read_block k n b bs)
  then show ?thesis
    using assms(4) pending_read [OF assms(2) read_block(2,3)] by (simp add: inv_data_def)
next
  case (writer_write k r)
  then have "\<not> joining (main s)"
    using assms(2) by (auto simp: inv_queues_def)
  then show ?thesis
    using data_write [OF assms(4,2) _ writer_write(2)] assms(3) writer_write by (simp add: inv_jobs_def)
next
  case (put_job k)
  then show ?thesis
    using assms(4) by (simp add: inv_data_def pending_def flight_def result_of_fun put_lists(1) [OF assms(2)])
next
  case put_null
  then show ?thesis
    using assms(4) by (simp add: inv_data_def pending_def flight_def result_of_fun put_lists(2) [OF assms(2)])
next
  case (writer_get k q)
  then show ?thesis
    using assms(4) get_lists(2) [OF assms(2)] by (auto simp: inv_data_def pending_def flight_def result_of_fun)
next
  case (stop_job k)
  then show ?thesis
    using assms(2,4) by (auto simp: inv_data_def inv_queues_def)
qed (use assms(4) in \<open>auto simp: inv_data_def pending_def flight_def result_of_fun\<close>)

section \<open>Slots\<close>

lemma sum_one:
  fixes f g :: "nat \<Rightarrow> nat"
  assumes "k < n" "\<And>j. j \<noteq> k \<Longrightarrow> f j = g j"
  shows "sum f {..<n} + g k = sum g {..<n} + f k"
proof -
  have "sum h {..<n} = h k + sum h ({..<n} - {k})" for h :: "nat \<Rightarrow> nat"
    using assms(1) by (simp add: sum.remove [of "{..<n}" k])
  moreover have "sum f ({..<n} - {k}) = sum g ({..<n} - {k})"
    using assms(2) by (intro sum.cong) auto
  ultimately show ?thesis
    by simp
qed

fun busy :: "worker_pc \<Rightarrow> nat" where
  "busy P_Process = 1" | "busy P_Release = 1" | "busy _ = 0"

definition inv_slots :: "('b, 'o) mt_env \<Rightarrow> ('b, 'o) mt \<Rightarrow> bool" where
  "inv_slots E s \<longleftrightarrow> LimitThreads s + (\<Sum>j<NumThreads E. busy (worker s j)) = CompressionThreads E"

lemma busy_update:
  fixes w :: "nat \<Rightarrow> worker_pc"
  shows "k < n \<Longrightarrow> (\<Sum>j<n. busy ((w(k := p)) j)) + busy (w k) = (\<Sum>j<n. busy (w j)) + busy p"
  using sum_one [of k n "\<lambda>j. busy ((w(k := p)) j)" "\<lambda>j. busy (w j)"] by simp

lemma step_slots:
  assumes "mt_step E s s'" "inv_slots E s"
  shows "inv_slots E s'"
  using assms(1)
proof cases
  case (work_start k)
  then show ?thesis
    using assms(2) busy_update [of k "NumThreads E" "worker s" "if InSize s k \<le> 0 then P_End else P_Slot"]
    by (auto simp: inv_slots_def)
next
  case (work_slot k n)
  then show ?thesis
    using assms(2) busy_update [of k "NumThreads E" "worker s" P_Process] by (simp add: inv_slots_def)
next
  case (work_process k r)
  then show ?thesis
    using assms(2) busy_update [of k "NumThreads E" "worker s" P_Release] by (simp add: inv_slots_def)
next
  case (work_release k)
  then show ?thesis
    using assms(2) busy_update [of k "NumThreads E" "worker s" P_Signal] by (simp add: inv_slots_def)
next
  case (work_signal k)
  then show ?thesis
    using assms(2) busy_update [of k "NumThreads E" "worker s" P_Wait] by (simp add: inv_slots_def)
next
  case (work_end k)
  then show ?thesis
    using assms(2) busy_update [of k "NumThreads E" "worker s" P_Gone] by (simp add: inv_slots_def)
qed (use assms(2) in \<open>auto simp: inv_slots_def\<close>)

lemma start_slots: "inv_slots E (CreateJobs E blocks)"
proof -
  have "busy (if j \<in> set (alive E) then P_Wait else P_None) = 0" for j
    by simp
  then show ?thesis
    by (simp add: inv_slots_def CreateJobs_def Let_def del: busy.simps)
qed

section \<open>The end of a run\<close>

text \<open>
  When no write has failed, the writer only stops at the \<^verbatim>\<open>NULL\<close> that follows all jobs; every job is then free or held until
  the main cycle gives one up.  Without any error everything has been read and written by then.
\<close>

definition no_failure :: "('b, 'o) mt_env \<Rightarrow> ('b, 'o) mt \<Rightarrow> bool" where
  "no_failure E s \<longleftrightarrow> (\<forall>x. write_result E x \<ge> 0) \<or> errcode s = 0"

definition inv_end :: "('b, 'o) mt_env \<Rightarrow> (int \<times> 'b) list \<Rightarrow> ('b, 'o) mt \<Rightarrow> bool" where
  "inv_end E blocks s \<longleftrightarrow> errcode s \<le> 0 \<and>
     (no_failure E s \<longrightarrow>
       (stopped (writer s) \<and> \<not> joining (main s) \<longrightarrow> main s = M_Wait \<and> sq_list (WriterJobs s) = []) \<and>
       (\<not> joining (main s) \<and> main s \<noteq> M_Last \<and> main s \<noteq> M_Wait \<longrightarrow> set (alive E) \<subseteq> set (places s))) \<and>
     (errcode s = 0 \<longrightarrow>
       (joining (main s) \<or> main s = M_Last \<or> main s = M_Wait \<longrightarrow> todo s = []) \<and>
       (stopped (writer s) \<longrightarrow> written s @ results E (todo s) = results E blocks))"

lemma set_err_code: "errcode s \<le> 0 \<Longrightarrow> errcode (SetErrCode e s) \<le> 0"
  "errcode s \<le> 0 \<Longrightarrow> errcode (SetErrCode e s) = 0 \<longleftrightarrow> errcode s = 0 \<and> 0 \<le> e"
  by (auto simp: SetErrCode_def)

lemma start_end: "inv_end E blocks (CreateJobs E blocks)"
proof -
  define f where "f = fold Put (alive E) (SetSize (replicate (NumThreads E + 2) 0))"
  define w where "w = SetSize (replicate (NumThreads E + 2) (None :: nat option))"
  have "sq_list w = []" "sq_list f = alive E"
    using holds_empty [of "NumThreads E" "None :: nat option"] alive_free [of E] unfolding w_def f_def by simp_all
  then show ?thesis
    unfolding inv_end_def CreateJobs_def Let_def places_def flight_def f_def [symmetric] w_def [symmetric]
    by (simp add: FREEARC_ERRCODE_NOT_ENOUGH_MEMORY_def)
qed

lemma end_null:
  assumes "inv_queues E s" "inv_data E blocks s" "inv_end E blocks s" "writer s = W_Get" "Get (WriterJobs s) = Some (None, q)"
  shows "inv_end E blocks (s\<lparr>WriterJobs := q, writer := W_End\<rparr>)"
proof -
  note q = get_lists(2) [OF assms(1,5)]
  have m: "main s = M_Wait" "sq_list q = []"
    using assms(1,4) q by (auto simp: inv_queues_def split: if_splits)
  then have "pending E s = results E (todo s)"
    using assms(4) q by (simp add: pending_def flight_def results_def)
  then show ?thesis
    using assms(2,3,4) m by (auto simp: inv_end_def inv_data_def no_failure_def)
qed

lemma end_get:
  assumes "inv_queues E s" "inv_jobs E s" "inv_end E blocks s" "writer s = W_Get" "Get (WriterJobs s) = Some (Some k, q)"
  shows "inv_end E blocks (s\<lparr>WriterJobs := q, writer := (if InSize s k \<le> 0 then W_End else W_Wait k)\<rparr>)"
proof -
  note q = get_lists(2) [OF assms(1,5)]
  have "\<not> joining (main s)"
    using assms(1,4) by (auto simp: inv_queues_def)
  then have "InSize s k > 0"
    using assms(2) q by (auto simp: inv_jobs_def good_def flight_def)
  then show ?thesis
    using assms(3,4) q by (auto simp: inv_end_def no_failure_def place_defs)
qed

lemma end_get_job:
  assumes "inv_queues E s" "inv_end E blocks s" "main s = M_Get" "Get (FreeJobs s) = Some (j, q)"
  shows "inv_end E blocks (s\<lparr>FreeJobs := q, main := M_Read j\<rparr>)"
proof -
  have "set (places (s\<lparr>FreeJobs := q, main := M_Read j\<rparr>)) = set (places s)"
    using assms(3) get_lists(1) [OF assms(1,4)] by (auto simp: place_defs)
  then show ?thesis
    using assms(2,3) by (auto simp: inv_end_def no_failure_def)
qed

lemma end_put_job:
  assumes "inv_queues E s" "inv_end E blocks s" "main s = M_Put j"
  shows "inv_end E blocks (s\<lparr>WriterJobs := Put (Some j) (WriterJobs s), main := M_Start j\<rparr>)"
proof -
  have "set (places (s\<lparr>WriterJobs := Put (Some j) (WriterJobs s), main := M_Start j\<rparr>)) = set (places s)"
    using assms(3) put_lists(1) [OF assms(1,3)] by (auto simp: place_defs)
  then show ?thesis
    using assms(2,3) by (auto simp: inv_end_def no_failure_def)
qed

lemma end_free:
  assumes "inv_queues E s" "inv_end E blocks s" "writer s = W_Free j"
  shows "inv_end E blocks (s\<lparr>FreeJobs := Put j (FreeJobs s), writer := W_Get\<rparr>)"
proof -
  have "set (places (s\<lparr>FreeJobs := Put j (FreeJobs s), writer := W_Get\<rparr>)) = set (places s)"
    using assms(3) put_lists(3) [OF assms(1,3)] by (auto simp: place_defs)
  then show ?thesis
    using assms(2,3) by (auto simp: inv_end_def no_failure_def)
qed

lemma end_write:
  assumes "inv_end E blocks s" "writer s = W_Write j" "r = write_result E x"
  shows "inv_end E blocks ((SetErrCode r s)\<lparr>written := w, writer := (if r < 0 then W_End else W_Free j)\<rparr>)"
proof -
  let ?s = "(SetErrCode r s)\<lparr>written := w, writer := (if r < 0 then W_End else W_Free j)\<rparr>"
  have e: "errcode s \<le> 0"
    using assms(1) by (simp add: inv_end_def)
  have "no_failure E s \<and> \<not> r < 0" if "no_failure E ?s"
    using that e assms(3) unfolding no_failure_def by (auto simp: set_err_code not_less [symmetric] simp del: split_paired_All)
  moreover have "set (places ?s) = set (places s)" if "\<not> r < 0"
    using assms(2) that by (auto simp: place_defs)
  ultimately show ?thesis
    using assms(1,2) e by (auto simp: inv_end_def set_err_code)
qed

lemma step_end:
  assumes "mt_step E s s'" "inv_queues E s" "inv_jobs E s" "inv_data E blocks s" "inv_end E blocks s"
  shows "inv_end E blocks s'"
  using assms(1)
proof cases
  case (get_job k q)
  then show ?thesis
    using end_get_job [OF assms(2,5)] by simp
next
  case (put_job k)
  then show ?thesis
    using end_put_job [OF assms(2,5)] by simp
next
  case put_null
  then show ?thesis
    using assms(5) by (simp add: inv_end_def no_failure_def)
next
  case (writer_null q)
  then show ?thesis
    using end_null [OF assms(2,4,5)] by simp
next
  case (writer_get k q)
  then show ?thesis
    using end_get [OF assms(2,3,5)] by simp
next
  case (writer_write k r)
  then show ?thesis
    using end_write [OF assms(5)] by simp
next
  case (writer_free k)
  then show ?thesis
    using end_free [OF assms(2,5)] by simp
next
  case (work_process k r)
  then show ?thesis
    using assms(5) by (auto simp: inv_end_def no_failure_def set_err_code place_defs)
next
  case (read_end k)
  then show ?thesis
    using assms(5) by (auto simp: inv_end_def no_failure_def set_err_code)
next
  case look_end
  then show ?thesis
    using assms(5) by (auto simp: inv_end_def no_failure_def set_err_code)
qed (use assms(5) in \<open>auto simp: inv_end_def no_failure_def place_defs\<close>)

section \<open>The workers' end\<close>

fun job_ended :: "main_pc \<Rightarrow> nat \<Rightarrow> bool" where
  "job_ended (M_Join i) j = (j < i)" | "job_ended (M_JoinWait i) j = (j < i)" | "job_ended M_Return j = True" | "job_ended _ j = False"

definition join_fine :: "('b, 'o) mt \<Rightarrow> nat \<Rightarrow> bool" where
  "join_fine s j \<longleftrightarrow>
     (job_ended (main s) j \<longrightarrow> worker s j = P_Gone) \<and>
     (main s = M_JoinWait j \<longrightarrow>
        InSize s j = 0 \<and> (worker s j = P_Wait \<and> StartOperation s j \<or> worker s j = P_End \<or> worker s j = P_Gone \<and> JobFinished s j)) \<and>
     (\<not> job_ended (main s) j \<and> main s \<noteq> M_JoinWait j \<longrightarrow> worker s j = P_Wait \<and> \<not> StartOperation s j)"

definition inv_join :: "('b, 'o) mt_env \<Rightarrow> ('b, 'o) mt \<Rightarrow> bool" where
  "inv_join E s \<longleftrightarrow> (\<forall>j. JobFinished s j \<longrightarrow> worker s j = P_Gone) \<and> (joining (main s) \<longrightarrow>
     (\<forall>j<NumThreads E. join_fine s j) \<and> (\<forall>i. main s = M_JoinWait i \<longrightarrow> i < NumThreads E))"

definition all_init :: "('b, 'o) mt_env \<Rightarrow> bool" where
  "all_init E \<longleftrightarrow> (\<forall>j<NumThreads E. init_ok E j)"

lemma all_alive: "all_init E \<Longrightarrow> set (alive E) = {..<NumThreads E}"
  by (auto simp: all_init_def alive_def)

lemma start_join:
  assumes "all_init E"
  shows "inv_join E (CreateJobs E blocks)"
proof -
  have "0 \<in> set (alive E)"
    using all_alive [OF assms] by (simp add: NumThreads_def)
  then have "alive E \<noteq> []"
    by auto
  then show ?thesis
    by (simp add: inv_join_def CreateJobs_def Let_def)
qed

text \<open>When the writer has stopped after the last job, all workers are idle.\<close>

lemma join_begins:
  assumes "all_init E" "inv_jobs E s" "inv_end E blocks s" "no_failure E s" "main s = M_Wait" "stopped (writer s)" "inv_join E s"
  shows "inv_join E (s\<lparr>Finished := False, main := M_Join 0\<rparr>)"
proof -
  have "flight s = []"
    using assms(3-6) by (cases "writer s") (auto simp: inv_end_def flight_def)
  moreover have "\<not> joining (main s)"
    using assms(5) by simp
  ultimately have "worker s j = P_Wait \<and> \<not> StartOperation s j" if "j < NumThreads E" for j
    using assms(2,5,6) that unfolding inv_jobs_def good_def all_alive [OF assms(1)] by (auto simp: job_fine_def)
  then show ?thesis
    using assms(7) by (simp add: inv_join_def join_fine_def)
qed

lemma join_fine_step:
  assumes "mt_step E s s'" "joining (main s)" "join_fine s j" "writer s = W_Gone \<or> writer s = W_None"
    "JobFinished s j \<longrightarrow> worker s j = P_Gone" "j < NumThreads E"
  shows "join_fine s' j"
  using assms(1)
proof cases
  case (stop_job k)
  then show ?thesis
    using assms(3) by (auto simp: join_fine_def)
next
  case (wait_job k)
  then show ?thesis
    using assms(3,5) by (auto simp: join_fine_def less_Suc_eq)
next
  case (return k)
  then show ?thesis
    using assms(3,6) by (auto simp: join_fine_def)
next
  case (work_start k)
  then show ?thesis
    using assms(3) by (cases "j = k") (auto simp: join_fine_def)
next
  case (work_end k)
  then show ?thesis
    using assms(3) by (cases "j = k") (auto simp: join_fine_def)
next
  case (work_slot k n)
  then show ?thesis
    using assms(2,3) by (cases "j = k") (auto simp: join_fine_def)
next
  case (work_process k r)
  then show ?thesis
    using assms(2,3) by (cases "j = k") (auto simp: join_fine_def)
next
  case (work_release k)
  then show ?thesis
    using assms(2,3) by (cases "j = k") (auto simp: join_fine_def)
next
  case (work_signal k)
  then show ?thesis
    using assms(2,3) by (cases "j = k") (auto simp: join_fine_def)
qed (use assms(2,4) in auto)

lemma step_joining:
  assumes "mt_step E s s'"
  shows "joining (main s') \<Longrightarrow> joining (main s) \<or> main s = M_Wait \<and> s' = s\<lparr>Finished := False, main := M_Join 0\<rparr> \<and> Finished s"
    "main s' = M_JoinWait i \<Longrightarrow> main s = M_JoinWait i \<or> i < NumThreads E"
    "\<forall>j. JobFinished s j \<longrightarrow> worker s j = P_Gone \<Longrightarrow> JobFinished s' k \<Longrightarrow> worker s' k = P_Gone"
  using assms by (cases, auto split: if_splits)+

lemma step_join:
  assumes "mt_step E s s'" "all_init E" "inv_queues E s" "inv_jobs E s" "inv_end E blocks s" "no_failure E s" "inv_join E s"
  shows "inv_join E s'"
proof (cases "joining (main s)")
  case True
  then have w: "writer s = W_Gone \<or> writer s = W_None"
    using assms(3) by (simp add: inv_queues_def)
  have "join_fine s' j" if "j < NumThreads E" for j
    using join_fine_step [OF assms(1) True _ w _ that] assms(7) True that by (simp add: inv_join_def)
  then show ?thesis
    using step_joining(2,3) [OF assms(1)] assms(7) True unfolding inv_join_def by blast
next
  case False
  show ?thesis
  proof (cases "joining (main s')")
    case True
    then have w: "main s = M_Wait" "Finished s" "s' = s\<lparr>Finished := False, main := M_Join 0\<rparr>"
      using step_joining(1) [OF assms(1)] False by auto
    then have "stopped (writer s)"
      using assms(3) by (auto simp: inv_queues_def)
    then show ?thesis
      unfolding w(3) by (rule join_begins [OF assms(2,4,5,6) w(1) _ assms(7)])
  next
    case False
    then show ?thesis
      using step_joining(3) [OF assms(1)] assms(7) unfolding inv_join_def by blast
  qed
qed

end
