(* ===== verification/MT_Progress.thy ===== *)
theory MT_Progress
  imports Multi_Threading
begin

text \<open>
  Runs of \<^verbatim>\<open>MTCompressor\<close>: every run ends, and when no write fails it ends with all threads gone.  What
  happens when a write or the initialisation of a job fails.
\<close>

section \<open>Every run ends\<close>

text \<open>A bound of the steps to come: those of each block still to be read, of each queue entry, of each thread.\<close>

fun worker_weight :: "worker_pc \<Rightarrow> nat" where
  "worker_weight P_Slot = 4" | "worker_weight P_Process = 3" | "worker_weight P_Release = 2"
| "worker_weight P_Signal = 1" | "worker_weight P_End = 1" | "worker_weight _ = 0"

fun writer_weight :: "writer_pc \<Rightarrow> nat" where
  "writer_weight (W_Wait j) = 3" | "writer_weight (W_Write j) = 2" | "writer_weight (W_Free j) = 1"
| "writer_weight W_End = 1" | "writer_weight _ = 0"

fun main_weight :: "nat \<Rightarrow> main_pc \<Rightarrow> nat" where
  "main_weight n M_Look = 8 * n + 17" | "main_weight n M_Get = 8 * n + 16" | "main_weight n (M_Read j) = 8 * n + 15" | "main_weight n (M_Put j) = 8 * n + 28"
| "main_weight n (M_Start j) = 8 * n + 23" | "main_weight n M_Last = 8 * n + 14" | "main_weight n M_Wait = 8 * n + 10"
| "main_weight n (M_Join j) = 8 * (Suc n - j) + 1" | "main_weight n (M_JoinWait j) = 8 * (n - j) + 3" | "main_weight n M_Return = 0"

fun entry_weight :: "'a option \<Rightarrow> nat" where
  "entry_weight None = 3" | "entry_weight (Some x) = 4"

definition queued_weight :: "nat option sync_queue \<Rightarrow> nat" where
  "queued_weight q = sum_list (map entry_weight (sq_list q))"

definition job_weight :: "('b, 'o) mt \<Rightarrow> nat \<Rightarrow> nat" where
  "job_weight s j = (if StartOperation s j then 5 else 0) + worker_weight (worker s j)"

definition jobs_weight :: "('b, 'o) mt_env \<Rightarrow> ('b, 'o) mt \<Rightarrow> nat" where
  "jobs_weight E s = (\<Sum>j<NumThreads E. job_weight s j)"

definition mt_weight :: "('b, 'o) mt_env \<Rightarrow> ('b, 'o) mt \<Rightarrow> nat" where
  "mt_weight E s = 16 * length (todo s) + main_weight (NumThreads E) (main s) + writer_weight (writer s) +
     queued_weight (WriterJobs s) + jobs_weight E s"

lemma jobs_weight_one:
  assumes "\<And>j. j \<noteq> k \<Longrightarrow> job_weight s' j = job_weight s j" "k < NumThreads E"
  shows "jobs_weight E s' + job_weight s k = jobs_weight E s + job_weight s' k"
  using sum_one [OF assms(2,1)] by (simp add: jobs_weight_def)

lemma jobs_weight_start:
  "jobs_weight E (s\<lparr>StartOperation := (StartOperation s)(k := True), main := m\<rparr>) \<le> jobs_weight E s + 5"
proof (cases "k < NumThreads E")
  case True
  then show ?thesis
    using jobs_weight_one [of k "s\<lparr>StartOperation := (StartOperation s)(k := True), main := m\<rparr>" s E] by (simp add: job_weight_def)
next
  case False
  then show ?thesis
    by (auto simp: jobs_weight_def job_weight_def intro!: sum_mono trans_le_add1)
qed

lemma jobs_weight_same:
  "StartOperation s' = StartOperation s \<Longrightarrow> worker s' = worker s \<Longrightarrow> jobs_weight E s' = jobs_weight E s"
  by (simp add: jobs_weight_def job_weight_def)

text \<open>A step of a worker changes nothing else that is counted.\<close>

lemma work_weight:
  assumes "k < NumThreads E" "todo s' = todo s" "main s' = main s" "writer s' = writer s" "WriterJobs s' = WriterJobs s"
    "\<And>j. j \<noteq> k \<Longrightarrow> job_weight s' j = job_weight s j" "job_weight s' k < job_weight s k"
  shows "mt_weight E s' < mt_weight E s"
  using jobs_weight_one [OF assms(6,1)] assms(2-5,7) by (simp add: mt_weight_def)

lemma same_weight:
  assumes "StartOperation s' = StartOperation s" "worker s' = worker s"
    "16 * length (todo s') + main_weight (NumThreads E) (main s') + writer_weight (writer s') + queued_weight (WriterJobs s') <
      16 * length (todo s) + main_weight (NumThreads E) (main s) + writer_weight (writer s) + queued_weight (WriterJobs s)"
  shows "mt_weight E s' < mt_weight E s"
  using jobs_weight_same [OF assms(1,2)] assms(3) by (simp add: mt_weight_def)

lemma stop_weight:
  assumes "k < NumThreads E" "main s = M_Join k"
  shows "mt_weight E (s\<lparr>InSize := z, StartOperation := (StartOperation s)(k := True), main := M_JoinWait k\<rparr>) < mt_weight E s"
proof -
  let ?s = "s\<lparr>InSize := z, StartOperation := (StartOperation s)(k := True), main := M_JoinWait k\<rparr>"
  have "jobs_weight E ?s = jobs_weight E (s\<lparr>StartOperation := (StartOperation s)(k := True), main := M_JoinWait k\<rparr>)"
    by (rule jobs_weight_same) simp_all
  then have "jobs_weight E ?s \<le> jobs_weight E s + 5"
    using jobs_weight_start [where E = E and s = s and k = k and m = "M_JoinWait k"] by simp
  then show ?thesis
    using assms by (simp add: mt_weight_def Suc_diff_le)
qed

lemma queued_put: "sq_list q' = sq_list q @ [x] \<Longrightarrow> queued_weight q' = queued_weight q + entry_weight x"
  and queued_get: "sq_list q = x # sq_list q' \<Longrightarrow> queued_weight q = entry_weight x + queued_weight q'"
  by (simp_all add: queued_weight_def)

lemma step_weight:
  assumes "mt_step E s s'" "inv_queues E s"
  shows "mt_weight E s' < mt_weight E s"
  using assms(1)
proof cases
  case look_end
  show ?thesis
    by (rule same_weight) (use look_end in simp_all)
next
  case look_more
  show ?thesis
    by (rule same_weight) (use look_more in simp_all)
next
  case (get_job k q)
  show ?thesis
    by (rule same_weight) (use get_job in simp_all)
next
  case (read_end k)
  show ?thesis
    by (rule same_weight) (use read_end in simp_all)
next
  case (read_stop k n b bs)
  show ?thesis
    by (rule same_weight) (use read_stop in simp_all)
next
  case (read_block k n b bs)
  show ?thesis
    by (rule same_weight) (use read_block in simp_all)
next
  case wait_writer
  show ?thesis
    by (rule same_weight) (use wait_writer in simp_all)
next
  case (wait_job k)
  show ?thesis
    by (rule same_weight) (use wait_job in simp_all)
next
  case (return k)
  show ?thesis
    by (rule same_weight) (use return in simp_all)
next
  case (writer_wait k)
  show ?thesis
    by (rule same_weight) (use writer_wait in simp_all)
next
  case (writer_write k r)
  show ?thesis
    by (rule same_weight) (use writer_write in simp_all)
next
  case (writer_free k)
  show ?thesis
    by (rule same_weight) (use writer_free in simp_all)
next
  case writer_end
  show ?thesis
    by (rule same_weight) (use writer_end in simp_all)
next
  case (put_job k)
  show ?thesis
    by (rule same_weight) (use put_job queued_put put_lists(1) [OF assms(2) put_job(2)] in force)+
next
  case put_null
  show ?thesis
    by (rule same_weight) (use put_null queued_put put_lists(2) [OF assms(2) put_null(2)] in force)+
next
  case (writer_null q)
  show ?thesis
    by (rule same_weight) (use writer_null queued_get get_lists(2) [OF assms(2) writer_null(3)] in force)+
next
  case (writer_get k q)
  show ?thesis
    by (rule same_weight) (use writer_get queued_get get_lists(2) [OF assms(2) writer_get(3)] in force)+
next
  case (start_job k)
  then show ?thesis
    using jobs_weight_start [where E = E and s = s and k = k and m = "if looks_ahead E then M_Look else M_Get"]
    by (cases "looks_ahead E") (simp_all add: mt_weight_def)
next
  case (stop_job k)
  then show ?thesis
    using stop_weight by simp
next
  case (work_start k)
  show ?thesis
    by (rule work_weight [of k]) (use work_start in \<open>simp_all add: job_weight_def\<close>)
next
  case (work_slot k n)
  show ?thesis
    by (rule work_weight [of k]) (use work_slot in \<open>simp_all add: job_weight_def\<close>)
next
  case (work_process k r)
  show ?thesis
    by (rule work_weight [of k]) (use work_process in \<open>simp_all add: job_weight_def\<close>)
next
  case (work_release k)
  show ?thesis
    by (rule work_weight [of k]) (use work_release in \<open>simp_all add: job_weight_def\<close>)
next
  case (work_signal k)
  show ?thesis
    by (rule work_weight [of k]) (use work_signal in \<open>simp_all add: job_weight_def\<close>)
next
  case (work_end k)
  show ?thesis
    by (rule work_weight [of k]) (use work_end in \<open>simp_all add: job_weight_def\<close>)
qed

section \<open>Progress\<close>

lemma free_slot:
  assumes "inv_slots E s" "0 < CompressionThreads E"
  shows "(\<exists>n. LimitThreads s = Suc n) \<or> (\<exists>k<NumThreads E. worker s k = P_Process \<or> worker s k = P_Release)"
proof (rule ccontr)
  assume n: "\<not> ?thesis"
  then have "busy (worker s k) = 0" if "k < NumThreads E" for k
    using that by (cases "worker s k") auto
  then show False
    using n assms by (cases "LimitThreads s") (auto simp: inv_slots_def)
qed

lemma worker_goes:
  assumes "inv_slots E s" "0 < CompressionThreads E" "k < NumThreads E"
    "worker s k \<in> {P_Slot, P_Process, P_Release, P_Signal, P_End} \<or> worker s k = P_Wait \<and> StartOperation s k"
  shows "\<exists>s'. mt_step E s s'"
proof -
  have other: "\<exists>s'. mt_step E s s'" if "k < NumThreads E" "worker s k = P_Process \<or> worker s k = P_Release" for k
    using that work_process [of k E s] work_release [of k E s] by metis
  have slot: "\<exists>s'. mt_step E s s'" if "worker s k = P_Slot"
    using free_slot [OF assms(1,2)] other work_slot [OF assms(3) that] by metis
  consider "worker s k = P_Slot" | "worker s k = P_Process \<or> worker s k = P_Release" | "worker s k = P_Signal"
    | "worker s k = P_End" | "worker s k = P_Wait" "StartOperation s k"
    using assms(4) by auto
  then show ?thesis
    using slot other [OF assms(3)] work_signal [OF assms(3)] work_end [OF assms(3)] work_start [OF assms(3)] by cases metis+
qed

lemma main_goes:
  assumes "main s \<in> {M_Look, M_Read j, M_Put j, M_Start j, M_Last, M_Join j}"
  shows "\<exists>s'. mt_step E s s'"
proof -
  consider "main s = M_Look" | "main s = M_Read j" | "main s = M_Put j" | "main s = M_Start j" | "main s = M_Last" | "main s = M_Join j"
    using assms by auto
  then show ?thesis
  proof cases
    case 1
    then show ?thesis
      using look_end [of s E] look_more [of s E] by blast
  next
    case 2
    then show ?thesis
      using read_end [of s j] read_stop [of s j] read_block [of s j] by (cases "todo s") (auto, blast)
  next
    case 6
    then show ?thesis
      using stop_job return by blast
  qed (blast intro: put_job start_job put_null)+
qed

lemma get_not_empty: "sq_ok q \<Longrightarrow> sq_list q \<noteq> [] \<Longrightarrow> \<exists>x q'. Get q = Some (x, q')"
  using queue.get_none [of q] by (cases "Get q") auto

lemma writer_goes:
  assumes "inv_queues E s" "writer s \<in> {W_Write j, W_Free j, W_End} \<or> writer s = W_Wait j \<and> OperationFinished s j \<or>
    writer s = W_Get \<and> sq_list (WriterJobs s) \<noteq> []"
  shows "\<exists>s'. mt_step E s s'"
proof -
  have "\<exists>s'. mt_step E s s'" if w: "writer s = W_Get" "sq_list (WriterJobs s) \<noteq> []"
  proof -
    have "sq_ok (WriterJobs s)"
      using inv_queues_D(2) [OF assms(1)] by (simp add: holds_def)
    then obtain x q where g: "Get (WriterJobs s) = Some (x, q)"
      using get_not_empty w(2) by blast
    then show ?thesis
      using w(1) writer_null writer_get by (cases x) blast+
  qed
  then show ?thesis
    using assms(2) writer_write writer_free writer_end writer_wait by blast
qed

text \<open>A job that the writer waits for is on its way.\<close>

lemma flying_goes:
  assumes "inv_queues E s" "inv_slots E s" "0 < CompressionThreads E" "good E s j" "writer s = W_Wait j"
  shows "\<exists>s'. mt_step E s s'"
proof -
  have j: "j \<in> set (flight s)" "j \<in> set (alive E)" "j < NumThreads E"
    using assms(5) inv_places(4) [OF assms(1)] by (auto simp: flight_def alive_def)
  then consider "main s = M_Start j" | "OperationFinished s j"
    | "worker s j \<in> {P_Slot, P_Process, P_Release, P_Signal, P_End} \<or> worker s j = P_Wait \<and> StartOperation s j"
    using assms(4,5) by (auto simp: good_def job_fine_def)
  then show ?thesis
    using main_goes [of s j] writer_goes [OF assms(1), of j] worker_goes [OF assms(2,3) j(3)] assms(5) by cases auto
qed

definition inv_all :: "('b, 'o) mt_env \<Rightarrow> (int \<times> 'b) list \<Rightarrow> ('b, 'o) mt \<Rightarrow> bool" where
  "inv_all E blocks s \<longleftrightarrow> inv_queues E s \<and> inv_jobs E s \<and> inv_data E blocks s \<and> inv_slots E s \<and> inv_end E blocks s"

lemma run_all: "mt_run E blocks n s \<Longrightarrow> \<forall>x\<in>set blocks. fst x > 0 \<Longrightarrow> inv_all E blocks s"
proof (induction rule: mt_run.induct)
  case mt_start
  then show ?case
    using start_queues start_jobs start_data start_slots start_end unfolding inv_all_def by blast
next
  case (mt_go n s s')
  then show ?case
    using step_queues step_jobs step_data step_slots step_end unfolding inv_all_def by meson
qed

lemma run_join:
  "mt_run E blocks n s \<Longrightarrow> \<forall>x\<in>set blocks. fst x > 0 \<Longrightarrow> all_init E \<Longrightarrow> \<forall>x. write_result E x \<ge> 0 \<Longrightarrow> inv_join E s"
proof (induction rule: mt_run.induct)
  case mt_start
  then show ?case
    using start_join by blast
next
  case (mt_go n s s')
  then have "inv_all E blocks s" "no_failure E s"
    using run_all by (auto simp: no_failure_def)
  then show ?case
    using step_join [OF mt_go.hyps(2)] mt_go.IH mt_go.prems unfolding inv_all_def by blast
qed

lemma join_goes:
  assumes "inv_slots E s" "inv_join E s" "0 < CompressionThreads E" "joining (main s)"
  shows "main s = M_Return \<or> (\<exists>s'. mt_step E s s')"
proof -
  consider "main s = M_Return" | j where "main s = M_Join j" | j where "main s = M_JoinWait j" "j < NumThreads E" "join_fine s j"
    using assms(2,4) by (cases "main s") (auto simp: inv_join_def)
  then show ?thesis
  proof cases
    case (2 j)
    then show ?thesis
      using main_goes [of s j] by simp
  next
    case (3 j)
    then have "JobFinished s j \<or> worker s j = P_End \<or> worker s j = P_Wait \<and> StartOperation s j"
      by (auto simp: join_fine_def)
    then show ?thesis
      using wait_job [OF 3(1)] worker_goes [OF assms(1,3) 3(2)] by blast
  qed simp
qed

text \<open>While the writer waits for a job, there is a free one or the main cycle holds one.\<close>

lemma idle_goes:
  assumes "inv_queues E s" "inv_end E blocks s" "no_failure E s" "all_init E" "writer s = W_Get" "\<not> joining (main s)"
  shows "\<exists>s'. mt_step E s s'"
proof (cases "sq_list (WriterJobs s) = []")
  case True
  then have m: "main s \<noteq> M_Wait"
    using assms(1,5) by (auto simp: inv_queues_def)
  show ?thesis
  proof (cases "main s = M_Get")
    case True
    then have "set (alive E) \<subseteq> set (places s)"
      using assms(2,3) by (simp add: inv_end_def)
    then have "sq_list (FreeJobs s) \<noteq> []"
      using \<open>sq_list (WriterJobs s) = []\<close> True assms(5) unfolding all_alive [OF assms(4)] by (auto simp: NumThreads_def place_defs)
    moreover have "sq_ok (FreeJobs s)"
      using inv_queues_D(1) [OF assms(1)] by (simp add: holds_def)
    ultimately obtain j q where "Get (FreeJobs s) = Some (j, q)"
      using get_not_empty by blast
    then show ?thesis
      using get_job [OF True] by blast
  next
    case False
    then obtain j where "main s \<in> {M_Look, M_Read j, M_Put j, M_Start j, M_Last, M_Join j}"
      using m assms(6) by (cases "main s") auto
    then show ?thesis
      by (rule main_goes)
  qed
qed (use writer_goes [OF assms(1)] assms(5) in blast)

lemma progress:
  assumes "inv_all E blocks s" "inv_join E s" "no_failure E s" "all_init E" "0 < CompressionThreads E"
  shows "main s = M_Return \<or> (\<exists>s'. mt_step E s s')"
proof (cases "joining (main s)")
  case True
  then show ?thesis
    using join_goes assms unfolding inv_all_def by blast
next
  case False
  have i: "inv_queues E s" "inv_jobs E s" "inv_slots E s" "inv_end E blocks s"
    using assms(1) by (simp_all add: inv_all_def)
  show ?thesis
  proof (cases "writer s")
    case W_Get
    then show ?thesis
      using idle_goes [OF i(1,4) assms(3,4) _ False] by blast
  next
    case (W_Wait j)
    have "good E s j"
      using i(2) False by (simp add: inv_jobs_def)
    then show ?thesis
      using flying_goes [OF i(1,3) assms(5) _ W_Wait] by blast
  next
    case W_Gone
    then have "main s = M_Wait" "Finished s"
      using i False assms(3) by (simp_all add: inv_end_def inv_queues_def)
    then show ?thesis
      using wait_writer by blast
  next
    case W_None
    then show ?thesis
      using i(1) False by (simp add: inv_queues_def)
  qed (use writer_goes [OF i(1)] in blast)+
qed

lemma run_bound:
  assumes "mt_run E blocks n s" "\<forall>x\<in>set blocks. fst x > 0"
  shows "n + mt_weight E s \<le> mt_weight E (CreateJobs E blocks)"
  using assms
proof (induction rule: mt_run.induct)
  case (mt_go n s s')
  then show ?case
    using step_weight [OF mt_go.hyps(2)] run_all unfolding inv_all_def by fastforce
qed simp

lemma start_weight: "mt_weight E (CreateJobs E blocks) \<le> 16 * length blocks + 8 * NumThreads E + 17"
proof -
  have "jobs_weight E (CreateJobs E blocks) = 0"
    by (auto simp: jobs_weight_def job_weight_def CreateJobs_def Let_def)
  moreover have "queued_weight (WriterJobs (CreateJobs E blocks)) = 0"
    using holds_empty [of "NumThreads E" "None :: nat option"] by (simp add: queued_weight_def CreateJobs_def Let_def)
  moreover have "main_weight (NumThreads E) (main (CreateJobs E blocks)) \<le> 8 * NumThreads E + 17"
    "writer_weight (writer (CreateJobs E blocks)) = 0" "todo (CreateJobs E blocks) = blocks"
    by (auto simp: CreateJobs_def Let_def)
  ultimately show ?thesis
    by (simp add: mt_weight_def)
qed

text \<open>Without a negative result of a block or at the end there is no error.\<close>

definition no_errors :: "('b, 'o) mt_env \<Rightarrow> (int \<times> 'b) list \<Rightarrow> bool" where
  "no_errors E blocks \<longleftrightarrow> (\<forall>r\<in>set (results E blocks). fst r \<ge> 0) \<and> end_code E \<ge> 0"

lemma computed_block:
  assumes "inv_all E blocks s" "inv_join E s" "no_failure E s" "worker s k = P_Process" "k < NumThreads E"
  shows "process E (InSize s k) (InBuf s k) \<in> set (results E blocks)"
proof -
  note i = assms(1) [unfolded inv_all_def]
  have "\<not> joining (main s)"
    using assms(2,4,5) by (auto simp: inv_join_def join_fine_def)
  then have "good E s k"
    using i by (simp add: inv_jobs_def)
  then have k: "k \<in> set (flight s)"
    using assms(4) by (auto simp: good_def job_fine_def)
  then have "\<not> stopped (writer s)"
    using i assms(3) \<open>\<not> joining (main s)\<close> by (cases "writer s") (auto simp: inv_end_def flight_def)
  then have "written s @ pending E s = results E blocks"
    using i by (simp add: inv_data_def)
  then have "set (pending E s) \<subseteq> set (results E blocks)"
    by (metis Un_upper2 set_append)
  moreover have "result_of E s k \<in> set (pending E s)"
    using k by (simp add: pending_def)
  ultimately show ?thesis
    by (auto simp: result_of_def)
qed

lemma run_errcode:
  assumes "mt_run E blocks n s" "\<forall>x\<in>set blocks. fst x > 0" "all_init E" "\<forall>x. write_result E x \<ge> 0" "no_errors E blocks"
  shows "errcode s = 0"
  using assms
proof (induction rule: mt_run.induct)
  case mt_start
  have "0 \<in> set (alive E)"
    using all_alive [OF assms(3)] by (simp add: NumThreads_def)
  then have "alive E \<noteq> []"
    by auto
  then show ?case
    by (simp add: CreateJobs_def Let_def)
next
  case (mt_go n s s')
  then have e: "errcode s = 0"
    by simp
  note i = run_all [OF mt_go.hyps(1) assms(2)] run_join [OF mt_go.hyps(1) assms(2,3,4)]
  show ?case
    using mt_go.hyps(2)
  proof cases
    case (writer_write k r)
    then have "r \<ge> 0"
      using spec [OF assms(4), of "Out s k"] writer_write by simp
    then show ?thesis
      using e writer_write by (simp add: SetErrCode_def)
  next
    case (work_process k r)
    then have "fst r \<ge> 0"
      using computed_block [OF i _ work_process(3,2)] e assms(5) by (simp add: no_failure_def no_errors_def)
    then show ?thesis
      using e work_process by (simp add: SetErrCode_def)
  qed (use e assms(5) in \<open>auto simp: SetErrCode_def no_errors_def not_less [symmetric]\<close>)
qed

text \<open>A run can be continued until no step is left.\<close>

lemma run_to_end:
  assumes "\<forall>x\<in>set blocks. fst x > 0"
  shows "\<exists>n s. mt_run E blocks n s \<and> \<not> (\<exists>s'. mt_step E s s')"
proof (rule ccontr)
  assume "\<not> ?thesis"
  then have go: "\<exists>s'. mt_step E s s'" if "mt_run E blocks n s" for n s
    using that by blast
  have "\<exists>s. mt_run E blocks n s" for n
    by (induction n) (use mt_start mt_go go in blast)+
  then obtain s where "mt_run E blocks (Suc (mt_weight E (CreateJobs E blocks))) s"
    by blast
  then show False
    using run_bound assms by fastforce
qed

text \<open>While there is no error, no result has been one.\<close>

definition no_bad_result :: "('b, 'o) mt \<Rightarrow> bool" where
  "no_bad_result s \<longleftrightarrow> (errcode s = 0 \<longrightarrow> (\<forall>r\<in>set (written s). 0 \<le> fst r) \<and>
     (\<forall>j. worker s j = P_Release \<or> worker s j = P_Signal \<or> OperationFinished s j \<or> writer s = W_Write j \<longrightarrow> 0 \<le> fst (Out s j)))"

lemma no_bad_result_step:
  assumes "mt_step E s s'" "no_bad_result s"
  shows "no_bad_result s'"
  using assms(1)
proof cases
  case (work_process k r)
  then show ?thesis
    using assms(2) by (auto simp: no_bad_result_def SetErrCode_def)
next
  case (writer_write k r)
  then show ?thesis
    using assms(2) by (auto simp: no_bad_result_def SetErrCode_def)
qed (use assms(2) in \<open>auto simp: no_bad_result_def SetErrCode_def\<close>)

lemma run_results: "mt_run E blocks n s \<Longrightarrow> no_bad_result s"
proof (induction rule: mt_run.induct)
  case mt_start
  then show ?case
    by (auto simp: no_bad_result_def CreateJobs_def Let_def split: if_splits)
next
  case (mt_go n s s')
  then show ?case
    using no_bad_result_step by blast
qed

lemma stuck_returned:
  assumes "mt_run E blocks n s" "\<forall>x\<in>set blocks. fst x > 0" "all_init E" "0 < CompressionThreads E"
    "\<forall>x. write_result E x \<ge> 0" "\<not> (\<exists>s'. mt_step E s s')"
  shows "main s = M_Return \<and> (no_errors E blocks \<longrightarrow> errcode s = 0)"
  using progress [OF run_all [OF assms(1,2)] run_join [OF assms(1,2,3,5)] _ assms(3,4)] run_errcode [OF assms(1,2,3,5)] assms(5,6)
  by (auto simp: no_failure_def)

lemma returned_complete:
  assumes "mt_run E blocks n s" "\<forall>x\<in>set blocks. fst x > 0" "main s = M_Return" "errcode s = 0"
  shows "written s = results E blocks \<and> (\<forall>r\<in>set (written s). 0 \<le> fst r)"
proof -
  have i: "inv_queues E s" "inv_end E blocks s"
    using run_all [OF assms(1,2)] by (simp_all add: inv_all_def)
  then have "stopped (writer s)" "todo s = []"
    using assms(3,4) by (auto simp: inv_queues_def inv_end_def)
  then show ?thesis
    using i(2) assms(4) run_results [OF assms(1)] by (simp add: inv_end_def results_def no_bad_result_def)
qed

section \<open>What goes wrong\<close>

text \<open>A job without a thread is waited for at the end, and nothing will ever signal its event.\<close>

definition waits_for :: "nat \<Rightarrow> ('b, 'o) mt \<Rightarrow> bool" where
  "waits_for j s \<longleftrightarrow> worker s j = P_None \<and> \<not> JobFinished s j \<and> main s \<noteq> M_Return \<and>
     (\<forall>i. main s = M_Join i \<or> main s = M_JoinWait i \<longrightarrow> i \<le> j)"

lemma waits_for_step:
  assumes "mt_step E s s'" "waits_for j s" "j < NumThreads E"
  shows "waits_for j s'"
  using assms(1)
proof cases
  case (wait_job k)
  then have "k \<noteq> j" "k \<le> j"
    using assms(2) by (auto simp: waits_for_def)
  then show ?thesis
    using wait_job assms(2) by (auto simp: waits_for_def)
qed (use assms(2,3) in \<open>auto simp: waits_for_def\<close>)

lemma waits_for_run:
  assumes "mt_run E blocks n s" "j < NumThreads E" "\<not> init_ok E j"
  shows "waits_for j s"
  using assms
proof (induction rule: mt_run.induct)
  case mt_start
  then show ?case
    by (auto simp: waits_for_def CreateJobs_def Let_def alive_def)
next
  case (mt_go n s s')
  then show ?case
    using waits_for_step by blast
qed

section \<open>Properties\<close>

text \<open>
  C5: whatever the threads' order, the callback is given the results of the blocks in the order in which the blocks
  were read, none twice and none left out before another: at every moment the writes are a prefix of the results.
\<close>
theorem writes_in_order:
  assumes "mt_run E blocks n s" "\<forall>x\<in>set blocks. fst x > 0"
  shows "\<exists>k. written s = take k (results E blocks)"
proof -
  obtain rest where "written s @ rest = results E blocks"
    using run_all [OF assms] by (auto simp: inv_all_def inv_data_def)
  then show ?thesis
    by (metis append_eq_conv_conj)
qed

text \<open>
  C7: no thread ever puts a job into a full queue, on which the queue relies: both queues hold at most one entry more than
  there are jobs, their arrays have room for it, and the jobs in them are different ones.
\<close>
theorem queues_never_overrun:
  assumes "mt_run E blocks n s" "\<forall>x\<in>set blocks. fst x > 0"
  shows "sq_ok (FreeJobs s) \<and> sq_ok (WriterJobs s) \<and> length (sq_list (FreeJobs s)) \<le> NumThreads E \<and>
    length (sq_list (WriterJobs s)) \<le> NumThreads E + 1 \<and> distinct (sq_list (FreeJobs s) @ somes (sq_list (WriterJobs s)))"
proof -
  have q: "inv_queues E s"
    using run_all [OF assms] by (simp add: inv_all_def)
  then have "distinct (sq_list (FreeJobs s) @ somes (sq_list (WriterJobs s)))"
    by (auto simp: inv_queues_def place_defs)
  then show ?thesis
    using inv_queues_D [OF q] by (auto simp: holds_def place_defs)
qed

text \<open>
  C6: every run ends: no order of the threads' steps has more than 16 steps for each block and 8 for each thread, so that no
  thread waits in a loop.
\<close>
theorem runs_end:
  assumes "mt_run E blocks n s" "\<forall>x\<in>set blocks. fst x > 0"
  shows "n \<le> 16 * length blocks + 8 * NumThreads E + 17"
  using run_bound [OF assms] start_weight [of E blocks] by linarith



text \<open>
  C9: \<^verbatim>\<open>run\<close> never returns when the initialisation of one of the jobs fails, for instance because there is no memory for its
  buffers, although the other jobs could do the work: the end of the job, for which no thread was made, is waited for.
\<close>
theorem init_failure_hangs:
  assumes "mt_run E blocks n s" "j < NumThreads E" "\<not> init_ok E j"
  shows "main s \<noteq> M_Return"
  using waits_for_run [OF assms] by (simp add: waits_for_def)

section \<open>Witnesses\<close>

text \<open>Two compression threads, which make four jobs; blocks are numbers, the result of a block is its successor.\<close>

definition test_env :: "int \<Rightarrow> (nat \<Rightarrow> bool) \<Rightarrow> nat \<Rightarrow> (nat, nat) mt_env" where
  "test_env r init n = \<lparr>CompressionThreads = n, init_ok = init, process = (\<lambda>n b. (max 0 n, Suc b)), write_result = (\<lambda>_. r), end_code = 0,
     looks_ahead = False, end_in_header = False\<rparr>"

lemma test_env_fields [simp]:
  "CompressionThreads (test_env r init n) = n" "init_ok (test_env r init n) = init" "process (test_env r init n) = (\<lambda>n b. (max 0 n, Suc b))"
  "write_result (test_env r init n) = (\<lambda>_. r)" "end_code (test_env r init n) = 0" "\<not> looks_ahead (test_env r init n)" "NumThreads (test_env r init n) = n + n div 2 + 1"
  by (simp_all add: test_env_def NumThreads_def)

abbreviation good_env :: "(nat, nat) mt_env" where
  "good_env \<equiv> test_env 0 (\<lambda>_. True) 2"

definition test_blocks :: "(int \<times> nat) list" where "test_blocks = [(1, 10), (2, 20)]"

lemma test_results: "results (test_env r init n) test_blocks = [(1, 11), (2, 21)]"
  by (simp add: results_def test_blocks_def)

lemma test_positive: "\<forall>x\<in>set test_blocks. fst x > 0"
  by (simp add: test_blocks_def)

lemma good_ends: "\<exists>n s. mt_run good_env test_blocks n s \<and> \<not> (\<exists>s'. mt_step good_env s s') \<and> main s = M_Return \<and> errcode s = 0"
proof -
  obtain n s where r: "mt_run good_env test_blocks n s" "\<not> (\<exists>s'. mt_step good_env s s')"
    using run_to_end [OF test_positive] by blast
  have i: "all_init good_env" "\<forall>x. write_result good_env x \<ge> 0" "inv_all good_env test_blocks s"
    using run_all [OF r(1) test_positive] by (simp_all add: all_init_def)
  then have "main s = M_Return"
    using progress [OF i(3) run_join [OF r(1) test_positive i(1,2)] _ i(1)] r(2) by (auto simp: no_failure_def)
  moreover have "errcode s = 0"
    using run_errcode [OF r(1) test_positive i(1,2)] test_results [of 0 "\<lambda>_. True" 2] by (simp add: no_errors_def)
  ultimately show ?thesis
    using r by blast
qed

theorem writes_in_order_witness:
  "\<exists>n s k. mt_run good_env test_blocks n s \<and> main s = M_Return \<and> written s = take k [(1, 11), (2, 21)]"
proof -
  obtain n s where r: "mt_run good_env test_blocks n s" "main s = M_Return"
    using good_ends by blast
  from writes_in_order [OF r(1) test_positive] r show ?thesis
    unfolding test_results by blast
qed

theorem queues_never_overrun_witness:
  "\<exists>n s. mt_run good_env test_blocks n s \<and> main s = M_Return \<and> length (sq_list (WriterJobs s)) \<le> 5"
proof -
  obtain n s where r: "mt_run good_env test_blocks n s" "main s = M_Return"
    using good_ends by blast
  have "length (sq_list (WriterJobs s)) \<le> 5"
    using queues_never_overrun [OF r(1) test_positive] by simp
  then show ?thesis
    using r by blast
qed

theorem runs_end_witness:
  "\<exists>n s. mt_run good_env test_blocks n s \<and> main s = M_Return \<and> n \<le> 81"
proof -
  obtain n s where r: "mt_run good_env test_blocks n s" "main s = M_Return"
    using good_ends by blast
  have "n \<le> 81"
    using runs_end [OF r(1) test_positive] by (simp add: test_blocks_def)
  then show ?thesis
    using r by blast
qed



theorem init_failure_hangs_witness:
  "\<exists>n s. mt_run (test_env 0 (\<lambda>j. j \<noteq> 1) 2) test_blocks n s \<and> \<not> (\<exists>s'. mt_step (test_env 0 (\<lambda>j. j \<noteq> 1) 2) s s') \<and> main s \<noteq> M_Return"
proof -
  obtain n s where "mt_run (test_env 0 (\<lambda>j. j \<noteq> 1) 2) test_blocks n s" "\<not> (\<exists>s'. mt_step (test_env 0 (\<lambda>j. j \<noteq> 1) 2) s s')"
    using run_to_end [OF test_positive] by blast
  then show ?thesis
    using init_failure_hangs [of "test_env 0 (\<lambda>j. j \<noteq> 1) 2" test_blocks n s 1] by auto
qed

end
