(* ===== verification/Grz_Stream.thy ===== *)
theory Grz_Stream
  imports Grzip_Method MT_Progress
begin

text \<open>
  Streams of \<^verbatim>\<open>GRZip/C_GRZip.cpp\<close>: the mode made of a method's parameters, the blocks that the compressor cuts its input
  into and the decompressor finds in its input, and \<^verbatim>\<open>grzip_compress\<close> and \<^verbatim>\<open>grzip_decompress\<close> as instances of the threads of
  \<^verbatim>\<open>Multi_Threading\<close>.
\<close>

definition FREEARC_OK :: int where "FREEARC_OK = 0"
definition FREEARC_ERRCODE_GENERAL :: int where "FREEARC_ERRCODE_GENERAL = -1"
definition FREEARC_ERRCODE_BAD_COMPRESSED_DATA :: int where "FREEARC_ERRCODE_BAD_COMPRESSED_DATA = -7"

definition GRZ_Enable_DeltaFlt :: int where "GRZ_Enable_DeltaFlt = 0"
definition GRZ_Compression_BWT :: int where "GRZ_Compression_BWT = 0"
definition GRZ_Compression_WFC :: int where "GRZ_Compression_WFC = 0"
definition GRZ_BWTSorting_Strong :: int where "GRZ_BWTSorting_Strong = 0"
definition GRZ_Disable_LZP :: int where "GRZ_Disable_LZP = 0"

section \<open>The compressor's parameters\<close>

text \<open>An unknown method leaves \<^verbatim>\<open>Mode\<close> what it was: \<^verbatim>\<open>junk\<close>.\<close>

definition grz_mode :: "int \<Rightarrow> grzip_method \<Rightarrow> int" where
  "grz_mode junk m =
     (let Mode = (if gm_Method m = 1 then GRZ_Compression_BWT + GRZ_Compression_WFC
                  else if gm_Method m = 2 then GRZ_Compression_BWT + GRZ_Compression_MTF
                  else if gm_Method m = 3 then GRZ_Compression_ST4 + GRZ_Compression_WFC
                  else if gm_Method m = 4 then GRZ_Compression_ST4 + GRZ_Compression_MTF
                  else junk);
          Mode = Mode + (if gm_EnableLZP m \<noteq> 0 then Encode_LZP_HT_Size (gm_HashSizeLog m) + Encode_LZP_MinMatchLen (gm_MinMatchLen m)
                         else GRZ_Disable_LZP);
          Mode = Mode + (if gm_AlternativeBWTSort m \<noteq> 0 then GRZ_BWTSorting_Strong else GRZ_BWTSorting_Fast)
      in Mode + (if gm_DeltaFilter m \<noteq> 0 then GRZ_Enable_DeltaFlt else GRZ_Disable_DeltaFlt))"

definition grz_BlockSize :: "grzip_method \<Rightarrow> int" where
  "grz_BlockSize m = (if sint (gm_BlockSize m) < int GRZ_MaxBlockSize then sint (gm_BlockSize m) else int GRZ_MaxBlockSize)"

section \<open>The adaptive block size\<close>

definition ABS_MinBlockSize :: nat where "ABS_MinBlockSize = 24 * 1024"

text \<open>
  The test in floating point, whether the bytes of the next part are coded much better with their own frequencies than with
  those of the block so far, is an argument: of the frequencies, the part's size and the divisor of the others.
\<close>

definition byte_counts :: "byte list \<Rightarrow> nat list" where
  "byte_counts xs = fold count_byte xs (replicate 256 0)"

partial_function (option) abs_loop :: "(nat list \<Rightarrow> nat list \<Rightarrow> nat \<Rightarrow> nat \<Rightarrow> bool) \<Rightarrow> byte list \<Rightarrow> nat \<Rightarrow> nat \<Rightarrow> nat \<Rightarrow> nat list \<Rightarrow> nat option" where
  "abs_loop worse Input Size Pos BlockSize TotFreq =
     (if Pos + BlockSize < Size then
        let Freq = byte_counts (take BlockSize (drop Pos Input))
        in if worse Freq TotFreq BlockSize (BlockSize + Pos div 2) then
             if BlockSize < 256 then Some Pos
             else abs_loop worse Input Size Pos (BlockSize div 2) TotFreq
           else abs_loop worse Input Size (Pos + BlockSize) BlockSize (map2 (+) TotFreq Freq)
      else Some Size)"

definition GRZip_GetAdaptiveBlockSize :: "(nat list \<Rightarrow> nat list \<Rightarrow> nat \<Rightarrow> nat \<Rightarrow> bool) \<Rightarrow> byte list \<Rightarrow> nat \<Rightarrow> nat option" where
  "GRZip_GetAdaptiveBlockSize worse Input Size =
     (if Size \<le> ABS_MinBlockSize then Some Size
      else abs_loop worse Input Size ABS_MinBlockSize (ABS_MinBlockSize div 2) (byte_counts (take ABS_MinBlockSize Input)))"

lemma abs_loop_ends:
  "128 \<le> BlockSize \<Longrightarrow> Pos \<le> Size \<Longrightarrow> \<exists>n. abs_loop worse Input Size Pos BlockSize TotFreq = Some n \<and> Pos \<le> n \<and> n \<le> Size"
proof (induction "Size - Pos + BlockSize" arbitrary: Pos BlockSize TotFreq rule: less_induct)
  case less
  show ?case
  proof (cases "Pos + BlockSize < Size")
    case False
    then show ?thesis
      using less.prems by (simp add: abs_loop.simps)
  next
    case True
    let ?Freq = "byte_counts (take BlockSize (drop Pos Input))"
    let ?T = "map2 (+) TotFreq ?Freq"
    have "\<exists>n. abs_loop worse Input Size Pos (BlockSize div 2) TotFreq = Some n \<and> Pos \<le> n \<and> n \<le> Size" if "256 \<le> BlockSize"
      using that less.prems by (intro less.hyps) auto
    moreover have "\<exists>n. abs_loop worse Input Size (Pos + BlockSize) BlockSize ?T = Some n \<and> Pos + BlockSize \<le> n \<and> n \<le> Size"
      using True less.prems by (intro less.hyps) auto
    ultimately show ?thesis
      using True by (subst abs_loop.simps) (auto simp: Let_def not_less)
  qed
qed

lemma adaptive_size:
  assumes "0 < Size"
  shows "\<exists>n. GRZip_GetAdaptiveBlockSize worse Input Size = Some n \<and> 0 < n \<and> n \<le> Size"
proof (cases "Size \<le> ABS_MinBlockSize")
  case True
  then show ?thesis
    using assms by (simp add: GRZip_GetAdaptiveBlockSize_def)
next
  case False
  then show ?thesis
    using abs_loop_ends [of "ABS_MinBlockSize div 2" ABS_MinBlockSize Size worse Input "byte_counts (take ABS_MinBlockSize Input)"]
    unfolding GRZip_GetAdaptiveBlockSize_def by (fastforce simp: ABS_MinBlockSize_def)
qed

section \<open>The blocks of the input\<close>

text \<open>
  The compressor's \<^verbatim>\<open>main_cycle\<close>: a block is read behind what was left of the one before and perhaps cut.  A read
  gives \<^verbatim>\<open>amount\<close> of what was asked for and what is left of the input.
\<close>

partial_function (option) split_input ::
  "(nat \<Rightarrow> nat \<Rightarrow> nat) \<Rightarrow> (byte list \<Rightarrow> nat option) \<Rightarrow> nat \<Rightarrow> byte list \<Rightarrow> byte list \<Rightarrow> byte list list option" where
  "split_input amount cut_at BlockSize Remainder data =
     (let n = amount (BlockSize - length Remainder) (length data);
          Buf = Remainder @ take n data
      in if Buf = [] then Some []
         else case cut_at Buf of
           None \<Rightarrow> None
         | Some NewSize \<Rightarrow>
             Option.bind (split_input amount cut_at BlockSize (drop NewSize Buf) (drop n data))
               (\<lambda>blocks. Some (take NewSize Buf # blocks)))"

definition grz_cut :: "(nat list \<Rightarrow> nat list \<Rightarrow> nat \<Rightarrow> nat \<Rightarrow> bool) \<Rightarrow> grzip_method \<Rightarrow> byte list \<Rightarrow> nat option" where
  "grz_cut worse m Buf =
     (if gm_AdaptiveBlockSize m \<noteq> 0 then GRZip_GetAdaptiveBlockSize worse Buf (length Buf) else Some (length Buf))"

definition amount_ok :: "(nat \<Rightarrow> nat \<Rightarrow> nat) \<Rightarrow> bool" where
  "amount_ok amount \<longleftrightarrow> (\<forall>asked left. amount asked left \<le> asked \<and> amount asked left \<le> left \<and> (0 < asked \<and> 0 < left \<longrightarrow> 0 < amount asked left))"

lemma split_input_ends:
  assumes "amount_ok amount" "0 < BlockSize" "\<And>b. b \<noteq> [] \<Longrightarrow> \<exists>n. cut_at b = Some n \<and> 0 < n \<and> n \<le> length b"
  shows "length Remainder \<le> BlockSize \<Longrightarrow> \<exists>blocks. split_input amount cut_at BlockSize Remainder data = Some blocks \<and>
    concat blocks = Remainder @ data \<and> (\<forall>b\<in>set blocks. 0 < length b \<and> length b \<le> BlockSize)"
proof (induction "length Remainder + length data" arbitrary: Remainder data rule: less_induct)
  case less
  define n where "n = amount (BlockSize - length Remainder) (length data)"
  define b where "b = Remainder @ take n data"
  have n: "n \<le> BlockSize - length Remainder" "n \<le> length data" "0 < BlockSize - length Remainder \<Longrightarrow> 0 < length data \<Longrightarrow> 0 < n"
    using assms(1) unfolding amount_ok_def n_def by blast+
  have eq: "split_input amount cut_at BlockSize Remainder data =
    (if b = [] then Some [] else case cut_at b of None \<Rightarrow> None
       | Some k \<Rightarrow> Option.bind (split_input amount cut_at BlockSize (drop k b) (drop n data)) (\<lambda>bs. Some (take k b # bs)))"
    unfolding b_def n_def by (subst split_input.simps) (simp only: Let_def)
  show ?case
  proof (cases "b = []")
    case True
    then have "Remainder = []" "take n data = []"
      by (simp_all add: b_def)
    then have "data = []"
      using n(3) assms(2) by (cases "data = []") auto
    then show ?thesis
      using eq True \<open>Remainder = []\<close> by simp
  next
    case False
    then obtain k where k: "cut_at b = Some k" "0 < k" "k \<le> length b"
      using assms(3) by blast
    have len: "length b = length Remainder + n" "length b \<le> BlockSize"
      using n less.prems by (simp_all add: b_def)
    then have "length (drop k b) + length (drop n data) < length Remainder + length data" "length (drop k b) \<le> BlockSize"
      using n k unfolding length_drop by linarith+
    then obtain bs where bs: "split_input amount cut_at BlockSize (drop k b) (drop n data) = Some bs"
      "concat bs = drop k b @ drop n data" "\<forall>b\<in>set bs. 0 < length b \<and> length b \<le> BlockSize"
      using less.hyps [of "drop k b" "drop n data"] by blast
    have "split_input amount cut_at BlockSize Remainder data = Some (take k b # bs)"
      using eq False k(1) bs(1) by simp
    moreover have "b @ drop n data = Remainder @ data"
      by (simp add: b_def)
    then have "concat (take k b # bs) = Remainder @ data"
      by (simp only: concat.simps bs(2) append.assoc [symmetric] append_take_drop_id)
    moreover have "0 < length (take k b)" "length (take k b) \<le> BlockSize"
      using k len by simp_all
    ultimately show ?thesis
      using bs(3) by auto
  qed
qed

section \<open>Compression\<close>

definition grz_process_result :: "int \<Rightarrow> int" where
  "grz_process_result res =
     (if res = GRZ_NOT_ENOUGH_MEMORY then FREEARC_ERRCODE_NOT_ENOUGH_MEMORY else if res < 0 then FREEARC_ERRCODE_GENERAL else res)"

text \<open>
  \<^verbatim>\<open>GRZipCompressionThread::process\<close>.  Every block has its number in the stream: the memory behind its
  input and the environment of \<^verbatim>\<open>Grz_Block\<close> may be different for each.
\<close>

definition compress_process :: "(nat \<Rightarrow> grz_env) \<Rightarrow> int \<Rightarrow> nat \<Rightarrow> int \<Rightarrow> nat \<times> byte list \<Rightarrow> int \<times> byte list" where
  "compress_process E Mode BlockSize n =
     (\<lambda>(k, Buf).
        let (res, OutBuf) = GRZip_CompressBlock (E k) (\<lambda>i. if i < length Buf then Buf ! i else fresh (E k) i) (nat n)
              (map (fresh (E k)) [0..<BlockSize + 1024]) Mode
        in (grz_process_result res, OutBuf))"

definition numbered :: "(int \<times> byte list) list \<Rightarrow> (int \<times> nat \<times> byte list) list" where
  "numbered blocks = map (\<lambda>(k, n, b). (n, k, b)) (enumerate 0 blocks)"

text \<open>
  \<^verbatim>\<open>grzip_compress\<close>: the environment of its threads, and its input.  \<^verbatim>\<open>init\<close> allocates the buffers and may fail for
  each job; \<^verbatim>\<open>threads\<close> and the result of the writing callback are given.
\<close>

definition grzip_compress :: "(nat \<Rightarrow> grz_env) \<Rightarrow> int \<Rightarrow> grzip_method \<Rightarrow> nat \<Rightarrow> (nat \<Rightarrow> bool) \<Rightarrow> (int \<times> byte list \<Rightarrow> int) \<Rightarrow> (nat \<times> byte list, byte list) mt_env" where
  "grzip_compress E junk m threads init callback =
     \<lparr>CompressionThreads = threads, init_ok = init, process = compress_process E (grz_mode junk m) (nat (grz_BlockSize m)),
      write_result = callback, end_code = FREEARC_OK, looks_ahead = False, end_in_header = False\<rparr>"

definition compress_input :: "byte list list \<Rightarrow> (int \<times> nat \<times> byte list) list" where
  "compress_input blocks = numbered (map (\<lambda>b. (int (length b), b)) blocks)"

section \<open>Decompression\<close>

text \<open>
  The decompressor's \<^verbatim>\<open>main_cycle\<close>: the blocks it makes jobs of, what it returns, and whether it returns at a header.  A
  read gives what there is; a read of a negative number of bytes gives none.
\<close>

function read_blocks :: "byte list \<Rightarrow> (int \<times> byte list) list \<times> int \<times> bool" where
  "read_blocks data =
     (let BlockSign = take 28 data; NumRead = length BlockSign
      in if NumRead = 0 then ([], FREEARC_OK, True)
         else if NumRead \<noteq> 28 then ([], FREEARC_ERRCODE_BAD_COMPRESSED_DATA, True)
         else if GRZip_CheckBlockSign BlockSign 28 \<noteq> GRZ_NO_ERROR then ([], FREEARC_ERRCODE_BAD_COMPRESSED_DATA, True)
         else
           let Size = get32 BlockSign 16; Buf = take (nat Size) (drop 28 data)
           in if int (length Buf) \<noteq> Size then ([], FREEARC_ERRCODE_BAD_COMPRESSED_DATA, False)
              else case read_blocks (drop (28 + nat Size) data) of
                (blocks, result) \<Rightarrow> ((Size, BlockSign @ Buf) # blocks, result))"
  by pat_completeness auto

termination
  by (relation "measure length") auto

declare read_blocks.simps [simp del]

definition decompress_process :: "(nat \<Rightarrow> grz_env) \<Rightarrow> int \<Rightarrow> nat \<times> byte list \<Rightarrow> int \<times> byte list" where
  "decompress_process E n =
     (\<lambda>(k, Buf). let (res, OutBuf) = the (GRZip_DecompressBlock (E k) Buf (n + 28)) in (grz_process_result res, OutBuf))"

definition grzip_decompress :: "(nat \<Rightarrow> grz_env) \<Rightarrow> byte list \<Rightarrow> nat \<Rightarrow> (nat \<Rightarrow> bool) \<Rightarrow> (int \<times> byte list \<Rightarrow> int) \<Rightarrow> (nat \<times> byte list, byte list) mt_env" where
  "grzip_decompress E data threads init callback =
     (case read_blocks data of (blocks, result, at_header) \<Rightarrow>
        \<lparr>CompressionThreads = threads, init_ok = init, process = decompress_process E, write_result = callback,
         end_code = result, looks_ahead = True, end_in_header = at_header\<rparr>)"

definition decompress_input :: "byte list \<Rightarrow> (int \<times> nat \<times> byte list) list" where
  "decompress_input data = numbered (fst (read_blocks data))"

text \<open>What the callback has been given, when it never refuses anything.\<close>

definition stream_of :: "(int \<times> byte list) list \<Rightarrow> byte list" where
  "stream_of writes = concat (map snd writes)"

section \<open>The decompressor finds the compressor's blocks\<close>

lemma get32_take: "p + 4 \<le> n \<Longrightarrow> get32 (take n xs) p = get32 xs p"
  by (simp add: get32_def LOAD32L_def)

lemma block_sign:
  assumes "is_block (wfc_room Mode) x (n, out)"
  shows "n = int (length out)" "28 \<le> length out" "get32 (take 28 out) 16 = n - 28" "GRZip_CheckBlockSign (take 28 out) 28 = GRZ_NO_ERROR"
    "wfc_room Mode E \<Longrightarrow> GRZip_DecompressBlock E out n = Some (int (length x), x)"
proof -
  have b: "n = int (length out)" "28 \<le> n"
    "\<And>rest. get32 (out @ rest) 16 = n - 28" "\<And>E rest. wfc_room Mode E \<Longrightarrow> GRZip_DecompressBlock E (out @ rest) n = Some (int (length x), x)"
    using assms unfolding is_block_def fst_conv snd_conv by blast+
  show "n = int (length out)" "28 \<le> length out"
    using b by simp_all
  show "get32 (take 28 out) 16 = n - 28"
    using b(3) [of "[]"] by (simp add: get32_take)
  show d: "GRZip_DecompressBlock E out n = Some (int (length x), x)" if "wfc_room Mode E" for E
    using b(4) [OF that, of "[]"] by simp
  have "get32 out 24 = RESERVED"
    using decompress_reserved [OF d [OF plain_env_ok(2)]] by simp
  then show "GRZip_CheckBlockSign (take 28 out) 28 = GRZ_NO_ERROR"
    by (simp add: GRZip_CheckBlockSign_def get32_take)
qed

lemma read_blocks_append:
  assumes "is_block (wfc_room Mode) x (n, out)"
  shows "read_blocks (out @ rest) = (case read_blocks rest of (blocks, result) \<Rightarrow> ((n - 28, out) # blocks, result))"
proof -
  note b = block_sign [OF assms]
  have "take 28 (out @ rest) = take 28 out" "drop 28 (out @ rest) = drop 28 out @ rest" "length (take 28 out) = 28"
    "length (drop 28 out) = nat (n - 28)" "drop (28 + nat (n - 28)) (out @ rest) = rest" "take 28 out @ drop 28 out = out"
    using b(1,2) by simp_all
  moreover have "out \<noteq> []"
    using b(2) by auto
  ultimately show ?thesis
    using b(1-4) by (subst read_blocks.simps) (simp add: Let_def)
qed

lemma read_blocks_stream:
  assumes "list_all2 (is_block (wfc_room Mode)) xs writes"
  shows "read_blocks (stream_of writes) = (map (\<lambda>(n, out). (n - 28, out)) writes, FREEARC_OK, True)"
  using assms
proof (induction rule: list_all2_induct)
  case Nil
  then show ?case
    by (simp add: stream_of_def read_blocks.simps)
next
  case (Cons x xs w writes)
  obtain n out where w: "w = (n, out)"
    by fastforce
  then show ?case
    using read_blocks_append [of Mode x n out "stream_of writes"] Cons by (simp add: stream_of_def)
qed

section \<open>What goes through the threads\<close>

lemma numbered_results:
  "results E (numbered blocks) = map (\<lambda>(k, n, b). process E n (k, b)) (enumerate 0 blocks)"
  by (auto simp: results_def numbered_def)

lemma numbered_positive: "(\<forall>x\<in>set (numbered blocks). fst x > 0) \<longleftrightarrow> (\<forall>x\<in>set blocks. fst x > 0)"
proof -
  have "fst ` set (numbered blocks) = fst ` set (map snd (enumerate 0 blocks))"
    unfolding numbered_def set_map image_image by (intro image_cong) auto
  then have "fst ` set (numbered blocks) = fst ` set blocks"
    by simp
  then show ?thesis
    by (metis (no_types, lifting) image_iff)
qed

definition grz_mode_valid :: "grzip_method \<Rightarrow> bool" where
  "grz_mode_valid m \<longleftrightarrow> gm_Method m \<in> {1, 2, 3, 4} \<and> 0 \<le> gm_MinMatchLen m \<and> gm_MinMatchLen m < 32767 \<and>
     0 \<le> gm_HashSizeLog m \<and> gm_HashSizeLog m < 30"

text \<open>The methods 3 and 4 have the sort transform, 2 and 4 the coder over the move-to-front list.\<close>

lemma grz_mode_bits:
  assumes "grz_mode_valid m"
  shows "bit (grz_mode junk m) 1 \<longleftrightarrow> gm_Method m \<in> {3, 4}" "bit (grz_mode junk m) 2 \<longleftrightarrow> gm_Method m \<in> {2, 4}"
proof -
  define low where "low = (if gm_Method m = 1 then 0 else if gm_Method m = 2 then 4 else if gm_Method m = 3 then 2 else 6) +
    (if gm_AlternativeBWTSort m \<noteq> 0 then 0 else 8) + (if gm_DeltaFilter m \<noteq> 0 then 0 else 1 :: int)"
  define high where "high = (if gm_EnableLZP m \<noteq> 0 then gm_HashSizeLog m + 256 * gm_MinMatchLen m else 0)"
  have "grz_mode junk m = low + 256 * high"
    using assms by (auto simp: grz_mode_valid_def grz_mode_def Let_def low_def high_def GRZ_Compression_BWT_def GRZ_Compression_WFC_def
        GRZ_Compression_MTF_def GRZ_Compression_ST4_def Encode_LZP_HT_Size_def Encode_LZP_MinMatchLen_def GRZ_Disable_LZP_def
        GRZ_BWTSorting_Strong_def GRZ_BWTSorting_Fast_def GRZ_Enable_DeltaFlt_def GRZ_Disable_DeltaFlt_def)
  then have "take_bit 8 (grz_mode junk m) = take_bit 8 low"
    by (simp add: take_bit_eq_mod)
  then have b: "bit (grz_mode junk m) k \<longleftrightarrow> bit low k" if "k < 8" for k
    using that by (metis bit_take_bit_iff)
  have "gm_Method m \<in> {1, 2, 3, 4}"
    using assms by (simp add: grz_mode_valid_def)
  then show "bit (grz_mode junk m) 1 \<longleftrightarrow> gm_Method m \<in> {3, 4}" "bit (grz_mode junk m) 2 \<longleftrightarrow> gm_Method m \<in> {2, 4}"
    using b [of 1] b [of 2] by (auto simp: low_def bit_iff_odd simp del: One_nat_def)
qed

lemma grz_mode_ok: "grz_mode_valid m \<Longrightarrow> mode_ok (grz_mode junk m)"
  by (auto simp: grz_mode_valid_def grz_mode_def Let_def mode_ok_def GRZ_Compression_BWT_def GRZ_Compression_WFC_def
      GRZ_Compression_MTF_def GRZ_Compression_ST4_def Encode_LZP_HT_Size_def Encode_LZP_MinMatchLen_def GRZ_Disable_LZP_def
      GRZ_BWTSorting_Strong_def GRZ_BWTSorting_Fast_def GRZ_Enable_DeltaFlt_def GRZ_Disable_DeltaFlt_def)

lemma process_result: "grz_process_result res = r \<Longrightarrow> 0 \<le> r \<Longrightarrow> res = r"
  by (auto simp: grz_process_result_def FREEARC_ERRCODE_GENERAL_def FREEARC_ERRCODE_NOT_ENOUGH_MEMORY_def split: if_splits)

lemma compressed_block:
  assumes "pick_ok (E k) \<and> sorters_ok (E k) Mode" "mode_ok Mode" "length b < 2 ^ 31" "compress_process E Mode B (int (length b)) (k, b) = (r, out)" "0 \<le> r" "r < 2 ^ 31"
  shows "is_block (wfc_room Mode) b (r, out)"
proof -
  let ?I = "\<lambda>i. if i < length b then b ! i else fresh (E k) i"
  obtain res where c: "GRZip_CompressBlock (E k) ?I (length b) (map (fresh (E k)) [0..<B + 1024]) Mode = (res, out)" "grz_process_result res = r"
    using assms(4) by (auto simp: compress_process_def split: prod.splits)
  have "res = r"
    by (rule process_result [OF c(2) assms(5)])
  then have "is_block (wfc_room Mode) (map ?I [0..<length b]) (r, out)"
    using assms(6) c(1) by (intro block_restored [OF assms(1,2,3) _ _ assms(6)]) auto
  moreover have "map ?I [0..<length b] = b"
    by (rule nth_equalityI) simp_all
  ultimately show ?thesis
    by simp
qed

lemma compressed_stream:
  assumes "\<forall>k. pick_ok (E k) \<and> sorters_ok (E k) (grz_mode junk m)" "grz_mode_valid m" "\<forall>b\<in>set blocks. 0 < length b \<and> length b < 2 ^ 31"
    "mt_run (grzip_compress E junk m threads init callback) (compress_input blocks) n s" "main s = M_Return" "errcode s = 0"
    "\<forall>w\<in>set (written s). fst w < 2 ^ 31"
  shows "list_all2 (is_block (wfc_room (grz_mode junk m))) blocks (written s)"
proof -
  let ?E = "grzip_compress E junk m threads init callback"
  have "\<forall>x\<in>set (compress_input blocks). fst x > 0"
    using assms(3) unfolding compress_input_def numbered_positive by auto
  note r = returned_complete [OF assms(4) this assms(5,6)]
  have w: "written s = map (\<lambda>(k, b). compress_process E (grz_mode junk m) (nat (grz_BlockSize m)) (int (length b)) (k, b)) (enumerate 0 blocks)"
    using r unfolding compress_input_def numbered_results
    by (auto simp: grzip_compress_def enumerate_eq_zip zip_map2)
  show ?thesis
  proof (rule list_all2_all_nthI)
    show len: "length blocks = length (written s)"
      using w by simp
    fix i
    assume i: "i < length blocks"
    obtain c out where o: "written s ! i = (c, out)"
      by fastforce
    have "(c, out) \<in> set (written s)"
      using i len o by (metis nth_mem)
    then have "0 \<le> c" "c < 2 ^ 31"
      using r assms(7) by fastforce+
    moreover have "compress_process E (grz_mode junk m) (nat (grz_BlockSize m)) (int (length (blocks ! i))) (i, blocks ! i) = (c, out)"
      using i o unfolding w by (simp add: nth_enumerate_eq)
    ultimately show "is_block (wfc_room (grz_mode junk m)) (blocks ! i) (written s ! i)"
      unfolding o using assms(1,3) i by (intro compressed_block [OF _ grz_mode_ok [OF assms(2)]]) auto
  qed
qed

lemma decompressed_results:
  assumes "list_all2 (is_block (wfc_room Mode)) blocks writes" "\<forall>k. wfc_room Mode (D k)"
  shows "results (grzip_decompress D (stream_of writes) threads init callback) (decompress_input (stream_of writes)) =
    map (\<lambda>b. (int (length b), b)) blocks"
proof (rule nth_equalityI)
  note rb = read_blocks_stream [OF assms(1)]
  have len: "length blocks = length writes"
    using assms(1) by (rule list_all2_lengthD)
  show "length (results (grzip_decompress D (stream_of writes) threads init callback) (decompress_input (stream_of writes))) =
      length (map (\<lambda>b. (int (length b), b)) blocks)"
    using len unfolding decompress_input_def numbered_results rb by simp
  fix i
  assume "i < length (results (grzip_decompress D (stream_of writes) threads init callback) (decompress_input (stream_of writes)))"
  then have i: "i < length writes"
    unfolding decompress_input_def numbered_results rb by simp
  obtain c out where o: "writes ! i = (c, out)"
    by fastforce
  have "is_block (wfc_room Mode) (blocks ! i) (c, out)"
    using assms(1) i o by (metis list_all2_nthD2)
  note d = block_sign(5) [OF this]
  have "decompress_process D (c - 28) (i, out) = (int (length (blocks ! i)), blocks ! i)"
    using d [of "D i"] assms(2) by (simp add: decompress_process_def grz_process_result_def GRZ_NOT_ENOUGH_MEMORY_def)
  then show "results (grzip_decompress D (stream_of writes) threads init callback) (decompress_input (stream_of writes)) ! i =
      map (\<lambda>b. (int (length b), b)) blocks ! i"
    using i len o unfolding decompress_input_def numbered_results rb
    by (simp add: nth_enumerate_eq grzip_decompress_def rb)
qed

lemma decompress_positive:
  assumes "list_all2 (is_block (wfc_room Mode)) blocks writes" "\<forall>b\<in>set blocks. b \<noteq> []"
  shows "\<forall>x\<in>set (decompress_input (stream_of writes)). fst x > 0"
proof -
  have "0 < fst w - 28" if w: "w \<in> set writes" for w
  proof -
    obtain i where i: "i < length writes" "w = writes ! i"
      using w by (metis in_set_conv_nth)
    then have "is_block (wfc_room Mode) (blocks ! i) (fst w, snd w)" "blocks ! i \<in> set blocks"
      using assms(1) by (simp_all add: list_all2_nthD2 list_all2_lengthD)
    then show ?thesis
      using block_not_empty [where P = "wfc_room Mode" and E = plain_env, OF _ _ plain_env_ok(2)] assms(2) by fastforce
  qed
  then show ?thesis
    unfolding decompress_input_def numbered_positive read_blocks_stream [OF assms(1)] by auto
qed

section \<open>Properties\<close>

text \<open>
  C11: the compressor always finds the end of its input, however much each read gives: it cuts the input into blocks that are not
  empty and not longer than the block size, and that are the input when put together, also with the adaptive block size, whatever
  its test answers.
\<close>
theorem input_split:
  assumes "amount_ok amount" "0 < BlockSize"
  shows "\<exists>blocks. split_input amount (grz_cut worse m) BlockSize [] data = Some blocks \<and> concat blocks = data \<and>
    (\<forall>b\<in>set blocks. 0 < length b \<and> length b \<le> BlockSize)"
proof -
  have "\<exists>n. grz_cut worse m b = Some n \<and> 0 < n \<and> n \<le> length b" if "b \<noteq> []" for b
    using that adaptive_size [of "length b" worse b] by (simp add: grz_cut_def)
  from split_input_ends [of amount BlockSize "grz_cut worse m" "[]" data, OF assms this] show ?thesis
    by simp
qed

theorem input_split_witness:
  "\<exists>blocks. split_input min (grz_cut (\<lambda>_ _ _ _. True) (new_GRZIP_METHOD\<lparr>gm_AdaptiveBlockSize := 1\<rparr>)) 3 [] [1, 2, 3, 4, 5, 6, 7] = Some blocks \<and>
    concat blocks = [1, 2, 3, 4, 5, 6, 7] \<and> (\<forall>b\<in>set blocks. 0 < length b \<and> length b \<le> 3)"
  by (rule input_split) (simp_all add: amount_ok_def)

text \<open>
  C1: what \<^verbatim>\<open>grzip_compress\<close> writes with the methods 3 and 4, those with the sort transform, in a run that returns 0,
  \<^verbatim>\<open>grzip_decompress\<close> restores: every run of its threads that cannot go on has returned 0 and has written the input,
  block by block in the right order.  The threads of both run in any order, the input is cut in any way, every block has its own
  memory; the callback and the initialisation of the decompressor's jobs do not fail.  The hash table of the preprocessor has an
  exponent below 30, the entropy comparison of the record filter yields one of its three answers, and with method 3 the memory
  that \<^verbatim>\<open>BigAlloc\<close> gives the decompressor is a multiple of eight bytes, because the WFC decoder asks for up to seven bytes too few.
\<close>
theorem grzip_roundtrip:
  assumes "\<forall>k. pick_ok (E k)" "grz_mode_valid m" "gm_Method m \<in> {3, 4}"
    "concat blocks = data" "\<forall>b\<in>set blocks. 0 < length b \<and> length b < 2 ^ 31"
    "mt_run (grzip_compress E junk m threads init callback) (compress_input blocks) n s" "main s = M_Return" "errcode s = 0"
    "\<forall>w\<in>set (written s). fst w < 2 ^ 31"
    "gm_Method m = 4 \<or> (\<forall>k n. (n + 7) div 8 * 8 \<le> BigAlloc (D k) n)"
    "mt_run (grzip_decompress D (stream_of (written s)) threads' init' callback') (decompress_input (stream_of (written s))) n' s'"
    "\<not> (\<exists>t. mt_step (grzip_decompress D (stream_of (written s)) threads' init' callback') s' t)"
    "0 < threads'" "\<forall>j. init' j" "\<forall>w. 0 \<le> callback' w"
  shows "main s' = M_Return \<and> errcode s' = 0 \<and> stream_of (written s') = data"
proof -
  let ?D = "grzip_decompress D (stream_of (written s)) threads' init' callback'"
  let ?in = "decompress_input (stream_of (written s))"
  have E: "\<forall>k. pick_ok (E k) \<and> sorters_ok (E k) (grz_mode junk m)"
    using assms(1,3) grz_mode_bits(1) [OF assms(2)] by (simp add: sorters_ok_def)
  have room: "\<forall>k. wfc_room (grz_mode junk m) (D k)"
    using assms(10) grz_mode_bits(2) [OF assms(2)] by (auto simp: wfc_room_def mode_bits)
  note b = compressed_stream [OF E assms(2,5-9)]
  note rb = read_blocks_stream [OF b]
  have D: "CompressionThreads ?D = threads'" "init_ok ?D = init'" "write_result ?D = callback'" "end_code ?D = 0"
    by (simp_all add: grzip_decompress_def rb FREEARC_OK_def)
  have r: "results ?D ?in = map (\<lambda>b. (int (length b), b)) blocks"
    by (rule decompressed_results [OF b room])
  have pos: "\<forall>x\<in>set ?in. fst x > 0"
    using assms(5) by (intro decompress_positive [OF b]) auto
  have "no_errors ?D ?in"
    by (simp add: no_errors_def r D)
  moreover have "all_init ?D" "0 < CompressionThreads ?D" "\<forall>x. write_result ?D x \<ge> 0"
    using assms(13-15) by (simp_all add: D all_init_def)
  ultimately have s: "main s' = M_Return" "errcode s' = 0"
    using stuck_returned [OF assms(11) pos _ _ _ assms(12)] by blast+
  then have "written s' = map (\<lambda>b. (int (length b), b)) blocks"
    using returned_complete [OF assms(11) pos] r by simp
  then show ?thesis
    using s assms(4) by (simp add: stream_of_def comp_def)
qed

text \<open>One block of 20 bytes, which is stored, in a stream of 48 bytes.\<close>

definition test_method :: grzip_method where "test_method = new_GRZIP_METHOD\<lparr>gm_Method := 3\<rparr>"

lemma test_compress:
  "compress_process (\<lambda>_. plain_env) (grz_mode 0 test_method) B 20 (k, replicate 20 7) =
    (48, snd (GRZip_StoreBlock (replicate 20 7) (put32 20 @ drop 4 (map (fresh plain_env) [0..<B + 1024])) 0))"
proof -
  have "map (\<lambda>i. if i < 20 then replicate 20 7 ! i else fresh plain_env i) [0..<20] = replicate 20 (7 :: byte)"
    by (rule nth_equalityI) simp_all
  then show ?thesis
    by (simp add: compress_process_def small_block GRZip_StoreBlock_def grz_process_result_def GRZ_NOT_ENOUGH_MEMORY_def)
qed

theorem grzip_roundtrip_witness:
  "\<exists>n s n' s'. let E = grzip_compress (\<lambda>_. plain_env) 0 test_method 2 (\<lambda>_. True) (\<lambda>_. 0);
      D = grzip_decompress (\<lambda>_. plain_env) (stream_of (written s)) 3 (\<lambda>_. True) (\<lambda>_. 0)
    in mt_run E (compress_input [replicate 20 7]) n s \<and> mt_run D (decompress_input (stream_of (written s))) n' s' \<and>
      main s' = M_Return \<and> errcode s' = 0 \<and> stream_of (written s') = replicate 20 7"
proof -
  let ?E = "grzip_compress (\<lambda>_. plain_env) 0 test_method 2 (\<lambda>_. True) (\<lambda>_. 0)"
  let ?blocks = "[replicate 20 7] :: byte list list"
  have ok: "\<forall>k :: nat. pick_ok plain_env \<and> sorters_ok plain_env (grz_mode 0 test_method)" "grz_mode_valid test_method"
    "\<forall>b\<in>set ?blocks. 0 < length b \<and> length b < 2 ^ 31"
    by (simp_all add: plain_env_ok grz_mode_valid_def test_method_def new_GRZIP_METHOD_def)
  have test: "gm_Method test_method \<in> {3, 4}" "\<forall>(k :: nat) n. (n + 7) div 8 * 8 \<le> BigAlloc plain_env n"
    using plain_env_ok(2) [of 0] by (simp_all add: test_method_def wfc_room_def)
  have in_pos: "\<forall>x\<in>set (compress_input ?blocks). fst x > 0"
    unfolding compress_input_def numbered_positive by simp
  then obtain n s where r: "mt_run ?E (compress_input ?blocks) n s" "\<not> (\<exists>s'. mt_step ?E s s')"
    using run_to_end by blast
  have results: "\<forall>w\<in>set (results ?E (compress_input ?blocks)). fst w = 48"
    unfolding compress_input_def numbered_results by (simp add: grzip_compress_def test_compress)
  then have "no_errors ?E (compress_input ?blocks)"
    unfolding no_errors_def by (auto simp: grzip_compress_def FREEARC_OK_def)
  then have s: "main s = M_Return" "errcode s = 0"
    using stuck_returned [OF r(1) in_pos _ _ _ r(2)] by (simp_all add: all_init_def grzip_compress_def)
  then have small: "\<forall>w\<in>set (written s). fst w < 2 ^ 31"
    using returned_complete [OF r(1) in_pos] results by fastforce
  let ?D = "grzip_decompress (\<lambda>_. plain_env) (stream_of (written s)) 3 (\<lambda>_. True) (\<lambda>_. 0)"
  note b = compressed_stream [OF ok r(1) s small]
  obtain n' s' where r': "mt_run ?D (decompress_input (stream_of (written s))) n' s'" "\<not> (\<exists>t. mt_step ?D s' t)"
    using run_to_end decompress_positive [OF b] by fastforce
  have "main s' = M_Return \<and> errcode s' = 0 \<and> stream_of (written s') = replicate 20 7"
    using grzip_roundtrip [OF _ ok(2) test(1) refl ok(3) r(1) s small disjI2 [OF test(2)] r'] ok(1) by simp
  then show ?thesis
    using r(1) r'(1) unfolding Let_def by blast
qed

end
