(* ===== verification/Lzp_Coder.thy ===== *)
theory Lzp_Coder
  imports Prelude
begin

text \<open>
  \<^verbatim>\<open>LZPEncode\<close> and \<^verbatim>\<open>LZPDecode\<close> of \<^verbatim>\<open>Compression/LZP/C_LZP.cpp\<close>: the preprocessor of the method \<^verbatim>\<open>lzp\<close>.  A string
  that repeats what followed the place the hash table gives for the current context is replaced by a
  flag; the flags and literals grow from the front of the output, the lengths from its end.

  Pointers into the block are offsets, on both sides offsets into the original block.  \<^verbatim>\<open>Out\<close> is the list of
  the bytes written from the front, \<^verbatim>\<open>Ctl\<close> the bytes from \<^verbatim>\<open>OutEnd\<close> on, so that \<^verbatim>\<open>Out < OutEnd\<close> compares the sum of
  their lengths with the size.  The variables \<^verbatim>\<open>i\<close> and \<^verbatim>\<open>k\<close> of the loops, the context and its hash, are those of
  the current position.  Blocks have fewer than \<^verbatim>\<open>2^31\<close> bytes and lengths are not negative, so that lengths and distances are
  natural numbers, but for the decoder's length, a word.  \<^verbatim>\<open>HashSize\<close> is a power of two that fits an \<^verbatim>\<open>int\<close>, so that a masked hash
  is an index of the table, and the table is allocated.
\<close>

section \<open>Contexts and hashes\<close>

definition LZP_MATCH_FLAG :: byte where "LZP_MATCH_FLAG = 0xB5"

definition lzpC :: "byte list \<Rightarrow> nat \<Rightarrow> u32" where
  "lzpC mem p = LOAD32L mem (p - 4)"

definition lzpH :: "u32 \<Rightarrow> byte list \<Rightarrow> nat \<Rightarrow> u32 \<Rightarrow> u32" where
  "lzpH c mem p HashMask = (c + 5 * word_rotr 17 c + 3 * lzpC mem (p - 1)) AND HashMask"

type_synonym lzp_places = "u32 \<Rightarrow> nat"

text \<open>The hash of the context of a position, as both loops compute it.\<close>

definition lzp_slot :: "byte list \<Rightarrow> u32 \<Rightarrow> nat \<Rightarrow> u32" where
  "lzp_slot mem HashSize p = lzpH (lzpC mem p) mem p (HashSize - 1)"

text \<open>\<^verbatim>\<open>if ( !--n )  { HTable[k]=In; n=n1; }\<close>\<close>

definition lzp_tick :: "nat \<Rightarrow> u32 \<Rightarrow> nat \<Rightarrow> nat \<Rightarrow> lzp_places \<Rightarrow> lzp_places \<times> nat" where
  "lzp_tick n1 k In n HTable = (if n - 1 = 0 then (HTable(k := In), n1) else (HTable, n - 1))"

text \<open>The step between two positions entered for a match grows with the distance.\<close>

definition lzp_grow :: "u32 \<Rightarrow> nat \<Rightarrow> nat \<Rightarrow> nat" where
  "lzp_grow HashSize dist n1 = n1 + (if dist > unat ((of_nat n1 + 1) * HashSize) \<and> n1 < 7 then 1 else 0)"

section \<open>Encoder\<close>

text \<open>The length of a match: whole words first, then bytes.\<close>

function lzp_words :: "byte list \<Rightarrow> nat \<Rightarrow> nat \<Rightarrow> nat \<Rightarrow> nat" where
  "lzp_words inp p In i =
     (if In + i \<le> length inp \<and> lzpC inp (p + i) = lzpC inp (In + i) then lzp_words inp p In (i + 4) else i)"
  by pat_completeness auto
termination by (relation "measure (\<lambda>(inp, p, In, i). Suc (length inp) - i)") auto

function lzp_bytes :: "byte list \<Rightarrow> nat \<Rightarrow> nat \<Rightarrow> nat \<Rightarrow> nat" where
  "lzp_bytes inp p In i =
     (if In + i < length inp \<and> inp ! (In + i) = inp ! (p + i) then lzp_bytes inp p In (i + 1) else i)"
  by pat_completeness auto
termination by (relation "measure (\<lambda>(inp, p, In, i). length inp - i)") auto

definition lzp_match_length :: "byte list \<Rightarrow> nat \<Rightarrow> nat \<Rightarrow> nat" where
  "lzp_match_length inp p In = lzp_bytes inp p In (lzp_words inp p In 4 - 4)"

text \<open>The length above the shortest one, in units of 254 written as zeros and a rest; \<open>front\<close> is the length of \<^verbatim>\<open>Out\<close>.\<close>

function lzp_put_run :: "nat \<Rightarrow> nat \<Rightarrow> nat \<Rightarrow> byte list \<Rightarrow> byte list" where
  "lzp_put_run Size front i Ctl =
     (if i \<ge> 254 \<and> front + length Ctl < Size then lzp_put_run Size front (i - 254) (0 # Ctl)
      else of_nat (i + 1) # Ctl)"
  by pat_completeness auto
termination by (relation "measure (\<lambda>(Size, front, i, Ctl). i)") auto

text \<open>Positions of the match that are entered: \<^verbatim>\<open>while(int(k -= 2*n1+1) > 0)\<close>.\<close>

function lzp_enter :: "byte list \<Rightarrow> u32 \<Rightarrow> nat \<Rightarrow> nat \<Rightarrow> nat \<Rightarrow> lzp_places \<Rightarrow> lzp_places" where
  "lzp_enter inp HashSize n1 In k HTable =
     (if k > 2 * n1 + 1
      then let k = k - (2 * n1 + 1) in lzp_enter inp HashSize n1 In k (HTable(lzp_slot inp HashSize (In - k) := In - k))
      else HTable)"
  by pat_completeness auto
termination by (relation "measure (\<lambda>(inp, HashSize, n1, In, k, HTable). k)") auto

declare lzp_words.simps [simp del] lzp_bytes.simps [simp del] lzp_put_run.simps [simp del] lzp_enter.simps [simp del]

function lzp_encode_loop ::
    "byte list \<Rightarrow> nat \<Rightarrow> u32 \<Rightarrow> nat \<Rightarrow> nat \<Rightarrow> lzp_places \<Rightarrow> nat \<Rightarrow> nat \<Rightarrow> nat \<Rightarrow> byte list \<Rightarrow> byte list \<Rightarrow>
     byte list \<times> byte list" where
  "lzp_encode_loop inp MinLen HashSize Barrier SmallestLen HTable n n1 In Out Ctl =
     (if \<not> (In < length inp \<and> length Out + length Ctl < length inp) then (Out, Ctl)
      else
        let k = lzp_slot inp HashSize In; p = HTable k;
            (HTable, n) = lzp_tick n1 k In n HTable;
            ml = (if In - p > Barrier then SmallestLen else MinLen)
        in if lzpC inp In \<noteq> lzpC inp p
           then lzp_encode_loop inp MinLen HashSize Barrier SmallestLen HTable n n1 (In + 1) (Out @ [inp ! In]) Ctl
           else if In + ml \<le> length inp \<and> lzpC inp (p + ml) = lzpC inp (In + ml) \<and> lzp_match_length inp p In \<ge> ml
           then
             let i = lzp_match_length inp p In;
                 HTable = HTable(k := In);
                 n1 = lzp_grow HashSize (In - p) n1;
                 Out = Out @ [LZP_MATCH_FLAG];
                 Ctl = lzp_put_run (length inp) (length Out) (i - ml) Ctl
             in lzp_encode_loop inp MinLen HashSize Barrier SmallestLen
                  (lzp_enter inp HashSize n1 (In + i) i HTable) n n1 (In + i) Out Ctl
           else
             lzp_encode_loop inp MinLen HashSize Barrier SmallestLen HTable n n1 (In + 1) (Out @ [inp ! In])
               (if inp ! In = LZP_MATCH_FLAG then 255 # Ctl else Ctl))"
  by pat_completeness auto
termination
  by (relation "measure (\<lambda>(inp, MinLen, HashSize, Barrier, SmallestLen, HTable, n, n1, In, Out, Ctl). length inp - length Out)") auto

declare lzp_encode_loop.simps [simp del]

text \<open>The value \<open>None\<close> is the return value 0: the block did not get shorter.\<close>

definition LZPEncode :: "byte list \<Rightarrow> nat \<Rightarrow> u32 \<Rightarrow> nat \<Rightarrow> nat \<Rightarrow> byte list option" where
  "LZPEncode inp MinLen HashSize Barrier SmallestLen =
     (if length inp < 32 then None
      else
        let (Out, Ctl) = lzp_encode_loop inp MinLen HashSize Barrier SmallestLen (\<lambda>k. 5) 1 1 12 (take 12 inp) []
        in if length Out + length Ctl \<ge> length inp then None else Some (Out @ Ctl))"

section \<open>Decoder\<close>

text \<open>The length of a match, read from its last byte; \<open>None\<close> when it would leave the buffer.\<close>

fun lzp_get_run :: "byte list \<Rightarrow> nat \<Rightarrow> u32 \<Rightarrow> (u32 \<times> nat) option" where
  "lzp_get_run buf 0 i = (if buf ! 0 = 0 then None else Some (i + ucast (buf ! 0), 0))"
| "lzp_get_run buf (Suc InEnd) i =
     (if buf ! Suc InEnd = 0 then lzp_get_run buf InEnd (i + 254) else Some (i + ucast (buf ! Suc InEnd), Suc InEnd))"

lemma lzp_get_run_shorter: "lzp_get_run buf InEnd i = Some (j, InEnd') \<Longrightarrow> InEnd' \<le> InEnd"
  by (induction InEnd arbitrary: i) (auto split: if_splits dest: le_SucI)

text \<open>\<^verbatim>\<open>*Out++ = *p++\<close> for \<open>i\<close> bytes, with the positions entered in between.\<close>

fun lzp_copy_run :: "u32 \<Rightarrow> nat \<Rightarrow> nat \<Rightarrow> nat \<Rightarrow> nat \<Rightarrow> lzp_places \<Rightarrow> byte list \<Rightarrow> lzp_places \<times> byte list" where
  "lzp_copy_run HashSize n1 0 p k HTable Out = (HTable, Out)"
| "lzp_copy_run HashSize n1 (Suc i) p k HTable Out =
     (let (k, HTable) = (if k - 1 = 0 then (2 * n1 + 1, HTable(lzp_slot Out HashSize (length Out) := length Out)) else (k - 1, HTable))
      in lzp_copy_run HashSize n1 i (p + 1) k HTable (Out @ [Out ! p]))"

text \<open>\<open>Room\<close> is the size of the output buffer; \<open>None\<close> is a write or a read outside a buffer.\<close>

function lzp_decode_loop ::
    "byte list \<Rightarrow> nat \<Rightarrow> nat \<Rightarrow> u32 \<Rightarrow> nat \<Rightarrow> nat \<Rightarrow> lzp_places \<Rightarrow> nat \<Rightarrow> nat \<Rightarrow> nat \<Rightarrow> nat \<Rightarrow> byte list \<Rightarrow> byte list option" where
  "lzp_decode_loop buf Room MinLen HashSize Barrier SmallestLen HTable n n1 In InEnd Out =
     (if \<not> In < InEnd then Some Out
      else
        let k = lzp_slot Out HashSize (length Out); p = HTable k; c = buf ! In;
            (HTable, n) = lzp_tick n1 k (length Out) n HTable
        in if Room \<le> length Out then None
           else if c \<noteq> LZP_MATCH_FLAG \<or> lzpC Out (length Out) \<noteq> lzpC Out p
           then lzp_decode_loop buf Room MinLen HashSize Barrier SmallestLen HTable n n1 (In + 1) InEnd (Out @ [c])
           else if buf ! (InEnd - 1) = 255
           then lzp_decode_loop buf Room MinLen HashSize Barrier SmallestLen HTable n n1 (In + 1) (InEnd - 1) (Out @ [c])
           else
             let HTable = HTable(k := length Out);
                 n1 = lzp_grow HashSize (length Out - p) n1;
                 ml = (if length Out - p > Barrier then SmallestLen else MinLen)
             in case lzp_get_run buf (InEnd - 1) (of_nat ml - 1) of
                  None \<Rightarrow> None
                | Some (i, InEnd') \<Rightarrow>
                  if i = 0 \<or> Room < length Out + unat i then None
                  else
                    let (HTable, Out) = lzp_copy_run HashSize n1 (unat i) p (2 * n1 + 2) HTable Out
                    in lzp_decode_loop buf Room MinLen HashSize Barrier SmallestLen HTable n n1 (In + 1) InEnd' Out)"
  by pat_completeness auto
termination
  by (relation "measure (\<lambda>(buf, Room, MinLen, HashSize, Barrier, SmallestLen, HTable, n, n1, In, InEnd, Out). InEnd - In)")
     (auto dest!: lzp_get_run_shorter)

declare lzp_decode_loop.simps [simp del]

definition LZPDecode :: "byte list \<Rightarrow> nat \<Rightarrow> nat \<Rightarrow> u32 \<Rightarrow> nat \<Rightarrow> nat \<Rightarrow> byte list option" where
  "LZPDecode buf Room MinLen HashSize Barrier SmallestLen =
     (if length buf \<le> 12 \<or> Room < 12 then None
      else lzp_decode_loop buf Room MinLen HashSize Barrier SmallestLen (\<lambda>k. 5) 1 1 12 (length buf) (take 12 buf))"

section \<open>Reading contexts\<close>

lemma lzpC_take: "4 \<le> p \<Longrightarrow> p \<le> j \<Longrightarrow> lzpC (take j inp) p = lzpC inp p"
  by (simp add: lzpC_def LOAD32L_def)

lemma lzp_slot_take: "5 \<le> j \<Longrightarrow> lzp_slot (take j inp) HashSize j = lzp_slot inp HashSize j"
  by (simp add: lzp_slot_def lzpH_def lzpC_take)

lemma lzpC_same:
  assumes "lzpC inp a = lzpC inp b" "4 \<le> a" "4 \<le> b" "j < 4"
  shows "inp ! (a - 4 + j) = inp ! (b - 4 + j)"
proof -
  define X where "X = [inp ! (a - 4), inp ! (a - 4 + 1), inp ! (a - 4 + 2), inp ! (a - 4 + 3)]"
  define Y where "Y = [inp ! (b - 4), inp ! (b - 4 + 1), inp ! (b - 4 + 2), inp ! (b - 4 + 3)]"
  have len: "length X = 4" "length Y = 4"
    by (simp_all add: X_def Y_def)
  have "LOAD32L X 0 = LOAD32L Y 0"
    using assms(1) by (simp add: X_def Y_def lzpC_def LOAD32L_def)
  moreover have "STORE32L (LOAD32L X 0) = X" "STORE32L (LOAD32L Y 0) = Y"
    using STORE32L_LOAD32L [of 0 X] STORE32L_LOAD32L [of 0 Y] len by simp_all
  ultimately have "X = Y"
    by (metis (full_types))
  then have "X ! j = Y ! j"
    by simp
  then show ?thesis
    using assms(4) by (auto simp: X_def Y_def less_Suc_eq numeral_eq_Suc)
qed

section \<open>Matches\<close>

lemma lzp_bytes_spec:
  "In + i \<le> length inp \<Longrightarrow> (\<And>k. k < i \<Longrightarrow> inp ! (In + k) = inp ! (p + k)) \<Longrightarrow>
   In + lzp_bytes inp p In i \<le> length inp \<and> (\<forall>k < lzp_bytes inp p In i. inp ! (In + k) = inp ! (p + k))"
proof (induction inp p In i rule: lzp_bytes.induct)
  case (1 inp p In i)
  show ?case
  proof (cases "In + i < length inp \<and> inp ! (In + i) = inp ! (p + i)")
    case True
    have "\<And>k. k < i + 1 \<Longrightarrow> inp ! (In + k) = inp ! (p + k)"
      using True "1.prems"(2) by (auto simp: less_Suc_eq)
    then show ?thesis
      using "1.IH" [OF True] True by (subst (1 2) lzp_bytes.simps) simp
  next
    case False
    then show ?thesis
      using "1.prems" by (subst (1 2) lzp_bytes.simps) auto
  qed
qed

lemma lzp_words_spec:
  "4 \<le> i \<Longrightarrow> 4 \<le> p \<Longrightarrow> 4 \<le> In \<Longrightarrow> In + i - 4 \<le> length inp \<Longrightarrow> (\<And>k. k < i - 4 \<Longrightarrow> inp ! (In + k) = inp ! (p + k)) \<Longrightarrow>
   4 \<le> lzp_words inp p In i \<and> In + lzp_words inp p In i - 4 \<le> length inp \<and>
   (\<forall>k < lzp_words inp p In i - 4. inp ! (In + k) = inp ! (p + k))"
proof (induction inp p In i rule: lzp_words.induct)
  case (1 inp p In i)
  show ?case
  proof (cases "In + i \<le> length inp \<and> lzpC inp (p + i) = lzpC inp (In + i)")
    case True
    have "inp ! (In + k) = inp ! (p + k)" if "k < i + 4 - 4" for k
    proof (cases "k < i - 4")
      case False
      then show ?thesis
        using lzpC_same [of inp "p + i" "In + i" "k - (i - 4)"] True that "1.prems" by (simp add: ac_simps)
    qed (use "1.prems" in simp)
    then show ?thesis
      using "1.IH" [OF True] True "1.prems" by (subst (1 2 3) lzp_words.simps) simp
  next
    case False
    then show ?thesis
      using "1.prems" by (subst (1 2 3) lzp_words.simps) auto
  qed
qed

lemma lzp_match_length_spec:
  assumes "4 \<le> p" "4 \<le> In" "In \<le> length inp"
  shows "In + lzp_match_length inp p In \<le> length inp"
    "k < lzp_match_length inp p In \<Longrightarrow> inp ! (In + k) = inp ! (p + k)"
proof -
  have w: "4 \<le> lzp_words inp p In 4" "In + lzp_words inp p In 4 - 4 \<le> length inp"
      "\<forall>k < lzp_words inp p In 4 - 4. inp ! (In + k) = inp ! (p + k)"
    using lzp_words_spec [of 4 p In inp] assms by auto
  then have "In + (lzp_words inp p In 4 - 4) \<le> length inp"
    by simp
  from lzp_bytes_spec [OF this] w(3)
  show "In + lzp_match_length inp p In \<le> length inp"
    "k < lzp_match_length inp p In \<Longrightarrow> inp ! (In + k) = inp ! (p + k)"
    by (simp_all add: lzp_match_length_def)
qed

section \<open>Lengths\<close>

text \<open>What is written for a length, when the two ends of the output do not meet.\<close>

lemma lzp_put_run_longer: "length Ctl < length (lzp_put_run Size front i Ctl)"
proof (induction Size front i Ctl rule: lzp_put_run.induct)
  case (1 Size front i Ctl)
  then show ?case
    by (subst lzp_put_run.simps) auto
qed

lemma lzp_put_run_spec:
  "front + length (lzp_put_run Size front i Ctl) < Size \<Longrightarrow>
   \<exists>z r. r < 254 \<and> i = 254 * z + r \<and> lzp_put_run Size front i Ctl = of_nat (r + 1) # replicate z 0 @ Ctl"
proof (induction Size front i Ctl rule: lzp_put_run.induct)
  case (1 Size front i Ctl)
  show ?case
  proof (cases "i \<ge> 254")
    case True
    then have go: "i \<ge> 254 \<and> front + length Ctl < Size"
      using "1.prems" lzp_put_run_longer [of Ctl Size front i] by simp
    have e: "lzp_put_run Size front i Ctl = lzp_put_run Size front (i - 254) (0 # Ctl)"
      using go by (subst lzp_put_run.simps) simp
    obtain z r where "r < 254" "i - 254 = 254 * z + r"
        "lzp_put_run Size front (i - 254) (0 # Ctl) = of_nat (r + 1) # replicate z 0 @ 0 # Ctl"
      using "1.IH" [OF go] "1.prems" unfolding e by blast
    then show ?thesis
      using True unfolding e by (intro exI [of _ "Suc z"] exI [of _ r]) (simp add: replicate_app_Cons_same)
  next
    case False
    then show ?thesis
      by (intro exI [of _ 0] exI [of _ i]) (simp add: lzp_put_run.simps)
  qed
qed

lemma lzp_get_run_zeros:
  assumes "\<And>j. InEnd - z < j \<Longrightarrow> j \<le> InEnd \<Longrightarrow> buf ! j = 0" "buf ! (InEnd - z) \<noteq> 0" "z \<le> InEnd"
  shows "lzp_get_run buf InEnd i = Some (i + 254 * of_nat z + ucast (buf ! (InEnd - z)), InEnd - z)"
  using assms
proof (induction z arbitrary: InEnd i)
  case 0
  then show ?case
    by (cases InEnd) simp_all
next
  case (Suc z)
  then obtain e where e: "InEnd = Suc e"
    by (cases InEnd) auto
  have "buf ! Suc e = 0"
    using Suc.prems(1) [of "Suc e"] Suc.prems(3) unfolding e by simp
  moreover have "lzp_get_run buf e (i + 254) = Some (i + 254 + 254 * of_nat z + ucast (buf ! (e - z)), e - z)"
    by (rule Suc.IH) (use Suc.prems in \<open>auto simp: e\<close>)
  ultimately show ?case
    by (simp add: e algebra_simps)
qed

section \<open>Entered positions\<close>

text \<open>The decoder enters the same positions while it copies, as the encoder after the match.\<close>

lemma lzp_copy_run_take:
  assumes "5 \<le> j" "p < j" "j + c \<le> length inp" "\<And>i. i < c \<Longrightarrow> inp ! (j + i) = inp ! (p + i)" "1 \<le> k" "k \<le> 2 * n1 + 2"
  shows "lzp_copy_run HashSize n1 c p k HTable (take j inp) =
    (lzp_enter inp HashSize n1 (j + c) (c + (2 * n1 + 2) - k) HTable, take (j + c) inp)"
  using assms
proof (induction c arbitrary: j p k HTable)
  case 0
  then show ?case
    by (subst lzp_enter.simps) auto
next
  case (Suc c)
  have j: "j < length inp" "inp ! j = inp ! p"
    using Suc.prems(3) Suc.prems(4) [of 0] by simp_all
  have adv: "take j inp @ [take j inp ! p] = take (Suc j) inp"
    using j Suc.prems(2) by (simp add: take_Suc_conv_app_nth)
  have step: "lzp_copy_run HashSize n1 c (Suc p) k' HTable' (take (Suc j) inp) =
      (lzp_enter inp HashSize n1 (Suc j + c) (c + (2 * n1 + 2) - k') HTable', take (Suc j + c) inp)"
    if "1 \<le> k'" "k' \<le> 2 * n1 + 2" for k' HTable'
    by (rule Suc.IH) (use Suc.prems(1-3) Suc.prems(4) [of "Suc _"] that in auto)
  show ?case
  proof (cases "k - 1 = 0")
    case True
    then have k: "k = 1"
      using Suc.prems(5) by simp
    have "lzp_enter inp HashSize n1 (j + Suc c) (Suc c + (2 * n1 + 2) - k) HTable =
        lzp_enter inp HashSize n1 (Suc j + c) (c + (2 * n1 + 2) - (2 * n1 + 1)) (HTable(lzp_slot inp HashSize j := j))"
      unfolding k by (subst lzp_enter.simps) (simp add: Let_def)
    then show ?thesis
      using k j Suc.prems(1) step [of "2 * n1 + 1"] by (simp add: Let_def adv lzp_slot_take min_absorb2)
  next
    case False
    then show ?thesis
      using j Suc.prems(5,6) step [of "k - 1" HTable] by (simp add: Let_def adv)
  qed
qed

section \<open>Round trip of a block\<close>

text \<open>Lists of the output at the end of the loop continue those at a turn of it.\<close>

lemma lzp_put_run_ends: "\<exists>cs. lzp_put_run Size front i Ctl = cs @ Ctl"
proof (induction Size front i Ctl rule: lzp_put_run.induct)
  case (1 Size front i Ctl)
  then show ?case
    by (subst lzp_put_run.simps) auto
qed

text \<open>One turn of the encoder: a literal, a match, or a literal where there might have been one.\<close>

lemma lzp_encode_done:
  "\<not> (In < length inp \<and> length Out + length Ctl < length inp) \<Longrightarrow>
   lzp_encode_loop inp MinLen HashSize Barrier SmallestLen HTable n n1 In Out Ctl = (Out, Ctl)"
  by (subst lzp_encode_loop.simps) auto

definition lzp_matches :: "byte list \<Rightarrow> nat \<Rightarrow> nat \<Rightarrow> nat \<Rightarrow> bool" where
  "lzp_matches inp ml p In \<longleftrightarrow>
     In + ml \<le> length inp \<and> lzpC inp (p + ml) = lzpC inp (In + ml) \<and> lzp_match_length inp p In \<ge> ml"

lemma lzp_encode_turn:
  assumes go: "In < length inp" "length Out + length Ctl < length inp"
    and tick: "lzp_tick n1 (lzp_slot inp HashSize In) In n HTable = (T, n')"
    and p: "HTable (lzp_slot inp HashSize In) = p" and ml: "(if In - p > Barrier then SmallestLen else MinLen) = ml"
  shows "lzp_encode_loop inp MinLen HashSize Barrier SmallestLen HTable n n1 In Out Ctl =
     (if lzpC inp In \<noteq> lzpC inp p
      then lzp_encode_loop inp MinLen HashSize Barrier SmallestLen T n' n1 (In + 1) (Out @ [inp ! In]) Ctl
      else if lzp_matches inp ml p In
      then lzp_encode_loop inp MinLen HashSize Barrier SmallestLen
             (lzp_enter inp HashSize (lzp_grow HashSize (In - p) n1) (In + lzp_match_length inp p In) (lzp_match_length inp p In)
               (T(lzp_slot inp HashSize In := In)))
             n' (lzp_grow HashSize (In - p) n1) (In + lzp_match_length inp p In) (Out @ [LZP_MATCH_FLAG])
             (lzp_put_run (length inp) (length (Out @ [LZP_MATCH_FLAG])) (lzp_match_length inp p In - ml) Ctl)
      else lzp_encode_loop inp MinLen HashSize Barrier SmallestLen T n' n1 (In + 1) (Out @ [inp ! In])
             (if inp ! In = LZP_MATCH_FLAG then 255 # Ctl else Ctl))"
  unfolding lzp_encode_loop.simps [of inp MinLen HashSize Barrier SmallestLen HTable n n1 In Out Ctl] Let_def p tick split_conv ml lzp_matches_def
  using go by simp

text \<open>The same turns of the decoder.\<close>

lemma lzp_decode_turn:
  assumes "In < InEnd" "length Out < Room"
    "lzp_tick n1 (lzp_slot Out HashSize (length Out)) (length Out) n HTable = (T, n')"
    "HTable (lzp_slot Out HashSize (length Out)) = p"
  shows "lzp_decode_loop buf Room MinLen HashSize Barrier SmallestLen HTable n n1 In InEnd Out =
     (if buf ! In \<noteq> LZP_MATCH_FLAG \<or> lzpC Out (length Out) \<noteq> lzpC Out p
      then lzp_decode_loop buf Room MinLen HashSize Barrier SmallestLen T n' n1 (In + 1) InEnd (Out @ [buf ! In])
      else if buf ! (InEnd - 1) = 255
      then lzp_decode_loop buf Room MinLen HashSize Barrier SmallestLen T n' n1 (In + 1) (InEnd - 1) (Out @ [buf ! In])
      else
        let HTable = T(lzp_slot Out HashSize (length Out) := length Out); n1 = lzp_grow HashSize (length Out - p) n1;
            ml = (if length Out - p > Barrier then SmallestLen else MinLen)
        in case lzp_get_run buf (InEnd - 1) (of_nat ml - 1) of
             None \<Rightarrow> None
           | Some (i, InEnd') \<Rightarrow>
             if i = 0 \<or> Room < length Out + unat i then None
             else
               let (HTable, Out) = lzp_copy_run HashSize n1 (unat i) p (2 * n1 + 2) HTable Out
               in lzp_decode_loop buf Room MinLen HashSize Barrier SmallestLen HTable n' n1 (In + 1) InEnd' Out)"
proof -
  have go: "(\<not> In < InEnd) = False" "(Room \<le> length Out) = False"
    using assms(1,2) by simp_all
  show ?thesis
    unfolding lzp_decode_loop.simps [of buf Room MinLen HashSize Barrier SmallestLen HTable n n1 In InEnd Out] Let_def assms(3,4) split_conv go if_False ..
qed

lemma lzp_tick_places:
  "lzp_tick n1 k In n T = (T', n') \<Longrightarrow> \<forall>h. 5 \<le> T h \<and> T h < In \<Longrightarrow> 5 \<le> In \<Longrightarrow> \<forall>h. 5 \<le> T' h \<and> T' h < Suc In"
  by (auto simp: lzp_tick_def less_Suc_eq split: if_splits)

lemma lzp_enter_places:
  "\<forall>h. 5 \<le> T h \<and> T h < In \<Longrightarrow> k + 5 \<le> In \<Longrightarrow> \<forall>h. 5 \<le> lzp_enter inp HashSize n1 In k T h \<and> lzp_enter inp HashSize n1 In k T h < In"
proof (induction inp HashSize n1 In k T rule: lzp_enter.induct)
  case (1 inp HashSize n1 In k T)
  show ?case
  proof (cases "2 * n1 + 1 < k")
    case True
    let ?k = "k - (2 * n1 + 1)"
    have "\<forall>h. 5 \<le> (T(lzp_slot inp HashSize (In - ?k) := In - ?k)) h \<and> (T(lzp_slot inp HashSize (In - ?k) := In - ?k)) h < In"
      using "1.prems" True by auto
    moreover have "?k + 5 \<le> In"
      using "1.prems"(2) by simp
    ultimately show ?thesis
      using "1.IH" [OF True refl] True by (subst (1 2) lzp_enter.simps) (simp add: Let_def del: fun_upd_apply)
  next
    case False
    then show ?thesis
      using "1.prems" by (subst (1 2) lzp_enter.simps) simp
  qed
qed

lemma lzp_encode_loop_extends:
  "lzp_encode_loop inp MinLen HashSize Barrier SmallestLen HTable n n1 In Out Ctl = (Out', Ctl') \<Longrightarrow>
   length Out + length Ctl \<le> length Out' + length Ctl'"
proof (induction "length inp - length Out" arbitrary: HTable n n1 In Out Ctl rule: less_induct)
  case less
  show ?case
  proof (cases "In < length inp \<and> length Out + length Ctl < length inp")
    case False
    then show ?thesis
      using less.prems by (simp add: lzp_encode_done)
  next
    case True
    obtain T n' where t: "lzp_tick n1 (lzp_slot inp HashSize In) In n HTable = (T, n')"
      by fastforce
    have ih: "length O1 + length C1 \<le> length Out' + length Ctl'"
      if "lzp_encode_loop inp MinLen HashSize Barrier SmallestLen T1 n2 n3 In1 O1 C1 = (Out', Ctl')" "length O1 = Suc (length Out)"
      for T1 n2 n3 In1 O1 C1
    proof -
      have "length inp - length O1 < length inp - length Out"
        using that(2) True by arith
      then show ?thesis
        using that(1) by (rule less.hyps)
    qed
    have put: "length Ctl \<le> length (lzp_put_run Size front i Ctl)" for Size front i
      using lzp_put_run_longer [of Ctl Size front i] by simp
    let ?p = "HTable (lzp_slot inp HashSize In)"
    note e = less.prems [unfolded lzp_encode_turn [OF True [THEN conjunct1] True [THEN conjunct2] t refl refl]]
    consider "lzpC inp In \<noteq> lzpC inp ?p"
      | "lzpC inp In = lzpC inp ?p" "lzp_matches inp (if In - ?p > Barrier then SmallestLen else MinLen) ?p In"
      | "lzpC inp In = lzpC inp ?p" "\<not> lzp_matches inp (if In - ?p > Barrier then SmallestLen else MinLen) ?p In"
      by blast
    then show ?thesis
    proof cases
      case 1
      show ?thesis
        using ih [OF e [unfolded if_P [OF 1]]] by simp
    next
      case 2
      then have neg: "\<not> lzpC inp In \<noteq> lzpC inp ?p"
        by simp
      show ?thesis
        by (rule le_trans [OF add_le_mono [OF _ put] ih [OF e [unfolded if_not_P [OF neg] if_P [OF 2(2)]]]]) simp_all
    next
      case 3
      then have neg: "\<not> lzpC inp In \<noteq> lzpC inp ?p"
        by simp
      show ?thesis
        using ih [OF e [unfolded if_not_P [OF neg] if_not_P [OF 3(2)]]] by (simp split: if_splits)
    qed
  qed
qed

text \<open>
  From the same table and counters, with the decoder's output equal to the part of the block that the
  encoder has consumed, the decoder turns what the encoder still writes into the rest of the block.
\<close>

definition lzp_follows :: "byte list \<Rightarrow> nat \<Rightarrow> nat \<Rightarrow> u32 \<Rightarrow> nat \<Rightarrow> nat \<Rightarrow> lzp_places \<Rightarrow> nat \<Rightarrow> nat \<Rightarrow> nat \<Rightarrow> byte list \<Rightarrow> byte list \<Rightarrow> bool" where
  "lzp_follows inp Room MinLen HashSize Barrier SmallestLen T n n1 In ws cs \<longleftrightarrow>
     (\<forall>X Y. lzp_decode_loop (X @ ws @ cs @ Y) Room MinLen HashSize Barrier SmallestLen T n n1
        (length X) (length X + length ws + length cs) (take In inp) = Some inp)"

lemma lzp_follows_literal:
  assumes "lzp_tick n1 (lzp_slot inp HashSize In) In n T = (T', n')" "T (lzp_slot inp HashSize In) = p" "5 \<le> p" "p < In"
    "In < length inp" "length inp \<le> Room" "lzpC inp In \<noteq> lzpC inp p \<or> inp ! In \<noteq> LZP_MATCH_FLAG"
    and ih: "lzp_follows inp Room MinLen HashSize Barrier SmallestLen T' n' n1 (Suc In) ws cs"
  shows "lzp_follows inp Room MinLen HashSize Barrier SmallestLen T n n1 In (inp ! In # ws) cs"
  unfolding lzp_follows_def
proof (intro allI)
  fix X Y
  let ?buf = "X @ (inp ! In # ws) @ cs @ Y" and ?e = "length X + length (inp ! In # ws) + length cs"
  have In: "length (take In inp) = In"
    using assms(5) by simp
  have slot: "lzp_slot (take In inp) HashSize In = lzp_slot inp HashSize In"
    using assms(3,4) by (intro lzp_slot_take) simp
  have C: "lzpC (take In inp) In = lzpC inp In" "lzpC (take In inp) p = lzpC inp p"
    using assms(3,4) by (simp_all add: lzpC_take)
  have "lzp_decode_loop ?buf Room MinLen HashSize Barrier SmallestLen T n n1 (length X) ?e (take In inp) =
      lzp_decode_loop ?buf Room MinLen HashSize Barrier SmallestLen T' n' n1 (length X + 1) ?e (take In inp @ [inp ! In])"
    by (subst lzp_decode_turn [where T = T' and n' = n' and p = p]) (use assms(1,2,5-7) in \<open>auto simp: In slot C\<close>)
  also have "take In inp @ [inp ! In] = take (Suc In) inp"
    using assms(5) by (simp add: take_Suc_conv_app_nth)
  finally show "lzp_decode_loop ?buf Room MinLen HashSize Barrier SmallestLen T n n1 (length X) ?e (take In inp) = Some inp"
    using ih [unfolded lzp_follows_def, rule_format, of "X @ [inp ! In]" Y] by simp
qed

lemma lzp_follows_escape:
  assumes "lzp_tick n1 (lzp_slot inp HashSize In) In n T = (T', n')" "T (lzp_slot inp HashSize In) = p" "5 \<le> p" "p < In"
    "In < length inp" "length inp \<le> Room" "lzpC inp In = lzpC inp p" "inp ! In = LZP_MATCH_FLAG"
    and ih: "lzp_follows inp Room MinLen HashSize Barrier SmallestLen T' n' n1 (Suc In) ws cs"
  shows "lzp_follows inp Room MinLen HashSize Barrier SmallestLen T n n1 In (inp ! In # ws) (cs @ [255])"
  unfolding lzp_follows_def
proof (intro allI)
  fix X Y
  let ?buf = "X @ (inp ! In # ws) @ (cs @ [255]) @ Y" and ?e = "length X + length (inp ! In # ws) + length (cs @ [255 :: byte])"
  have In: "length (take In inp) = In"
    using assms(5) by simp
  have slot: "lzp_slot (take In inp) HashSize In = lzp_slot inp HashSize In"
    using assms(3,4) by (intro lzp_slot_take) simp
  have C: "lzpC (take In inp) In = lzpC inp In" "lzpC (take In inp) p = lzpC inp p"
    using assms(3,4) by (simp_all add: lzpC_take)
  have last: "?buf ! (?e - 1) = 255"
    using nth_append_length [of "X @ (inp ! In # ws) @ cs" 255 Y] by (simp add: add_ac)
  have "lzp_decode_loop ?buf Room MinLen HashSize Barrier SmallestLen T n n1 (length X) ?e (take In inp) =
      lzp_decode_loop ?buf Room MinLen HashSize Barrier SmallestLen T' n' n1 (length X + 1) (?e - 1) (take In inp @ [inp ! In])"
    by (subst lzp_decode_turn [where T = T' and n' = n' and p = p]) (use assms(1,2,5-8) last in \<open>auto simp: In slot C\<close>)
  also have "take In inp @ [inp ! In] = take (Suc In) inp"
    using assms(5) by (simp add: take_Suc_conv_app_nth)
  finally show "lzp_decode_loop ?buf Room MinLen HashSize Barrier SmallestLen T n n1 (length X) ?e (take In inp) = Some inp"
    using ih [unfolded lzp_follows_def, rule_format, of "X @ [inp ! In]" "255 # Y"] by simp
qed

lemma lzp_get_run_put:
  assumes "r < 254" "buf = X @ of_nat (r + 1) # replicate z 0 @ Y" "e = length X + z"
  shows "lzp_get_run buf e i = Some (i + of_nat (254 * z + r + 1), length X)" "buf ! e \<noteq> 255"
proof -
  have u: "unat (of_nat (r + 1) :: byte) = r + 1"
    using assms(1) unfolding unat_of_nat by simp
  have v: "ucast (of_nat (r + 1) :: byte) = (of_nat (r + 1) :: u32)"
    using u by (metis of_nat_unat)
  have nz: "(of_nat (r + 1) :: byte) \<noteq> 0"
    using u by (metis unat_0 add_is_0 one_neq_zero)
  have b: "buf ! length X = of_nat (r + 1)"
    unfolding assms(2) by simp
  have zeros: "buf ! j = 0" if "length X < j" "j \<le> length X + z" for j
  proof -
    define k where "k = j - Suc (length X)"
    have "j = Suc (length X + k)" "k < z"
      using that by (simp_all add: k_def)
    then show ?thesis
      unfolding assms(2) by (simp add: nth_append)
  qed
  have "lzp_get_run buf (length X + z) i = Some (i + 254 * of_nat z + ucast (buf ! (length X + z - z)), length X + z - z)"
    by (rule lzp_get_run_zeros) (use zeros b nz in simp_all)
  also have "\<dots> = Some (i + 254 * of_nat z + of_nat (r + 1), length X)"
    unfolding diff_add_inverse2 b v ..
  also have "\<dots> = Some (i + of_nat (254 * z + r + 1), length X)"
    by simp
  finally show "lzp_get_run buf e i = Some (i + of_nat (254 * z + r + 1), length X)"
    unfolding assms(3) .
  show "buf ! e \<noteq> 255"
  proof (cases "z = 0")
    case True
    have "unat (255 :: byte) = 255"
      by simp
    then show ?thesis
      using True b u assms(1,3) by fastforce
  next
    case False
    then show ?thesis
      using zeros [of e] assms(3) by simp
  qed
qed

lemma lzp_follows_match:
  assumes "lzp_tick n1 (lzp_slot inp HashSize In) In n T = (T', n')" "T (lzp_slot inp HashSize In) = p" "5 \<le> p" "p < In"
    "In < length inp" "length inp \<le> Room" "lzpC inp In = lzpC inp p"
    and ml: "(if In - p > Barrier then SmallestLen else MinLen) = ml" "0 < ml" "ml \<le> i"
    and i: "i = lzp_match_length inp p In" "length inp < 2 ^ 31" and n1': "n1' = lzp_grow HashSize (In - p) n1"
    and r: "r < 254" "i - ml = 254 * z + r"
    and ih: "lzp_follows inp Room MinLen HashSize Barrier SmallestLen (lzp_enter inp HashSize n1' (In + i) i (T'(lzp_slot inp HashSize In := In))) n' n1' (In + i) ws cs"
  shows "lzp_follows inp Room MinLen HashSize Barrier SmallestLen T n n1 In (LZP_MATCH_FLAG # ws) (cs @ of_nat (r + 1) # replicate z 0)"
  unfolding lzp_follows_def
proof (intro allI)
  fix X Y
  let ?buf = "X @ (LZP_MATCH_FLAG # ws) @ (cs @ of_nat (r + 1) # replicate z 0) @ Y"
  let ?e = "length X + length (LZP_MATCH_FLAG # ws) + length (cs @ of_nat (r + 1) # replicate z (0 :: byte))"
  have In: "length (take In inp) = In"
    using assms(5) by simp
  have slot: "lzp_slot (take In inp) HashSize In = lzp_slot inp HashSize In"
    using assms(3,4) by (intro lzp_slot_take) simp
  have C: "lzpC (take In inp) In = lzpC inp In" "lzpC (take In inp) p = lzpC inp p"
    using assms(3,4) by (simp_all add: lzpC_take)
  have L: "In + i \<le> length inp" "\<And>k. k < i \<Longrightarrow> inp ! (In + k) = inp ! (p + k)"
    using lzp_match_length_spec [of p In inp] assms(3-5) i(1) by simp_all
  have buf: "?buf = (X @ LZP_MATCH_FLAG # ws @ cs) @ of_nat (r + 1) # replicate z 0 @ Y" "?e - 1 = length (X @ LZP_MATCH_FLAG # ws @ cs) + z"
    by simp_all
  note run = lzp_get_run_put [OF r(1) buf]
  have "ml + (254 * z + r) = i"
    using ml(3) r(2) by simp
  then have "of_nat ml - 1 + of_nat (254 * z + r + 1) = (of_nat i :: u32)"
    by (metis (no_types, lifting) ab_semigroup_add_class.add_ac(1) add.commute diff_add_cancel of_nat_1 of_nat_add)
  then have run_i: "lzp_get_run ?buf (?e - 1) (of_nat ml - 1) = Some (of_nat i, length (X @ LZP_MATCH_FLAG # ws @ cs))"
    using run(1) by simp
  have u: "unat (of_nat i :: u32) = i"
    using L(1) i(2) by (simp add: unat_of_nat)
  have i0: "(of_nat i :: u32) \<noteq> 0"
    using u ml(2,3) by (metis unat_0 not_less)
  have copy: "lzp_copy_run HashSize n1' i p (2 * n1' + 2) (T'(lzp_slot inp HashSize In := In)) (take In inp) =
      (lzp_enter inp HashSize n1' (In + i) i (T'(lzp_slot inp HashSize In := In)), take (In + i) inp)"
    using lzp_copy_run_take [of In p i inp "2 * n1' + 2" n1' HashSize] L assms(3,4) by simp
  have "lzp_decode_loop ?buf Room MinLen HashSize Barrier SmallestLen T n n1 (length X) ?e (take In inp) =
      lzp_decode_loop ?buf Room MinLen HashSize Barrier SmallestLen (lzp_enter inp HashSize n1' (In + i) i (T'(lzp_slot inp HashSize In := In)))
        n' n1' (length X + 1) (length (X @ LZP_MATCH_FLAG # ws @ cs)) (take (In + i) inp)"
  proof -
    have "?buf ! length X = LZP_MATCH_FLAG"
      by simp
    moreover have "length X < ?e" "length (take In inp) < Room"
      using assms(5,6) In by simp_all
    moreover have "\<not> Room < length (take In inp) + unat (of_nat i :: u32)"
      using L(1) assms(6) u In by simp
    ultimately show ?thesis
      using run(2) assms(7) by (subst lzp_decode_turn [where T = T' and n' = n' and p = p])
        (simp_all only: In slot C assms(1,2) Let_def ml run_i option.case prod.case n1' [symmetric] u copy i0 simp_thms if_False)
  qed
  then show "lzp_decode_loop ?buf Room MinLen HashSize Barrier SmallestLen T n n1 (length X) ?e (take In inp) = Some inp"
    using ih [unfolded lzp_follows_def, rule_format, of "X @ [LZP_MATCH_FLAG]" "of_nat (r + 1) # replicate z 0 @ Y"] by (simp add: add_ac)
qed

lemma lzp_follows_done: "length inp \<le> In \<Longrightarrow> lzp_follows inp Room MinLen HashSize Barrier SmallestLen T n n1 In [] []"
  unfolding lzp_follows_def by (simp add: lzp_decode_loop.simps)

text \<open>The same steps over the output of the encoder at a turn, \<open>(Out, Ctl)\<close>, and at its end, \<open>(Out', Ctl')\<close>.\<close>

definition lzp_back ::
    "byte list \<Rightarrow> nat \<Rightarrow> nat \<Rightarrow> u32 \<Rightarrow> nat \<Rightarrow> nat \<Rightarrow> lzp_places \<Rightarrow> nat \<Rightarrow> nat \<Rightarrow> nat \<Rightarrow> byte list \<times> byte list \<Rightarrow> byte list \<times> byte list \<Rightarrow> bool" where
  "lzp_back inp Room MinLen HashSize Barrier SmallestLen T n n1 In now at_end \<longleftrightarrow>
     (\<exists>ws cs. fst at_end = fst now @ ws \<and> snd at_end = cs @ snd now \<and> lzp_follows inp Room MinLen HashSize Barrier SmallestLen T n n1 In ws cs)"

lemma lzp_backI:
  "lzp_back inp Room MinLen HashSize Barrier SmallestLen T' n' n1' In' (Out @ [c], cs @ Ctl) at_end \<Longrightarrow>
   (\<And>ws cs'. lzp_follows inp Room MinLen HashSize Barrier SmallestLen T' n' n1' In' ws cs' \<Longrightarrow>
      lzp_follows inp Room MinLen HashSize Barrier SmallestLen T n n1 In (c # ws) (cs' @ cs)) \<Longrightarrow>
   lzp_back inp Room MinLen HashSize Barrier SmallestLen T n n1 In (Out, Ctl) at_end"
  unfolding lzp_back_def by fastforce

lemma lzp_back_unmatched:
  assumes "lzp_tick n1 (lzp_slot inp HashSize In) In n T = (T', n')" "T (lzp_slot inp HashSize In) = p" "5 \<le> p" "p < In"
    "In < length inp" "length inp \<le> Room" "lzpC inp In = lzpC inp p"
    and "lzp_back inp Room MinLen HashSize Barrier SmallestLen T' n' n1 (Suc In)
      (Out @ [inp ! In], if inp ! In = LZP_MATCH_FLAG then 255 # Ctl else Ctl) at_end"
  shows "lzp_back inp Room MinLen HashSize Barrier SmallestLen T n n1 In (Out, Ctl) at_end"
proof (cases "inp ! In = LZP_MATCH_FLAG")
  case True
  show ?thesis
    by (rule lzp_backI [where cs = "[255]" and c = "inp ! In"], use assms(8) True in simp) (rule lzp_follows_escape [OF assms(1-7) True])
next
  case False
  show ?thesis
    by (rule lzp_backI [where cs = "[]"], use assms(8) False in simp) (use lzp_follows_literal [OF assms(1-6)] False in simp)
qed

lemma lzp_back_match:
  assumes "lzp_tick n1 (lzp_slot inp HashSize In) In n T = (T', n')" "T (lzp_slot inp HashSize In) = p" "5 \<le> p" "p < In"
    "In < length inp" "length inp \<le> Room" "lzpC inp In = lzpC inp p" "(if In - p > Barrier then SmallestLen else MinLen) = ml" "0 < ml"
    "ml \<le> i" "i = lzp_match_length inp p In" "length inp < 2 ^ 31" "n1' = lzp_grow HashSize (In - p) n1"
    and short: "front + length (lzp_put_run Size front (i - ml) Ctl) < Size"
    and "lzp_back inp Room MinLen HashSize Barrier SmallestLen (lzp_enter inp HashSize n1' (In + i) i (T'(lzp_slot inp HashSize In := In))) n' n1' (In + i)
      (Out @ [LZP_MATCH_FLAG], lzp_put_run Size front (i - ml) Ctl) at_end"
  shows "lzp_back inp Room MinLen HashSize Barrier SmallestLen T n n1 In (Out, Ctl) at_end"
proof -
  obtain z r where r: "r < 254" "i - ml = 254 * z + r" "lzp_put_run Size front (i - ml) Ctl = (of_nat (r + 1) # replicate z 0) @ Ctl"
    using lzp_put_run_spec [OF short] by auto
  show ?thesis
    by (rule lzp_backI [OF assms(15) [unfolded r(3)]]) (rule lzp_follows_match [OF assms(1-13) r(1,2)])
qed

lemma lzp_match_places:
  assumes "\<forall>h. 5 \<le> T h \<and> T h < Suc In" "5 \<le> In" "0 < i"
  shows "\<forall>h. 5 \<le> lzp_enter inp HashSize n1 (In + i) i (T(k := In)) h \<and> lzp_enter inp HashSize n1 (In + i) i (T(k := In)) h < In + i"
proof (rule lzp_enter_places)
  show "\<forall>h. 5 \<le> (T(k := In)) h \<and> (T(k := In)) h < In + i"
    using assms by (auto simp: less_Suc_eq intro: trans_less_add1)
qed (use assms(2) in simp)

lemma lzp_loop_back:
  assumes "lzp_encode_loop inp MinLen HashSize Barrier SmallestLen T n n1 In Out Ctl = (Out', Ctl')"
    "length Out' + length Ctl' < length inp" "\<forall>h. 5 \<le> T h \<and> T h < In" "In \<le> length inp"
    and fixed: "0 < MinLen" "0 < SmallestLen" "length inp \<le> Room" "length inp < 2 ^ 31"
  shows "lzp_back inp Room MinLen HashSize Barrier SmallestLen T n n1 In (Out, Ctl) (Out', Ctl')"
  using assms(1,3,4)
proof (induction "length inp - length Out" arbitrary: T n n1 In Out Ctl rule: less_induct)
  case less
  have room: "length Out + length Ctl < length inp"
    using lzp_encode_loop_extends [OF less.prems(1)] assms(2) by simp
  show ?case
  proof (cases "In < length inp")
    case False
    then show ?thesis
      using less.prems(1) lzp_follows_done [of inp In] by (simp add: lzp_encode_done lzp_back_def)
  next
    case True
    obtain T' n' where t: "lzp_tick n1 (lzp_slot inp HashSize In) In n T = (T', n')"
      by fastforce
    define p where "p = T (lzp_slot inp HashSize In)"
    define ml where "ml = (if In - p > Barrier then SmallestLen else MinLen)"
    have p: "5 \<le> p" "p < In"
      using less.prems(2) by (simp_all add: p_def)
    note turn = t p_def [symmetric] p True fixed(3)
    have ih: "lzp_back inp Room MinLen HashSize Barrier SmallestLen T1 n2 n3 In1 (O1, C1) (Out', Ctl')"
      if "lzp_encode_loop inp MinLen HashSize Barrier SmallestLen T1 n2 n3 In1 O1 C1 = (Out', Ctl')"
        "length O1 = Suc (length Out)" "\<forall>h. 5 \<le> T1 h \<and> T1 h < In1" "In1 \<le> length inp" for T1 n2 n3 In1 O1 C1
      by (rule less.hyps [OF _ that(1,3,4)]) (use that(2) room in arith)
    have T': "\<forall>h. 5 \<le> T' h \<and> T' h < Suc In"
      using lzp_tick_places [OF t less.prems(2)] p by simp
    note e = less.prems(1) [unfolded lzp_encode_turn [OF True room t p_def [symmetric] ml_def [symmetric]]]
    consider "lzpC inp In \<noteq> lzpC inp p" | "lzpC inp In = lzpC inp p" "lzp_matches inp ml p In"
      | "lzpC inp In = lzpC inp p" "\<not> lzp_matches inp ml p In"
      by blast
    then show ?thesis
    proof cases
      case 1
      show ?thesis
        by (rule lzp_backI [where cs = "[]"], rule ih)
          (use e [unfolded if_P [OF 1]] T' Suc_leI [OF True] 1 lzp_follows_literal [OF turn] in simp_all)
    next
      case 2
      have i: "ml \<le> lzp_match_length inp p In" "In + lzp_match_length inp p In \<le> length inp" "0 < ml"
        using 2(2) lzp_match_length_spec(1) [of p In inp] p True fixed(1,2) by (simp_all add: lzp_matches_def ml_def)
      have go: "lzp_encode_loop inp MinLen HashSize Barrier SmallestLen
             (lzp_enter inp HashSize (lzp_grow HashSize (In - p) n1) (In + lzp_match_length inp p In) (lzp_match_length inp p In)
               (T'(lzp_slot inp HashSize In := In)))
             n' (lzp_grow HashSize (In - p) n1) (In + lzp_match_length inp p In) (Out @ [LZP_MATCH_FLAG])
             (lzp_put_run (length inp) (length (Out @ [LZP_MATCH_FLAG])) (lzp_match_length inp p In - ml) Ctl) = (Out', Ctl')"
        using e 2 by simp
      show ?thesis
        by (rule lzp_back_match [OF turn 2(1) ml_def [symmetric] i(3,1) refl fixed(4) refl le_less_trans [OF lzp_encode_loop_extends [OF go] assms(2)]
              ih [OF go _ lzp_match_places [OF T'] i(2)]]) (use p i in simp_all)
    next
      case 3
      show ?thesis
        by (rule lzp_back_unmatched [OF turn 3(1)], rule ih) (use e 3 T' Suc_leI [OF True] in simp_all)
    qed
  qed
qed

lemma lzp_block_inverse:
  assumes "LZPEncode inp MinLen HashSize Barrier SmallestLen = Some out" "0 < MinLen" "0 < SmallestLen" "length inp \<le> Room"
    "length inp < 2 ^ 31"
  shows "LZPDecode out Room MinLen HashSize Barrier SmallestLen = Some inp" "length out < length inp"
proof -
  obtain Out' Ctl' where l: "lzp_encode_loop inp MinLen HashSize Barrier SmallestLen (\<lambda>k. 5) 1 1 12 (take 12 inp) [] = (Out', Ctl')"
    by fastforce
  have s: "32 \<le> length inp" "length Out' + length Ctl' < length inp" "out = Out' @ Ctl'"
    using assms(1) l by (auto simp: LZPEncode_def split: if_splits)
  obtain ws cs where w: "Out' = take 12 inp @ ws" "Ctl' = cs"
      "lzp_follows inp Room MinLen HashSize Barrier SmallestLen (\<lambda>k. 5) 1 1 12 ws cs"
    using lzp_loop_back [OF l s(2) _ _ assms(2-5)] s(1) by (auto simp: lzp_back_def)
  have sim: "lzp_decode_loop (take 12 inp @ ws @ cs) Room MinLen HashSize Barrier SmallestLen (\<lambda>k. 5) 1 1
      12 (12 + length ws + length cs) (take 12 inp) = Some inp"
    using w(3) [unfolded lzp_follows_def, rule_format, of "take 12 inp" "[]"] s(1) by (simp add: min_absorb2)
  have "\<not> (ws = [] \<and> cs = [])"
  proof
    assume "ws = [] \<and> cs = []"
    then have "take 12 inp = inp"
      using sim by (subst (asm) lzp_decode_loop.simps) simp
    then show False
      using s(1) arg_cong [of "take 12 inp" inp length] by simp
  qed
  then have "0 < length ws + length cs"
    by simp
  then show "LZPDecode out Room MinLen HashSize Barrier SmallestLen = Some inp"
    using sim s(1) assms(4) by (auto simp: LZPDecode_def s(3) w(1,2) min_absorb2 add_ac simp del: add_gr_0)
  show "length out < length inp"
    using s by simp
qed

end
