(* ===== verification/Lzp_Stream.thy ===== *)
theory Lzp_Stream
  imports Lzp_Coder Callbacks
begin

text \<open>
  \<^verbatim>\<open>lzp_compress\<close> and \<^verbatim>\<open>lzp_decompress\<close> of \<^verbatim>\<open>Compression/LZP/C_LZP.cpp\<close>, over the callbacks of \<^verbatim>\<open>Callbacks\<close>, and the method's record.
  The data are cut into blocks of \<^verbatim>\<open>BlockSize\<close> bytes; a block has a header of four bytes with its length, the length of a
  stored block with a negative sign.  Memory can be allocated.
\<close>

definition FREEARC_ERRCODE_IO :: int where "FREEARC_ERRCODE_IO = -6"

section \<open>The method\<close>

text \<open>Lengths and the distance \<^verbatim>\<open>Barrier\<close> are not negative here.\<close>

record LZP_METHOD =
  lm_BlockSize :: nat
  lm_MinCompression :: int
  lm_MinMatchLen :: nat
  lm_HashSizeLog :: nat
  lm_Barrier :: nat
  lm_SmallestLen :: nat

definition new_LZP_METHOD :: LZP_METHOD where
  "new_LZP_METHOD =
     \<lparr>lm_BlockSize = 8 * 2 ^ 20, lm_MinCompression = 100, lm_MinMatchLen = 64, lm_HashSizeLog = 18,
      lm_Barrier = 2 ^ 31 - 1, lm_SmallestLen = 32\<rparr>"

definition lzp_method_ok :: "LZP_METHOD \<Rightarrow> bool" where
  "lzp_method_ok m \<longleftrightarrow>
     0 < lm_BlockSize m \<and> lm_BlockSize m < 2 ^ 31 - 2 \<and> 0 < lm_MinMatchLen m \<and> 0 < lm_SmallestLen m \<and> lm_HashSizeLog m < 30"

section \<open>Reading and writing\<close>

text \<open>The macros \<^verbatim>\<open>READ\<close> and \<^verbatim>\<open>WRITE\<close>: a code that is not negative when all went well.\<close>

definition READ_buf :: "'s callback \<Rightarrow> nat \<Rightarrow> 's \<Rightarrow> int \<times> byte list \<times> 's" where
  "READ_buf cb n s =
     (if n = 0 then (0, [], s)
      else case cb_read cb n s of (errcode, buf, s) \<Rightarrow>
        (if errcode = int n then errcode else if errcode \<ge> 0 then FREEARC_ERRCODE_IO else errcode, take (nat errcode) buf, s))"

definition WRITE_buf :: "'s callback \<Rightarrow> byte list \<Rightarrow> 's \<Rightarrow> int \<times> 's" where
  "WRITE_buf cb buf s = (if length buf = 0 then (0, s) else cb_write cb buf s)"

section \<open>Compression\<close>

text \<open>What is written for a block: the header and the bytes.\<close>

definition lzp_pack :: "LZP_METHOD \<Rightarrow> byte list \<Rightarrow> byte list \<times> byte list" where
  "lzp_pack m In =
     (case LZPEncode In (lm_MinMatchLen m) (push_bit (lm_HashSizeLog m) 1) (lm_Barrier m) (lm_SmallestLen m) of
        None \<Rightarrow> (STORE32L (word_of_int (- int (length In))), In)
      | Some Out \<Rightarrow>
          if lm_MinCompression m > 0 \<and> int (length Out) div lm_MinCompression m \<ge> int (length In) div 100
          then (STORE32L (word_of_int (- int (length In))), In)
          else (STORE32L (word_of_int (int (length Out))), Out))"

partial_function (option) lzp_compress :: "LZP_METHOD \<Rightarrow> 's callback \<Rightarrow> 's \<Rightarrow> (int \<times> 's) option" where
  "lzp_compress m cb s =
     (case cb_read cb (lm_BlockSize m) s of (InSize, In, s) \<Rightarrow>
        if InSize \<le> 0 then Some (InSize, s)
        else case lzp_pack m (take (nat InSize) In) of (header, body) \<Rightarrow>
          case WRITE_buf cb header s of (errcode, s) \<Rightarrow>
            if errcode < 0 then Some (errcode, s)
            else case WRITE_buf cb body s of (errcode, s) \<Rightarrow>
              if errcode < 0 then Some (errcode, s) else lzp_compress m cb s)"

section \<open>Decompression\<close>

text \<open>The bytes of a block; \<open>None\<close> is a read or a write outside a buffer.\<close>

definition lzp_unpack :: "LZP_METHOD \<Rightarrow> byte list \<Rightarrow> byte list \<Rightarrow> byte list option" where
  "lzp_unpack m header body =
     (if sint (LOAD32L header 0) < 0 then Some body
      else LZPDecode body (lm_BlockSize m) (lm_MinMatchLen m) (push_bit (lm_HashSizeLog m) 1) (lm_Barrier m) (lm_SmallestLen m))"

text \<open>The value \<open>None\<close> also stands for a read or a write outside a buffer.\<close>

partial_function (option) lzp_decompress :: "LZP_METHOD \<Rightarrow> 's callback \<Rightarrow> 's \<Rightarrow> (int \<times> 's) option" where
  "lzp_decompress m cb s =
     (case cb_read cb 4 s of (len, header, s) \<Rightarrow>
        if len \<le> 0 then Some (len, s)
        else if len \<noteq> 4 then Some (FREEARC_ERRCODE_IO, s)
        else
          case READ_buf cb (nat \<bar>sint (LOAD32L header 0)\<bar>) s of (errcode, In, s) \<Rightarrow>
            if errcode < 0 then Some (errcode, s)
            else
              case lzp_unpack m header In of
                None \<Rightarrow> None
              | Some Out \<Rightarrow>
                case WRITE_buf cb Out s of (errcode, s) \<Rightarrow>
                  if errcode < 0 then Some (errcode, s) else lzp_decompress m cb s)"

declare lzp_compress.simps [code] lzp_decompress.simps [code]

section \<open>Blocks\<close>

lemma lzp_pack_sizes:
  assumes "In \<noteq> []" "lzp_pack m In = (header, body)"
  shows "length header = 4" "body \<noteq> []" "length body \<le> length In"
proof -
  have "out \<noteq> [] \<and> length out < length In"
    if "LZPEncode In ml h b sl = Some out" for out ml h b sl
    using that by (auto simp: LZPEncode_def split: if_splits prod.splits dest: lzp_encode_loop_extends)
  then show "length header = 4" "body \<noteq> []" "length body \<le> length In"
    using assms by (auto simp: lzp_pack_def less_imp_le split: option.splits if_splits)
qed

text \<open>The decoder's view of a block: what its header says and what its body is turned into.\<close>

lemma lzp_pack_cases:
  assumes "lzp_pack m In = (header, body)"
  obtains "header = STORE32L (word_of_int (- int (length In)))" "body = In"
    | "header = STORE32L (word_of_int (int (length body)))"
      "LZPEncode In (lm_MinMatchLen m) (push_bit (lm_HashSizeLog m) 1) (lm_Barrier m) (lm_SmallestLen m) = Some body"
proof -
  let ?e = "LZPEncode In (lm_MinMatchLen m) (push_bit (lm_HashSizeLog m) 1) (lm_Barrier m) (lm_SmallestLen m)"
  let ?stored = "(STORE32L (word_of_int (- int (length In))), In)"
  have "(header, body) = ?stored \<or> (\<exists>Out. ?e = Some Out \<and> (header, body) = (STORE32L (word_of_int (int (length Out))), Out))"
    unfolding assms [symmetric] lzp_pack_def by (cases ?e) (simp_all only: option.case option.inject ex_simps simp_thms split: if_split)
  then show ?thesis
    unfolding prod.inject using that by blast
qed

lemma lzp_unpack_pack:
  assumes "lzp_pack m In = (header, body)" "lzp_method_ok m" "In \<noteq> []" "length In \<le> lm_BlockSize m"
  shows "nat \<bar>sint (LOAD32L header 0)\<bar> = length body \<and> lzp_unpack m header body = Some In"
proof -
  have L: "length In < 2 ^ 31" "0 < length In"
    using assms(2-4) by (simp_all add: lzp_method_ok_def)
  have load: "LOAD32L (STORE32L x) 0 = x" for x
    using LOAD32L_STORE32L [of "[]" 0 x "[]"] by simp
  have sneg: "sint (word_of_int (- int (length In)) :: u32) = - int (length In)"
    unfolding sint_sbintrunc' using L by (simp add: signed_take_bit_int_eq_self)
  have spos: "sint (word_of_int (int n) :: u32) = int n" if "n < length In" for n
    unfolding sint_sbintrunc' using L that by (simp add: signed_take_bit_int_eq_self)
  from assms(1) show ?thesis
  proof (cases rule: lzp_pack_cases)
    case 1
    show ?thesis
      unfolding lzp_unpack_def 1 load sneg using L(2) by simp
  next
    case 2
    have "LZPDecode body (lm_BlockSize m) (lm_MinMatchLen m) (push_bit (lm_HashSizeLog m) 1) (lm_Barrier m) (lm_SmallestLen m) = Some In"
      "length body < length In"
      using lzp_block_inverse [OF 2(2) _ _ assms(4) L(1)] assms(2) by (simp_all add: lzp_method_ok_def)
    moreover have "sint (LOAD32L header 0) = int (length body)"
      unfolding 2(1) load by (rule spos [OF calculation(2)])
    ultimately show ?thesis
      unfolding lzp_unpack_def by simp
  qed
qed

section \<open>Streams\<close>

text \<open>What is written for some data, and how long it can get.\<close>

function lzp_packed :: "LZP_METHOD \<Rightarrow> byte list \<Rightarrow> byte list" where
  "lzp_packed m data =
     (if data = [] \<or> lm_BlockSize m = 0 then []
      else case lzp_pack m (take (lm_BlockSize m) data) of (header, body) \<Rightarrow> header @ body @ lzp_packed m (drop (lm_BlockSize m) data))"
  by pat_completeness auto
termination by (relation "measure (\<lambda>(m, data). length data)") auto

declare lzp_packed.simps [simp del]

definition lzp_packed_max :: "LZP_METHOD \<Rightarrow> nat \<Rightarrow> nat" where
  "lzp_packed_max m n = n + 4 * ((n + lm_BlockSize m - 1) div lm_BlockSize m)"

lemma lzp_packed_max_step:
  assumes "0 < n" "0 < lm_BlockSize m"
  shows "lzp_packed_max m n = 4 + min (lm_BlockSize m) n + lzp_packed_max m (n - lm_BlockSize m)"
proof (cases "n \<le> lm_BlockSize m")
  case True
  then have "(n + lm_BlockSize m - 1) div lm_BlockSize m = 1"
    using assms by (intro div_nat_eqI) auto
  then show ?thesis
    using True assms by (simp add: lzp_packed_max_def)
next
  case False
  then obtain k where k: "n = k + lm_BlockSize m"
    by (metis add.commute le_add_diff_inverse nat_le_linear)
  have "(k + lm_BlockSize m + lm_BlockSize m - 1) div lm_BlockSize m = (k + lm_BlockSize m - 1 + lm_BlockSize m) div lm_BlockSize m"
    using assms(2) by (intro arg_cong [of _ _ "\<lambda>x. x div lm_BlockSize m"]) simp
  also have "\<dots> = (k + lm_BlockSize m - 1) div lm_BlockSize m + 1"
    using assms(2) by (intro div_add_self2) simp
  finally show ?thesis
    by (simp add: k lzp_packed_max_def)
qed

text \<open>A callback that gives all that is asked for while there are data.\<close>

locale full_reads = byte_stream cb inp out room
  for cb :: "'s callback" and inp :: "'s \<Rightarrow> byte list" and out :: "'s \<Rightarrow> byte list" and room :: "'s \<Rightarrow> nat" +
  assumes read_full: "\<exists>s'. cb_read cb n s = (int (min n (length (inp s))), take n (inp s), s') \<and>
      inp s' = drop n (inp s) \<and> out s' = out s \<and> room s' = room s"
begin

lemma READ_buf_full:
  assumes "n \<le> length (inp s)"
  shows "\<exists>s'. READ_buf cb n s = (int n, take n (inp s), s') \<and> inp s' = drop n (inp s) \<and> out s' = out s \<and> room s' = room s"
  using read_full [of n s] assms by (auto simp: READ_buf_def min_absorb1)

lemma WRITE_buf_fits:
  assumes "length buf \<le> room s"
  shows "\<exists>x s'. 0 \<le> x \<and> WRITE_buf cb buf s = (x, s') \<and> inp s' = inp s \<and> out s' = out s @ buf \<and> room s' = room s - length buf"
  using write_fits [OF assms] by (auto simp: WRITE_buf_def)

lemma lzp_compress_packs:
  assumes "0 < lm_BlockSize m"
  shows "lzp_packed_max m (length (inp s)) \<le> room s \<Longrightarrow>
    \<exists>s'. lzp_compress m cb s = Some (0, s') \<and> out s' = out s @ lzp_packed m (inp s) \<and>
      length (lzp_packed m (inp s)) \<le> lzp_packed_max m (length (inp s)) \<and> room s' = room s - length (lzp_packed m (inp s))"
proof (induction "length (inp s)" arbitrary: s rule: less_induct)
  case less
  let ?B = "lm_BlockSize m"
  obtain s1 where r: "cb_read cb ?B s = (int (min ?B (length (inp s))), take ?B (inp s), s1)" "inp s1 = drop ?B (inp s)"
      "out s1 = out s" "room s1 = room s"
    using read_full [of ?B s] by blast
  show ?case
  proof (cases "inp s = []")
    case True
    then show ?thesis
      using r by (subst lzp_compress.simps) (simp add: lzp_packed.simps)
  next
    case False
    obtain h b where p: "lzp_pack m (take ?B (inp s)) = (h, b)"
      by fastforce
    have pk: "length h = 4" "b \<noteq> []" "length b \<le> min ?B (length (inp s))"
      using lzp_pack_sizes [OF _ p] False assms by (simp_all add: min.commute)
    have max: "lzp_packed_max m (length (inp s)) = 4 + min ?B (length (inp s)) + lzp_packed_max m (length (inp s) - ?B)"
      using False assms by (simp add: lzp_packed_max_step)
    have fits: "length h \<le> room s1" "length b \<le> room s1 - 4"
      using less.prems [unfolded max] pk(1,3) r(4) by linarith+
    obtain x2 s2 where w2: "0 \<le> x2" "WRITE_buf cb h s1 = (x2, s2)" "inp s2 = inp s1" "out s2 = out s1 @ h" "room s2 = room s1 - 4"
      using WRITE_buf_fits [OF fits(1)] pk(1) by auto
    obtain x3 s3 where w3: "0 \<le> x3" "WRITE_buf cb b s2 = (x3, s3)" "inp s3 = inp s2" "out s3 = out s2 @ b"
        "room s3 = room s2 - length b"
      using WRITE_buf_fits [of b s2] fits(2) w2(5) by auto
    have l: "length (inp s3) < length (inp s)" "inp s3 = drop ?B (inp s)"
      using False assms w3 w2 r by simp_all
    have "lzp_packed_max m (length (inp s3)) \<le> room s3"
      unfolding l(2) length_drop w3(5) w2(5) r(4) using less.prems [unfolded max] pk(3) by linarith
    from less.hyps [OF l(1) this] obtain s' where s': "lzp_compress m cb s3 = Some (0, s')" "out s' = out s3 @ lzp_packed m (inp s3)"
        "length (lzp_packed m (inp s3)) \<le> lzp_packed_max m (length (inp s3))" "room s' = room s3 - length (lzp_packed m (inp s3))"
      by blast
    have e: "lzp_packed m (inp s) = h @ b @ lzp_packed m (drop ?B (inp s))"
      using False assms p by (subst lzp_packed.simps) simp
    define k where "k = min ?B (length (inp s))"
    have k: "take k (inp s) = take ?B (inp s)" "0 < k" "k \<le> ?B"
      using False assms by (simp_all add: k_def min_def)
    then have "lzp_compress m cb s = lzp_compress m cb s3"
      using p r(1) [folded k_def] w2(1,2) w3(1,2) by (subst lzp_compress.simps) simp
    moreover have "length (lzp_packed m (inp s)) \<le> lzp_packed_max m (length (inp s))"
      unfolding e max length_append using s'(3) [unfolded l(2) length_drop] pk(1,3) by linarith
    ultimately show ?thesis
      using s' e l(2) pk(1) w3(4,5) w2(4,5) r(3,4) by (simp add: add.assoc)
  qed
qed

lemma lzp_decompress_unpacks:
  assumes "lzp_method_ok m"
  shows "inp s = lzp_packed m data \<Longrightarrow> length data \<le> room s \<Longrightarrow>
    \<exists>s'. lzp_decompress m cb s = Some (0, s') \<and> out s' = out s @ data \<and> room s' = room s - length data"
proof (induction "length data" arbitrary: s data rule: less_induct)
  case less
  let ?B = "lm_BlockSize m"
  have B: "0 < ?B"
    using assms by (simp add: lzp_method_ok_def)
  obtain s1 where r: "cb_read cb 4 s = (int (min 4 (length (inp s))), take 4 (inp s), s1)" "inp s1 = drop 4 (inp s)"
      "out s1 = out s" "room s1 = room s"
    using read_full [of 4 s] by blast
  show ?case
  proof (cases "data = []")
    case True
    then have "inp s = []"
      using less.prems(1) by (simp add: lzp_packed.simps)
    then show ?thesis
      using r True by (subst lzp_decompress.simps) simp
  next
    case False
    obtain h b where p: "lzp_pack m (take ?B data) = (h, b)"
      by fastforce
    have ne: "take ?B data \<noteq> []" "length (take ?B data) \<le> ?B"
      using False B by simp_all
    note pk = lzp_pack_sizes(1) [OF ne(1) p] and u = lzp_unpack_pack [OF p assms ne]
    have e: "inp s = h @ b @ lzp_packed m (drop ?B data)"
      using False B p less.prems(1) by (subst (asm) lzp_packed.simps) simp
    obtain s2 where r2: "READ_buf cb (length b) s1 = (int (length b), b, s2)" "inp s2 = lzp_packed m (drop ?B data)" "out s2 = out s"
        "room s2 = room s"
      using READ_buf_full [of "length b" s1] e pk r(2-4) by auto
    have fits: "length (take ?B data) \<le> room s2"
      using less.prems(2) r2(4) by simp
    obtain x s3 where w: "0 \<le> x" "WRITE_buf cb (take ?B data) s2 = (x, s3)" "inp s3 = inp s2" "out s3 = out s2 @ take ?B data"
        "room s3 = room s2 - length (take ?B data)"
      using WRITE_buf_fits [OF fits] by blast
    have "lzp_decompress m cb s = lzp_decompress m cb s3"
      using e pk u r(1) r2(1) w(1,2) by (subst lzp_decompress.simps) simp
    moreover have "length (drop ?B data) < length data" "length (drop ?B data) \<le> room s3"
      using False B less.prems(2) w(5) r2(4) by simp_all
    with less.hyps [of "drop ?B data" s3] obtain s' where "lzp_decompress m cb s3 = Some (0, s')" "out s' = out s3 @ drop ?B data"
        "room s' = room s3 - length (drop ?B data)"
      using w(3) r2(2) by auto
    ultimately show ?thesis
      using w(4,5) r2(3,4) less.prems(2) by simp
  qed
qed

end

interpretation mem_full: full_reads ReadWriteMem rm_read rm_written rm_left
  by unfold_locales (auto simp: ReadWriteMem_def Let_def min_def)

section \<open>Property\<close>

text \<open>
  C37: the method \<^verbatim>\<open>lzp\<close> over memory, for data of any length and whatever compresses in them: with room for the data and four bytes
  for each block, \<^verbatim>\<open>lzp_compress\<close> ends and reports the number of bytes it has written, no more than that; \<^verbatim>\<open>lzp_decompress\<close>, given
  these bytes and room for the data, ends without leaving a buffer, and writes the data.  The shortest lengths of a match are not
  zero, the block size is at most \<^verbatim>\<open>2^31 - 3\<close> and the hash exponent below 30.
\<close>
theorem lzp_mem_roundtrip:
  assumes "lzp_method_ok m" "lzp_packed_max m (length data) \<le> space" "length data \<le> space'"
  shows "\<exists>packed. length packed \<le> lzp_packed_max m (length data) \<and>
    mem_run (lzp_compress m) data space = Some (int (length packed), packed) \<and>
    mem_run (lzp_decompress m) packed space' = Some (int (length data), data)"
proof -
  let ?P = "lzp_packed m data"
  have "0 < lm_BlockSize m"
    using assms(1) by (simp add: lzp_method_ok_def)
  from mem_full.lzp_compress_packs [OF this, of "\<lparr>rm_read = data, rm_written = [], rm_left = space\<rparr>"] assms(2)
  have "length ?P \<le> lzp_packed_max m (length data) \<and> mem_run (lzp_compress m) data space = Some (int (length ?P), ?P)"
    by (auto simp: mem_run_def)
  moreover from mem_full.lzp_decompress_unpacks [OF assms(1), of "\<lparr>rm_read = ?P, rm_written = [], rm_left = space'\<rparr>" data] assms(3)
  have "mem_run (lzp_decompress m) ?P space' = Some (int (length data), data)"
    by (auto simp: mem_run_def)
  ultimately show ?thesis
    by blast
qed

theorem lzp_mem_roundtrip_witness:
  "\<exists>packed. length packed \<le> 208 \<and>
    mem_run (lzp_compress (new_LZP_METHOD\<lparr>lm_BlockSize := 100\<rparr>)) (replicate 200 181) 208 = Some (int (length packed), packed) \<and>
    mem_run (lzp_decompress (new_LZP_METHOD\<lparr>lm_BlockSize := 100\<rparr>)) packed 200 = Some (200, replicate 200 181)"
  using lzp_mem_roundtrip [of "new_LZP_METHOD\<lparr>lm_BlockSize := 100\<rparr>" "replicate 200 181" 208 200]
  by (simp add: lzp_method_ok_def lzp_packed_max_def new_LZP_METHOD_def)

end
