(* ===== verification/MT_Failure.thy ===== *)
theory MT_Failure
  imports MT_Progress
begin

section \<open>A write that fails\<close>

text \<open>
  One compression thread, which makes two jobs, and a callback that refuses the first block.  The second block has been read by then; the
  writer leaves without giving its job back, and the main cycle asks for a free job.
\<close>

abbreviation bad_env :: "(nat, nat) mt_env" where
  "bad_env \<equiv> test_env (-6) (\<lambda>_. True) 1"

definition bad_blocks :: "(int \<times> nat) list" where "bad_blocks = [(1, 10), (1, 20)]"

definition bad_start :: "(nat, nat) mt" where "bad_start = CreateJobs bad_env bad_blocks"

definition free_jobs :: "nat \<Rightarrow> nat sync_queue" where
  "free_jobs k = \<lparr>sq_a = [0, 1, 0, 0], sq_head = k, sq_tail = 2, ObjectAdded = (k < 2)\<rparr>"

definition jobs_to_write :: "nat \<Rightarrow> nat \<Rightarrow> nat option sync_queue" where
  "jobs_to_write n k = \<lparr>sq_a = map Some [0..<n] @ replicate (4 - n) None, sq_head = k, sq_tail = n, ObjectAdded = (k < n)\<rparr>"

lemma bad_queues:
  "Get (free_jobs 0) = Some (0, free_jobs 1)" "Get (free_jobs 1) = Some (1, free_jobs 2)" "Get (free_jobs 2) = None"
  "Put (Some 0) (jobs_to_write 0 0) = jobs_to_write 1 0" "Put (Some 1) (jobs_to_write 1 1) = jobs_to_write 2 1"
  "Get (jobs_to_write 1 0) = Some (Some 0, jobs_to_write 1 1)"
  "fold Put [0, 1] (SetSize (replicate (1 + 1 div 2 + 1 + 2) 0)) = free_jobs 0"
  "SetSize (replicate (1 + 1 div 2 + 1 + 2) None) = jobs_to_write 0 0"
  by code_simp+

lemma no_event: "(\<lambda>_. False)(j := False) = (\<lambda>_. False)"
  by (simp add: fun_eq_iff)

lemma bad_alive: "alive bad_env = [0, 1]"
  by code_simp

lemma bad_start_fields:
  "errcode bad_start = 0" "todo bad_start = [(1, 10), (1, 20)]" "FreeJobs bad_start = free_jobs 0" "WriterJobs bad_start = jobs_to_write 0 0"
  "StartOperation bad_start = (\<lambda>_. False)" "OperationFinished bad_start = (\<lambda>_. False)" "LimitThreads bad_start = 1" "main bad_start = M_Get"
  "writer bad_start = W_Get" "worker bad_start = (\<lambda>j. if j \<in> {0, 1} then P_Wait else P_None)" "written bad_start = []"
  unfolding bad_start_def CreateJobs_def Let_def bad_alive test_env_fields bad_queues by (simp_all add: bad_blocks_def)

text \<open>The run, a step at a time.\<close>

definition bad_read :: "(nat, nat) mt" where
  "bad_read = bad_start\<lparr>WriterJobs := jobs_to_write 1 0, StartOperation := (\<lambda>_. False)(0 := True), FreeJobs := free_jobs 2,
     todo := [], InSize := (InSize bad_start)(0 := 1, 1 := 1), InBuf := (InBuf bad_start)(0 := 10, 1 := 20), main := M_Put 1\<rparr>"

lemma reach_read: "\<exists>n. mt_run bad_env bad_blocks n bad_read"
proof -
  let ?b = bad_start
  let ?s1 = "?b\<lparr>FreeJobs := free_jobs 1, main := M_Read 0\<rparr>"
  let ?s2 = "?s1\<lparr>todo := [(1, 20)], InSize := (InSize ?b)(0 := 1), InBuf := (InBuf ?b)(0 := 10), main := M_Put 0\<rparr>"
  let ?s3 = "?s2\<lparr>WriterJobs := jobs_to_write 1 0, main := M_Start 0\<rparr>"
  let ?s4 = "?s3\<lparr>StartOperation := (\<lambda>_. False)(0 := True), main := M_Get\<rparr>"
  let ?s5 = "?s4\<lparr>FreeJobs := free_jobs 2, main := M_Read 1\<rparr>"
  note f = bad_start_fields bad_queues
  have "mt_run bad_env bad_blocks 0 ?b"
    unfolding bad_start_def by (rule mt_start)
  note r = mt_go [OF this get_job [of ?b 0 "free_jobs 1"]]
  have "mt_run bad_env bad_blocks (Suc 0) ?s1"
    using r by (simp add: f del: One_nat_def)
  note r = mt_go [OF this read_block [of ?s1 0 1 10 "[(1, 20)]"]]
  have "mt_run bad_env bad_blocks (Suc (Suc 0)) ?s2"
    using r by (simp add: f del: One_nat_def)
  note r = mt_go [OF this put_job [of ?s2 0]]
  have "mt_run bad_env bad_blocks (Suc (Suc (Suc 0))) ?s3"
    using r by (simp add: f del: One_nat_def)
  note r = mt_go [OF this start_job [of ?s3 0]]
  have "mt_run bad_env bad_blocks (Suc (Suc (Suc (Suc 0)))) ?s4"
    using r by (simp add: f del: One_nat_def)
  note r = mt_go [OF this get_job [of ?s4 1 "free_jobs 2"]]
  have "mt_run bad_env bad_blocks (Suc (Suc (Suc (Suc (Suc 0))))) ?s5"
    using r by (simp add: f del: One_nat_def)
  note r = mt_go [OF this read_block [of ?s5 1 1 20 "[]"]]
  have "mt_run bad_env bad_blocks (Suc (Suc (Suc (Suc (Suc (Suc 0)))))) bad_read"
    using r by (simp add: f bad_read_def del: One_nat_def)
  then show ?thesis ..
qed

text \<open>Worker \<^verbatim>\<open>j\<close> runs from its start to the signal that it has finished.\<close>

lemma work_through:
  assumes "\<exists>n. mt_run E blocks n s" "j < NumThreads E" "worker s j = P_Wait" "StartOperation s j" "InSize s j > 0" "LimitThreads s = Suc k"
    "r = process E (InSize s j) (InBuf s j)" "fst r \<ge> 0"
  shows "\<exists>n. mt_run E blocks n (s\<lparr>StartOperation := (StartOperation s)(j := False), Out := (Out s)(j := r),
    OperationFinished := (OperationFinished s)(j := True), worker := (worker s)(j := P_Wait)\<rparr>)"
proof -
  let ?s1 = "s\<lparr>StartOperation := (StartOperation s)(j := False), worker := (worker s)(j := P_Slot)\<rparr>"
  let ?s2 = "?s1\<lparr>LimitThreads := k, worker := (worker s)(j := P_Process)\<rparr>"
  let ?s3 = "?s2\<lparr>Out := (Out s)(j := r), worker := (worker s)(j := P_Release)\<rparr>"
  let ?s4 = "?s3\<lparr>LimitThreads := Suc k, worker := (worker s)(j := P_Signal)\<rparr>"
  obtain n where "mt_run E blocks n s"
    using assms(1) by blast
  note r = mt_go [OF this work_start [OF assms(2-4)]]
  have "mt_run E blocks (Suc n) ?s1"
    using r assms(5) by simp
  note r = mt_go [OF this work_slot [OF assms(2), of ?s1 k]]
  have "mt_run E blocks (Suc (Suc n)) ?s2"
    using r assms(6) by simp
  note r = mt_go [OF this work_process [OF assms(2), of ?s2 r]]
  have "mt_run E blocks (Suc (Suc (Suc n))) ?s3"
    using r assms(7,8) by (simp add: SetErrCode_def)
  note r = mt_go [OF this work_release [OF assms(2), of ?s3]]
  have "mt_run E blocks (Suc (Suc (Suc (Suc n)))) ?s4"
    using r by simp
  note r = mt_go [OF this work_signal [OF assms(2), of ?s4]]
  have "mt_run E blocks (Suc (Suc (Suc (Suc (Suc n))))) (?s4\<lparr>OperationFinished := (OperationFinished s)(j := True), worker := (worker s)(j := P_Wait)\<rparr>)"
    using r by simp
  moreover have "?s4\<lparr>OperationFinished := (OperationFinished s)(j := True), worker := (worker s)(j := P_Wait)\<rparr> =
      s\<lparr>StartOperation := (StartOperation s)(j := False), Out := (Out s)(j := r), OperationFinished := (OperationFinished s)(j := True), worker := (worker s)(j := P_Wait)\<rparr>"
    using assms(6) by simp
  ultimately show ?thesis
    by metis
qed

definition bad_written :: "(nat, nat) mt" where
  "bad_written = bad_read\<lparr>StartOperation := \<lambda>_. False, Out := (Out bad_read)(0 := (1, 11)),
     worker := (worker bad_start)(0 := P_Wait), WriterJobs := jobs_to_write 1 1, OperationFinished := \<lambda>_. False,
     errcode := -6, written := [(1, 11)], Finished := True, writer := W_Gone\<rparr>"

lemma reach_written: "\<exists>n. mt_run bad_env bad_blocks n bad_written"
proof -
  let ?b = "bad_read\<lparr>StartOperation := \<lambda>_. False, Out := (Out bad_read)(0 := (1, 11)),
    OperationFinished := (\<lambda>_. False)(0 := True), worker := (worker bad_start)(0 := P_Wait)\<rparr>"
  let ?s1 = "?b\<lparr>WriterJobs := jobs_to_write 1 1, writer := W_Wait 0\<rparr>"
  let ?s2 = "?s1\<lparr>OperationFinished := \<lambda>_. False, writer := W_Write 0\<rparr>"
  let ?s3 = "?s2\<lparr>errcode := -6, written := [(1, 11)], writer := W_End\<rparr>"
  note f = bad_start_fields bad_queues no_event bad_read_def
  obtain n where "mt_run bad_env bad_blocks n ?b"
    using work_through [OF reach_read, of 0 0 "(1, 11)"] by (auto simp: f simp del: One_nat_def)
  note r = mt_go [OF this writer_get [of ?b 0 "jobs_to_write 1 1"]]
  have "mt_run bad_env bad_blocks (Suc n) ?s1"
    using r by (simp add: f del: One_nat_def)
  note r = mt_go [OF this writer_wait [of ?s1 0]]
  have "mt_run bad_env bad_blocks (Suc (Suc n)) ?s2"
    using r by (simp add: f del: One_nat_def)
  note r = mt_go [OF this writer_write [of ?s2 0 "-6"]]
  have "mt_run bad_env bad_blocks (Suc (Suc (Suc n))) ?s3"
    using r by (simp add: f SetErrCode_def del: One_nat_def)
  note r = mt_go [OF this writer_end [of ?s3]]
  have "mt_run bad_env bad_blocks (Suc (Suc (Suc (Suc n)))) bad_written"
    using r by (simp add: f bad_written_def del: One_nat_def)
  then show ?thesis ..
qed

definition bad_stuck :: "(nat, nat) mt" where
  "bad_stuck = bad_written\<lparr>WriterJobs := jobs_to_write 2 1, main := M_Get, StartOperation := \<lambda>_. False, Out := (Out bad_written)(1 := (1, 21)),
     OperationFinished := (\<lambda>_. False)(1 := True), worker := (worker bad_written)(1 := P_Wait)\<rparr>"

lemma reach_stuck: "\<exists>n. mt_run bad_env bad_blocks n bad_stuck"
proof -
  let ?b = bad_written
  let ?s1 = "?b\<lparr>WriterJobs := jobs_to_write 2 1, main := M_Start 1\<rparr>"
  let ?s2 = "?s1\<lparr>StartOperation := (\<lambda>_. False)(1 := True), main := M_Get\<rparr>"
  note f = bad_start_fields bad_queues no_event bad_read_def bad_written_def
  obtain n where "mt_run bad_env bad_blocks n ?b"
    using reach_written by blast
  note r = mt_go [OF this put_job [of ?b 1]]
  have "mt_run bad_env bad_blocks (Suc n) ?s1"
    using r by (simp add: f del: One_nat_def)
  note r = mt_go [OF this start_job [of ?s1 1]]
  have "mt_run bad_env bad_blocks (Suc (Suc n)) ?s2"
    using r by (simp add: f del: One_nat_def)
  then have "\<exists>n. mt_run bad_env bad_blocks n ?s2" ..
  from work_through [OF this, of 1 0 "(1, 21)"] show ?thesis
    by (simp add: f bad_stuck_def del: One_nat_def)
qed

lemma stuck_is_stuck: "\<not> mt_step bad_env bad_stuck s"
proof
  assume "mt_step bad_env bad_stuck s"
  then show False
    by cases (auto simp: bad_stuck_def bad_written_def bad_read_def bad_start_fields bad_queues split: if_splits)
qed

text \<open>
  C10: after a write that failed the whole run can be stuck for ever: the writer has left with its job, the main cycle waits for a
  free job and would have to be given one before it looks at the error.
\<close>
theorem write_error_deadlock:
  "\<exists>n s. mt_run bad_env bad_blocks n s \<and> main s = M_Get \<and> errcode s = -6 \<and> writer s = W_Gone \<and> \<not> (\<exists>s'. mt_step bad_env s s')"
proof -
  have "main bad_stuck = M_Get" "errcode bad_stuck = -6" "writer bad_stuck = W_Gone"
    by (simp_all add: bad_stuck_def bad_written_def)
  then show ?thesis
    using reach_stuck stuck_is_stuck by blast
qed

end
