(* ===== verification/Hash_Process.thy ===== *)
theory Hash_Process
  imports Tomcrypt
begin

text \<open>
  The part the hashes share: the macro \<^verbatim>\<open>HASH_PROCESS\<close> of \<^verbatim>\<open>headers/tomcrypt_hash.h\<close>, which feeds
  a buffered compression function, and the padding at the end of \<^verbatim>\<open>sha1_done\<close> and \<^verbatim>\<open>sha512_done\<close>.
  Both are stated over the block size, the compression function and the places of the padding;
  the specification is the fold of the compression function over the blocks of the padded
  message.
\<close>

section \<open>The state and the operations\<close>

text \<open>\<^verbatim>\<open>struct sha1_state\<close> and \<^verbatim>\<open>struct sha512_state\<close> differ in the width of the words only.\<close>

record 'w md_state =
  md_length :: u64
  md_words :: "'w list"
  md_curlen :: nat
  md_buf :: "byte list"

definition md_compress :: "('w list \<Rightarrow> byte list \<Rightarrow> 'w list) \<Rightarrow> 'w md_state \<Rightarrow> byte list \<Rightarrow> 'w md_state" where
  "md_compress C md blk = md\<lparr>md_words := C (md_words md) blk\<rparr>"

definition md_memcpy :: "'w md_state \<Rightarrow> byte list \<Rightarrow> 'w md_state" where
  "md_memcpy md xs =
     md\<lparr>md_buf := take (md_curlen md) (md_buf md) @ xs @ drop (md_curlen md + length xs) (md_buf md),
        md_curlen := md_curlen md + length xs\<rparr>"

text \<open>
  The loop checks at every turn what the function checks once; the check holds at every turn
  because \<^verbatim>\<open>curlen\<close> stays at most the block size.
\<close>

function hash_process :: "nat \<Rightarrow> ('w list \<Rightarrow> byte list \<Rightarrow> 'w list) \<Rightarrow> 'w md_state \<Rightarrow> byte list \<Rightarrow> crypt_error + 'w md_state" where
  "hash_process block_size C md inp =
     (if md_curlen md > block_size \<or> block_size = 0 then Inl CRYPT_INVALID_ARG
      else if inp = [] then Inr md
      else if md_curlen md = 0 \<and> length inp \<ge> block_size then
        let md = md_compress C md (take block_size inp);
            md = md\<lparr>md_length := md_length md + of_nat (block_size * 8)\<rparr>
        in hash_process block_size C md (drop block_size inp)
      else
        let n = min (length inp) (block_size - md_curlen md);
            md = md_memcpy md (take n inp);
            md = (if md_curlen md = block_size then
                    let md = md_compress C md (md_buf md)
                    in md\<lparr>md_length := md_length md + of_nat (8 * block_size), md_curlen := 0\<rparr>
                  else md)
        in hash_process block_size C md (drop n inp))"
  by pat_completeness auto
termination
  by (relation "measure (\<lambda>(b, C, md, inp). 2 * length inp + (if md_curlen md = b then 1 else 0))")
    (auto simp: md_memcpy_def md_compress_def Let_def min_def split: if_splits)

declare hash_process.simps [simp del]

text \<open>The \<^verbatim>\<open>while\<close> loops that append zero bytes up to an offset.\<close>

function zero_fill :: "nat \<Rightarrow> 'w md_state \<Rightarrow> 'w md_state" where
  "zero_fill n md = (if md_curlen md < n then zero_fill n (md_memcpy md [0]) else md)"
  by pat_completeness auto
termination
  by (relation "measure (\<lambda>(n, md). n - md_curlen md)") (auto simp: md_memcpy_def)

declare zero_fill.simps [simp del]

definition hash_done :: "nat \<Rightarrow> nat \<Rightarrow> nat \<Rightarrow> ('w list \<Rightarrow> byte list \<Rightarrow> 'w list) \<Rightarrow> ('w \<Rightarrow> byte list) \<Rightarrow>
    'w md_state \<Rightarrow> crypt_error + byte list" where
  "hash_done block_size spill lenpos C store md =
     (if md_curlen md \<ge> block_size then Inl CRYPT_INVALID_ARG
      else
        let md = md\<lparr>md_length := md_length md + of_nat (md_curlen md * 8)\<rparr>;
            md = md_memcpy md [0x80];
            md = (if md_curlen md > spill then
                    let md = zero_fill block_size md; md = md_compress C md (md_buf md)
                    in md\<lparr>md_curlen := 0\<rparr>
                  else md);
            md = zero_fill lenpos md;
            md = md\<lparr>md_buf := take lenpos (md_buf md) @ STORE64H (md_length md) @ drop (lenpos + 8) (md_buf md)\<rparr>;
            md = md_compress C md (md_buf md)
        in Inr (concat (map store (md_words md))))"

section \<open>The specification\<close>

function blocks :: "nat \<Rightarrow> byte list \<Rightarrow> byte list list" where
  "blocks b xs = (if b = 0 \<or> length xs < b then [] else take b xs # blocks b (drop b xs))"
  by pat_completeness auto
termination by (relation "measure (\<lambda>(b, xs). length xs)") auto

declare blocks.simps [simp del]

definition md_padding :: "nat \<Rightarrow> nat \<Rightarrow> nat \<Rightarrow> nat \<Rightarrow> byte list" where
  "md_padding b spill lenpos n =
     0x80 # replicate ((if Suc (n mod b) \<le> spill then 0 else b) + lenpos - Suc (n mod b)) 0 @ STORE64H (of_nat (8 * n))"

definition md_hash :: "nat \<Rightarrow> nat \<Rightarrow> nat \<Rightarrow> 'w list \<Rightarrow> ('w list \<Rightarrow> byte list \<Rightarrow> 'w list) \<Rightarrow> ('w \<Rightarrow> byte list) \<Rightarrow>
    byte list \<Rightarrow> byte list" where
  "md_hash b spill lenpos iv C store m =
     concat (map store (foldl C iv (blocks b (m @ md_padding b spill lenpos (length m)))))"

text \<open>A state that has absorbed the message \<^verbatim>\<open>m\<close>: its full blocks are compressed, the rest is buffered.\<close>

definition md_absorbed :: "nat \<Rightarrow> 'w list \<Rightarrow> ('w list \<Rightarrow> byte list \<Rightarrow> 'w list) \<Rightarrow> 'w md_state \<Rightarrow> byte list \<Rightarrow> bool" where
  "md_absorbed b iv C md m \<longleftrightarrow>
     (\<exists>full rest. m = full @ rest \<and> b dvd length full \<and> length rest < b \<and>
        md_curlen md = length rest \<and> take (length rest) (md_buf md) = rest \<and> length (md_buf md) = b \<and>
        md_words md = foldl C iv (blocks b full) \<and> md_length md = of_nat (8 * length full))"

section \<open>Blocks\<close>

lemma blocks_Nil [simp]: "blocks b [] = []"
  by (subst blocks.simps) auto

lemma blocks_single: "length xs = b \<Longrightarrow> 0 < b \<Longrightarrow> blocks b xs = [xs]"
  by (subst blocks.simps) simp

lemma blocks_append: "b dvd length xs \<Longrightarrow> blocks b (xs @ ys) = blocks b xs @ blocks b ys"
proof (induction b xs rule: blocks.induct)
  case (1 b xs)
  show ?case
  proof (cases "b = 0 \<or> xs = []")
    case True
    then show ?thesis by (auto simp: blocks.simps [of 0])
  next
    case False
    then have "b \<le> length xs"
      using 1(2) by (auto dest: dvd_imp_le)
    moreover have "b dvd length (drop b xs)"
      using 1(2) by simp
    ultimately show ?thesis
      using 1(1) False by (simp add: blocks.simps [of b xs] blocks.simps [of b "xs @ ys"])
  qed
qed

lemma blocks_snoc: "b dvd length xs \<Longrightarrow> length ys = b \<Longrightarrow> 0 < b \<Longrightarrow> blocks b (xs @ ys) = blocks b xs @ [ys]"
  by (simp add: blocks_append blocks_single [of ys])

section \<open>Processing absorbs\<close>

lemma md_memcpy_simps [simp]:
  "md_words (md_memcpy md xs) = md_words md" "md_length (md_memcpy md xs) = md_length md"
  "md_curlen (md_memcpy md xs) = md_curlen md + length xs"
  "md_buf (md_memcpy md xs) = take (md_curlen md) (md_buf md) @ xs @ drop (md_curlen md + length xs) (md_buf md)"
  by (simp_all add: md_memcpy_def)

lemma md_compress_simps [simp]:
  "md_words (md_compress C md blk) = C (md_words md) blk" "md_length (md_compress C md blk) = md_length md"
  "md_curlen (md_compress C md blk) = md_curlen md" "md_buf (md_compress C md blk) = md_buf md"
  by (simp_all add: md_compress_def)

lemma hash_process_absorbs:
  assumes "md_absorbed b iv C md m"
  shows "\<exists>md'. hash_process b C md xs = Inr md' \<and> md_absorbed b iv C md' (m @ xs)"
  using assms
proof (induction b C md xs arbitrary: m rule: hash_process.induct)
  case (1 b C md xs)
  from 1(3) obtain full rest where m: "m = full @ rest" "b dvd length full" "length rest < b"
      "md_curlen md = length rest" "take (length rest) (md_buf md) = rest" "length (md_buf md) = b"
      "md_words md = foldl C iv (blocks b full)" "md_length md = of_nat (8 * length full)"
    by (auto simp: md_absorbed_def)
  then have b: "\<not> (md_curlen md > b \<or> b = 0)"
    by auto
  consider (empty) "xs = []" | (whole) "xs \<noteq> []" "rest = []" "b \<le> length xs"
    | (part) "xs \<noteq> []" "\<not> (md_curlen md = 0 \<and> b \<le> length xs)"
    using m by (cases "rest = []") auto
  then show ?case
  proof cases
    case empty
    then show ?thesis
      using 1(3) b by (simp add: hash_process.simps)
  next
    case whole
    let ?md = "(md_compress C md (take b xs))\<lparr>md_length := md_length md + of_nat (b * 8)\<rparr>"
    have "md_absorbed b iv C ?md (m @ take b xs)"
      unfolding md_absorbed_def using m whole b
      by - (rule exI [of _ "full @ take b xs"], rule exI [of _ "[]"], simp add: blocks_snoc algebra_simps)
    then show ?thesis
      using 1(1) [OF b whole(1) _ refl refl, of "m @ take b xs"] whole m b
      by (subst hash_process.simps) (simp add: Let_def)
  next
    case part
    let ?n = "min (length xs) (b - md_curlen md)"
    let ?md1 = "md_memcpy md (take ?n xs)"
    let ?md2 = "if md_curlen ?md1 = b
      then (md_compress C ?md1 (md_buf ?md1))\<lparr>
        md_length := md_length (md_compress C ?md1 (md_buf ?md1)) + of_nat (8 * b), md_curlen := 0\<rparr> else ?md1"
    have step: "hash_process b C md xs = hash_process b C ?md2 (drop ?n xs)"
      by (simp only: hash_process.simps [of b C md xs] Let_def if_not_P [OF b] if_not_P [OF part(1)]
        if_not_P [OF part(2)])
    have "md_absorbed b iv C ?md2 (m @ take ?n xs)"
    proof (cases "md_curlen ?md1 = b")
      case True
      then have n: "length rest + length (take ?n xs) = b"
        using m by simp
      then have buf: "md_buf ?md1 = rest @ take ?n xs"
        using m by simp
      show ?thesis
        unfolding md_absorbed_def if_P [OF True] using m n b
        by - (rule exI [of _ "full @ rest @ take ?n xs"], rule exI [of _ "[]"],
          simp add: buf [unfolded m(4)] blocks_append blocks_single [OF n [folded length_append, unfolded m(4)]] algebra_simps
            del: md_memcpy_simps(4) length_take)
    next
      case False
      then show ?thesis
        unfolding md_absorbed_def using m b
        by - (rule exI [of _ full], rule exI [of _ "rest @ take ?n xs"], auto simp: min_def split: if_splits)
    qed
    then show ?thesis
      using 1(2) [OF b part refl refl refl, of "m @ take ?n xs"]
      unfolding step by (simp only: Let_def append_assoc append_take_drop_id)
  qed
qed

section \<open>Padding\<close>

lemma zero_fill_buf:
  assumes "md_curlen md \<le> length (md_buf md)" "n \<le> length (md_buf md)"
  shows "zero_fill n md = md_memcpy md (replicate (n - md_curlen md) 0)"
  using assms
proof (induction n md rule: zero_fill.induct)
  case (1 n md)
  show ?case
  proof (cases "md_curlen md < n")
    case True
    then have "zero_fill n md = md_memcpy (md_memcpy md [0]) (replicate (n - Suc (md_curlen md)) 0)"
      using 1 by (subst zero_fill.simps) simp
    also have "\<dots> = md_memcpy md (0 # replicate (n - Suc (md_curlen md)) 0)"
      using 1(3) by (simp add: md_memcpy_def min_def ac_simps)
    also have "0 # replicate (n - Suc (md_curlen md)) (0 :: byte) = replicate (n - md_curlen md) 0"
      using True by (metis Suc_diff_Suc replicate_Suc)
    finally show ?thesis .
  next
    case False
    then show ?thesis
      using 1(2) by (subst zero_fill.simps) (simp add: md_memcpy_def)
  qed
qed

lemma hash_done_digest:
  assumes "md_absorbed b iv C md m" "spill \<le> lenpos" "b = lenpos + 8"
  shows "hash_done b spill lenpos C store md = Inr (md_hash b spill lenpos iv C store m)"
proof -
  obtain full rest where m: "m = full @ rest" "b dvd length full" "length rest < b"
      "md_curlen md = length rest" "take (length rest) (md_buf md) = rest" "length (md_buf md) = b"
      "md_words md = foldl C iv (blocks b full)" "md_length md = of_nat (8 * length full)"
    using assms(1) by (auto simp: md_absorbed_def)
  have modb: "length m mod b = length rest"
    using m by auto
  have len: "md_length md + of_nat (md_curlen md * 8) = of_nat (8 * length m)"
    using m by simp
  let ?L = "STORE64H (of_nat (8 * length m))"
  have pad: "md_padding b spill lenpos (length m) =
      0x80 # replicate ((if Suc (length rest) \<le> spill then 0 else b) + lenpos - Suc (length rest)) 0 @ ?L"
    by (simp only: md_padding_def modb)
  show ?thesis
  proof (cases "Suc (length rest) \<le> spill")
    case True
    let ?blk = "rest @ 0x80 # replicate (lenpos - Suc (length rest)) 0 @ ?L"
    have "m @ md_padding b spill lenpos (length m) = full @ ?blk"
      unfolding pad using True by (simp add: m(1))
    moreover have "blocks b (full @ ?blk) = blocks b full @ [?blk]"
      using True assms(2,3) by (intro blocks_snoc [OF m(2)]) simp_all
    moreover have "hash_done b spill lenpos C store md =
        Inr (concat (map store (C (md_words md) ?blk)))"
    proof -
      obtain k where "lenpos = Suc (length rest + k)"
        using True assms(2) by (metis add_Suc le_Suc_ex le_trans)
      then show ?thesis
        using True m(2-) assms(2,3) len by (simp add: hash_done_def Let_def zero_fill_buf)
    qed
    ultimately show ?thesis
      using m(7) by (simp add: md_hash_def)
  next
    case False
    let ?blk1 = "rest @ 0x80 # replicate (b - Suc (length rest)) 0"
    let ?blk2 = "replicate lenpos 0 @ ?L"
    have "(if Suc (length rest) \<le> spill then 0 else b) + lenpos - Suc (length rest) = b - Suc (length rest) + lenpos"
      using False m(3) by simp
    then have "m @ md_padding b spill lenpos (length m) = full @ ?blk1 @ ?blk2"
      unfolding pad by (simp add: m(1) replicate_add)
    moreover have "blocks b (full @ ?blk1 @ ?blk2) = blocks b full @ [?blk1, ?blk2]"
    proof -
      have "length ?blk1 = b" "length ?blk2 = b" "0 < b"
        using m(3) assms(3) by simp_all
      then have "blocks b ?blk1 = [?blk1]" "blocks b (?blk1 @ ?blk2) = [?blk1, ?blk2]"
        using blocks_single [of ?blk1 b] blocks_snoc [of b ?blk1 ?blk2] by auto
      then show ?thesis
        by (simp only: blocks_append [OF m(2)])
    qed
    moreover have "hash_done b spill lenpos C store md =
        Inr (concat (map store (C (C (md_words md) ?blk1) ?blk2)))"
      using False m(2-) assms(2,3) len by (simp add: hash_done_def Let_def zero_fill_buf)
    ultimately show ?thesis
      using m(7) by (simp add: md_hash_def)
  qed
qed

section \<open>Errors\<close>

lemma hash_process_error:
  "0 < b \<Longrightarrow> (hash_process b C md xs = Inl e) = (e = CRYPT_INVALID_ARG \<and> b < md_curlen md)"
proof (induction b C md xs rule: hash_process.induct)
  case (1 b C md xs)
  then show ?case
    by (subst hash_process.simps) (auto simp: Let_def split: if_splits)
qed

lemma hash_done_error:
  "(hash_done b spill lenpos C store md = Inl e) = (e = CRYPT_INVALID_ARG \<and> b \<le> md_curlen md)"
  by (auto simp: hash_done_def Let_def)

section \<open>Feeding pieces\<close>

text \<open>A caller feeds a message in pieces and stops at the first error.\<close>

primrec feed :: "('s \<Rightarrow> byte list \<Rightarrow> crypt_error + 's) \<Rightarrow> byte list list \<Rightarrow> 's \<Rightarrow> crypt_error + 's" where
  "feed process [] s = Inr s"
| "feed process (x # xs) s = (case process s x of Inl e \<Rightarrow> Inl e | Inr s \<Rightarrow> feed process xs s)"

end
