(* ===== verification/SHA.thy ===== *)
theory SHA
  imports Hash_Process
begin

text \<open>
  The two hashes of the program, \<^verbatim>\<open>hashes/sha1.c\<close> and \<^verbatim>\<open>hashes/sha2/sha512.c\<close>: the compression
  functions with their unrolled rounds, the loops of the \<^verbatim>\<open>LTC_SMALL_CODE\<close> variants they agree
  with, and initialisation, processing and termination over the shared buffer handling.
\<close>

section \<open>SHA-1\<close>

definition F0 :: "u32 \<Rightarrow> u32 \<Rightarrow> u32 \<Rightarrow> u32" where "F0 x y z = z XOR (x AND (y XOR z))"
definition F1 :: "u32 \<Rightarrow> u32 \<Rightarrow> u32 \<Rightarrow> u32" where "F1 x y z = x XOR y XOR z"
definition F2 :: "u32 \<Rightarrow> u32 \<Rightarrow> u32 \<Rightarrow> u32" where "F2 x y z = (x AND y) OR (z AND (x OR y))"
definition F3 :: "u32 \<Rightarrow> u32 \<Rightarrow> u32 \<Rightarrow> u32" where "F3 x y z = x XOR y XOR z"

text \<open>The macros \<^verbatim>\<open>FF0\<close> to \<^verbatim>\<open>FF3\<close> assign to their last and second variable.\<close>

definition sha1_FF :: "(u32 \<Rightarrow> u32 \<Rightarrow> u32 \<Rightarrow> u32) \<Rightarrow> u32 \<Rightarrow> u32 \<Rightarrow> u32 \<Rightarrow> u32 \<Rightarrow> u32 \<Rightarrow> u32 \<Rightarrow> u32 \<Rightarrow> u32 \<times> u32" where
  "sha1_FF F k w a b c d e = (ROL a 5 + F b c d + e + w + k, ROL b 30)"

type_synonym sha1_vars = "u32 \<times> u32 \<times> u32 \<times> u32 \<times> u32"

definition sha1_five :: "(u32 \<Rightarrow> u32 \<Rightarrow> u32 \<Rightarrow> u32) \<Rightarrow> u32 \<Rightarrow> u32 list \<Rightarrow> nat \<Rightarrow> sha1_vars \<Rightarrow> sha1_vars" where
  "sha1_five F k W i = (\<lambda>(a, b, c, d, e).
     let (e, b) = sha1_FF F k (W ! i) a b c d e;
         (d, a) = sha1_FF F k (W ! (i + 1)) e a b c d;
         (c, e) = sha1_FF F k (W ! (i + 2)) d e a b c;
         (b, d) = sha1_FF F k (W ! (i + 3)) c d e a b;
         (a, c) = sha1_FF F k (W ! (i + 4)) b c d e a
     in (a, b, c, d, e))"

definition sha1_rounds :: "u32 list \<Rightarrow> sha1_vars \<Rightarrow> sha1_vars" where
  "sha1_rounds W s =
     (let s = fold (sha1_five F0 0x5a827999 W) [0, 5, 10, 15] s;
          s = fold (sha1_five F1 0x6ed9eba1 W) [20, 25, 30, 35] s;
          s = fold (sha1_five F2 0x8f1bbcdc W) [40, 45, 50, 55] s
      in fold (sha1_five F3 0xca62c1d6 W) [60, 65, 70, 75] s)"

definition sha1_expand :: "byte list \<Rightarrow> u32 list" where
  "sha1_expand buf =
     foldl (\<lambda>W i. W @ [ROL (W ! (i - 3) XOR W ! (i - 8) XOR W ! (i - 14) XOR W ! (i - 16)) 1])
       (map (\<lambda>i. LOAD32H buf (4 * i)) [0..<16]) [16..<80]"

definition sha1_compress :: "u32 list \<Rightarrow> byte list \<Rightarrow> u32 list" where
  "sha1_compress st buf =
     (let W = sha1_expand buf;
          (a, b, c, d, e) = sha1_rounds W (st ! 0, st ! 1, st ! 2, st ! 3, st ! 4)
      in [st ! 0 + a, st ! 1 + b, st ! 2 + c, st ! 3 + d, st ! 4 + e])"

definition sha1_init :: "byte list \<Rightarrow> u32 md_state" where
  "sha1_init buf =
     \<lparr>md_length = 0, md_words = [0x67452301, 0xefcdab89, 0x98badcfe, 0x10325476, 0xc3d2e1f0],
      md_curlen = 0, md_buf = buf\<rparr>"

definition sha1_process :: "u32 md_state \<Rightarrow> byte list \<Rightarrow> crypt_error + u32 md_state" where
  "sha1_process = hash_process 64 sha1_compress"

definition sha1_done :: "u32 md_state \<Rightarrow> crypt_error + byte list" where
  "sha1_done = hash_done 64 56 56 sha1_compress STORE32H"

section \<open>SHA-512\<close>

text \<open>The rows of the array as the source has them, two words each.\<close>

definition K512 :: "u64 list" where
  "K512 = concat [
     [0x428a2f98d728ae22, 0x7137449123ef65cd], [0xb5c0fbcfec4d3b2f, 0xe9b5dba58189dbbc],
     [0x3956c25bf348b538, 0x59f111f1b605d019], [0x923f82a4af194f9b, 0xab1c5ed5da6d8118],
     [0xd807aa98a3030242, 0x12835b0145706fbe], [0x243185be4ee4b28c, 0x550c7dc3d5ffb4e2],
     [0x72be5d74f27b896f, 0x80deb1fe3b1696b1], [0x9bdc06a725c71235, 0xc19bf174cf692694],
     [0xe49b69c19ef14ad2, 0xefbe4786384f25e3], [0x0fc19dc68b8cd5b5, 0x240ca1cc77ac9c65],
     [0x2de92c6f592b0275, 0x4a7484aa6ea6e483], [0x5cb0a9dcbd41fbd4, 0x76f988da831153b5],
     [0x983e5152ee66dfab, 0xa831c66d2db43210], [0xb00327c898fb213f, 0xbf597fc7beef0ee4],
     [0xc6e00bf33da88fc2, 0xd5a79147930aa725], [0x06ca6351e003826f, 0x142929670a0e6e70],
     [0x27b70a8546d22ffc, 0x2e1b21385c26c926], [0x4d2c6dfc5ac42aed, 0x53380d139d95b3df],
     [0x650a73548baf63de, 0x766a0abb3c77b2a8], [0x81c2c92e47edaee6, 0x92722c851482353b],
     [0xa2bfe8a14cf10364, 0xa81a664bbc423001], [0xc24b8b70d0f89791, 0xc76c51a30654be30],
     [0xd192e819d6ef5218, 0xd69906245565a910], [0xf40e35855771202a, 0x106aa07032bbd1b8],
     [0x19a4c116b8d2d0c8, 0x1e376c085141ab53], [0x2748774cdf8eeb99, 0x34b0bcb5e19b48a8],
     [0x391c0cb3c5c95a63, 0x4ed8aa4ae3418acb], [0x5b9cca4f7763e373, 0x682e6ff3d6b2b8a3],
     [0x748f82ee5defb2fc, 0x78a5636f43172f60], [0x84c87814a1f0ab72, 0x8cc702081a6439ec],
     [0x90befffa23631e28, 0xa4506cebde82bde9], [0xbef9a3f7b2c67915, 0xc67178f2e372532b],
     [0xca273eceea26619c, 0xd186b8c721c0c207], [0xeada7dd6cde0eb1e, 0xf57d4f7fee6ed178],
     [0x06f067aa72176fba, 0x0a637dc5a2c898a6], [0x113f9804bef90dae, 0x1b710b35131c471b],
     [0x28db77f523047d84, 0x32caab7b40c72493], [0x3c9ebe0a15c9bebc, 0x431d67c49c100d4c],
     [0x4cc5d4becb3e42b6, 0x597f299cfc657e2a], [0x5fcb6fab3ad6faec, 0x6c44198c4a475817]]"

definition ROR64c :: "u64 \<Rightarrow> nat \<Rightarrow> u64" where
  "ROR64c x n = drop_bit (n mod 64) x OR push_bit (64 - n mod 64) x"

definition Ch :: "u64 \<Rightarrow> u64 \<Rightarrow> u64 \<Rightarrow> u64" where "Ch x y z = z XOR (x AND (y XOR z))"
definition Maj :: "u64 \<Rightarrow> u64 \<Rightarrow> u64 \<Rightarrow> u64" where "Maj x y z = ((x OR y) AND z) OR (x AND y)"
definition Sigma0 :: "u64 \<Rightarrow> u64" where "Sigma0 x = ROR64c x 28 XOR ROR64c x 34 XOR ROR64c x 39"
definition Sigma1 :: "u64 \<Rightarrow> u64" where "Sigma1 x = ROR64c x 14 XOR ROR64c x 18 XOR ROR64c x 41"
definition Gamma0 :: "u64 \<Rightarrow> u64" where "Gamma0 x = ROR64c x 1 XOR ROR64c x 8 XOR drop_bit 7 x"
definition Gamma1 :: "u64 \<Rightarrow> u64" where "Gamma1 x = ROR64c x 19 XOR ROR64c x 61 XOR drop_bit 6 x"

definition sha512_expand :: "byte list \<Rightarrow> u64 list" where
  "sha512_expand buf =
     foldl (\<lambda>W i. W @ [Gamma1 (W ! (i - 2)) + W ! (i - 7) + Gamma0 (W ! (i - 15)) + W ! (i - 16)])
       (map (\<lambda>i. LOAD64H buf (8 * i)) [0..<16]) [16..<80]"

text \<open>The macro \<^verbatim>\<open>RND\<close> assigns to its fourth and eighth variable.\<close>

definition RND :: "u64 list \<Rightarrow> u64 \<Rightarrow> u64 \<Rightarrow> u64 \<Rightarrow> u64 \<Rightarrow> u64 \<Rightarrow> u64 \<Rightarrow> u64 \<Rightarrow> u64 \<Rightarrow> nat \<Rightarrow> u64 \<times> u64" where
  "RND W a b c d e f g h i =
     (let t0 = h + Sigma1 e + Ch e f g + K512 ! i + W ! i;
          t1 = Sigma0 a + Maj a b c
      in (d + t0, t0 + t1))"

type_synonym sha512_vars = "u64 \<times> u64 \<times> u64 \<times> u64 \<times> u64 \<times> u64 \<times> u64 \<times> u64"

definition sha512_eight :: "u64 list \<Rightarrow> nat \<Rightarrow> sha512_vars \<Rightarrow> sha512_vars" where
  "sha512_eight W i = (\<lambda>(s0, s1, s2, s3, s4, s5, s6, s7).
     let (s3, s7) = RND W s0 s1 s2 s3 s4 s5 s6 s7 (i + 0);
         (s2, s6) = RND W s7 s0 s1 s2 s3 s4 s5 s6 (i + 1);
         (s1, s5) = RND W s6 s7 s0 s1 s2 s3 s4 s5 (i + 2);
         (s0, s4) = RND W s5 s6 s7 s0 s1 s2 s3 s4 (i + 3);
         (s7, s3) = RND W s4 s5 s6 s7 s0 s1 s2 s3 (i + 4);
         (s6, s2) = RND W s3 s4 s5 s6 s7 s0 s1 s2 (i + 5);
         (s5, s1) = RND W s2 s3 s4 s5 s6 s7 s0 s1 (i + 6);
         (s4, s0) = RND W s1 s2 s3 s4 s5 s6 s7 s0 (i + 7)
     in (s0, s1, s2, s3, s4, s5, s6, s7))"

definition sha512_rounds :: "u64 list \<Rightarrow> sha512_vars \<Rightarrow> sha512_vars" where
  "sha512_rounds W s = fold (sha512_eight W) [0, 8, 16, 24, 32, 40, 48, 56, 64, 72] s"

definition sha512_compress :: "u64 list \<Rightarrow> byte list \<Rightarrow> u64 list" where
  "sha512_compress st buf =
     (let W = sha512_expand buf;
          (a, b, c, d, e, f, g, h) = sha512_rounds W
            (st ! 0, st ! 1, st ! 2, st ! 3, st ! 4, st ! 5, st ! 6, st ! 7)
      in [st ! 0 + a, st ! 1 + b, st ! 2 + c, st ! 3 + d, st ! 4 + e, st ! 5 + f, st ! 6 + g, st ! 7 + h])"

definition sha512_init :: "byte list \<Rightarrow> u64 md_state" where
  "sha512_init buf =
     \<lparr>md_length = 0,
      md_words = [0x6a09e667f3bcc908, 0xbb67ae8584caa73b, 0x3c6ef372fe94f82b, 0xa54ff53a5f1d36f1,
                  0x510e527fade682d1, 0x9b05688c2b3e6c1f, 0x1f83d9abfb41bd6b, 0x5be0cd19137e2179],
      md_curlen = 0, md_buf = buf\<rparr>"

definition sha512_process :: "u64 md_state \<Rightarrow> byte list \<Rightarrow> crypt_error + u64 md_state" where
  "sha512_process = hash_process 128 sha512_compress"

definition sha512_done :: "u64 md_state \<Rightarrow> crypt_error + byte list" where
  "sha512_done = hash_done 128 112 120 sha512_compress STORE64H"

section \<open>The rounds one at a time\<close>

text \<open>
  The \<^verbatim>\<open>LTC_SMALL_CODE\<close> variants do one round per turn and rotate the variables.
\<close>

definition sha1_step :: "(u32 \<Rightarrow> u32 \<Rightarrow> u32 \<Rightarrow> u32) \<Rightarrow> u32 \<Rightarrow> u32 list \<Rightarrow> nat \<Rightarrow> sha1_vars \<Rightarrow> sha1_vars" where
  "sha1_step F k W i = (\<lambda>(a, b, c, d, e).
     let (e, b) = sha1_FF F k (W ! i) a b c d e; t = e; e = d; d = c; c = b; b = a; a = t
     in (a, b, c, d, e))"

definition sha1_small_rounds :: "u32 list \<Rightarrow> sha1_vars \<Rightarrow> sha1_vars" where
  "sha1_small_rounds W s =
     (let s = fold (sha1_step F0 0x5a827999 W) [0..<20] s;
          s = fold (sha1_step F1 0x6ed9eba1 W) [20..<40] s;
          s = fold (sha1_step F2 0x8f1bbcdc W) [40..<60] s
      in fold (sha1_step F3 0xca62c1d6 W) [60..<80] s)"

definition sha512_step :: "u64 list \<Rightarrow> nat \<Rightarrow> sha512_vars \<Rightarrow> sha512_vars" where
  "sha512_step W i = (\<lambda>(s0, s1, s2, s3, s4, s5, s6, s7).
     let t0 = s7 + Sigma1 s4 + Ch s4 s5 s6 + K512 ! i + W ! i;
         t1 = Sigma0 s0 + Maj s0 s1 s2
     in (t0 + t1, s0, s1, s2, s3 + t0, s4, s5, s6))"

definition sha512_small_rounds :: "u64 list \<Rightarrow> sha512_vars \<Rightarrow> sha512_vars" where
  "sha512_small_rounds W s = fold (sha512_step W) [0..<80] s"

lemma sha1_five_steps:
  "sha1_five F k W i s = fold (sha1_step F k W) [i, i + 1, i + 2, i + 3, i + 4] s"
  by (cases s) (simp add: sha1_five_def sha1_step_def sha1_FF_def Let_def)

lemma sha512_step_RND:
  "sha512_step W i (s0, s1, s2, s3, s4, s5, s6, s7) =
     (case RND W s0 s1 s2 s3 s4 s5 s6 s7 i of (d, h) \<Rightarrow> (h, s0, s1, s2, d, s4, s5, s6))"
  by (simp add: sha512_step_def RND_def Let_def)

lemma sha512_eight_steps:
  "sha512_eight W i (s0, s1, s2, s3, s4, s5, s6, s7) =
     fold (sha512_step W) [i + 0, i + 1, i + 2, i + 3, i + 4, i + 5, i + 6, i + 7] (s0, s1, s2, s3, s4, s5, s6, s7)"
proof -
  obtain d0 h0 where 0: "RND W s0 s1 s2 s3 s4 s5 s6 s7 (i + 0) = (d0, h0)" by fastforce
  obtain d1 h1 where 1: "RND W h0 s0 s1 s2 d0 s4 s5 s6 (i + 1) = (d1, h1)" by fastforce
  obtain d2 h2 where 2: "RND W h1 h0 s0 s1 d1 d0 s4 s5 (i + 2) = (d2, h2)" by fastforce
  obtain d3 h3 where 3: "RND W h2 h1 h0 s0 d2 d1 d0 s4 (i + 3) = (d3, h3)" by fastforce
  obtain d4 h4 where 4: "RND W h3 h2 h1 h0 d3 d2 d1 d0 (i + 4) = (d4, h4)" by fastforce
  obtain d5 h5 where 5: "RND W h4 h3 h2 h1 d4 d3 d2 d1 (i + 5) = (d5, h5)" by fastforce
  obtain d6 h6 where 6: "RND W h5 h4 h3 h2 d5 d4 d3 d2 (i + 6) = (d6, h6)" by fastforce
  obtain d7 h7 where 7: "RND W h6 h5 h4 h3 d6 d5 d4 d3 (i + 7) = (d7, h7)" by fastforce
  show ?thesis
    by (simp only: sha512_eight_def Let_def prod.case fold_simps o_apply id_apply sha512_step_RND 0 1 2 3 4 5 6 7)
qed

text \<open>
  The unrolled rounds of SHA-1, five per turn with the variables renamed, compute what the
  80 rounds of the small-code variant compute, which rotate the variables after each round.
\<close>
theorem sha1_rounds_small: "sha1_rounds W s = sha1_small_rounds W s"
proof -
  let ?run = "\<lambda>i. concat (map (\<lambda>i. [i, i + 1, i + 2, i + 3, i + 4]) [i, i + 5, i + 10, i + 15 :: nat])"
  have runs: "[0..<20] = ?run 0" "[20..<40] = ?run 20" "[40..<60] = ?run 40" "[60..<80] = ?run 60"
    by code_simp+
  show ?thesis
    by (simp add: sha1_rounds_def sha1_small_rounds_def Let_def sha1_five_steps runs
      del: upt_rec_numeral)
qed

text \<open>
  The same for the eight unrolled rounds per turn of SHA-512.
\<close>
theorem sha512_rounds_small: "sha512_rounds W s = sha512_small_rounds W s"
proof -
  have eight: "sha512_eight W i s =
      fold (sha512_step W) [i + 0, i + 1, i + 2, i + 3, i + 4, i + 5, i + 6, i + 7] s" for i s
  proof (cases s)
    case (fields a b c d e f gh)
    then show ?thesis
      by (cases gh) (simp only: sha512_eight_steps)
  qed
  have runs: "[0..<80] = concat (map (\<lambda>i. [i + 0, i + 1, i + 2, i + 3, i + 4, i + 5, i + 6, i + 7])
      [0, 8, 16, 24, 32, 40, 48, 56, 64, 72])"
    by code_simp
  show ?thesis
    by (simp only: sha512_rounds_def sha512_small_rounds_def runs fold_append fold_simps o_apply eight
      concat.simps list.map append_Nil2)
qed

section \<open>The digests\<close>

definition sha1_digest :: "byte list \<Rightarrow> byte list" where
  "sha1_digest = md_hash 64 56 56 (md_words (sha1_init [])) sha1_compress STORE32H"

definition sha512_digest :: "byte list \<Rightarrow> byte list" where
  "sha512_digest = md_hash 128 112 120 (md_words (sha512_init [])) sha512_compress STORE64H"

definition sha1_absorbed :: "u32 md_state \<Rightarrow> byte list \<Rightarrow> bool" where
  "sha1_absorbed = md_absorbed 64 (md_words (sha1_init [])) sha1_compress"

definition sha512_absorbed :: "u64 md_state \<Rightarrow> byte list \<Rightarrow> bool" where
  "sha512_absorbed = md_absorbed 128 (md_words (sha512_init [])) sha512_compress"

lemma sha_init_absorbed:
  "length buf = 64 \<Longrightarrow> sha1_absorbed (sha1_init buf) []"
  "length buf' = 128 \<Longrightarrow> sha512_absorbed (sha512_init buf') []"
  by (simp_all add: sha1_absorbed_def sha512_absorbed_def md_absorbed_def sha1_init_def sha512_init_def)

lemma sha_process_absorbed:
  "sha1_absorbed s m \<Longrightarrow> \<exists>s'. sha1_process s x = Inr s' \<and> sha1_absorbed s' (m @ x)"
  "sha512_absorbed t m \<Longrightarrow> \<exists>t'. sha512_process t x = Inr t' \<and> sha512_absorbed t' (m @ x)"
  by (simp_all add: sha1_absorbed_def sha512_absorbed_def sha1_process_def sha512_process_def hash_process_absorbs)

lemma sha_done_absorbed:
  "sha1_absorbed s m \<Longrightarrow> sha1_done s = Inr (sha1_digest m)"
  "sha512_absorbed t m \<Longrightarrow> sha512_done t = Inr (sha512_digest m)"
  by (simp_all add: sha1_absorbed_def sha512_absorbed_def sha1_done_def sha512_done_def
    sha1_digest_def sha512_digest_def hash_done_digest)

lemma foldl_keeps_length: "(\<And>s x. length (C s x) = n) \<Longrightarrow> length s = n \<Longrightarrow> length (foldl C s xs) = n"
  by (induction xs arbitrary: s) auto

lemma length_concat_const: "(\<And>x. length (f x) = k) \<Longrightarrow> length (concat (map f xs)) = k * length xs"
  by (induction xs) auto

lemma length_sha_digest [lengths, simp]:
  "length (sha1_digest m) = 20" "length (sha512_digest m) = 64"
proof -
  have "length (sha1_compress s x) = 5" "length (sha512_compress t x) = 8" for s t x
    by (simp_all add: sha1_compress_def sha512_compress_def Let_def split: prod.splits)
  then have "length (foldl sha1_compress (md_words (sha1_init [])) bs) = 5"
    "length (foldl sha512_compress (md_words (sha512_init [])) bs) = 8" for bs
    by (auto intro!: foldl_keeps_length simp: sha1_init_def sha512_init_def)
  then show "length (sha1_digest m) = 20" "length (sha512_digest m) = 64"
    by (simp_all add: sha1_digest_def sha512_digest_def md_hash_def length_concat_const [where k = 4]
      length_concat_const [where k = 8])
qed

text \<open>
  Processing fails exactly when the fill count of the buffer exceeds the block size, and
  terminating fails exactly when it reaches it; the error is \<^verbatim>\<open>CRYPT_INVALID_ARG\<close> in each case.
\<close>
theorem sha_errors:
  "((sha1_process s x = Inl e) = (e = CRYPT_INVALID_ARG \<and> 64 < md_curlen s)) \<and>
   ((sha512_process t y = Inl e) = (e = CRYPT_INVALID_ARG \<and> 128 < md_curlen t)) \<and>
   ((sha1_done s = Inl e) = (e = CRYPT_INVALID_ARG \<and> 64 \<le> md_curlen s)) \<and>
   ((sha512_done t = Inl e) = (e = CRYPT_INVALID_ARG \<and> 128 \<le> md_curlen t))"
  by (simp add: sha1_process_def sha512_process_def sha1_done_def sha512_done_def
    hash_process_error hash_done_error)

end
