(* ===== verification/Hashes.thy ===== *)
theory Hashes
  imports Registry SHA
begin

text \<open>
  The union \<^verbatim>\<open>hash_state\<close>, the descriptors of the two hashes, the table that \<^verbatim>\<open>register_all\<close> builds
  from them, and \<^verbatim>\<open>hash_memory\<close>.  A locale states what the users of a descriptor rely on: the
  state follows the message absorbed so far and the digest is a function of it.
\<close>

section \<open>Descriptors\<close>

datatype hash_state = HS_sha1 "u32 md_state" | HS_sha512 "u64 md_state"

text \<open>
  As with the ciphers, a descriptor function given the state of the other hash is an error, and
  the buffer that initialisation leaves as it was starts with zeros.
\<close>

definition sha1_desc :: "hash_state hash_desc" where
  "sha1_desc =
     \<lparr>hd_name = Some ''sha1'', hd_ID = 2, hd_hashsize = 20, hd_blocksize = 64,
      hd_init = HS_sha1 (sha1_init (replicate 64 0)),
      hd_process = (\<lambda>md inp. case md of HS_sha1 s \<Rightarrow> map_sum id HS_sha1 (sha1_process s inp) | _ \<Rightarrow> Inl CRYPT_ERROR),
      hd_done = (\<lambda>md. case md of HS_sha1 s \<Rightarrow> sha1_done s | _ \<Rightarrow> Inl CRYPT_ERROR)\<rparr>"

definition sha512_desc :: "hash_state hash_desc" where
  "sha512_desc =
     \<lparr>hd_name = Some ''sha512'', hd_ID = 5, hd_hashsize = 64, hd_blocksize = 128,
      hd_init = HS_sha512 (sha512_init (replicate 128 0)),
      hd_process = (\<lambda>md inp. case md of HS_sha512 s \<Rightarrow> map_sum id HS_sha512 (sha512_process s inp) | _ \<Rightarrow> Inl CRYPT_ERROR),
      hd_done = (\<lambda>md. case md of HS_sha512 s \<Rightarrow> sha512_done s | _ \<Rightarrow> Inl CRYPT_ERROR)\<rparr>"

definition blank_hash :: "hash_state hash_desc" where
  "blank_hash =
     \<lparr>hd_name = None, hd_ID = 0, hd_hashsize = 0, hd_blocksize = 0, hd_init = HS_sha1 (sha1_init []),
      hd_process = (\<lambda>_ _. Inl CRYPT_ERROR), hd_done = (\<lambda>_. Inl CRYPT_ERROR)\<rparr>"

definition register_hashes :: "hash_state hash_desc list \<Rightarrow> hash_state hash_desc list" where
  "register_hashes tab = fold (\<lambda>d tab. snd (register_hash d tab)) [sha1_desc, sha512_desc] tab"

definition hash_descriptor :: "hash_state hash_desc list" where
  "hash_descriptor = register_hashes (replicate TAB_SIZE blank_hash)"

lemma hash_desc_simps [simp]:
  "hd_name sha1_desc = Some ''sha1''" "hd_hashsize sha1_desc = 20" "hd_blocksize sha1_desc = 64"
  "hd_name sha512_desc = Some ''sha512''" "hd_hashsize sha512_desc = 64" "hd_blocksize sha512_desc = 128"
  "hd_name blank_hash = None"
  by (simp_all add: sha1_desc_def sha512_desc_def blank_hash_def)

lemma hash_descriptor_table:
  "hash_descriptor = [sha1_desc, sha512_desc] @ replicate 30 blank_hash"
proof -
  have "sha1_desc \<noteq> sha512_desc" "blank_hash \<noteq> sha1_desc" "blank_hash \<noteq> sha512_desc"
    by (auto dest: arg_cong [where f = hd_name])
  moreover have "TAB_SIZE = Suc (Suc 30)"
    by (simp add: TAB_SIZE_def)
  ultimately show ?thesis
    using hash_reg.reg_next [of "[]" sha1_desc blank_hash "Suc 30"]
      hash_reg.reg_next [of "[sha1_desc]" sha512_desc blank_hash 30]
    by (simp add: hash_descriptor_def register_hashes_def)
qed

section \<open>Hashing a buffer\<close>

text \<open>The pair holds the outcome and the value left in \<^verbatim>\<open>*outlen\<close>.  Allocation succeeds.\<close>

definition hash_memory :: "'h hash_desc list \<Rightarrow> int \<Rightarrow> byte list \<Rightarrow> nat \<Rightarrow> (crypt_error + byte list) \<times> nat" where
  "hash_memory tab hash inp outlen =
     (let err = hash_is_valid hash tab in
      if err \<noteq> CRYPT_OK then (Inl err, outlen)
      else
        let d = tab ! nat hash in
        if outlen < hd_hashsize d then (Inl CRYPT_BUFFER_OVERFLOW, hd_hashsize d)
        else
          case hd_process d (hd_init d) inp of
            Inl err \<Rightarrow> (Inl err, outlen)
          | Inr md \<Rightarrow> (hd_done d md, hd_hashsize d))"

section \<open>The contract of a hash descriptor\<close>

locale hash_provider =
  fixes d :: "'h hash_desc"
    and H :: "byte list \<Rightarrow> byte list"
    and absorbed :: "'h \<Rightarrow> byte list \<Rightarrow> bool"
  assumes init_absorbed: "absorbed (hd_init d) []"
    and process_absorbed: "absorbed s m \<Longrightarrow> \<exists>s'. hd_process d s x = Inr s' \<and> absorbed s' (m @ x)"
    and done_digest: "absorbed s m \<Longrightarrow> hd_done d s = Inr (H m)"
    and digest_length: "length (H m) = hd_hashsize d"
    and named: "hd_name d \<noteq> None"
    and sizes: "0 < hd_hashsize d" "hd_hashsize d \<le> hd_blocksize d" "hd_blocksize d \<le> MAXBLOCKSIZE"
begin

lemma feed_absorbed:
  "absorbed s m \<Longrightarrow> \<exists>s'. feed (hd_process d) xs s = Inr s' \<and> absorbed s' (m @ concat xs)"
proof (induction xs arbitrary: s m)
  case (Cons x xs)
  obtain s' where "hd_process d s x = Inr s'" "absorbed s' (m @ x)"
    using process_absorbed [OF Cons.prems] by blast
  then show ?case
    using Cons.IH [of s' "m @ x"] by simp
qed simp

lemma pieces_digest:
  "\<exists>s. feed (hd_process d) xs (hd_init d) = Inr s \<and> hd_done d s = Inr (H (concat xs))"
  using feed_absorbed [OF init_absorbed, of xs] done_digest by fastforce

lemma slot_valid: "tab ! nat i = d \<Longrightarrow> 0 \<le> i \<Longrightarrow> i < int TAB_SIZE \<Longrightarrow> hash_is_valid i tab = CRYPT_OK"
  using named by (simp add: hash_is_valid_def)

lemma hash_memory_digest:
  assumes "tab ! nat i = d" "0 \<le> i" "i < int TAB_SIZE"
  shows "hash_memory tab i m outlen =
     (if outlen < hd_hashsize d then Inl CRYPT_BUFFER_OVERFLOW else Inr (H m), hd_hashsize d)"
  using process_absorbed [OF init_absorbed, of m]
  by (auto simp: hash_memory_def slot_valid [OF assms] assms(1) done_digest)

end

definition sha1_holds :: "hash_state \<Rightarrow> byte list \<Rightarrow> bool" where
  "sha1_holds h m \<longleftrightarrow> (case h of HS_sha1 s \<Rightarrow> sha1_absorbed s m | HS_sha512 _ \<Rightarrow> False)"

definition sha512_holds :: "hash_state \<Rightarrow> byte list \<Rightarrow> bool" where
  "sha512_holds h m \<longleftrightarrow> (case h of HS_sha512 s \<Rightarrow> sha512_absorbed s m | HS_sha1 _ \<Rightarrow> False)"

lemma holds_iff:
  "sha1_holds h m \<longleftrightarrow> (\<exists>s. h = HS_sha1 s \<and> sha1_absorbed s m)"
  "sha512_holds h m \<longleftrightarrow> (\<exists>s. h = HS_sha512 s \<and> sha512_absorbed s m)"
  by (auto simp: sha1_holds_def sha512_holds_def split: hash_state.splits)

interpretation sha1_hash: hash_provider sha1_desc sha1_digest sha1_holds
proof (unfold_locales, goal_cases)
  case (2 s m x)
  then show ?case
    using sha_process_absorbed(1) [of _ m x] by (fastforce simp: holds_iff sha1_desc_def)
qed (auto simp: holds_iff sha_init_absorbed sha_done_absorbed sha1_desc_def MAXBLOCKSIZE_def)

interpretation sha512_hash: hash_provider sha512_desc sha512_digest sha512_holds
proof (unfold_locales, goal_cases)
  case (2 s m x)
  then show ?case
    using sha_process_absorbed(2) [of _ m x] by (fastforce simp: holds_iff sha512_desc_def)
qed (auto simp: holds_iff sha_init_absorbed sha_done_absorbed sha512_desc_def MAXBLOCKSIZE_def)

section \<open>Properties\<close>

text \<open>
  C18: a message fed to a registered hash in any pieces gives the digest of the whole message:
  the fold of the compression function over the blocks of the message padded with a one bit,
  zeros and its length.  No step fails.
\<close>
theorem hash_pieces:
  "(\<exists>s. feed (hd_process sha1_desc) xs (hd_init sha1_desc) = Inr s \<and>
        hd_done sha1_desc s = Inr (sha1_digest (concat xs))) \<and>
   (\<exists>s. feed (hd_process sha512_desc) xs (hd_init sha512_desc) = Inr s \<and>
        hd_done sha512_desc s = Inr (sha512_digest (concat xs)))"
  using sha1_hash.pieces_digest sha512_hash.pieces_digest by blast

text \<open>
  \<^verbatim>\<open>register_all\<close> puts SHA-1 in slot 0 and SHA-512 in slot 1, and \<^verbatim>\<open>hash_memory\<close> through these
  slots gives the digest, or reports the size it needs when the output is too short; through any
  other index it fails.
\<close>
theorem registered_hashes:
  "find_hash name hash_descriptor = (if name = ''sha1'' then 0 else if name = ''sha512'' then 1 else -1) \<and>
   hash_memory hash_descriptor i m n =
     (if i = 0 then (if n < 20 then Inl CRYPT_BUFFER_OVERFLOW else Inr (sha1_digest m), 20)
      else if i = 1 then (if n < 64 then Inl CRYPT_BUFFER_OVERFLOW else Inr (sha512_digest m), 64)
      else (Inl CRYPT_INVALID_HASH, n))"
proof -
  have "find_hash name hash_descriptor = -1" if "name \<notin> {''sha1'', ''sha512''}"
  proof (cases rule: first_slot_cases [of "\<lambda>d. hd_name d = Some name" hash_descriptor])
    case (found k)
    then have "hash_descriptor ! k \<in> {sha1_desc, sha512_desc, blank_hash}"
      using nth_mem [of k hash_descriptor] by (auto simp: hash_descriptor_table)
    then show ?thesis
      using found(3) that by auto
  qed (simp add: find_hash_def)
  moreover have "hash_is_valid i hash_descriptor = CRYPT_INVALID_HASH" if "i \<notin> {0, 1}"
  proof (cases "0 \<le> i \<and> i < 32")
    case True
    then have "nat i = Suc (Suc (nat i - 2))" "nat i - 2 < 30"
      using that by auto
    then obtain k where "nat i = Suc (Suc k)" "k < 30"
      by blast
    then have "hash_descriptor ! nat i = blank_hash"
      by (simp add: hash_descriptor_table)
    then show ?thesis
      by (simp add: hash_is_valid_def)
  qed (auto simp: hash_is_valid_def TAB_SIZE_def)
  then have "hash_memory hash_descriptor i m n = (Inl CRYPT_INVALID_HASH, n)" if "i \<notin> {0, 1}"
    using that by (simp add: hash_memory_def)
  moreover have "hash_descriptor ! 0 = sha1_desc" "hash_descriptor ! 1 = sha512_desc"
    by (simp_all add: hash_descriptor_table)
  ultimately show ?thesis
    using sha1_hash.hash_memory_digest [of hash_descriptor 0 m n]
      sha512_hash.hash_memory_digest [of hash_descriptor 1 m n]
    by (simp add: find_hash_def first_slot_def hash_descriptor_table TAB_SIZE_def)
qed

end
