(* ===== verification/Hmac.thy ===== *)
theory Hmac
  imports Hashes
begin

text \<open>
  The message authentication code of \<^verbatim>\<open>mac/hmac\<close> and the key derivation of
  \<^verbatim>\<open>misc/pkcs5/pkcs_5_2.c\<close>, over a table of hash descriptors.  Inside the contract of a hash
  descriptor they are shown to be HMAC and PBKDF2 of the hash in the slot; the properties follow
  for the registered SHA-512, the hash that \<^verbatim>\<open>Pbkdf2Hmac\<close> uses.  Allocation succeeds.
\<close>

section \<open>HMAC\<close>

record 'h hmac_state =
  hm_md :: 'h
  hm_hash :: int
  hm_key :: "byte list"

definition hmac_key :: "'h hash_desc list \<Rightarrow> int \<Rightarrow> byte list \<Rightarrow> crypt_error + byte list" where
  "hmac_key tab hash key =
     (let d = tab ! nat hash in
      if length key > hd_blocksize d then
        case fst (hash_memory tab hash key (hd_blocksize d)) of
          Inl err \<Rightarrow> Inl err
        | Inr h \<Rightarrow> Inr (h @ replicate (hd_blocksize d - hd_hashsize d) 0)
      else Inr (key @ replicate (hd_blocksize d - length key) 0))"

definition hmac_init :: "'h hash_desc list \<Rightarrow> int \<Rightarrow> byte list \<Rightarrow> crypt_error + 'h hmac_state" where
  "hmac_init tab hash key =
     (let err = hash_is_valid hash tab in
      if err \<noteq> CRYPT_OK then Inl err
      else if length key = 0 then Inl CRYPT_INVALID_KEYSIZE
      else
        let d = tab ! nat hash in
        case hmac_key tab hash key of
          Inl err \<Rightarrow> Inl err
        | Inr k \<Rightarrow>
          (case hd_process d (hd_init d) (map (\<lambda>b. b XOR 0x36) k) of
             Inl err \<Rightarrow> Inl err
           | Inr md \<Rightarrow> Inr \<lparr>hm_md = md, hm_hash = hash, hm_key = k\<rparr>))"

definition hmac_process :: "'h hash_desc list \<Rightarrow> 'h hmac_state \<Rightarrow> byte list \<Rightarrow> crypt_error + 'h hmac_state" where
  "hmac_process tab hmac inp =
     (let err = hash_is_valid (hm_hash hmac) tab in
      if err \<noteq> CRYPT_OK then Inl err
      else
        case hd_process (tab ! nat (hm_hash hmac)) (hm_md hmac) inp of
          Inl err \<Rightarrow> Inl err
        | Inr md \<Rightarrow> Inr (hmac\<lparr>hm_md := md\<rparr>))"

text \<open>Termination frees the state; the result is the part of the tag that fits in the output.\<close>

definition hmac_done :: "'h hash_desc list \<Rightarrow> 'h hmac_state \<Rightarrow> nat \<Rightarrow> crypt_error + byte list" where
  "hmac_done tab hmac outlen =
     (let hash = hm_hash hmac; err = hash_is_valid hash tab in
      if err \<noteq> CRYPT_OK then Inl err
      else
        let d = tab ! nat hash in
        case hd_done d (hm_md hmac) of
          Inl err \<Rightarrow> Inl err
        | Inr isha \<Rightarrow>
          (case hd_process d (hd_init d) (map (\<lambda>b. b XOR 0x5C) (hm_key hmac)) of
             Inl err \<Rightarrow> Inl err
           | Inr md \<Rightarrow>
             (case hd_process d md isha of
                Inl err \<Rightarrow> Inl err
              | Inr md \<Rightarrow>
                (case hd_done d md of
                   Inl err \<Rightarrow> Inl err
                 | Inr buf \<Rightarrow> Inr (take outlen (take (hd_hashsize d) buf))))))"

definition hmac_memory :: "'h hash_desc list \<Rightarrow> int \<Rightarrow> byte list \<Rightarrow> byte list \<Rightarrow> nat \<Rightarrow> crypt_error + byte list" where
  "hmac_memory tab hash key inp outlen =
     (let err = hash_is_valid hash tab in
      if err \<noteq> CRYPT_OK then Inl err
      else
        case hmac_init tab hash key of
          Inl err \<Rightarrow> Inl err
        | Inr hmac \<Rightarrow>
          (case hmac_process tab hmac inp of
             Inl err \<Rightarrow> Inl err
           | Inr hmac \<Rightarrow> hmac_done tab hmac outlen))"

section \<open>PKCS 5, algorithm 2\<close>

text \<open>The inner loop iterates the code on the last tag \<^verbatim>\<open>buf[0]\<close> and sums the tags in \<^verbatim>\<open>buf[1]\<close>.\<close>

fun pkcs_5_iterate :: "'h hash_desc list \<Rightarrow> int \<Rightarrow> byte list \<Rightarrow> nat \<Rightarrow> byte list \<Rightarrow> byte list \<Rightarrow> crypt_error + byte list" where
  "pkcs_5_iterate tab hash password 0 buf0 buf1 = Inr buf1"
| "pkcs_5_iterate tab hash password (Suc n) buf0 buf1 =
     (case hmac_memory tab hash password buf0 (length buf0) of
        Inl err \<Rightarrow> Inl err
      | Inr buf0 \<Rightarrow> pkcs_5_iterate tab hash password n buf0 (xor_bytes buf1 buf0))"

definition pkcs_5_first :: "'h hash_desc list \<Rightarrow> int \<Rightarrow> byte list \<Rightarrow> byte list \<Rightarrow> u32 \<Rightarrow> crypt_error + byte list" where
  "pkcs_5_first tab hash password salt blkno =
     (case hmac_init tab hash password of
        Inl err \<Rightarrow> Inl err
      | Inr hmac \<Rightarrow>
        (case hmac_process tab hmac salt of
           Inl err \<Rightarrow> Inl err
         | Inr hmac \<Rightarrow>
           (case hmac_process tab hmac (STORE32H blkno) of
              Inl err \<Rightarrow> Inl err
            | Inr hmac \<Rightarrow> hmac_done tab hmac MAXBLOCKSIZE)))"

definition pkcs_5_block :: "'h hash_desc list \<Rightarrow> int \<Rightarrow> byte list \<Rightarrow> byte list \<Rightarrow> int \<Rightarrow> u32 \<Rightarrow> crypt_error + byte list" where
  "pkcs_5_block tab hash password salt iteration_count blkno =
     (case pkcs_5_first tab hash password salt blkno of
        Inl err \<Rightarrow> Inl err
      | Inr buf0 \<Rightarrow> pkcs_5_iterate tab hash password (nat (iteration_count - 1)) buf0 buf0)"

text \<open>
  The outer loop.  It would not end for a hash with an empty digest, so that its value is an
  option; the pair holds the outcome and the bytes written.
\<close>

partial_function (option) pkcs_5_loop ::
    "'h hash_desc list \<Rightarrow> int \<Rightarrow> byte list \<Rightarrow> byte list \<Rightarrow> int \<Rightarrow> u32 \<Rightarrow> nat \<Rightarrow> byte list \<Rightarrow> (crypt_error \<times> byte list) option" where
  "pkcs_5_loop tab hash password salt iteration_count blkno left out =
     (if left = 0 then Some (CRYPT_OK, out)
      else
        case pkcs_5_block tab hash password salt iteration_count blkno of
          Inl err \<Rightarrow> Some (err, out)
        | Inr t \<Rightarrow>
          pkcs_5_loop tab hash password salt iteration_count (blkno + 1) (left - min (length t) left) (out @ take left t))"

declare pkcs_5_loop.simps [code]

definition pkcs_5_alg2 ::
    "'h hash_desc list \<Rightarrow> byte list \<Rightarrow> byte list \<Rightarrow> int \<Rightarrow> int \<Rightarrow> nat \<Rightarrow> (crypt_error \<times> byte list) option" where
  "pkcs_5_alg2 tab password salt iteration_count hash_idx outlen =
     (let err = hash_is_valid hash_idx tab in
      if err \<noteq> CRYPT_OK then Some (err, [])
      else pkcs_5_loop tab hash_idx password salt iteration_count 1 outlen [])"

text \<open>\<^verbatim>\<open>Pbkdf2Hmac\<close> ignores the outcome; the bytes written replace the start of the key buffer.\<close>

definition Pbkdf2Hmac :: "'h hash_desc list \<Rightarrow> byte list \<Rightarrow> byte list \<Rightarrow> int \<Rightarrow> byte list \<Rightarrow> byte list option" where
  "Pbkdf2Hmac tab pwd salt numIterations key =
     (case pkcs_5_alg2 tab pwd salt numIterations (find_hash ''sha512'' tab) (length key) of
        None \<Rightarrow> None
      | Some (err, out) \<Rightarrow> Some (out @ drop (length out) key))"

section \<open>Specifications\<close>

definition HMAC :: "(byte list \<Rightarrow> byte list) \<Rightarrow> nat \<Rightarrow> byte list \<Rightarrow> byte list \<Rightarrow> byte list" where
  "HMAC H b key m =
     (let k0 = (if length key > b then H key else key);
          k = k0 @ replicate (b - length k0) 0
      in H (map (\<lambda>x. x XOR 0x5c) k @ H (map (\<lambda>x. x XOR 0x36) k @ m)))"

text \<open>\<^verbatim>\<open>U\<^sub>1, U\<^sub>2, ...\<close> and their sum, as in RFC 2898.\<close>

primrec pbkdf2_U :: "(byte list \<Rightarrow> byte list) \<Rightarrow> byte list \<Rightarrow> nat \<Rightarrow> byte list" where
  "pbkdf2_U prf first 0 = prf first"
| "pbkdf2_U prf first (Suc n) = prf (pbkdf2_U prf first n)"

definition pbkdf2_F :: "(byte list \<Rightarrow> byte list) \<Rightarrow> byte list \<Rightarrow> int \<Rightarrow> nat \<Rightarrow> byte list" where
  "pbkdf2_F prf salt c i =
     foldl xor_bytes (pbkdf2_U prf (salt @ STORE32H (of_nat i)) 0)
       (map (pbkdf2_U prf (salt @ STORE32H (of_nat i))) [1..<max 1 (nat c)])"

definition PBKDF2 :: "(byte list \<Rightarrow> byte list) \<Rightarrow> nat \<Rightarrow> byte list \<Rightarrow> int \<Rightarrow> nat \<Rightarrow> byte list" where
  "PBKDF2 prf hLen salt c dkLen =
     take dkLen (concat (map (pbkdf2_F prf salt c) [1..<Suc ((dkLen + hLen - 1) div hLen)]))"

text \<open>The key of a block, and the state after a message.\<close>

definition block_key :: "(byte list \<Rightarrow> byte list) \<Rightarrow> nat \<Rightarrow> byte list \<Rightarrow> byte list" where
  "block_key H b key =
     (let k0 = (if length key > b then H key else key) in k0 @ replicate (b - length k0) 0)"

lemma HMAC_block_key:
  "HMAC H b key m = H (map (\<lambda>x. x XOR 0x5c) (block_key H b key) @
     H (map (\<lambda>x. x XOR 0x36) (block_key H b key) @ m))"
  by (simp add: HMAC_def block_key_def Let_def)

section \<open>The code computes them\<close>

locale hash_slot = hash_provider d H absorbed
  for d :: "'h hash_desc" and H absorbed +
  fixes tab :: "'h hash_desc list" and i :: int
  assumes slot: "tab ! nat i = d" "0 \<le> i" "i < int TAB_SIZE"
begin

lemma valid [simp]: "hash_is_valid i tab = CRYPT_OK"
  using slot by (rule slot_valid)

lemma hmac_key_block: "hmac_key tab i key = Inr (block_key H (hd_blocksize d) key)"
  using sizes by (simp add: hmac_key_def slot hash_memory_digest [OF slot] block_key_def digest_length)

lemma hmac_init_absorbed:
  assumes "key \<noteq> []"
  shows "\<exists>s. hmac_init tab i key = Inr \<lparr>hm_md = s, hm_hash = i, hm_key = block_key H (hd_blocksize d) key\<rparr> \<and>
     absorbed s (map (\<lambda>b. b XOR 0x36) (block_key H (hd_blocksize d) key))"
proof -
  obtain s where "hd_process d (hd_init d) (map (\<lambda>b. b XOR 0x36) (block_key H (hd_blocksize d) key)) = Inr s"
    "absorbed s (map (\<lambda>b. b XOR 0x36) (block_key H (hd_blocksize d) key))"
    using process_absorbed [OF init_absorbed] by fastforce
  then show ?thesis
    using assms by (auto simp: hmac_init_def hmac_key_block slot)
qed

lemma hmac_process_absorbed:
  assumes "absorbed s m"
  shows "\<exists>s'. hmac_process tab \<lparr>hm_md = s, hm_hash = i, hm_key = k\<rparr> x = Inr \<lparr>hm_md = s', hm_hash = i, hm_key = k\<rparr> \<and>
     absorbed s' (m @ x)"
  using process_absorbed [OF assms, of x] by (auto simp: hmac_process_def slot)

lemma hmac_done_tag:
  assumes "absorbed s m"
  shows "hmac_done tab \<lparr>hm_md = s, hm_hash = i, hm_key = k\<rparr> outlen =
     Inr (take outlen (H (map (\<lambda>x. x XOR 0x5c) k @ H m)))"
proof -
  obtain s1 where s1: "hd_process d (hd_init d) (map (\<lambda>b. b XOR 0x5C) k) = Inr s1"
      "absorbed s1 (map (\<lambda>b. b XOR 0x5C) k)"
    using process_absorbed [OF init_absorbed] by fastforce
  obtain s2 where s2: "hd_process d s1 (H m) = Inr s2" "absorbed s2 (map (\<lambda>b. b XOR 0x5C) k @ H m)"
    using process_absorbed [OF s1(2)] by blast
  show ?thesis
    by (simp add: hmac_done_def slot done_digest [OF assms] s1(1) s2(1) done_digest [OF s2(2)] digest_length)
qed

lemma hmac_feed:
  "absorbed s m \<Longrightarrow> \<exists>s'. feed (hmac_process tab) xs \<lparr>hm_md = s, hm_hash = i, hm_key = k\<rparr> =
     Inr \<lparr>hm_md = s', hm_hash = i, hm_key = k\<rparr> \<and> absorbed s' (m @ concat xs)"
proof (induction xs arbitrary: s m)
  case (Cons x xs)
  obtain s' where "hmac_process tab \<lparr>hm_md = s, hm_hash = i, hm_key = k\<rparr> x = Inr \<lparr>hm_md = s', hm_hash = i, hm_key = k\<rparr>"
    "absorbed s' (m @ x)"
    using hmac_process_absorbed [OF Cons.prems] by blast
  then show ?case
    using Cons.IH [of s' "m @ x"] by simp
qed simp

text \<open>A session that starts with a key, takes the pieces of a message and ends.\<close>

lemma hmac_session:
  assumes "key \<noteq> []"
  shows "\<exists>s s'. hmac_init tab i key = Inr s \<and> feed (hmac_process tab) xs s = Inr s' \<and>
     hmac_done tab s' outlen = Inr (take outlen (HMAC H (hd_blocksize d) key (concat xs)))"
proof -
  let ?k = "block_key H (hd_blocksize d) key"
  obtain s where s: "hmac_init tab i key = Inr \<lparr>hm_md = s, hm_hash = i, hm_key = ?k\<rparr>"
      "absorbed s (map (\<lambda>b. b XOR 0x36) ?k)"
    using hmac_init_absorbed [OF assms] by blast
  obtain s' where "feed (hmac_process tab) xs \<lparr>hm_md = s, hm_hash = i, hm_key = ?k\<rparr> =
      Inr \<lparr>hm_md = s', hm_hash = i, hm_key = ?k\<rparr>" "absorbed s' (map (\<lambda>b. b XOR 0x36) ?k @ concat xs)"
    using hmac_feed [OF s(2)] by blast
  then show ?thesis
    using s(1) hmac_done_tag by (auto simp: HMAC_block_key)
qed

lemma hmac_memory_tag:
  assumes "key \<noteq> []"
  shows "hmac_memory tab i key m outlen = Inr (take outlen (HMAC H (hd_blocksize d) key m))"
proof -
  obtain s s' where "hmac_init tab i key = Inr s" "feed (hmac_process tab) [m] s = Inr s'"
    "hmac_done tab s' outlen = Inr (take outlen (HMAC H (hd_blocksize d) key m))"
    using hmac_session [OF assms, of "[m]" outlen] by auto
  then show ?thesis
    by (auto simp: hmac_memory_def split: sum.split_asm)
qed

lemma hmac_empty_key: "hmac_init tab i [] = Inl CRYPT_INVALID_KEYSIZE"
  by (simp add: hmac_init_def)

lemma length_HMAC: "length (HMAC H b key m) = hd_hashsize d"
  by (simp add: HMAC_def Let_def digest_length)

lemma pkcs_5_first_tag:
  assumes "password \<noteq> []"
  shows "pkcs_5_first tab i password salt blkno =
     Inr (HMAC H (hd_blocksize d) password (salt @ STORE32H blkno))"
proof -
  obtain s s' where "hmac_init tab i password = Inr s"
    "feed (hmac_process tab) [salt, STORE32H blkno] s = Inr s'"
    "hmac_done tab s' MAXBLOCKSIZE =
       Inr (take MAXBLOCKSIZE (HMAC H (hd_blocksize d) password (salt @ STORE32H blkno)))"
    using hmac_session [OF assms, of "[salt, STORE32H blkno]" MAXBLOCKSIZE] by auto
  then show ?thesis
    using sizes by (auto simp: pkcs_5_first_def length_HMAC split: sum.split_asm)
qed

lemma pkcs_5_iterate_sum:
  assumes "password \<noteq> []" and f: "prf = HMAC H (hd_blocksize d) password"
  shows "pkcs_5_iterate tab i password n (pbkdf2_U prf first k) acc =
     Inr (foldl xor_bytes acc (map (pbkdf2_U prf first) [Suc k..<Suc k + n]))"
proof (induction n arbitrary: k acc)
  case (Suc n)
  have "length (pbkdf2_U prf first k) = hd_hashsize d"
    by (cases k) (simp_all add: f length_HMAC)
  then have "hmac_memory tab i password (pbkdf2_U prf first k) (length (pbkdf2_U prf first k)) =
      Inr (pbkdf2_U prf first (Suc k))"
    by (simp add: hmac_memory_tag [OF assms(1)] f length_HMAC)
  moreover have "[Suc k..<Suc k + Suc n] = Suc k # [Suc (Suc k)..<Suc (Suc k) + n]"
    by (simp add: upt_conv_Cons)
  ultimately show ?case
    using Suc.IH [of "Suc k"] by (simp del: pbkdf2_U.simps upt_Suc)
qed simp

lemma pkcs_5_block_F:
  assumes "password \<noteq> []"
  shows "pkcs_5_block tab i password salt c (of_nat n) =
     Inr (pbkdf2_F (HMAC H (hd_blocksize d) password) salt c n)"
proof -
  have "Suc 0 + nat (c - 1) = max 1 (nat c)"
    by (simp add: max_def nat_diff_distrib')
  then show ?thesis
    using pkcs_5_iterate_sum [OF assms refl, of "nat (c - 1)" "salt @ STORE32H (of_nat n)" 0]
    by (simp add: pkcs_5_block_def pkcs_5_first_tag [OF assms] pbkdf2_F_def del: upt_Suc)
qed

lemma length_pbkdf2_U: "f = HMAC H (hd_blocksize d) password \<Longrightarrow> length (pbkdf2_U f first k) = hd_hashsize d"
  by (cases k) (simp_all add: length_HMAC)

lemma length_pbkdf2_F: "length (pbkdf2_F (HMAC H (hd_blocksize d) password) salt c n) = hd_hashsize d"
proof -
  let ?f = "HMAC H (hd_blocksize d) password"
  have "length (foldl xor_bytes acc (map (pbkdf2_U ?f first) ks)) = hd_hashsize d"
    if "length acc = hd_hashsize d" for first ks acc
    using that by (induction ks arbitrary: acc) (simp_all add: length_pbkdf2_U)
  then show ?thesis
    by (simp add: pbkdf2_F_def length_HMAC)
qed

lemma pkcs_5_loop_blocks:
  assumes "password \<noteq> []"
  shows "pkcs_5_loop tab i password salt c (of_nat n) left out = Some (CRYPT_OK, out @
     take left (concat (map (pbkdf2_F (HMAC H (hd_blocksize d) password) salt c)
       [n..<n + (left + hd_hashsize d - 1) div hd_hashsize d])))"
proof (induction left arbitrary: n out rule: less_induct)
  case (less left)
  let ?F = "pbkdf2_F (HMAC H (hd_blocksize d) password) salt c" and ?h = "hd_hashsize d"
  show ?case
  proof (cases "left = 0")
    case True
    then show ?thesis
      using sizes by (subst pkcs_5_loop.simps) simp
  next
    case False
    define rest where "rest = left - min ?h left"
    have "rest < left"
      using False sizes(1) by (simp add: rest_def)
    have blocks: "(left + ?h - 1) div ?h = Suc ((rest + ?h - 1) div ?h)"
    proof (cases "left \<le> ?h")
      case True
      then show ?thesis
        using ceil_div_one [of left ?h] False sizes(1) by (simp add: rest_def)
    next
      case False
      then have "left + ?h - 1 = (rest + ?h - 1) + ?h"
        by (simp add: rest_def)
      then show ?thesis
        using sizes(1) by (metis Suc_eq_plus1 div_add_self2 less_numeral_extra(3))
    qed
    have upt: "[n..<n + (left + ?h - 1) div ?h] = n # [Suc n..<Suc n + (rest + ?h - 1) div ?h]"
      unfolding blocks by (simp add: upt_conv_Cons del: upt_Suc)
    have "pkcs_5_loop tab i password salt c (of_nat n) left out =
        pkcs_5_loop tab i password salt c (of_nat (Suc n)) rest (out @ take left (?F n))"
      using False by (subst pkcs_5_loop.simps) (simp add: pkcs_5_block_F [OF assms] length_pbkdf2_F rest_def add.commute)
    also have "\<dots> = Some (CRYPT_OK, out @ take left (?F n) @
        take rest (concat (map ?F [Suc n..<Suc n + (rest + ?h - 1) div ?h])))"
      using less.IH [OF \<open>rest < left\<close>, of "Suc n"] by (simp del: upt_Suc)
    also have "take left (?F n) @ take rest (concat (map ?F [Suc n..<Suc n + (rest + ?h - 1) div ?h])) =
        take left (concat (map ?F [n..<n + (left + ?h - 1) div ?h]))"
      unfolding upt by (simp add: length_pbkdf2_F rest_def min_def del: upt_Suc)
    finally show ?thesis .
  qed
qed

lemma pkcs_5_alg2_key:
  assumes "password \<noteq> []"
  shows "pkcs_5_alg2 tab password salt c i outlen =
     Some (CRYPT_OK, PBKDF2 (HMAC H (hd_blocksize d) password) (hd_hashsize d) salt c outlen)"
  using pkcs_5_loop_blocks [OF assms, of salt c 1 outlen "[]"]
  by (simp add: pkcs_5_alg2_def PBKDF2_def)

lemma pkcs_5_empty_password:
  "pkcs_5_alg2 tab [] salt c i outlen = Some (if outlen = 0 then CRYPT_OK else CRYPT_INVALID_KEYSIZE, [])"
  by (simp add: pkcs_5_alg2_def pkcs_5_loop.simps pkcs_5_block_def pkcs_5_first_def hmac_empty_key)

end

interpretation sha1_slot: hash_slot sha1_desc sha1_digest sha1_holds hash_descriptor 0
  by unfold_locales (simp_all add: hash_descriptor_table TAB_SIZE_def)

interpretation sha512_slot: hash_slot sha512_desc sha512_digest sha512_holds hash_descriptor 1
  by unfold_locales (simp_all add: hash_descriptor_table TAB_SIZE_def)

section \<open>Properties\<close>

text \<open>
  C17: a session over SHA-512 with a nonempty key, whatever the pieces the message comes in,
  produces the HMAC of the message, cut to the space of the output; an empty key is refused.
\<close>
theorem hmac_sha512:
  "hmac_init hash_descriptor 1 [] = Inl CRYPT_INVALID_KEYSIZE \<and>
   (\<exists>s s'. hmac_init hash_descriptor 1 (b # key) = Inr s \<and> feed (hmac_process hash_descriptor) xs s = Inr s' \<and>
      hmac_done hash_descriptor s' outlen = Inr (take outlen (HMAC sha512_digest 128 (b # key) (concat xs))))"
  using sha512_slot.hmac_empty_key sha512_slot.hmac_session [of "b # key" xs outlen] by simp

text \<open>
  C16: \<^verbatim>\<open>pkcs_5_alg2\<close> over SHA-512 always ends; it derives the PBKDF2 key of every length, and for
  an empty password it writes nothing.
\<close>
theorem pkcs_5_sha512:
  "pkcs_5_alg2 hash_descriptor password salt c 1 outlen =
     (if password = [] then Some (if outlen = 0 then CRYPT_OK else CRYPT_INVALID_KEYSIZE, [])
      else Some (CRYPT_OK, PBKDF2 (HMAC sha512_digest 128 password) 64 salt c outlen))"
  using sha512_slot.pkcs_5_alg2_key [of password salt c outlen] sha512_slot.pkcs_5_empty_password by simp

lemma length_PBKDF2:
  assumes "\<And>m. length (f m) = h" "0 < h"
  shows "length (PBKDF2 f h salt c n) = n"
proof -
  have "length (pbkdf2_U f first k) = h" for first k
    using assms(1) by (cases k) simp_all
  then have "length (foldl xor_bytes acc (map (pbkdf2_U f first) ks)) = h" if "length acc = h" for first ks acc
    using that by (induction ks arbitrary: acc) simp_all
  then have "length (pbkdf2_F f salt c i) = h" for i
    by (simp add: pbkdf2_F_def assms(1))
  then have "length (concat (map (pbkdf2_F f salt c) is)) = h * length is" for "is"
    by (rule length_concat_const)
  moreover have "n \<le> h * ((n + h - 1) div h)"
    using assms(2) by (rule ceil_div_mult)
  ultimately show ?thesis
    by (simp add: PBKDF2_def del: upt_Suc)
qed

text \<open>
  \<^verbatim>\<open>Pbkdf2Hmac\<close> fills the whole key buffer, whatever it held, with the PBKDF2 key of a nonempty
  password; it ignores the error for the empty password, which leaves the buffer as it was.
\<close>
theorem Pbkdf2Hmac_key:
  "Pbkdf2Hmac hash_descriptor pwd salt n key =
     Some (if pwd = [] then key else PBKDF2 (HMAC sha512_digest 128 pwd) 64 salt n (length key))"
proof -
  have "find_hash ''sha512'' hash_descriptor = 1"
    by (simp add: find_hash_def first_slot_def hash_descriptor_table)
  moreover have "length (PBKDF2 (HMAC sha512_digest 128 pwd) 64 salt n (length key)) = length key"
    by (rule length_PBKDF2) (simp_all add: HMAC_def Let_def)
  moreover have "pkcs_5_alg2 hash_descriptor pwd salt n 1 (length key) =
     (if pwd = [] then Some (if length key = 0 then CRYPT_OK else CRYPT_INVALID_KEYSIZE, [])
      else Some (CRYPT_OK, PBKDF2 (HMAC sha512_digest 128 pwd) 64 salt n (length key)))"
    using sha512_slot.pkcs_5_alg2_key [of pwd salt n "length key"] sha512_slot.pkcs_5_empty_password by simp
  ultimately show ?thesis
    by (simp add: Pbkdf2Hmac_def)
qed

end
