(* ===== verification/Fortuna.thy ===== *)
theory Fortuna
  imports Modes SHA AES
begin

text \<open>
  The random number generator \<^verbatim>\<open>prngs/fortuna.c\<close>: 32 pools of SHA-512, an AES key and a counter
  block.  The reachable states are the runs of its operations.  Lemmas: no operation fails on a
  reachable state; the pools and the key are those of an abstract generator that keeps the
  bytes of each pool; the output is AES in counter mode, and the key is replaced after each read.
\<close>

definition FORTUNA_POOLS :: nat where "FORTUNA_POOLS = 32"
definition FORTUNA_WD :: nat where "FORTUNA_WD = 10"
definition HASH_SIZE :: nat where "HASH_SIZE = 64"
definition KEY_SIZE :: nat where "KEY_SIZE = 32"
definition BLOCK_SIZE :: nat where "BLOCK_SIZE = 16"

text \<open>
  The two counters are of type \<^verbatim>\<open>unsigned long\<close>, as wide as on Windows and on 32-bit targets, and wrap.  The index of
  the next pool has the same type and stays below 32.
\<close>

record fortuna_prng =
  fo_pool :: "u64 md_state list"
  fo_skey :: rijndael_key
  fo_K :: "byte list"
  fo_IV :: "byte list"
  fo_pool_idx :: nat
  fo_pool0_len :: u32
  fo_wd :: u32
  fo_reset_cnt :: u64

section \<open>Operations\<close>

text \<open>
  The loop that increments the block is the one of the little-endian counter.  An operation that
  fails returns the error; the state it leaves behind is not modelled.
\<close>

definition fortuna_update_iv :: "fortuna_prng \<Rightarrow> fortuna_prng" where
  "fortuna_update_iv prng = prng\<lparr>fo_IV := ctr_inc_le BLOCK_SIZE 0 (fo_IV prng)\<rparr>"

text \<open>The pools from \<^verbatim>\<open>x\<close> on that take part in a reseed are hashed into \<^verbatim>\<open>md\<close> and emptied.\<close>

function fortuna_drain :: "nat \<Rightarrow> fortuna_prng \<Rightarrow> u64 md_state \<Rightarrow> crypt_error + fortuna_prng \<times> u64 md_state" where
  "fortuna_drain x prng md =
     (if x < FORTUNA_POOLS then
        if x = 0 \<or> drop_bit (x - 1) (fo_reset_cnt prng) AND 1 = 0 then
          case sha512_done (fo_pool prng ! x) of
            Inl err \<Rightarrow> Inl err
          | Inr tmp \<Rightarrow>
            (case sha512_process md tmp of
               Inl err \<Rightarrow> Inl err
             | Inr md \<Rightarrow>
               fortuna_drain (x + 1)
                 (prng\<lparr>fo_pool := (fo_pool prng)[x := sha512_init (md_buf (fo_pool prng ! x))]\<rparr>) md)
        else Inr (prng, md)
      else Inr (prng, md))"
  by pat_completeness auto
termination by (relation "measure (\<lambda>(x, prng, md). FORTUNA_POOLS - x)") auto

declare fortuna_drain.simps [simp del]

definition fortuna_reseed :: "fortuna_prng \<Rightarrow> crypt_error + fortuna_prng" where
  "fortuna_reseed prng =
     (let prng = prng\<lparr>fo_reset_cnt := fo_reset_cnt prng + 1\<rparr>
      in case sha512_process (sha512_init (replicate 128 0)) (fo_K prng) of
        Inl err \<Rightarrow> Inl err
      | Inr md \<Rightarrow>
        (case fortuna_drain 0 prng md of
           Inl err \<Rightarrow> Inl err
         | Inr (prng, md) \<Rightarrow>
           (case sha512_done md of
              Inl err \<Rightarrow> Inl err
            | Inr K \<Rightarrow>
              (case rijndael_enc_setup K KEY_SIZE 0 of
                 Inl err \<Rightarrow> Inl err
               | Inr skey \<Rightarrow>
                 let prng = fortuna_update_iv (prng\<lparr>fo_K := K, fo_skey := skey\<rparr>)
                 in Inr (prng\<lparr>fo_pool0_len := 0, fo_wd := 0\<rparr>)))))"

definition fortuna_start :: "crypt_error + fortuna_prng" where
  "fortuna_start =
     (let K = replicate HASH_SIZE 0
      in case rijndael_enc_setup K KEY_SIZE 0 of
        Inl err \<Rightarrow> Inl err
      | Inr skey \<Rightarrow>
        Inr \<lparr>fo_pool = replicate FORTUNA_POOLS (sha512_init (replicate 128 0)), fo_skey = skey, fo_K = K,
             fo_IV = replicate BLOCK_SIZE 0, fo_pool_idx = 0, fo_pool0_len = 0, fo_wd = 0, fo_reset_cnt = 0\<rparr>)"

text \<open>At most \<^verbatim>\<open>HASH_SIZE\<close> bytes go to one pool, after a zero byte and their number.\<close>

definition fortuna_add_chunk :: "byte list \<Rightarrow> fortuna_prng \<Rightarrow> crypt_error + fortuna_prng" where
  "fortuna_add_chunk inp prng =
     (let idx = fo_pool_idx prng
      in case sha512_process (fo_pool prng ! idx) [0, of_nat (length inp)] of
        Inl err \<Rightarrow> Inl err
      | Inr md \<Rightarrow>
        (case sha512_process md inp of
           Inl err \<Rightarrow> Inl err
         | Inr md \<Rightarrow>
           Inr (prng\<lparr>fo_pool := (fo_pool prng)[idx := md],
                     fo_pool0_len := (if idx = 0 then fo_pool0_len prng + of_nat (length inp) else fo_pool0_len prng),
                     fo_pool_idx := (if idx + 1 = FORTUNA_POOLS then 0 else idx + 1)\<rparr>)))"

function fortuna_add_entropy :: "byte list \<Rightarrow> fortuna_prng \<Rightarrow> crypt_error + fortuna_prng" where
  "fortuna_add_entropy inp prng =
     (if length inp > HASH_SIZE then
        case fortuna_add_chunk (take HASH_SIZE inp) prng of
          Inl err \<Rightarrow> Inl err
        | Inr prng \<Rightarrow> fortuna_add_entropy (drop HASH_SIZE inp) prng
      else fortuna_add_chunk inp prng)"
  by pat_completeness auto
termination by (relation "measure (\<lambda>(inp, prng). length inp)") (auto simp: HASH_SIZE_def)

declare fortuna_add_entropy.simps [simp del]

definition fortuna_ready :: "fortuna_prng \<Rightarrow> crypt_error + fortuna_prng" where
  "fortuna_ready prng = fortuna_reseed prng"

text \<open>The whole blocks and the left over bytes.\<close>

function fortuna_blocks :: "nat \<Rightarrow> fortuna_prng \<Rightarrow> byte list \<times> fortuna_prng" where
  "fortuna_blocks outlen prng =
     (if outlen \<ge> BLOCK_SIZE then
        let out = rijndael_enc_ecb_encrypt (fo_IV prng) (fo_skey prng);
            (rest, prng) = fortuna_blocks (outlen - BLOCK_SIZE) (fortuna_update_iv prng)
        in (out @ rest, prng)
      else if outlen > 0 then
        (take outlen (rijndael_enc_ecb_encrypt (fo_IV prng) (fo_skey prng)), fortuna_update_iv prng)
      else ([], prng))"
  by pat_completeness auto
termination by (relation "measure (\<lambda>(outlen, prng). outlen)") (auto simp: BLOCK_SIZE_def)

declare fortuna_blocks.simps [simp del]

text \<open>The new key: one turn of the last loop of \<^verbatim>\<open>fortuna_read\<close>, at offset \<^verbatim>\<open>i\<close>.\<close>

definition fortuna_rekey :: "nat \<Rightarrow> fortuna_prng \<Rightarrow> fortuna_prng" where
  "fortuna_rekey i prng =
     fortuna_update_iv (prng\<lparr>fo_K := take i (fo_K prng) @ rijndael_enc_ecb_encrypt (fo_IV prng) (fo_skey prng) @
       drop (i + BLOCK_SIZE) (fo_K prng)\<rparr>)"

text \<open>The C function returns the number of bytes read, and 0 for an error.\<close>

definition fortuna_read :: "nat \<Rightarrow> fortuna_prng \<Rightarrow> crypt_error + byte list \<times> fortuna_prng" where
  "fortuna_read outlen prng =
     (let prng = prng\<lparr>fo_wd := fo_wd prng + 1\<rparr>
      in case (if fo_wd prng = of_nat FORTUNA_WD \<or> fo_pool0_len prng \<ge> 64 then fortuna_reseed prng else Inr prng) of
        Inl err \<Rightarrow> Inl err
      | Inr prng \<Rightarrow>
        let (out, prng) = fortuna_blocks outlen prng;
            prng = fold fortuna_rekey [0, BLOCK_SIZE] prng
        in case rijndael_enc_setup (fo_K prng) KEY_SIZE 0 of
          Inl err \<Rightarrow> Inl err
        | Inr skey \<Rightarrow> Inr (out, prng\<lparr>fo_skey := skey\<rparr>))"

definition fortuna_done :: "fortuna_prng \<Rightarrow> crypt_error" where
  "fortuna_done prng =
     foldr (\<lambda>md err. case sha512_done md of Inl e \<Rightarrow> e | Inr tmp \<Rightarrow> err) (take FORTUNA_POOLS (fo_pool prng)) CRYPT_OK"

section \<open>The abstract generator\<close>

text \<open>
  Its pools are byte strings.  A reseed hashes the key and the digests of the pools that take
  part: pool \<^verbatim>\<open>x\<close> does when \<^verbatim>\<open>2 ^ x\<close> divides the number of the reseed.  It counts the bytes of the first pool and the reads
  without a bound, but decides on a reseed by the remainders \<^verbatim>\<open>unsigned long\<close> holds: after \<^verbatim>\<open>2 ^ 32\<close> bytes and a few,
  all in the first pool, none is due.
\<close>

record generator =
  g_pools :: "byte list list"
  g_key :: "byte list"
  g_counter :: "byte list"
  g_next :: nat
  g_len0 :: nat
  g_wd :: nat
  g_reseeds :: nat

definition g_takes :: "nat \<Rightarrow> nat \<Rightarrow> bool" where
  "g_takes r x \<longleftrightarrow> 2 ^ x dvd r"

definition g_due :: "generator \<Rightarrow> bool" where
  "g_due g \<longleftrightarrow> g_wd g mod 2 ^ 32 = 10 \<or> g_len0 g mod 2 ^ 32 \<ge> 64"

definition g_reseed :: "generator \<Rightarrow> generator" where
  "g_reseed g =
     (let r = (g_reseeds g + 1) mod 2 ^ 64
      in g\<lparr>g_key := sha512_digest (g_key g @ concat (map (\<lambda>x. sha512_digest (g_pools g ! x)) (filter (g_takes r) [0..<32]))),
           g_pools := map (\<lambda>x. if g_takes r x then [] else g_pools g ! x) [0..<32],
           g_counter := inc_bytes (g_counter g), g_len0 := 0, g_wd := 0, g_reseeds := r\<rparr>)"

definition g_add :: "byte list \<Rightarrow> generator \<Rightarrow> generator" where
  "g_add chunk g =
     g\<lparr>g_pools := (g_pools g)[g_next g := g_pools g ! g_next g @ [0, of_nat (length chunk)] @ chunk],
       g_len0 := (if g_next g = 0 then g_len0 g + length chunk else g_len0 g),
       g_next := (g_next g + 1) mod 32\<rparr>"

definition aes256_schedule :: "byte list \<Rightarrow> rijndael_key" where
  "aes256_schedule K = (case rijndael_enc_setup K 32 0 of Inr skey \<Rightarrow> skey)"

definition g_stream :: "generator \<Rightarrow> nat \<Rightarrow> byte list" where
  "g_stream g n =
     concat (map (\<lambda>i. rijndael_enc_ecb_encrypt ((inc_bytes ^^ i) (g_counter g)) (aes256_schedule (g_key g))) [0..<n])"

definition g_read :: "nat \<Rightarrow> generator \<Rightarrow> byte list \<times> generator" where
  "g_read n g =
     (let g = g\<lparr>g_wd := g_wd g + 1\<rparr>;
          g = (if g_due g then g_reseed g else g);
          b = (n + 15) div 16
      in (take n (g_stream g b),
          g\<lparr>g_key := drop (16 * b) (g_stream g (b + 2)) @ drop 32 (g_key g), g_counter := (inc_bytes ^^ (b + 2)) (g_counter g)\<rparr>))"

definition represents :: "fortuna_prng \<Rightarrow> generator \<Rightarrow> bool" where
  "represents prng g \<longleftrightarrow>
     length (fo_pool prng) = 32 \<and> length (g_pools g) = 32 \<and>
     (\<forall>x < 32. sha512_absorbed (fo_pool prng ! x) (g_pools g ! x)) \<and>
     fo_K prng = g_key g \<and> length (g_key g) = 64 \<and> fo_skey prng = aes256_schedule (g_key g) \<and>
     fo_IV prng = g_counter g \<and> length (g_counter g) = 16 \<and>
     fo_pool_idx prng = g_next g \<and> g_next g < 32 \<and> fo_pool0_len prng = of_nat (g_len0 g) \<and>
     fo_wd prng = of_nat (g_wd g) \<and> g_reseeds g = unat (fo_reset_cnt prng)"

section \<open>The counter and the pools that take part\<close>

lemma ctr_inc_le_16: "length iv = 16 \<Longrightarrow> ctr_inc_le BLOCK_SIZE 0 iv = inc_bytes iv"
  using ctr_inc_le_bytes [of 0 16 iv] by (simp add: BLOCK_SIZE_def)

lemma update_iv_simps [simp]:
  "fo_pool (fortuna_update_iv p) = fo_pool p" "fo_skey (fortuna_update_iv p) = fo_skey p"
  "fo_K (fortuna_update_iv p) = fo_K p" "fo_IV (fortuna_update_iv p) = ctr_inc_le BLOCK_SIZE 0 (fo_IV p)"
  "fo_pool_idx (fortuna_update_iv p) = fo_pool_idx p" "fo_pool0_len (fortuna_update_iv p) = fo_pool0_len p"
  "fo_wd (fortuna_update_iv p) = fo_wd p" "fo_reset_cnt (fortuna_update_iv p) = fo_reset_cnt p"
  by (simp_all add: fortuna_update_iv_def)

lemma g_takes_0 [simp]: "g_takes r 0"
  by (simp add: g_takes_def)

lemma g_takes_Suc: "g_takes (unat w) (Suc x) \<longleftrightarrow> g_takes (unat w) x \<and> \<not> bit w x"
proof -
  have "take_bit (Suc x) (unat w) = 0 \<longleftrightarrow> take_bit x (unat w) = 0 \<and> \<not> bit (unat w) x"
    by (auto simp: take_bit_Suc_from_most)
  then show ?thesis
    by (simp add: g_takes_def take_bit_eq_0_iff bit_unsigned_iff)
qed

lemma g_takes_down: "g_takes r y \<Longrightarrow> x \<le> y \<Longrightarrow> g_takes r x"
  by (auto simp: g_takes_def intro: dvd_trans le_imp_power_dvd)

lemma drop_bit_and_1: "drop_bit n (w :: u64) AND 1 = 0 \<longleftrightarrow> \<not> bit w n"
  by (simp only: and_one_eq bit_iff_odd_drop_bit not_not even_iff_mod_2_eq_zero)

lemma fortuna_drain_takes:
  assumes "\<forall>y < 32. sha512_absorbed (fo_pool prng ! y) (ps ! y)" "length (fo_pool prng) = 32" "length ps = 32"
    "sha512_absorbed md k" "r = unat (fo_reset_cnt prng)" "x = 0 \<or> g_takes r (x - 1)" "x \<le> 32"
  shows "\<exists>pool md'. fortuna_drain x prng md = Inr (prng\<lparr>fo_pool := pool\<rparr>, md') \<and> length pool = 32 \<and>
     sha512_absorbed md' (k @ concat (map (\<lambda>y. sha512_digest (ps ! y)) (filter (g_takes r) [x..<32]))) \<and>
     (\<forall>y < 32. sha512_absorbed (pool ! y) (if x \<le> y \<and> g_takes r y then [] else ps ! y))"
  using assms
proof (induction x prng md arbitrary: k ps rule: fortuna_drain.induct)
  case (1 x prng md)
  show ?case
  proof (cases "x < 32")
    case False
    then show ?thesis
      using 1(2-) by (subst fortuna_drain.simps) (auto simp: FORTUNA_POOLS_def intro!: exI [of _ "fo_pool prng"])
  next
    case less: True
    have cond: "(x = 0 \<or> drop_bit (x - 1) (fo_reset_cnt prng) AND 1 = 0) \<longleftrightarrow> g_takes r x"
      using 1(6,7) by (cases x) (auto simp: drop_bit_and_1 g_takes_Suc simp del: One_nat_def)
    show ?thesis
    proof (cases "g_takes r x")
      case False
      then have none: "\<not> g_takes r y" if "x \<le> y" for y
        using that g_takes_down by blast
      then have "filter (g_takes r) [x..<32] = []"
        by (simp add: filter_empty_conv)
      then show ?thesis
        using 1(2-) False cond none by (subst fortuna_drain.simps) (auto intro!: exI [of _ "fo_pool prng"])
    next
      case True
      have tmp: "sha512_done (fo_pool prng ! x) = Inr (sha512_digest (ps ! x))"
        using 1(2) less by (simp add: sha_done_absorbed)
      obtain md2 where md2: "sha512_process md (sha512_digest (ps ! x)) = Inr md2"
          "sha512_absorbed md2 (k @ sha512_digest (ps ! x))"
        using sha_process_absorbed(2) [OF 1(5)] by blast
      let ?prng = "prng\<lparr>fo_pool := (fo_pool prng)[x := sha512_init (md_buf (fo_pool prng ! x))]\<rparr>"
      have buf: "length (md_buf (fo_pool prng ! x)) = 128"
        using 1(2) less by (auto simp: sha512_absorbed_def md_absorbed_def)
      have step: "fortuna_drain x prng md = fortuna_drain (x + 1) ?prng md2"
        using True cond less by (subst fortuna_drain.simps) (simp add: FORTUNA_POOLS_def tmp md2(1))
      have "\<exists>pool md'. fortuna_drain (x + 1) ?prng md2 = Inr (?prng\<lparr>fo_pool := pool\<rparr>, md') \<and> length pool = 32 \<and>
         sha512_absorbed md' ((k @ sha512_digest (ps ! x)) @
           concat (map (\<lambda>y. sha512_digest (ps[x := []] ! y)) (filter (g_takes r) [x + 1..<32]))) \<and>
         (\<forall>y < 32. sha512_absorbed (pool ! y) (if x + 1 \<le> y \<and> g_takes r y then [] else ps[x := []] ! y))"
        using True cond less 1(2-) buf
        by (intro 1(1) [OF _ _ tmp md2(1)])
          (auto simp: FORTUNA_POOLS_def nth_list_update md2(2) sha_init_absorbed)
      then obtain pool md' where p: "fortuna_drain (x + 1) ?prng md2 = Inr (?prng\<lparr>fo_pool := pool\<rparr>, md')"
          "length pool = 32" "sha512_absorbed md' ((k @ sha512_digest (ps ! x)) @
           concat (map (\<lambda>y. sha512_digest (ps[x := []] ! y)) (filter (g_takes r) [x + 1..<32])))"
          "\<forall>y < 32. sha512_absorbed (pool ! y) (if x + 1 \<le> y \<and> g_takes r y then [] else ps[x := []] ! y)"
        by blast
      have others: "map (\<lambda>y. sha512_digest (ps[x := []] ! y)) (filter (g_takes r) [x + 1..<32]) =
          map (\<lambda>y. sha512_digest (ps ! y)) (filter (g_takes r) [x + 1..<32])"
        by auto
      have "filter (g_takes r) [x..<32] = x # filter (g_takes r) [x + 1..<32]"
        using less True by (simp add: upt_conv_Cons)
      then have "sha512_absorbed md' (k @ concat (map (\<lambda>y. sha512_digest (ps ! y)) (filter (g_takes r) [x..<32])))"
        using p(3) unfolding others by simp
      moreover have "sha512_absorbed (pool ! y) (if x \<le> y \<and> g_takes r y then [] else ps ! y)" if "y < 32" for y
        using p(4) [rule_format, OF that] True 1(4) that by (cases "y = x") (auto simp: nth_list_update split: if_splits)
      ultimately show ?thesis
        using step p(1,2) by (intro exI [of _ pool] exI [of _ md']) simp
    qed
  qed
qed

section \<open>The operations follow the abstract generator\<close>

lemma aes256_schedule: "rijndael_enc_setup K KEY_SIZE 0 = Inr (aes256_schedule K)"
proof -
  have "\<exists>s. rijndael_enc_setup K 32 0 = Inr s"
    using rijndael_setup_facts [where key = K and keylen = 32 and num_rounds = 0]
    by (cases "rijndael_enc_setup K 32 0") auto
  then show ?thesis
    by (auto simp: aes256_schedule_def KEY_SIZE_def)
qed

lemma start_represents:
  "\<exists>p. fortuna_start = Inr p \<and> represents p
     \<lparr>g_pools = replicate 32 [], g_key = replicate 64 0, g_counter = replicate 16 0, g_next = 0, g_len0 = 0,
      g_wd = 0, g_reseeds = 0\<rparr>"
  by (simp add: fortuna_start_def Let_def aes256_schedule represents_def FORTUNA_POOLS_def HASH_SIZE_def
    BLOCK_SIZE_def sha_init_absorbed)

lemma reseed_represents:
  assumes "represents p g"
  shows "\<exists>p'. fortuna_reseed p = Inr p' \<and> represents p' (g_reseed g)"
proof -
  note r = assms [unfolded represents_def]
  let ?p = "p\<lparr>fo_reset_cnt := fo_reset_cnt p + 1\<rparr>" and ?r = "(g_reseeds g + 1) mod 2 ^ 64"
  have cnt: "?r = unat (fo_reset_cnt p + 1)"
    using r by (simp add: unat_word_ariths)
  obtain md where md: "sha512_process (sha512_init (replicate 128 0)) (fo_K p) = Inr md" "sha512_absorbed md (g_key g)"
    using sha_process_absorbed(2) [of "sha512_init (replicate 128 0)" "[]" "fo_K p"] r
    by (auto simp: sha_init_absorbed)
  obtain pool md' where drain: "fortuna_drain 0 ?p md = Inr (?p\<lparr>fo_pool := pool\<rparr>, md')" "length pool = 32"
      "sha512_absorbed md' (g_key g @ concat (map (\<lambda>y. sha512_digest (g_pools g ! y)) (filter (g_takes ?r) [0..<32])))"
      "\<forall>y < 32. sha512_absorbed (pool ! y) (if 0 \<le> y \<and> g_takes ?r y then [] else g_pools g ! y)"
    using fortuna_drain_takes [of ?p "g_pools g" md "g_key g" ?r 0] r md(2) cnt by auto
  let ?K = "sha512_digest (g_key g @ concat (map (\<lambda>y. sha512_digest (g_pools g ! y)) (filter (g_takes ?r) [0..<32])))"
  let ?p' = "(fortuna_update_iv (?p\<lparr>fo_pool := pool, fo_K := ?K, fo_skey := aes256_schedule ?K\<rparr>))
      \<lparr>fo_pool0_len := 0, fo_wd := 0\<rparr>"
  have "sha512_process (sha512_init (replicate 128 0)) (fo_K ?p) = Inr md"
    using md(1) by simp
  then have "fortuna_reseed p = Inr ?p'"
    by (simp only: fortuna_reseed_def Let_def drain(1) sha_done_absorbed(2) [OF drain(3)] aes256_schedule
      sum.case prod.case)
  moreover have "represents ?p' (g_reseed g)"
    using r drain(2,4) cnt by (auto simp: represents_def g_reseed_def Let_def ctr_inc_le_16)
  ultimately show ?thesis
    by blast
qed

lemma add_chunk_represents:
  assumes "represents p g"
  shows "\<exists>p'. fortuna_add_chunk inp p = Inr p' \<and> represents p' (g_add inp g)"
proof -
  note r = assms [unfolded represents_def]
  let ?i = "fo_pool_idx p"
  have "sha512_absorbed (fo_pool p ! ?i) (g_pools g ! g_next g)"
    using r by simp
  then obtain md where md: "sha512_process (fo_pool p ! ?i) [0, of_nat (length inp)] = Inr md"
      "sha512_absorbed md (g_pools g ! g_next g @ [0, of_nat (length inp)])"
    using sha_process_absorbed(2) by blast
  obtain md' where md': "sha512_process md inp = Inr md'"
      "sha512_absorbed md' ((g_pools g ! g_next g @ [0, of_nat (length inp)]) @ inp)"
    using sha_process_absorbed(2) [OF md(2)] by blast
  let ?p' = "p\<lparr>fo_pool := (fo_pool p)[?i := md'],
      fo_pool0_len := (if ?i = 0 then fo_pool0_len p + of_nat (length inp) else fo_pool0_len p),
      fo_pool_idx := (if ?i + 1 = FORTUNA_POOLS then 0 else ?i + 1)\<rparr>"
  have "fortuna_add_chunk inp p = Inr ?p'"
    by (simp only: fortuna_add_chunk_def Let_def md(1) md'(1) sum.case)
  moreover have "represents ?p' (g_add inp g)"
    using r md'(2) by (auto simp: represents_def g_add_def FORTUNA_POOLS_def nth_list_update)
  ultimately show ?thesis
    by blast
qed

text \<open>Entropy is cut into chunks of at most 64 bytes.\<close>

function g_chunks :: "byte list \<Rightarrow> byte list list" where
  "g_chunks inp = (if length inp > 64 then take 64 inp # g_chunks (drop 64 inp) else [inp])"
  by pat_completeness auto
termination by (relation "measure length") auto

declare g_chunks.simps [simp del]

lemma add_entropy_represents:
  "represents p g \<Longrightarrow> \<exists>p'. fortuna_add_entropy inp p = Inr p' \<and> represents p' (fold g_add (g_chunks inp) g)"
proof (induction inp arbitrary: p g rule: g_chunks.induct)
  case (1 inp)
  show ?case
  proof (cases "length inp > 64")
    case True
    obtain p1 where "fortuna_add_chunk (take 64 inp) p = Inr p1" "represents p1 (g_add (take 64 inp) g)"
      using add_chunk_represents [OF 1(2)] by blast
    then show ?thesis
      using True 1(1) [OF True] by (simp add: fortuna_add_entropy.simps [of inp] g_chunks.simps [of inp] HASH_SIZE_def)
  next
    case False
    then show ?thesis
      using add_chunk_represents [OF 1(2), of inp]
      by (simp add: fortuna_add_entropy.simps [of inp] g_chunks.simps [of inp] HASH_SIZE_def)
  qed
qed

section \<open>Reading\<close>

lemma length_inc_bytes_pow [simp]: "length ((inc_bytes ^^ n) iv) = length iv"
  by (induction n) simp_all

lemma update_iv_pow:
  assumes "length (fo_IV p) = 16"
  shows "(fortuna_update_iv ^^ n) p = p\<lparr>fo_IV := (inc_bytes ^^ n) (fo_IV p)\<rparr>"
  using assms by (induction n) (simp_all add: fortuna_update_iv_def ctr_inc_le_16)

definition key_stream :: "rijndael_key \<Rightarrow> byte list \<Rightarrow> nat \<Rightarrow> byte list" where
  "key_stream k iv n = concat (map (\<lambda>i. rijndael_enc_ecb_encrypt ((inc_bytes ^^ i) iv) k) [0..<n])"

lemma length_key_stream [simp]: "length (key_stream k iv n) = 16 * n"
  by (simp add: key_stream_def length_concat_const [where k = 16])

lemma key_stream_add: "key_stream k iv (m + n) = key_stream k iv m @ key_stream k ((inc_bytes ^^ m) iv) n"
proof -
  have "(inc_bytes ^^ (m + k)) iv = (inc_bytes ^^ k) ((inc_bytes ^^ m) iv)" for k
    by (simp add: add.commute [of m] funpow_add)
  then show ?thesis
    by (simp add: key_stream_def map_upt_add del: upt_Suc)
qed

lemma fortuna_blocks_stream:
  assumes "length (fo_IV p) = 16"
  shows "fortuna_blocks n p =
     (take n (key_stream (fo_skey p) (fo_IV p) ((n + 15) div 16)), (fortuna_update_iv ^^ ((n + 15) div 16)) p)"
  using assms
proof (induction n p rule: fortuna_blocks.induct)
  case (1 n p)
  have one: "key_stream k iv (Suc b) = rijndael_enc_ecb_encrypt iv k @ key_stream k (inc_bytes iv) b" for k iv b
    using key_stream_add [of k iv 1 b] by (simp add: key_stream_def)
  consider (whole) "16 \<le> n" | (part) "0 < n" "n < 16" | (none) "n = 0"
    by linarith
  then show ?case
  proof cases
    case whole
    then have "(n + 15) div 16 = Suc ((n - 16 + 15) div 16)"
      using div_add_self2 [of 16 "n - 16 + 15"] by simp
    moreover have "fo_IV (fortuna_update_iv p) = inc_bytes (fo_IV p)"
      using 1(2) by (simp add: ctr_inc_le_16)
    ultimately show ?thesis
      using 1 whole by (subst fortuna_blocks.simps) (simp add: BLOCK_SIZE_def one Let_def funpow_swap1)
  next
    case part
    then have "(n + 15) div 16 = 1"
      using ceil_div_one [of n 16] by simp
    then show ?thesis
      using part by (subst fortuna_blocks.simps) (simp add: BLOCK_SIZE_def key_stream_def)
  next
    case none
    then show ?thesis
      by (subst fortuna_blocks.simps) (simp add: BLOCK_SIZE_def)
  qed
qed

lemma g_stream_key_stream: "g_stream g n = key_stream (aes256_schedule (g_key g)) (g_counter g) n"
  by (simp add: g_stream_def key_stream_def)

lemma rekey_stream:
  assumes "length (fo_IV p) = 16" "length (fo_K p) = 64"
  shows "fold fortuna_rekey [0, BLOCK_SIZE] p =
     ((fortuna_update_iv ^^ 2) p)\<lparr>fo_K := key_stream (fo_skey p) (fo_IV p) 2 @ drop 32 (fo_K p)\<rparr>"
  using assms
  by (simp add: fortuna_rekey_def fortuna_update_iv_def BLOCK_SIZE_def numeral_2_eq_2 key_stream_def
    ctr_inc_le_16 [unfolded BLOCK_SIZE_def])

lemma due_test:
  assumes "fo_wd p = of_nat (g_wd g)" "fo_pool0_len p = of_nat (g_len0 g)"
  shows "(fo_wd p = of_nat FORTUNA_WD \<or> fo_pool0_len p \<ge> 64) = g_due g"
proof -
  have w: "unat (of_nat n :: u32) = n mod 2 ^ 32" for n
    by (simp add: unat_of_nat)
  have "fo_wd p = of_nat FORTUNA_WD \<longleftrightarrow> g_wd g mod 2 ^ 32 = 10"
    unfolding assms(1) word_unat_eq_iff w by (simp add: FORTUNA_WD_def)
  moreover have "fo_pool0_len p \<ge> 64 \<longleftrightarrow> g_len0 g mod 2 ^ 32 \<ge> 64"
    unfolding assms(2) word_le_nat_alt w by simp
  ultimately show ?thesis
    by (simp add: g_due_def)
qed

lemma read_represents:
  assumes "represents p g"
  shows "\<exists>p'. fortuna_read n p = Inr (fst (g_read n g), p') \<and> represents p' (snd (g_read n g))"
proof -
  let ?p1 = "p\<lparr>fo_wd := fo_wd p + 1\<rparr>" and ?g1 = "g\<lparr>g_wd := g_wd g + 1\<rparr>"
  let ?reseed = "g_due ?g1"
  define g2 where "g2 = (if ?reseed then g_reseed ?g1 else ?g1)"
  have r1: "represents ?p1 ?g1"
    using assms by (simp add: represents_def)
  then have "(fo_wd ?p1 = of_nat FORTUNA_WD \<or> fo_pool0_len ?p1 \<ge> 64) = ?reseed"
    using due_test [of ?p1 ?g1] by (simp add: represents_def)
  moreover obtain p2 where "(if ?reseed then fortuna_reseed ?p1 else Inr ?p1) = Inr p2" and r2: "represents p2 g2"
    using reseed_represents [OF r1] r1 by (cases ?reseed) (auto simp: g2_def)
  ultimately have p2: "(if fo_wd ?p1 = of_nat FORTUNA_WD \<or> fo_pool0_len ?p1 \<ge> 64 then fortuna_reseed ?p1 else Inr ?p1) = Inr p2"
    by simp
  note r = r2 [unfolded represents_def]
  define b where "b = (n + 15) div 16"
  let ?ks = "key_stream (fo_skey p2) (fo_IV p2)" and ?p3 = "(fortuna_update_iv ^^ b) p2"
  have blocks: "fortuna_blocks n p2 = (take n (?ks b), ?p3)"
    using fortuna_blocks_stream [of p2 n] r by (simp add: b_def)
  have iv3: "?p3 = p2\<lparr>fo_IV := (inc_bytes ^^ b) (fo_IV p2)\<rparr>"
    using r by (simp add: update_iv_pow)
  have new: "drop (16 * b) (?ks (b + 2)) = key_stream (fo_skey p2) ((inc_bytes ^^ b) (fo_IV p2)) 2"
    unfolding key_stream_add by simp
  have two: "(inc_bytes ^^ (b + 2)) iv = (inc_bytes ^^ 2) ((inc_bytes ^^ b) iv)" for iv
    by (simp add: numeral_2_eq_2)
  have rekey: "fold fortuna_rekey [0, BLOCK_SIZE] ?p3 =
      p2\<lparr>fo_IV := (inc_bytes ^^ (b + 2)) (fo_IV p2), fo_K := drop (16 * b) (?ks (b + 2)) @ drop 32 (fo_K p2)\<rparr>"
    using rekey_stream [of ?p3] r unfolding new iv3 two by (simp add: update_iv_pow)
  let ?p4 = "p2\<lparr>fo_IV := (inc_bytes ^^ (b + 2)) (fo_IV p2), fo_K := drop (16 * b) (?ks (b + 2)) @ drop 32 (fo_K p2)\<rparr>"
  have "fortuna_read n p = Inr (take n (?ks b), ?p4\<lparr>fo_skey := aes256_schedule (fo_K ?p4)\<rparr>)"
    by (simp only: fortuna_read_def Let_def p2 sum.case blocks prod.case rekey aes256_schedule)
  moreover have read: "g_read n g = (take n (g_stream g2 b),
      g2\<lparr>g_key := drop (16 * b) (g_stream g2 (b + 2)) @ drop 32 (g_key g2), g_counter := (inc_bytes ^^ (b + 2)) (g_counter g2)\<rparr>)"
    unfolding g_read_def Let_def g2_def b_def by simp
  moreover have "represents (?p4\<lparr>fo_skey := aes256_schedule (fo_K ?p4)\<rparr>) (snd (g_read n g))"
    unfolding read using r by (simp add: represents_def g_stream_key_stream)
  ultimately show ?thesis
    using r by (simp add: g_stream_key_stream)
qed

section \<open>Reachable states\<close>

inductive fortuna_reachable :: "fortuna_prng \<Rightarrow> bool" where
  start: "fortuna_start = Inr p \<Longrightarrow> fortuna_reachable p"
| add: "fortuna_reachable p \<Longrightarrow> fortuna_add_entropy inp p = Inr p' \<Longrightarrow> fortuna_reachable p'"
| ready: "fortuna_reachable p \<Longrightarrow> fortuna_ready p = Inr p' \<Longrightarrow> fortuna_reachable p'"
| read: "fortuna_reachable p \<Longrightarrow> fortuna_read n p = Inr (out, p') \<Longrightarrow> fortuna_reachable p'"

lemma g_add_wd: "g_wd (fold g_add cs g) = g_wd g"
  by (induction cs arbitrary: g) (simp_all add: g_add_def)

lemma reachable_represents:
  "fortuna_reachable p \<Longrightarrow> \<exists>g. represents p g \<and> g_wd g < 10"
proof (induction rule: fortuna_reachable.induct)
  case (start p)
  then show ?case
    using start_represents by (metis Inr_inject generator.select_convs(6) zero_less_numeral)
next
  case (add p inp p')
  then show ?case
    using add_entropy_represents [of p _ inp] g_add_wd by fastforce
next
  case (ready p p')
  then obtain g where "represents p g"
    by blast
  then show ?case
    using reseed_represents [of p g] ready(2) by (intro exI [of _ "g_reseed g"]) (auto simp: fortuna_ready_def g_reseed_def Let_def)
next
  case (read p n out p')
  then obtain g where g: "represents p g" "g_wd g < 10"
    by blast
  moreover have "g_wd (snd (g_read n g)) < 10"
    using g(2) by (auto simp: g_read_def g_reseed_def g_due_def Let_def)
  ultimately show ?case
    using read_represents [OF g(1), of n] read(2) by auto
qed

section \<open>Properties\<close>

text \<open>
  C14: the operations implement the abstract generator: a reseed hashes the key with the digests of
  the pools whose power of two divides the number of the reseed and empties these pools; entropy
  goes to the pools in turn, in chunks of at most 64 bytes; a read returns the prefix of the key
  stream of AES over the counter, after a reseed when it is due, and takes the next 32 bytes of
  the stream as the new AES key.  A reseed is due at the tenth read since the last one, or when the number of bytes that the
  first pool has got since then is at least 64 modulo \<^verbatim>\<open>2 ^ 32\<close>: the code's counter wraps.
\<close>
theorem fortuna_refines:
  assumes "represents p g"
  shows "(\<exists>p'. fortuna_ready p = Inr p' \<and> represents p' (g_reseed g)) \<and>
     (\<exists>p'. fortuna_add_entropy inp p = Inr p' \<and> represents p' (fold g_add (g_chunks inp) g)) \<and>
     (\<exists>p'. fortuna_read n p = Inr (fst (g_read n g), p') \<and> represents p' (snd (g_read n g)))"
  using reseed_represents [OF assms] add_entropy_represents [OF assms] read_represents [OF assms]
  by (simp add: fortuna_ready_def)

theorem fortuna_refines_witness:
  "\<exists>p g. fortuna_start = Inr p \<and> represents p g \<and>
     (\<exists>p'. fortuna_ready p = Inr p' \<and> represents p' (g_reseed g)) \<and>
     (\<exists>p'. fortuna_add_entropy (replicate 100 7) p = Inr p' \<and> represents p' (fold g_add (g_chunks (replicate 100 7)) g)) \<and>
     (\<exists>p'. fortuna_read 20 p = Inr (fst (g_read 20 g), p') \<and> represents p' (snd (g_read 20 g)))"
  using start_represents fortuna_refines by blast

lemma fold_done_ok:
  assumes "\<forall>md \<in> set mds. \<exists>m. sha512_absorbed md m"
  shows "foldr (\<lambda>md err. case sha512_done md of Inl e \<Rightarrow> e | Inr tmp \<Rightarrow> err) mds CRYPT_OK = CRYPT_OK"
  using assms by (induction mds) (auto simp: sha_done_absorbed)

text \<open>
  C15: on every state that runs of the operations reach from \<^verbatim>\<open>fortuna_start\<close>, no operation fails, a
  read delivers as many bytes as were asked for, and the indices and sizes stay within the arrays.
\<close>
theorem fortuna_reachable_safe:
  assumes "fortuna_reachable p"
  shows "(\<exists>p'. fortuna_add_entropy inp p = Inr p') \<and> (\<exists>p'. fortuna_ready p = Inr p') \<and>
     (\<exists>out p'. fortuna_read n p = Inr (out, p') \<and> length out = n) \<and> fortuna_done p = CRYPT_OK \<and>
     length (fo_pool p) = FORTUNA_POOLS \<and> fo_pool_idx p < FORTUNA_POOLS \<and> unat (fo_wd p) < FORTUNA_WD \<and>
     length (fo_K p) = HASH_SIZE \<and> length (fo_IV p) = BLOCK_SIZE"
proof -
  obtain g where g: "represents p g" "g_wd g < 10"
    using reachable_represents [OF assms] by blast
  have "length (fst (g_read n g)) = n"
    using ceil_div_mult [of 16 n] by (simp add: g_read_def Let_def g_stream_key_stream)
  moreover have "\<exists>m. sha512_absorbed md m" if md: "md \<in> set (fo_pool p)" for md
  proof -
    obtain i where "md = fo_pool p ! i" "i < 32"
      using md g(1) unfolding in_set_conv_nth represents_def by auto
    then show ?thesis
      using g(1) unfolding represents_def by blast
  qed
  then have "fortuna_done p = CRYPT_OK"
    using g(1) by (simp add: fortuna_done_def fold_done_ok FORTUNA_POOLS_def represents_def)
  moreover have "unat (fo_wd p) < FORTUNA_WD"
    using g by (simp add: represents_def FORTUNA_WD_def unat_of_nat)
  ultimately show ?thesis
    using g reseed_represents [OF g(1)] add_entropy_represents [OF g(1), of inp] read_represents [OF g(1), of n]
    by (auto simp: fortuna_ready_def represents_def FORTUNA_POOLS_def HASH_SIZE_def BLOCK_SIZE_def)
qed

theorem fortuna_reachable_safe_witness:
  "\<exists>p. fortuna_start = Inr p \<and> (\<exists>p'. fortuna_add_entropy [1, 2] p = Inr p') \<and> (\<exists>p'. fortuna_ready p = Inr p') \<and>
     (\<exists>out p'. fortuna_read 5 p = Inr (out, p') \<and> length out = 5) \<and> fortuna_done p = CRYPT_OK \<and>
     length (fo_pool p) = FORTUNA_POOLS \<and> fo_pool_idx p < FORTUNA_POOLS \<and> unat (fo_wd p) < FORTUNA_WD \<and>
     length (fo_K p) = HASH_SIZE \<and> length (fo_IV p) = BLOCK_SIZE"
  using start_represents fortuna_reachable_safe [OF fortuna_reachable.start] by blast

end
