(* ===== verification/Spec2Isabelle.thy ===== *)
theory Spec2Isabelle
  imports Grz_Stream Lzp_Stream MT_Failure Hmac Fortuna
begin

text \<open>
  A verification development for DArc86, an archiver in the FreeArc family.  All paths are below
  \<^verbatim>\<open>src/\<close>.

  \<^bold>\<open>The program.\<close>  The archiver's front end (Haskell) drives a library of compression methods,
  \<^verbatim>\<open>Compression/\<close>.  A method is an object built from a string such as \<^verbatim>\<open>grzip:8m:m1\<close> or
  \<^verbatim>\<open>aes-256/ctr:n1000:k...\<close>; it compresses or decompresses a stream which it reads and writes through
  a callback, and methods are chained.  The development is about the two families of the library
  that are written for the program in C and hold most of its own logic: the encryption of archives
  (\<^verbatim>\<open>_Encryption/\<close>: block ciphers, modes, hashes, HMAC, key derivation and random numbers, with
  \<^verbatim>\<open>C_Encryption.cpp\<close> above them) and the block-sorting compressor GRZip (\<^verbatim>\<open>GRZip/\<close>, a preprocessor, a
  record filter, three sorts, two entropy coders, a block format and a stream format), with the
  preprocessor \<^verbatim>\<open>LZP/\<close>, the worker threads (\<^verbatim>\<open>MultiThreading.h\<close>), the callbacks (\<^verbatim>\<open>CompressionLibrary.cpp\<close>) and the method
  strings (\<^verbatim>\<open>Common.cpp\<close>) both rest on.

  \<^bold>\<open>The theories, from the bottom.\<close>

  \<^item> \<^theory_text>\<open>Prelude\<close> the machine integers as words, the load, store and rotate macros of
    \<^verbatim>\<open>tomcrypt_macros.h\<close>, lemmas on lists and the collections \<open>load_store\<close>, \<open>inverses\<close>, \<open>lengths\<close>.
  \<^item> \<^theory_text>\<open>Tomcrypt\<close> error codes and the shape of a descriptor; \<^theory_text>\<open>Serpent\<close>, \<^theory_text>\<open>Blowfish\<close>, \<^theory_text>\<open>Twofish\<close>,
    \<^theory_text>\<open>AES\<close> the ciphers under \<^verbatim>\<open>ciphers/\<close>: key setup, both directions, key sizes.  Shown: decryption
    undoes encryption for Serpent, Blowfish and Twofish; the table-driven Twofish agrees with the one
    that computes its tables; Serpent's macros are the rounds of the cipher; the tables of
    \<^verbatim>\<open>aes_tab.c\<close> compute the rounds of Rijndael, and AES encryption is that of the specification.
  \<^item> \<^theory_text>\<open>Registry\<close> the descriptor tables of \<^verbatim>\<open>crypt/\<close>; \<^theory_text>\<open>Modes\<close> counter mode and cipher feedback over any
    cipher, a locale; \<^theory_text>\<open>Ciphers\<close> the union \<^verbatim>\<open>symmetric_key\<close> and the interpretation of that locale by
    the registered ciphers, hence round trips and independence of how a stream is cut.
  \<^item> \<^theory_text>\<open>Hash_Process\<close> the macro \<^verbatim>\<open>HASH_PROCESS\<close> and padding; \<^theory_text>\<open>SHA\<close> SHA-1 and SHA-512 in their unrolled
    and their small form; \<^theory_text>\<open>Hashes\<close> the hash descriptors, hashing in pieces; \<^theory_text>\<open>Hmac\<close> HMAC and the key
    derivation \<^verbatim>\<open>pkcs_5_alg2\<close>; \<^theory_text>\<open>Fortuna\<close> the random number generator, refined to an abstract
    generator of pools and a counter, and safe in every reachable state.
  \<^item> \<^theory_text>\<open>Callbacks\<close> the callback over memory, the locale \<open>byte_stream\<close> of what a callback promises and the
    method \<^verbatim>\<open>storing\<close>; \<^theory_text>\<open>Encryption\<close> \<^verbatim>\<open>EncryptionMode\<close> and the loop \<^verbatim>\<open>docrypt\<close> of
    \<^verbatim>\<open>C_Encryption.cpp\<close> over callbacks: what is encrypted over any cut of the stream is decrypted.
  \<^item> \<^theory_text>\<open>Method_Strings\<close> splitting, numbers and hexadecimal digits of \<^verbatim>\<open>Common.cpp\<close>;
    \<^theory_text>\<open>Encryption_Method\<close> the class \<^verbatim>\<open>ENCRYPTION_METHOD\<close>; \<^theory_text>\<open>Grzip_Method\<close> the class \<^verbatim>\<open>GRZIP_METHOD\<close>: a
    printed method is parsed to the method it was printed from, for GRZip exactly when nothing that differs from the
    defaults is left out.
  \<^item> \<^theory_text>\<open>Grz_Codes\<close> the constants of \<^verbatim>\<open>libGRZip.h\<close>; \<^theory_text>\<open>Grz_LZP\<close> the preprocessor \<^verbatim>\<open>LZP.c\<close>; \<^theory_text>\<open>Grz_RecFlt\<close>
    the record filter \<^verbatim>\<open>Rec_Flt.c\<close>; \<^theory_text>\<open>Grz_Counting\<close> counting sorts and \<^theory_text>\<open>Grz_ST4\<close>,
    \<^theory_text>\<open>Grz_ST4_Decode\<close> the sort transform \<^verbatim>\<open>ST4.c\<close>; \<^theory_text>\<open>Grz_Rotations\<close> the Burrows-Wheeler transform as
    a specification and \<^theory_text>\<open>Grz_BWT\<close> its decoders in \<^verbatim>\<open>BWT.c\<close>.
  \<^item> \<^theory_text>\<open>Grz_Range\<close> the range coder with its adaptive bits, \<^theory_text>\<open>Grz_Entropy\<close> the model of ranks and runs
    that \<^verbatim>\<open>MTF_Ari.c\<close> and \<^verbatim>\<open>WFC_Ari.c\<close> share, proved once over any ranking; \<^theory_text>\<open>Grz_MTF_Ari\<close> and
    \<^theory_text>\<open>Grz_WFC_Ari\<close> instantiate it with move-to-front and with weighted frequency counts.
  \<^item> \<^theory_text>\<open>Grz_Block\<close> \<^verbatim>\<open>GRZip_CompressBlock\<close>, \<^verbatim>\<open>GRZip_DecompressBlock\<close> and the check of a header, composed
    of all these; a block compressed in a mode with the sort transform is decompressed to the
    block it was made of.
  \<^item> \<^theory_text>\<open>Sync_Queue\<close> the circular array of \<^verbatim>\<open>SyncQueue\<close> as a first-in-first-out queue, behind the locale
    \<open>bounded_queue\<close>; \<^theory_text>\<open>Multi_Threading\<close> \<^verbatim>\<open>MTCompressor\<close> as a step relation over the main thread,
    the writer and the workers, with the invariants of its reachable states; \<^theory_text>\<open>MT_Progress\<close> blocks
    are written in order, nothing is lost, queues never overflow, no run is longer than a bound, no
    deadlock unless something fails; \<^theory_text>\<open>MT_Failure\<close> the deadlock after a failed write.
  \<^item> \<^theory_text>\<open>Grz_Stream\<close> the streams of \<^verbatim>\<open>C_GRZip.cpp\<close>: adaptive block sizes, the cycles of the compressor
    and of the decompressor as instances of the worker threads, and the round trip of a whole stream
    with the methods 3 and 4 under every interleaving of the threads.

  \<^item> \<^theory_text>\<open>Lzp_Coder\<close> the block coder of the method \<^verbatim>\<open>lzp\<close>, \<^verbatim>\<open>LZPEncode\<close> and \<^verbatim>\<open>LZPDecode\<close> of \<^verbatim>\<open>C_LZP.cpp\<close>, which keep the
    same table on both sides; \<^theory_text>\<open>Lzp_Stream\<close> its streams over any callback with full reads, a locale
    that extends \<open>byte_stream\<close>: what is compressed is restored, inside the buffers.

  \<^bold>\<open>How the code is represented.\<close>  A struct is a record with the names of its fields, an enum a
  datatype, an integer whose overflow matters a word of its width and otherwise \<open>nat\<close> or \<open>int\<close>; each
  such choice is stated where it is made.  A pointer into a buffer is an offset or the list behind
  it.  A function that fails returns an error code as the code does, as a sum or beside its result.
  A loop is a structural recursion, a \<^verbatim>\<open>function\<close> with its measure, or, where the code may run
  for ever (a callback that never ends, a decoder on damaged data), a partial function whose value
  is \<open>None\<close> then; the properties about those state that they return.  The recursion of the block
  functions has no fuel: it ends because the parts of a block are smaller.  The entropy decoders
  stop because each step produces a byte of a block of known size.  A run of the threads has at most
  16 steps a block, 8 a thread and 17 more; nothing else is bounded.

  \<^bold>\<open>What is assumed.\<close>  Memory and threads can be allocated, and pointers that \<^verbatim>\<open>LTC_ARGCHK\<close> tests are
  not null.  The state that a failed operation of the cipher library leaves behind is dropped.
  The four decisions made in floating point (record filter, adaptive block size, the two tests of
  the fast sort) and the contents of fresh memory are arguments of the definitions, over which the
  properties quantify.  So are the two functions that sort for the Burrows-Wheeler encoder; the properties of
  blocks and streams are about the modes with the sort transform \<^verbatim>\<open>ST4\<close>, where these functions are not called.  The WFC decoder
  asks for a buffer that can be up to seven bytes too short; the properties of blocks and streams say that the memory it gets
  comes in units of eight bytes, as the pages of \<^verbatim>\<open>VirtualAlloc\<close> do.  Pointers have four bytes and \<^verbatim>\<open>unsigned long\<close> 32 bits,
  where this matters.  The unlocked test and assignment of
  \<^verbatim>\<open>SetErrCode\<close> is one step.  A read of the compressor does not fail other than by giving nothing.
  In the worker threads the functions of a job (\<^verbatim>\<open>init\<close>, \<^verbatim>\<open>process\<close>, the callbacks) are arguments.

  \<^bold>\<open>What is not modelled.\<close>  The sorting inside \<^verbatim>\<open>GRZip_StrongBWT_Encode\<close> and
  \<^verbatim>\<open>GRZip_FastBWT_Encode\<close>; the decryption half of \<^verbatim>\<open>aes.c\<close>, which this build does not compile; error
  texts, self tests and memory clearing of the cipher library; temporary files, memory limits
  and benchmarks of \<^verbatim>\<open>CompressionLibrary.cpp\<close>; the parsing, printing and sizes of \<^verbatim>\<open>LZP_METHOD\<close>.  Of the other methods: the
  filters in C++ (\<^verbatim>\<open>Delta\<close>, \<^verbatim>\<open>REP\<close>, \<^verbatim>\<open>Dict\<close>, \<^verbatim>\<open>MM\<close>, \<^verbatim>\<open>DisPack\<close>, \<^verbatim>\<open>4x4\<close>), the compressor \<^verbatim>\<open>Tornado\<close>, and the
  vendored codecs (LZMA, PPMD, Zstd, LZ4, BSC), which the program only calls.  The front end, the
  unpackers and the graphical shells are input and output or not in C; \<^verbatim>\<open>srep\<close> is a program of its
  own.
\<close>

end
